(* ===== verification/Rome_Prelude.thy ===== *)
theory Rome_Prelude
  imports Complex_Main "HOL-Library.Word"
begin

text \<open>
  Shared vocabulary of the development: the status values of the code (\<open>absl::Status\<close>,
  \<open>absl::StatusOr\<close>), pointers, the outcome of code that may fault (a failed assertion, an
  \<open>abort\<close>, a null or dangling pointer), the outcome of code that may also loop for ever,
  and the generic lemmas on them that the component theories use.
\<close>

unbundle bit_operations_syntax

named_theorems rome_simps \<open>equations that evaluate the component operations\<close>

section \<open>Status values\<close>

text \<open>
  The status codes of \<open>absl::Status\<close> that the code constructs. A \<open>StatusOr\<close> is a sum:
  \<open>Inl\<close> a non-ok status, \<open>Inr\<close> the value.
\<close>

datatype status_code =
    kCancelled | kUnknown | kInvalidArgument | kNotFound | kAlreadyExists
  | kFailedPrecondition | kAborted | kOutOfRange | kInternal | kUnavailable
  | kResourceExhausted | kDeadlineExceeded

datatype status = OkStatus | ErrorStatus status_code string

type_synonym 'a status_or = "status + 'a"

definition status_ok :: "status \<Rightarrow> bool" where
  "status_ok s \<longleftrightarrow> s = OkStatus"

lemma status_ok_simps [simp]:
  "status_ok OkStatus" "\<not> status_ok (ErrorStatus c m)"
  by (simp_all add: status_ok_def)

section \<open>Pointers, faults and runs\<close>

datatype ptr = Nullptr | Ptr nat

datatype fault =
    Null_Deref      \<comment> \<open>a member access through \<open>nullptr\<close>\<close>
  | Dangling        \<comment> \<open>an access through a pointer to memory that is not allocated\<close>
  | Assert_Fail     \<comment> \<open>a failed \<open>assert\<close> or \<open>ROME_ASSERT\<close>, or an explicit exit\<close>
  | Undefined       \<comment> \<open>behaviour that C++ leaves undefined, such as an index out of range\<close>

text \<open>
  \<open>outcome\<close>: the result of code that always returns but may fault.
  \<open>run\<close>: the result of code with loops whose termination depends on the data;
  \<open>None\<close> stands for a loop that does not end.
\<close>

datatype 'a outcome = Fault fault | Ret 'a

type_synonym 'a run = "'a outcome option"

fun bindO :: "'a outcome \<Rightarrow> ('a \<Rightarrow> 'b outcome) \<Rightarrow> 'b outcome" where
  "bindO (Fault e) f = Fault e"
| "bindO (Ret x) f = f x"

fun bindR :: "'a run \<Rightarrow> ('a \<Rightarrow> 'b run) \<Rightarrow> 'b run" where
  "bindR None f = None"
| "bindR (Some (Fault e)) f = Some (Fault e)"
| "bindR (Some (Ret x)) f = f x"

lemma bindR_bind:
  "bindR m f = Option.bind m (\<lambda>x. case x of Fault e \<Rightarrow> Some (Fault e) | Ret y \<Rightarrow> f y)"
  by (cases "(m, f)" rule: bindR.cases) simp_all

lemma bindR_mono [partial_function_mono]:
  assumes "mono_option B" "\<And>y. mono_option (\<lambda>f. C y f)"
  shows "mono_option (\<lambda>f. bindR (B f) (\<lambda>y. C y f))"
  unfolding bindR_bind
proof (rule bind_mono)
  fix x
  show "mono_option (\<lambda>f. case x of Fault e \<Rightarrow> Some (Fault e) | Ret y \<Rightarrow> C y f)"
    by (cases x) (auto intro: assms(2) partial_function_mono)
qed (rule assms(1))

definition assertO :: "bool \<Rightarrow> 'a outcome \<Rightarrow> 'a outcome" where
  "assertO b k = (if b then k else Fault Assert_Fail)"

lemma assertO_simps [simp]:
  "assertO True k = k" "assertO False k = Fault Assert_Fail"
  by (simp_all add: assertO_def)

lemma bindO_eq_Ret: "bindO m f = Ret y \<longleftrightarrow> (\<exists>x. m = Ret x \<and> f x = Ret y)"
  by (cases m) auto

lemma bindR_eq_Ret: "bindR m f = Some (Ret y) \<longleftrightarrow> (\<exists>x. m = Some (Ret x) \<and> f x = Some (Ret y))"
  by (cases "(m, f)" rule: bindR.cases) auto

lemma assertO_eq_Ret: "assertO b k = Ret y \<longleftrightarrow> b \<and> k = Ret y"
  by (simp add: assertO_def)

text \<open>\<open>VALUE_OR_DIE\<close>: the value of a \<open>StatusOr\<close>, or the end of the program.\<close>

definition VALUE_OR_DIE :: "'a status_or \<Rightarrow> 'a outcome" where
  "VALUE_OR_DIE s = (case s of Inl e \<Rightarrow> Fault Assert_Fail | Inr v \<Rightarrow> Ret v)"

lemma VALUE_OR_DIE_eq_Ret: "VALUE_OR_DIE s = Ret v \<longleftrightarrow> s = Inr v"
  by (cases s) (simp_all add: VALUE_OR_DIE_def)

lemma VALUE_OR_DIE_Inr [simp]: "VALUE_OR_DIE (Inr v) = Ret v"
  by (simp add: VALUE_OR_DIE_def)

lemmas outcome_inv = VALUE_OR_DIE_eq_Ret bindO_eq_Ret bindR_eq_Ret assertO_eq_Ret

text \<open>\<open>std::to_string\<close> on an unsigned integer.\<close>

fun decimal :: "nat \<Rightarrow> string" where
  "decimal n = (if n < 10 then [char_of (48 + n)] else decimal (n div 10) @ [char_of (48 + n mod 10)])"

declare decimal.simps [simp del]

text \<open>Reading an \<open>int\<close> from a stream: blanks, a sign, digits; a number out of range is a failure.\<close>

definition is_blank :: "char \<Rightarrow> bool" where
  "is_blank c \<longleftrightarrow> c \<in> {CHR '' '', CHR 0x09, CHR 0x0A, CHR 0x0B, CHR 0x0C, CHR 0x0D}"

definition is_digit :: "char \<Rightarrow> bool" where
  "is_digit c \<longleftrightarrow> c \<in> set ''0123456789''"

fun digits_value :: "nat \<Rightarrow> string \<Rightarrow> nat" where
  "digits_value n [] = n"
| "digits_value n (c # cs) = digits_value (10 * n + (of_char c - 48)) cs"

definition read_sign :: "string \<Rightarrow> int \<times> string" where
  "read_sign s = (case s of [] \<Rightarrow> (1, []) | c # cs \<Rightarrow> if c = CHR ''-'' then (-1, cs) else if c = CHR ''+'' then (1, cs) else (1, s))"

definition read_int :: "string \<Rightarrow> int option" where
  "read_int str =
     (case read_sign (dropWhile is_blank str) of (sign, s) \<Rightarrow>
        let ds = takeWhile is_digit s; v = sign * int (digits_value 0 ds)
        in if ds = [] \<or> v < - (2 ^ 31) \<or> v \<ge> 2 ^ 31 then None else Some v)"

lemma decimal_digits: "c \<in> set (decimal n) \<Longrightarrow> is_digit c"
proof (induction n rule: decimal.induct)
  case (1 n)
  have "is_digit (char_of (48 + d))" if "d < 10" for d :: nat
  proof -
    have "\<forall>d \<in> set [0..<10]. is_digit (char_of (48 + d))" by code_simp
    then show ?thesis using that by simp
  qed
  then show ?case using 1 by (subst (asm) (2) decimal.simps) (auto split: if_splits)
qed

lemma digits_value_append: "digits_value n (xs @ ys) = digits_value (digits_value n xs) ys"
  by (induction n xs rule: digits_value.induct) simp_all

lemma digits_value_decimal: "digits_value 0 (decimal n) = n"
proof (induction n rule: decimal.induct)
  case (1 n)
  have d: "of_char (char_of (48 + d) :: char) = 48 + d" if "d < 10" for d :: nat using that by simp
  show ?case using 1 d [of n] d [of "n mod 10"] by (subst decimal.simps) (simp add: digits_value_append del: of_char_of)
qed

lemma decimal_not_Nil: "decimal n \<noteq> []"
  by (subst decimal.simps) simp

lemma read_int_decimal:
  assumes "n < 2 ^ 31" "r = [] \<or> \<not> is_digit (hd r)"
  shows "read_int (decimal n @ r) = Some (int n)"
proof -
  obtain c cs where c: "decimal n = c # cs" using decimal_not_Nil [of n] by (cases "decimal n") auto
  then have "is_digit c" using decimal_digits [of c n] by simp
  then have "\<not> is_blank c" "c \<noteq> CHR ''-''" "c \<noteq> CHR ''+''" by (auto simp: is_digit_def is_blank_def)
  then have "read_sign (dropWhile is_blank (decimal n @ r)) = (1, decimal n @ r)" by (simp add: c read_sign_def)
  moreover have "takeWhile is_digit (decimal n @ r) = decimal n"
    using assms(2) decimal_digits by (subst takeWhile_append2) (auto simp: takeWhile_eq_Nil_iff)
  ultimately show ?thesis using assms(1) decimal_not_Nil [of n] by (simp add: read_int_def digits_value_decimal)
qed

section \<open>Machine words\<close>

type_synonym u8 = "8 word"
type_synonym u16 = "16 word"
type_synonym u32 = "32 word"
type_synonym u64 = "64 word"

lemma word_bit_eqI: "(\<And>n. n < LENGTH('a) \<Longrightarrow> bit x n = bit y n) \<Longrightarrow> x = y"
  for x y :: "'a::len word"
  by (rule bit_word_eqI) blast

lemma bit_word_lt_len: "bit w n \<Longrightarrow> n < LENGTH('a)" for w :: "'a::len word"
  by (rule bit_imp_le_length)

lemma take_bit_word_diff: "take_bit n (a - b) = take_bit n (take_bit n a - take_bit n b)"
  for a b :: "'a::len word"
  by transfer (simp add: take_bit_take_bit min_def, metis take_bit_diff take_bit_take_bit min_def)

end
