(* ===== verification/Float64.thy ===== *)
theory Float64
  imports Rome_Prelude "HOL-Library.Log_Nat"
begin

text \<open>
  IEEE 754 binary64 arithmetic as the code's \<open>double\<close>s use it: a double is the rational number it
  stands for, and every operation is the exact operation followed by \<open>fl\<close>, the rounding to the
  nearest number with 53 significant bits, ties to even. Infinities, NaN and the limits of the
  exponent range are left out: the code's statistics stay far from them.
\<close>

type_synonym double = rat

definition ilog2 :: "rat \<Rightarrow> int" where
  "ilog2 x = (let (p, q) = quotient_of x; k = int (floorlog 2 (nat p)) - int (floorlog 2 (nat q))
     in if 2 powi k \<le> x then k else k - 1)"

definition round_half_even :: "rat \<Rightarrow> int" where
  "round_half_even y = (let f = \<lfloor>y\<rfloor>; d = y - of_int f
     in if d < 1 / 2 then f else if d > 1 / 2 then f + 1 else if even f then f else f + 1)"

definition fl :: "rat \<Rightarrow> double" where
  "fl x = (if x = 0 then 0 else
     let u = 2 powi (ilog2 \<bar>x\<bar> - 52) in of_int (round_half_even (x / u)) * u)"

definition dadd :: "double \<Rightarrow> double \<Rightarrow> double" where "dadd x y = fl (x + y)"
definition dsub :: "double \<Rightarrow> double \<Rightarrow> double" where "dsub x y = fl (x - y)"
definition dmul :: "double \<Rightarrow> double \<Rightarrow> double" where "dmul x y = fl (x * y)"
definition ddiv :: "double \<Rightarrow> double \<Rightarrow> double" where "ddiv x y = fl (x / y)"

text \<open>The conversions: \<open>double(n)\<close> of an integer, and the truncation to an integer.\<close>

definition double_of_int :: "int \<Rightarrow> double" where
  "double_of_int n = fl (of_int n)"

definition trunc :: "double \<Rightarrow> int" where
  "trunc x = (if x < 0 then \<lceil>x\<rceil> else \<lfloor>x\<rfloor>)"

section \<open>The exponent\<close>

lemma bits_bounds:
  assumes "0 < p"
  shows "2 powi (int (floorlog 2 (nat p)) - 1) \<le> rat_of_int p" "rat_of_int p < 2 powi int (floorlog 2 (nat p))"
proof -
  define a where "a = floorlog 2 (nat p)"
  have n: "0 < nat p" using assms by simp
  have fa: "2 ^ (a - 1) \<le> nat p" "nat p < 2 ^ a"
    unfolding a_def using floorlog_bounds [OF n, of 2] by auto
  have a0: "int a - 1 = int (a - 1)" using n by (simp add: a_def floorlog_def)
  have pn: "rat_of_int p = of_nat (nat p)" using assms by simp
  have "rat_of_nat (2 ^ (a - 1)) \<le> of_nat (nat p)" using fa(1) by (simp only: of_nat_le_iff)
  then show "2 powi (int (floorlog 2 (nat p)) - 1) \<le> rat_of_int p"
    unfolding pn a_def [symmetric] a0 by simp
  have "rat_of_nat (nat p) < of_nat (2 ^ a)" using fa(2) by (simp only: of_nat_less_iff)
  then show "rat_of_int p < 2 powi int (floorlog 2 (nat p))"
    unfolding pn a_def [symmetric] by simp
qed

lemma ilog2_bounds:
  assumes "x > 0"
  shows "2 powi ilog2 x \<le> x" "x < 2 powi (ilog2 x + 1)"
proof -
  obtain p q where pq: "quotient_of x = (p, q)" by force
  have q: "q > 0" using pq by (rule quotient_of_denom_pos)
  have x: "x = of_int p / of_int q" using pq by (rule quotient_of_div)
  have p: "p > 0" using assms q unfolding x by (simp add: zero_less_divide_iff)
  define i j where "i = int (floorlog 2 (nat p))" and "j = int (floorlog 2 (nat q))"
  note p2 = bits_bounds [OF p, folded i_def] and q2 = bits_bounds [OF q, folded j_def]
  define k where "k = i - j"
  have "x < 2 powi i / 2 powi (j - 1)"
    unfolding x using p p2(2) q2(1) by (intro frac_less) auto
  also have "2 powi i / 2 powi (j - 1) = (2 powi (i - (j - 1)) :: rat)" by (rule power_int_diff [symmetric]) simp
  finally have hi: "x < 2 powi (k + 1)" by (simp add: k_def algebra_simps)
  have "(2 powi (i - 1) / 2 powi j :: rat) \<le> x"
    unfolding x using p p2(1) q2(2) q by (intro frac_le) auto
  moreover have "(2 powi (i - 1) / 2 powi j :: rat) = 2 powi (i - 1 - j)" by (rule power_int_diff [symmetric]) simp
  ultimately have lo: "2 powi (k - 1) \<le> x" by (simp add: k_def algebra_simps)
  have "ilog2 x = (if 2 powi k \<le> x then k else k - 1)"
    by (simp add: ilog2_def pq k_def i_def j_def)
  then show "2 powi ilog2 x \<le> x" "x < 2 powi (ilog2 x + 1)" using hi lo by auto
qed

lemma powi_2_less_iff: "(2 powi i :: rat) < 2 powi j \<longleftrightarrow> i < j"
  using power_int_strict_increasing [of i j "2::rat"] power_int_increasing [of j i "2::rat"]
  by (cases "i < j") auto

lemma ilog2_unique: "2 powi k \<le> x \<Longrightarrow> x < 2 powi (k + 1) \<Longrightarrow> ilog2 x = k"
proof -
  assume k: "2 powi k \<le> x" "x < 2 powi (k + 1)"
  moreover have "(0::rat) < 2 powi k" by simp
  ultimately have "x > 0" by linarith
  note b = ilog2_bounds [OF this]
  have "(2::rat) powi k < 2 powi (ilog2 x + 1)" "(2::rat) powi ilog2 x < 2 powi (k + 1)"
    using k b by linarith+
  then show ?thesis by (simp add: powi_2_less_iff)
qed

lemma ilog2_mono: "0 < x \<Longrightarrow> x \<le> y \<Longrightarrow> ilog2 x \<le> ilog2 y"
proof -
  assume xy: "0 < x" "x \<le> y"
  have "(2::rat) powi ilog2 x < 2 powi (ilog2 y + 1)"
    using ilog2_bounds(1) [OF xy(1)] ilog2_bounds(2) [of y] xy by linarith
  then show ?thesis by (simp add: powi_2_less_iff)
qed

section \<open>Rounding\<close>

lemma round_half_even_bounds: "\<lfloor>y\<rfloor> \<le> round_half_even y" "round_half_even y \<le> \<lceil>y\<rceil>"
  by (auto simp: round_half_even_def Let_def ceiling_altdef)

lemma round_half_even_int [simp]: "round_half_even (of_int n) = n"
  by (simp add: round_half_even_def)

lemma round_half_even_mono:
  assumes "x \<le> y" shows "round_half_even x \<le> round_half_even y"
proof (cases "\<lfloor>x\<rfloor> = \<lfloor>y\<rfloor>")
  case True
  then show ?thesis using assms by (auto simp: round_half_even_def Let_def)
next
  case False
  then have "\<lfloor>x\<rfloor> + 1 \<le> \<lfloor>y\<rfloor>" using floor_mono [OF assms] by simp
  then show ?thesis using round_half_even_bounds(2) [of x] round_half_even_bounds(1) [of y]
    by (auto simp: ceiling_altdef split: if_splits)
qed

lemma round_half_even_minus: "round_half_even (- y) = - round_half_even y"
proof (cases "y = of_int \<lfloor>y\<rfloor>")
  case True
  then show ?thesis by (metis of_int_minus round_half_even_int)
next
  case False
  then have "\<lfloor>- y\<rfloor> = - \<lfloor>y\<rfloor> - 1" by (simp add: floor_minus ceiling_altdef)
  then show ?thesis unfolding round_half_even_def Let_def by (elim ssubst) auto
qed

lemma fl_0 [simp]: "fl 0 = 0"
  by (simp add: fl_def)

lemma fl_minus: "fl (- x) = - fl x"
  by (simp add: fl_def Let_def round_half_even_minus)

lemma fl_pos_eq: "x > 0 \<Longrightarrow> fl x = of_int (round_half_even (x / 2 powi (ilog2 x - 52))) * 2 powi (ilog2 x - 52)"
  by (simp add: fl_def Let_def)

text \<open>A positive number is rounded within its binade.\<close>

lemma fl_binade:
  assumes "x > 0" shows "2 powi ilog2 x \<le> fl x" "fl x \<le> 2 powi (ilog2 x + 1)"
proof -
  define u :: rat where "u = 2 powi (ilog2 x - 52)"
  have u: "u > 0" by (simp add: u_def)
  have e: "2 powi ilog2 x = of_int (2 ^ 52) * u" "2 powi (ilog2 x + 1) = of_int (2 ^ 53) * u"
    by (simp_all add: u_def power_int_diff power_int_add)
  have "of_int (2 ^ 52) \<le> x / u" "x / u \<le> of_int (2 ^ 53)"
    using ilog2_bounds [OF assms] u unfolding e by (simp_all add: field_simps)
  from this [THEN round_half_even_mono]
  have "2 ^ 52 \<le> round_half_even (x / u)" "round_half_even (x / u) \<le> 2 ^ 53"
    unfolding round_half_even_int .
  then have "rat_of_int (2 ^ 52) \<le> of_int (round_half_even (x / u))"
    "rat_of_int (round_half_even (x / u)) \<le> of_int (2 ^ 53)"
    by (simp_all only: of_int_le_iff)
  then show "2 powi ilog2 x \<le> fl x" "fl x \<le> 2 powi (ilog2 x + 1)"
    unfolding fl_pos_eq [OF assms] e u_def [symmetric] using u by (simp_all add: mult_right_mono)
qed

lemma fl_pos_mono:
  assumes "0 < x" "x \<le> y" shows "fl x \<le> fl y"
proof (cases "ilog2 x = ilog2 y")
  case True
  have "x / 2 powi (ilog2 y - 52) \<le> y / 2 powi (ilog2 y - 52)"
    using assms by (simp add: divide_right_mono)
  from round_half_even_mono [OF this] show ?thesis
    using assms True by (simp add: fl_pos_eq mult_right_mono)
next
  case False
  then have "ilog2 x + 1 \<le> ilog2 y" using ilog2_mono [OF assms] by simp
  then have "(2::rat) powi (ilog2 x + 1) \<le> 2 powi ilog2 y" by (intro power_int_increasing) auto
  then show ?thesis using fl_binade(2) [OF assms(1)] fl_binade(1) [of y] assms by linarith
qed

lemma fl_nonneg: "0 \<le> x \<Longrightarrow> 0 \<le> fl x"
proof (cases "x = 0")
  case False
  assume "0 \<le> x"
  have "(0::rat) \<le> 2 powi ilog2 x" by simp
  also have "\<dots> \<le> fl x" using False \<open>0 \<le> x\<close> by (intro fl_binade) simp
  finally show ?thesis .
qed simp

lemma fl_mono: "x \<le> y \<Longrightarrow> fl x \<le> fl y"
proof -
  assume xy: "x \<le> y"
  consider "0 < x" | "x \<le> 0" "0 \<le> y" | "y < 0" by linarith
  then show ?thesis
  proof cases
    case 1
    then show ?thesis using xy by (rule fl_pos_mono)
  next
    case 2
    then show ?thesis using fl_nonneg [of y] fl_nonneg [of "- x"] by (simp add: fl_minus)
  next
    case 3
    then show ?thesis using fl_pos_mono [of "- y" "- x"] xy by (simp add: fl_minus)
  qed
qed

text \<open>Integers up to \<open>2^53\<close> and their halves are doubles: they are not rounded.\<close>

lemma fl_scaled:
  assumes "x > 0" "x = of_int m * 2 powi k" "k \<ge> ilog2 x - 52"
  shows "fl x = x"
proof -
  define j where "j = nat (k - (ilog2 x - 52))"
  have "k = (ilog2 x - 52) + int j" using assms(3) by (simp add: j_def)
  then have "x = of_int (m * 2 ^ j) * 2 powi (ilog2 x - 52)"
    by (subst (1) assms(2)) (simp add: power_int_add power_int_of_nat)
  then have "x / 2 powi (ilog2 x - 52) = of_int (m * 2 ^ j)" by (simp add: field_simps)
  then show ?thesis
    by (subst fl_pos_eq [OF assms(1)]) (metis round_half_even_int nonzero_divide_eq_eq power_int_not_zero zero_neq_numeral)
qed

lemma fl_dyadic:
  assumes "0 < m" "m < 2 ^ 53"
  shows "fl (of_int m * 2 powi k) = of_int m * 2 powi k"
proof (rule fl_scaled)
  show pos: "0 < rat_of_int m * 2 powi k" using assms by simp
  have "rat_of_int m < of_int (2 ^ 53)" using assms by (simp only: of_int_less_iff)
  then have "rat_of_int m * 2 powi k < 2 powi 53 * 2 powi k" by (simp add: power_int_def [of _ 53])
  then have "rat_of_int m * 2 powi k < 2 powi (53 + k)" by (simp add: power_int_add)
  with ilog2_bounds(1) [OF pos] have "(2::rat) powi ilog2 (of_int m * 2 powi k) < 2 powi (53 + k)"
    by linarith
  then show "ilog2 (of_int m * 2 powi k) - 52 \<le> k" by (simp only: powi_2_less_iff)
qed simp

lemma fl_int:
  assumes "\<bar>n\<bar> \<le> 2 ^ 53" shows "fl (of_int n) = of_int n"
proof -
  have pos: "fl (of_int n) = of_int n" if n: "0 < n" "n \<le> 2 ^ 53" for n
  proof (cases "n = 2 ^ 53")
    case True
    have "ilog2 (of_int n) = 53" unfolding True by (rule ilog2_unique) (simp_all add: power_int_def)
    then show ?thesis using True by (intro fl_scaled [where m = "2 ^ 52" and k = 1]) (simp_all add: n)
  next
    case False
    then have "rat_of_int n < of_int (2 ^ 53)" using n by (simp only: of_int_less_iff)
    then have "rat_of_int n < 2 powi 53" by (simp add: power_int_def)
    then have "(2::rat) powi ilog2 (of_int n) < 2 powi 53"
      using ilog2_bounds(1) [of "of_int n"] n by simp
    then have "ilog2 (of_int n) < 53" by (simp only: powi_2_less_iff)
    then show ?thesis using n by (intro fl_scaled [where m = n and k = 0]) simp_all
  qed
  consider "n = 0" | "0 < n" | "n < 0" by linarith
  then show ?thesis
  proof cases
    case 3
    then show ?thesis using pos [of "- n"] assms fl_minus [of "of_int (- n)"] by simp
  qed (use pos assms in auto)
qed

lemma double_of_int_exact: "\<bar>n\<bar> \<le> 2 ^ 53 \<Longrightarrow> double_of_int n = of_int n"
  by (simp add: double_of_int_def fl_int)

lemma fl_le_int: "x \<le> of_int n \<Longrightarrow> \<bar>n\<bar> \<le> 2 ^ 53 \<Longrightarrow> fl x \<le> of_int n"
  using fl_mono [of x "of_int n"] fl_int [of n] by simp

lemma fl_ge_int: "of_int n \<le> x \<Longrightarrow> \<bar>n\<bar> \<le> 2 ^ 53 \<Longrightarrow> of_int n \<le> fl x"
  using fl_mono [of "of_int n" x] fl_int [of n] by simp

section \<open>The rounding error\<close>

lemma round_half_even_close: "\<bar>of_int (round_half_even y) - y\<bar> \<le> 1 / 2"
  unfolding round_half_even_def Let_def by (auto simp: abs_if) linarith+

lemma fl_error: "0 \<le> x \<Longrightarrow> \<bar>fl x - x\<bar> \<le> x / 2 ^ 53"
proof (cases "x = 0")
  case False
  assume "0 \<le> x"
  with False have x: "0 < x" by simp
  define u :: rat where "u = 2 powi (ilog2 x - 52)"
  have u: "0 < u" by (simp add: u_def)
  have "2 powi ilog2 x = 2 ^ 52 * u" by (simp add: u_def power_int_diff)
  then have "u / 2 \<le> x / 2 ^ 53" using ilog2_bounds(1) [OF x] by (simp add: field_simps)
  have "fl x - x = (of_int (round_half_even (x / u)) - x / u) * u"
    using u by (simp add: fl_pos_eq [OF x] u_def [symmetric] field_simps)
  then have "\<bar>fl x - x\<bar> = \<bar>of_int (round_half_even (x / u)) - x / u\<bar> * u"
    using u by (simp add: abs_mult)
  also have "\<dots> \<le> 1 / 2 * u" using u by (intro mult_right_mono round_half_even_close) simp
  finally show ?thesis using \<open>u / 2 \<le> x / 2 ^ 53\<close> by simp
qed simp

lemma fl_upper: "0 \<le> x \<Longrightarrow> fl x \<le> x * (1 + 1 / 2 ^ 53)"
  using abs_le_D1 [OF fl_error [of x]] by (simp add: field_simps)

lemma fl_lower: "0 \<le> x \<Longrightarrow> x * (1 - 1 / 2 ^ 53) \<le> fl x"
  using abs_le_D2 [OF fl_error [of x]] by (simp add: field_simps)

lemma fl_pos: "0 < x \<Longrightarrow> 0 < fl x"
  using fl_binade(1) [of x] zero_less_power_int [of "2::rat" "ilog2 x"] by linarith

text \<open>A product with a number below 1 is rounded below the other factor.\<close>

lemma fl_below:
  assumes "0 \<le> x" "x \<le> z * (1 - 1 / 2 ^ 53)" "0 < z" shows "fl x < z"
proof -
  have "fl x \<le> x * (1 + 1 / 2 ^ 53)" by (rule fl_upper) (rule assms(1))
  also have "\<dots> \<le> z * (1 - 1 / 2 ^ 53) * (1 + 1 / 2 ^ 53)" using assms(2) by (intro mult_right_mono) simp_all
  also have "\<dots> < z" using assms(3) by (simp add: field_simps)
  finally show ?thesis .
qed

lemma fl_1 [simp]: "fl 1 = 1"
  using fl_int [of 1] by simp

lemma fl_idem [simp]: "fl (fl x) = fl x"
proof -
  have pos: "fl (fl x) = fl x" if x: "0 < x" for x
  proof -
    define m where "m = round_half_even (x / 2 powi (ilog2 x - 52))"
    define k where "k = ilog2 x - 52"
    have f: "fl x = of_int m * 2 powi k" unfolding m_def k_def by (rule fl_pos_eq [OF x])
    have p: "(0::rat) < 2 powi k" by simp
    have "0 < fl x" by (rule fl_pos [OF x])
    then have m0: "0 < m" unfolding f using p by (simp add: zero_less_mult_iff)
    have "rat_of_int m * 2 powi k \<le> 2 powi (53 + k)"
      using fl_binade(2) [OF x] unfolding f [symmetric] by (simp add: k_def add.commute)
    then have "rat_of_int m \<le> of_int (2 ^ 53)" using p by (simp add: power_int_add)
    then have m1: "m \<le> 2 ^ 53" by (simp only: of_int_le_iff)
    show ?thesis
    proof (cases "m = 2 ^ 53")
      case True
      then have "fl x = of_int 1 * 2 powi (53 + k)" unfolding f by (simp add: power_int_add)
      then show ?thesis using fl_dyadic [of 1 "53 + k"] by simp
    next
      case False
      then show ?thesis unfolding f using m0 m1 by (intro fl_dyadic) simp_all
    qed
  qed
  consider "x = 0" | "0 < x" | "x < 0" by linarith
  then show ?thesis
  proof cases
    case 3
    then show ?thesis using pos [of "- x"] by (simp add: fl_minus)
  qed (use pos in auto)
qed

lemma fl_double_le: "fl z = z \<Longrightarrow> x \<le> z \<Longrightarrow> fl x \<le> z"
  using fl_mono [of x z] by simp

lemma fl_double_ge: "fl z = z \<Longrightarrow> z \<le> x \<Longrightarrow> z \<le> fl x"
  using fl_mono [of z x] by simp

lemma fl_half_powers: "fl (1 / 2 ^ k) = 1 / 2 ^ k"
  using fl_dyadic [of 1 "- int k"] by (simp add: power_int_minus field_simps)

end
