(* ===== verification/Clock_Util.thy ===== *)
theory Clock_Util
  imports Float64 "HOL-Library.Signed_Division"
begin

text \<open>
  Clocks and waiting: the conversions of \<open>rome/util/duration_util.h\<close>, the reading of the time stamp counter
  (\<open>timing_util.h\<close>), the waiting macros of \<open>thread_util.h\<close> and the clock of the tests,
  \<open>rome/testutil/fake_clock.h\<close>, which several threads may advance at once.
\<close>

section \<open>Durations\<close>

text \<open>
  A \<open>std::chrono::duration\<close> is a 64-bit count of ticks; the length of a tick is a fraction of a second.
  \<open>duration_cast\<close> multiplies by the quotient of the two lengths, in lowest terms, and cuts off the rest.
\<close>

type_synonym tick = "int \<times> int"

definition nanoseconds :: tick where "nanoseconds = (1, 1000000000)"
definition microseconds :: tick where "microseconds = (1, 1000000)"
definition milliseconds :: tick where "milliseconds = (1, 1000)"
definition seconds :: tick where "seconds = (1, 1)"

definition count_value :: "int \<Rightarrow> int outcome" where
  "count_value n = (if - (2 ^ 63) \<le> n \<and> n < 2 ^ 63 then Ret n else Fault Undefined)"

definition duration_cast :: "tick \<Rightarrow> tick \<Rightarrow> int \<Rightarrow> int outcome" where
  "duration_cast from to n =
     (let num = fst from * snd to; den = snd from * fst to; g = gcd num den
      in bindO (count_value (n * (num div g))) (\<lambda>m. Ret (m sdiv (den div g))))"

definition ToDoubleInternal :: "tick \<Rightarrow> tick \<Rightarrow> int \<Rightarrow> double outcome" where
  "ToDoubleInternal from to n = bindO (duration_cast from to n) (\<lambda>m. Ret (double_of_int m))"

definition ToDoubleNanoseconds :: "tick \<Rightarrow> int \<Rightarrow> double outcome" where
  "ToDoubleNanoseconds from = ToDoubleInternal from nanoseconds"
definition ToDoubleMicroseconds :: "tick \<Rightarrow> int \<Rightarrow> double outcome" where
  "ToDoubleMicroseconds from = ToDoubleInternal from microseconds"
definition ToDoubleMilliseconds :: "tick \<Rightarrow> int \<Rightarrow> double outcome" where
  "ToDoubleMilliseconds from = ToDoubleInternal from milliseconds"
definition ToDoubleSeconds :: "tick \<Rightarrow> int \<Rightarrow> double outcome" where
  "ToDoubleSeconds from = ToDoubleInternal from seconds"

text \<open>
  A count of nanoseconds is converted by division: the fraction of a millisecond or of a second is lost
  before the conversion to a double, although the result is a double.
\<close>

lemma duration_cast_nanoseconds:
  assumes "- (2 ^ 63) \<le> n" "n < 2 ^ 63"
  shows "duration_cast nanoseconds nanoseconds n = Ret n"
    "duration_cast nanoseconds microseconds n = Ret (n sdiv 1000)"
    "duration_cast nanoseconds milliseconds n = Ret (n sdiv 1000000)"
    "duration_cast nanoseconds seconds n = Ret (n sdiv 1000000000)"
proof -
  have "gcd 1000000 (1000000000 :: int) = 1000000" "gcd 1000 (1000000000 :: int) = 1000" by (simp_all add: gcd_non_0_int)
  then show "duration_cast nanoseconds nanoseconds n = Ret n"
    "duration_cast nanoseconds microseconds n = Ret (n sdiv 1000)"
    "duration_cast nanoseconds milliseconds n = Ret (n sdiv 1000000)"
    "duration_cast nanoseconds seconds n = Ret (n sdiv 1000000000)"
    using assms by (simp_all add: duration_cast_def count_value_def nanoseconds_def microseconds_def
        milliseconds_def seconds_def Let_def)
qed

text \<open>
  The conversion of a count of nanoseconds to a double loses the fraction of the unit: the double is
  the whole number of units that have passed (exactly, up to \<open>2 ^ 53\<close> units), and never more than the time.
  A duration of less than one second is 0 seconds.
\<close>

theorem duration_to_double:
  assumes "0 \<le> n" "n < 2 ^ 63"
  shows "ToDoubleSeconds nanoseconds n = Ret (of_int (n div 1000000000)) \<and>
    ToDoubleMilliseconds nanoseconds n = Ret (of_int (n div 1000000)) \<and>
    (n < 2 ^ 53 \<longrightarrow> ToDoubleMicroseconds nanoseconds n = Ret (of_int (n div 1000)) \<and>
      ToDoubleNanoseconds nanoseconds n = Ret (of_int n)) \<and>
    (n < 1000000000 \<longrightarrow> ToDoubleSeconds nanoseconds n = Ret 0)"
proof -
  have s: "n sdiv k = n div k" if "0 < k" for k using assms that by (cases "n = 0") (simp_all add: signed_divide_int_def)
  have d: "double_of_int (n div k) = of_int (n div k)" if "0 < k" "n < 2 ^ 53 * k" for k
  proof (rule double_of_int_exact)
    have "0 \<le> n div k" using assms that by (simp add: pos_imp_zdiv_nonneg_iff)
    moreover have "k * (n div k) < k * 2 ^ 53"
    proof -
      have "0 \<le> n mod k" using that(1) by simp
      then show ?thesis using that(2) mult_div_mod_eq [of k n] unfolding mult.commute [of k "2 ^ 53"] by linarith
    qed
    then have "n div k < 2 ^ 53" using that(1) by (simp only: mult_less_cancel_left_pos)
    ultimately show "\<bar>n div k\<bar> \<le> 2 ^ 53" by linarith
  qed
  have low: "- (2 ^ 63) \<le> n" using assms by simp
  note c = duration_cast_nanoseconds [OF low assms(2)]
  have sec: "ToDoubleSeconds nanoseconds n = Ret (of_int (n div 1000000000))"
    using assms by (simp add: ToDoubleSeconds_def ToDoubleInternal_def c s d)
  moreover have "ToDoubleMilliseconds nanoseconds n = Ret (of_int (n div 1000000))"
    using assms by (simp add: ToDoubleMilliseconds_def ToDoubleInternal_def c s d)
  moreover have "n < 2 ^ 53 \<longrightarrow> ToDoubleMicroseconds nanoseconds n = Ret (of_int (n div 1000)) \<and>
      ToDoubleNanoseconds nanoseconds n = Ret (of_int n)"
    using assms d [of 1] by (simp add: ToDoubleMicroseconds_def ToDoubleNanoseconds_def ToDoubleInternal_def c s d)
  moreover have "n < 1000000000 \<longrightarrow> ToDoubleSeconds nanoseconds n = Ret 0" using sec assms by simp
  ultimately show ?thesis by blast
qed

theorem duration_to_double_witness: "ToDoubleSeconds nanoseconds 1999999999 = Ret 1"
  using duration_to_double [of 1999999999] by simp

section \<open>The time stamp counter\<close>

text \<open>The instruction leaves the counter in two registers of 32 bits.\<close>

definition rdtscp :: "u32 \<Rightarrow> u32 \<Rightarrow> u64" where
  "rdtscp lo hi = push_bit 32 (ucast hi) + ucast lo"

lemma rdtscp_value: "unat (rdtscp lo hi) = unat hi * 2 ^ 32 + unat lo"
proof -
  have h: "unat hi < 2 ^ 32" "unat lo < 2 ^ 32" using unsigned_less [of hi, where ?'a = nat] unsigned_less [of lo, where ?'a = nat] by simp_all
  have "unat (rdtscp lo hi) = (unat hi * 2 ^ 32 + unat lo) mod 2 ^ 64"
    unfolding rdtscp_def by (simp add: unat_word_ariths push_bit_eq_mult unsigned_ucast_eq take_bit_eq_mod mod_simps)
  also have "\<dots> = unat hi * 2 ^ 32 + unat lo" using h by (intro mod_less) simp
  finally show ?thesis .
qed

section \<open>Waiting\<close>

text \<open>
  \<open>cond k\<close> is the value of the condition at its \<open>k\<close>-th evaluation. A macro ends with the number of the
  evaluation that was true, and the number of pauses or yields in between; \<open>None\<close> is a wait for ever.
\<close>

partial_function (option) await_loop :: "(nat \<Rightarrow> bool) \<Rightarrow> nat \<Rightarrow> nat \<Rightarrow> (nat \<times> nat) option" where
  "await_loop cond k pauses = (if \<not> cond k then await_loop cond (k + 1) (pauses + 1) else Some (k, pauses))"

definition EAGER_AWAIT :: "(nat \<Rightarrow> bool) \<Rightarrow> nat \<Rightarrow> nat option" where
  "EAGER_AWAIT cond k = (if \<not> cond k then map_option fst (await_loop cond (k + 1) 0) else Some k)"

definition RELAXED_AWAIT :: "(nat \<Rightarrow> bool) \<Rightarrow> nat \<Rightarrow> (nat \<times> nat) option" where
  "RELAXED_AWAIT cond k = (if \<not> cond k then await_loop cond (k + 1) 0 else Some (k, 0))"

text \<open>One pause, and then a yield for each evaluation that is false.\<close>

definition YIELDING_AWAIT :: "(nat \<Rightarrow> bool) \<Rightarrow> nat \<Rightarrow> (nat \<times> nat \<times> nat) option" where
  "YIELDING_AWAIT cond k =
     (if \<not> cond k then map_option (\<lambda>(j, yields). (j, 1, yields)) (await_loop cond (k + 1) 0) else Some (k, 0, 0))"

lemma await_loop_returns:
  "\<not> cond k \<or> cond k \<Longrightarrow> k \<le> j \<Longrightarrow> cond j \<Longrightarrow> (\<And>i. k \<le> i \<Longrightarrow> i < j \<Longrightarrow> \<not> cond i) \<Longrightarrow>
    await_loop cond k p = Some (j, p + (j - k))"
proof (induction "j - k" arbitrary: k p)
  case 0
  then show ?case by (subst await_loop.simps) simp
next
  case (Suc d)
  then have "await_loop cond (Suc k) (Suc p) = Some (j, Suc p + (j - Suc k))" by auto
  then show ?case using Suc by (subst await_loop.simps) (auto simp: le_less)
qed

lemma await_loop_ends: "await_loop cond k p = Some r \<Longrightarrow> \<exists>j\<ge>k. cond j"
  by (erule await_loop.raw_induct [where P = "\<lambda>cond k p r. \<exists>j\<ge>k. cond j", rotated])
    (auto split: if_splits, meson Suc_leD)

lemma await_loop_some: "(\<exists>r. await_loop cond k p = Some r) \<longleftrightarrow> (\<exists>j\<ge>k. cond j)"
proof
  assume "\<exists>j\<ge>k. cond j"
  then obtain j where "k \<le> j" "cond j" "\<And>i. k \<le> i \<Longrightarrow> i < j \<Longrightarrow> \<not> cond i"
    using exists_least_iff [of "\<lambda>j. k \<le> j \<and> cond j"] by blast
  then show "\<exists>r. await_loop cond k p = Some r" using await_loop_returns [of cond k j p] by blast
qed (auto dest: await_loop_ends)

text \<open>
  Each of the three waits returns exactly when the condition is true at some evaluation, and then at
  the first one; the pauses are the evaluations in vain.
\<close>

theorem awaits_return:
  "(EAGER_AWAIT cond k \<noteq> None \<longleftrightarrow> (\<exists>j\<ge>k. cond j)) \<and> (RELAXED_AWAIT cond k \<noteq> None \<longleftrightarrow> (\<exists>j\<ge>k. cond j)) \<and>
    (YIELDING_AWAIT cond k \<noteq> None \<longleftrightarrow> (\<exists>j\<ge>k. cond j)) \<and>
    (\<forall>j\<ge>k. cond j \<and> (\<forall>i. k \<le> i \<and> i < j \<longrightarrow> \<not> cond i) \<longrightarrow>
       EAGER_AWAIT cond k = Some j \<and> RELAXED_AWAIT cond k = Some (j, j - k - 1) \<and>
       YIELDING_AWAIT cond k = Some (j, if j = k then 0 else 1, j - k - 1))"
proof -
  have one: "EAGER_AWAIT cond k = Some j \<and> RELAXED_AWAIT cond k = Some (j, j - k - 1) \<and>
       YIELDING_AWAIT cond k = Some (j, if j = k then 0 else 1, j - k - 1)"
    if j: "k \<le> j" "cond j" "\<forall>i. k \<le> i \<and> i < j \<longrightarrow> \<not> cond i" for j
  proof (cases "j = k")
    case True
    then show ?thesis using j by (simp add: EAGER_AWAIT_def RELAXED_AWAIT_def YIELDING_AWAIT_def)
  next
    case False
    then have "await_loop cond (Suc k) 0 = Some (j, 0 + (j - Suc k))" using j by (intro await_loop_returns) auto
    then show ?thesis using j False by (simp add: EAGER_AWAIT_def RELAXED_AWAIT_def YIELDING_AWAIT_def)
  qed
  have "(\<exists>j\<ge>k. cond j) \<longleftrightarrow> cond k \<or> (\<exists>j\<ge>Suc k. cond j)" by (metis Suc_leD Suc_leI le_neq_implies_less order_refl)
  then have "(EAGER_AWAIT cond k \<noteq> None \<longleftrightarrow> (\<exists>j\<ge>k. cond j)) \<and> (RELAXED_AWAIT cond k \<noteq> None \<longleftrightarrow> (\<exists>j\<ge>k. cond j)) \<and>
    (YIELDING_AWAIT cond k \<noteq> None \<longleftrightarrow> (\<exists>j\<ge>k. cond j))"
    using await_loop_some [of cond "Suc k" 0]
    by (auto simp: EAGER_AWAIT_def RELAXED_AWAIT_def YIELDING_AWAIT_def)
  with one show ?thesis by blast
qed

section \<open>The clock of the tests\<close>

text \<open>
  A thread in \<open>advance\<close> by \<open>by\<close> nanoseconds: before it loads the time, before its compare-and-swap (with
  the time that it loaded), or done.
\<close>

datatype advance_pc = Adv_Load int | Adv_Swap int int | Adv_Done int

record fake_clock =
  fc_time :: int
  fc_threads :: "advance_pc list"

definition fc_init :: "fake_clock \<Rightarrow> fake_clock" where
  "fc_init c = c\<lparr>fc_time := 0\<rparr>"

definition fc_now :: "fake_clock \<Rightarrow> int" where
  "fc_now c = fc_time c"

text \<open>A call of \<open>advance(by)\<close>, and of \<open>advance()\<close>, in a new thread.\<close>

definition fc_advance :: "tick \<Rightarrow> int \<Rightarrow> fake_clock \<Rightarrow> fake_clock outcome" where
  "fc_advance from n c = bindO (duration_cast from nanoseconds n) (\<lambda>by. Ret (c\<lparr>fc_threads := fc_threads c @ [Adv_Load by]\<rparr>))"

definition fc_advance_one :: "fake_clock \<Rightarrow> fake_clock" where
  "fc_advance_one c = c\<lparr>fc_threads := fc_threads c @ [Adv_Load 1]\<rparr>"

definition fc_step :: "nat \<Rightarrow> fake_clock \<Rightarrow> fake_clock" where
  "fc_step i c =
     (case fc_threads c ! i of
        Adv_Load by \<Rightarrow> c\<lparr>fc_threads := (fc_threads c)[i := Adv_Swap by (fc_time c)]\<rparr>
      | Adv_Swap by now \<Rightarrow>
          if fc_time c = now
          then c\<lparr>fc_time := now + by, fc_threads := (fc_threads c)[i := Adv_Done by]\<rparr>
          else c\<lparr>fc_threads := (fc_threads c)[i := Adv_Load by]\<rparr>
      | Adv_Done by \<Rightarrow> c)"

inductive fc_run :: "fake_clock \<Rightarrow> fake_clock \<Rightarrow> bool" where
  start: "fc_run c c"
| step: "fc_run c c' \<Longrightarrow> i < length (fc_threads c') \<Longrightarrow> fc_run c (fc_step i c')"
| call: "fc_run c c' \<Longrightarrow> fc_advance from n c' = Ret c'' \<Longrightarrow> fc_run c c''"
| call_one: "fc_run c c' \<Longrightarrow> fc_run c (fc_advance_one c')"

fun advanced_by :: "advance_pc \<Rightarrow> int" where
  "advanced_by (Adv_Done by) = by"
| "advanced_by _ = 0"

lemma sum_list_update_int:
  "i < length xs \<Longrightarrow> (\<Sum>x\<leftarrow>xs[i := v]. f x) = (\<Sum>x\<leftarrow>xs. f x) - f (xs ! i) + (f v :: int)"
proof (induction xs arbitrary: i)
  case (Cons x xs)
  then show ?case by (cases i) auto
qed simp

text \<open>
  However the threads interleave, no advance of the clock is lost or made twice: the time is the time
  at the start and the sum of the advances that have returned.
\<close>

theorem fake_clock_exact:
  assumes "fc_run c c'" "\<forall>t \<in> set (fc_threads c). advanced_by t = 0"
  shows "fc_now c' = fc_now c + (\<Sum>t \<leftarrow> fc_threads c'. advanced_by t)"
  using assms
proof (induction rule: fc_run.induct)
  case (start c)
  then have "(\<Sum>t \<leftarrow> fc_threads c. advanced_by t) = 0" by (simp add: sum_list_0 cong: map_cong)
  then show ?case by simp
next
  case (step c c' i)
  then show ?case
    by (auto simp: fc_step_def fc_now_def sum_list_update_int split: advance_pc.splits)
qed (auto simp: fc_advance_def fc_advance_one_def fc_now_def bindO_eq_Ret)

theorem fake_clock_exact_witness:
  "let c = fc_step 0 (fc_step 1 (fc_step 0 (fc_step 0 (fc_step 1 (fc_step 0
     \<lparr>fc_time = 5, fc_threads = [Adv_Load 10, Adv_Load 20]\<rparr>)))))
   in fc_threads c = [Adv_Done 10, Adv_Load 20] \<and> fc_now c = 15"
proof -
  let ?s = "\<lparr>fc_time = 5, fc_threads = [Adv_Load 10, Adv_Load 20]\<rparr>"
  let ?t = "fc_step 0 (fc_step 1 (fc_step 0 (fc_step 0 (fc_step 1 (fc_step 0 ?s)))))"
  have len: "length (fc_threads (fc_step i c)) = length (fc_threads c)" for i c
    by (simp add: fc_step_def split: advance_pc.splits)
  have r: "fc_run ?s ?t" by (rule fc_run.step | rule fc_run.start | simp add: len)+
  have "fc_now ?t = fc_now ?s + (\<Sum>t \<leftarrow> fc_threads ?t. advanced_by t)"
    by (rule fake_clock_exact [OF r]) simp
  moreover have "fc_threads ?t = [Adv_Done 10, Adv_Load 20]" by code_simp
  ultimately show ?thesis by (simp add: fc_now_def Let_def)
qed

end
