(* ===== verification/Fixed_Heap.thy ===== *)
theory Fixed_Heap
  imports Rome_Prelude "HOL-Library.Multiset"
begin

text \<open>
  \<open>FixedHeap<T, HeapSize>\<close> and \<open>FixedMaxHeap\<close> of \<open>rome/internal/fixed_heap.h\<close>: a binary heap in an
  array whose length is fixed. The contract of a bounded priority queue is the locale
  \<open>bounded_pq\<close>; the max heap interprets it.
\<close>

section \<open>The contract of a bounded priority queue\<close>

fun push_all :: "('h \<Rightarrow> 'a \<Rightarrow> 'h \<times> status) \<Rightarrow> 'h \<Rightarrow> 'a list \<Rightarrow> 'h" where
  "push_all push h [] = h"
| "push_all push h (x # xs) = push_all push (fst (push h x)) xs"

fun pop_n :: "('h \<Rightarrow> 'h \<times> 'a status_or) \<Rightarrow> nat \<Rightarrow> 'h \<Rightarrow> 'a status_or list" where
  "pop_n pop 0 h = []"
| "pop_n pop (Suc n) h = (let (h', x) = pop h in x # pop_n pop n h')"

locale bounded_pq =
  fixes push :: "'h \<Rightarrow> 'a::linorder \<Rightarrow> 'h \<times> status"
    and pop :: "'h \<Rightarrow> 'h \<times> 'a status_or"
    and invar :: "'h \<Rightarrow> bool" and bag :: "'h \<Rightarrow> 'a multiset" and cap :: nat
  assumes push_ok: "invar h \<Longrightarrow> size (bag h) < cap \<Longrightarrow>
      snd (push h x) = OkStatus \<and> invar (fst (push h x)) \<and> bag (fst (push h x)) = add_mset x (bag h)"
    and push_full: "invar h \<Longrightarrow> size (bag h) = cap \<Longrightarrow> fst (push h x) = h \<and> \<not> status_ok (snd (push h x))"
    and pop_ok: "invar h \<Longrightarrow> bag h \<noteq> {#} \<Longrightarrow>
      (\<exists>h'. pop h = (h', Inr (Max_mset (bag h))) \<and> invar h' \<and> bag h = add_mset (Max_mset (bag h)) (bag h'))"
    and pop_empty: "invar h \<Longrightarrow> bag h = {#} \<Longrightarrow> \<exists>e. pop h = (h, Inl e) \<and> \<not> status_ok e"
begin

lemma push_all_bag:
  "invar h \<Longrightarrow> size (bag h) + length xs \<le> cap \<Longrightarrow>
   invar (push_all push h xs) \<and> bag (push_all push h xs) = bag h + mset xs"
proof (induction xs arbitrary: h)
  case (Cons x xs)
  then have "invar (fst (push h x))" "bag (fst (push h x)) = add_mset x (bag h)"
    using push_ok [of h x] by auto
  then show ?case using Cons by simp
qed simp

lemma sorted_desc_unique:
  "bag h = add_mset m M \<Longrightarrow> m = Max_mset (bag h) \<Longrightarrow>
   rev (sorted_list_of_multiset (bag h)) = m # rev (sorted_list_of_multiset M)"
proof -
  assume b: "bag h = add_mset m M" and m: "m = Max_mset (bag h)"
  have "x \<le> m" if "x \<in># M" for x
  proof -
    have "x \<in># bag h" using that by (subst b) simp
    then show ?thesis unfolding m by simp
  qed
  then have "sorted (sorted_list_of_multiset M @ [m])" by (simp add: sorted_append)
  moreover have "mset (sorted_list_of_multiset M @ [m]) = bag h" by (simp add: b)
  ultimately have "sorted_list_of_multiset (bag h) = sorted_list_of_multiset M @ [m]"
    by (metis sorted_list_of_multiset_mset sorted_sort_id)
  then show ?thesis by simp
qed

lemma pop_n_sorted:
  "invar h \<Longrightarrow> n = size (bag h) \<Longrightarrow> pop_n pop n h = map Inr (rev (sorted_list_of_multiset (bag h)))"
proof (induction n arbitrary: h)
  case (Suc n)
  then have "bag h \<noteq> {#}" by auto
  from pop_ok [OF Suc(2) this] obtain h' where
    h': "pop h = (h', Inr (Max_mset (bag h)))" "invar h'" "bag h = add_mset (Max_mset (bag h)) (bag h')" by blast
  then have "size (bag h) = Suc (size (bag h'))" by (metis size_add_mset)
  then have "n = size (bag h')" using Suc(3) by simp
  from Suc(1) [OF h'(2) this] sorted_desc_unique [OF h'(3) refl] h'(1) show ?case by simp
qed simp

lemma heap_sorts:
  assumes "invar h" "bag h = {#}" "length xs \<le> cap"
  shows "pop_n pop (length xs) (push_all push h xs) = map Inr (rev (sort xs))"
proof -
  have "invar (push_all push h xs)" "bag (push_all push h xs) = mset xs"
    using push_all_bag [OF assms(1), of xs] assms(2,3) by auto
  then show ?thesis using pop_n_sorted [of "push_all push h xs" "length xs"] by simp
qed

end

section \<open>The operations\<close>

record 'a fixed_heap =
  fh_size :: nat
  fh_values :: "'a list"  \<comment> \<open>the array \<open>values_[HeapSize]\<close>\<close>

definition Parent :: "nat \<Rightarrow> nat" where "Parent i = (i - 1) div 2"
definition LeftChild :: "nat \<Rightarrow> nat" where "LeftChild i = i * 2 + 1"
definition RightChild :: "nat \<Rightarrow> nat" where "RightChild i = i * 2 + 2"

definition swap :: "nat \<Rightarrow> nat \<Rightarrow> 'a list \<Rightarrow> 'a list" where
  "swap i j vs = vs[j := vs ! i, i := vs ! j]"

function Heapify :: "('a \<Rightarrow> 'a \<Rightarrow> bool) \<Rightarrow> nat \<Rightarrow> 'a list \<Rightarrow> nat \<Rightarrow> 'a list" where
  "Heapify comparator sz vs i =
     (if sz = 0 \<or> i = 0 then vs
      else Heapify comparator sz
        (if comparator (vs ! i) (vs ! Parent i) then swap i (Parent i) vs else vs) (Parent i))"
  by pat_completeness auto
termination by (relation "measure (\<lambda>(_, _, _, i). i)") (auto simp: Parent_def)

function Pushdown :: "('a::ord \<Rightarrow> 'a \<Rightarrow> bool) \<Rightarrow> nat \<Rightarrow> 'a list \<Rightarrow> nat \<Rightarrow> 'a list" where
  "Pushdown comparator sz vs i =
     (if sz = 0 \<or> i = sz - 1 then vs
      else let l = LeftChild i; r = RightChild i
        in if \<not> l < sz \<and> \<not> r < sz then vs
        else let swap_left = (if l < sz \<and> r < sz then comparator (vs ! l) (vs ! r) else l < sz);
                 c = (if swap_left then l else r)
          in if vs ! i < vs ! c then Pushdown comparator sz (swap i c vs) c else vs)"
  by pat_completeness auto
termination
  by (relation "measure (\<lambda>(_, sz, _, i). sz - i)")
     (auto simp: LeftChild_def RightChild_def Let_def split: if_splits)

declare Heapify.simps [simp del] Pushdown.simps [simp del]

definition make_heap :: "'a list \<Rightarrow> 'a fixed_heap" where
  "make_heap garbage = \<lparr>fh_size = 0, fh_values = garbage\<rparr>"

definition Push :: "('a \<Rightarrow> 'a \<Rightarrow> bool) \<Rightarrow> 'a fixed_heap \<Rightarrow> 'a \<Rightarrow> 'a fixed_heap \<times> status" where
  "Push comparator h v =
     (if fh_size h + 1 > length (fh_values h)
      then (h, ErrorStatus kFailedPrecondition ''Cannot push any more values.'')
      else (let vs = (fh_values h)[fh_size h := v];
                vs' = Heapify comparator (fh_size h) vs (fh_size h)
            in (\<lparr>fh_size = fh_size h + 1, fh_values = vs'\<rparr>, OkStatus)))"

definition GetRoot :: "'a fixed_heap \<Rightarrow> 'a status_or" where
  "GetRoot h = (if fh_size h = 0 then Inl (ErrorStatus kNotFound ''Heap is empty'')
     else Inr (fh_values h ! 0))"

definition Pop :: "('a::ord \<Rightarrow> 'a \<Rightarrow> bool) \<Rightarrow> 'a fixed_heap \<Rightarrow> 'a fixed_heap \<times> 'a status_or" where
  "Pop comparator h =
     (if fh_size h = 0 then (h, Inl (ErrorStatus kNotFound ''Heap is empty''))
      else (let v = fh_values h ! 0;
                vs = (fh_values h)[0 := fh_values h ! (fh_size h - 1)];
                sz = fh_size h - 1;
                vs' = (if sz \<noteq> 0 then Pushdown comparator sz vs 0 else vs)
            in (\<lparr>fh_size = sz, fh_values = vs'\<rparr>, Inr v)))"

definition Size_heap :: "'a fixed_heap \<Rightarrow> nat" where
  "Size_heap h = fh_size h"

text \<open>\<open>FixedMaxHeap\<close>: the comparator \<open>v1 > v2\<close>.\<close>

definition max_first :: "'a::ord \<Rightarrow> 'a \<Rightarrow> bool" where
  "max_first v1 v2 \<longleftrightarrow> v1 > v2"

section \<open>Heap order\<close>

definition heap_ok :: "nat \<Rightarrow> 'a::linorder list \<Rightarrow> bool" where
  "heap_ok n vs \<longleftrightarrow> (\<forall>j. 0 < j \<longrightarrow> j < n \<longrightarrow> vs ! j \<le> vs ! Parent j)"

definition hole_down :: "nat \<Rightarrow> 'a::linorder list \<Rightarrow> nat \<Rightarrow> bool" where
  "hole_down n vs i \<longleftrightarrow> (\<forall>j. 0 < j \<longrightarrow> j < n \<longrightarrow> Parent j \<noteq> i \<longrightarrow> vs ! j \<le> vs ! Parent j) \<and>
     (0 < i \<longrightarrow> (\<forall>j. 0 < j \<longrightarrow> j < n \<longrightarrow> Parent j = i \<longrightarrow> vs ! j \<le> vs ! Parent i))"

definition hole_up :: "nat \<Rightarrow> 'a::linorder list \<Rightarrow> nat \<Rightarrow> bool" where
  "hole_up n vs i \<longleftrightarrow> (\<forall>j. 0 < j \<longrightarrow> j < n \<longrightarrow> j \<noteq> i \<longrightarrow> vs ! j \<le> vs ! Parent j) \<and>
     (0 < i \<longrightarrow> (\<forall>j. 0 < j \<longrightarrow> j < n \<longrightarrow> Parent j = i \<longrightarrow> vs ! j \<le> vs ! Parent i))"

lemma Parent_less: "0 < j \<Longrightarrow> Parent j < j"
  by (auto simp: Parent_def)

lemma Parent_children: "0 < j \<Longrightarrow> Parent j = i \<longleftrightarrow> j = LeftChild i \<or> j = RightChild i"
  by (auto simp: Parent_def LeftChild_def RightChild_def)

lemma length_swap [simp]: "length (swap i j vs) = length vs"
  by (simp add: swap_def)

lemma nth_swap:
  "i < length vs \<Longrightarrow> j < length vs \<Longrightarrow>
   swap i j vs ! k = (if k = i then vs ! j else if k = j then vs ! i else vs ! k)"
  by (simp add: swap_def nth_list_update)

lemma mset_take_swap:
  assumes "i < n" "j < n" "n \<le> length vs"
  shows "mset (take n (swap i j vs)) = mset (take n vs)"
proof -
  have "take n (swap i j vs) = (take n vs)[j := take n vs ! i, i := take n vs ! j]"
    using assms by (simp add: swap_def take_update_swap)
  then show ?thesis using mset_swap [of i "take n vs" j] assms by simp
qed

text \<open>One step up: the value moves to its parent, and the hole with it.\<close>

lemma hole_up_swap:
  assumes "n \<le> length vs" "0 < i" "i < n" "hole_up n vs i" "vs ! Parent i < vs ! i"
  shows "hole_up n (swap i (Parent i) vs) (Parent i)"
proof -
  let ?p = "Parent i" let ?vs' = "swap i ?p vs"
  have pi: "?p < i" using assms(2) by (rule Parent_less)
  have v: "?vs' ! k = (if k = i then vs ! ?p else if k = ?p then vs ! i else vs ! k)" for k
    using pi assms(1,3) by (simp add: nth_swap)
  have ord: "vs ! j \<le> vs ! Parent j" if "0 < j" "j < n" "j \<noteq> i" for j
    using assms(4) that by (simp add: hole_up_def)
  have gr: "vs ! j \<le> vs ! ?p" if "0 < j" "j < n" "Parent j = i" for j
    using assms(2,4) that by (auto simp: hole_up_def)
  have "?vs' ! j \<le> ?vs' ! Parent j" if j: "0 < j" "j < n" "j \<noteq> ?p" for j
  proof -
    consider "j = i" | "j \<noteq> i" "Parent j = i" | "j \<noteq> i" "Parent j \<noteq> i" by blast
    then show ?thesis
      using ord [OF j(1,2)] gr [OF j(1,2)] assms(5) pi j(3) by cases (auto simp: v)
  qed
  moreover have "?vs' ! j \<le> ?vs' ! Parent ?p" if j: "0 < ?p" "0 < j" "j < n" "Parent j = ?p" for j
  proof -
    have "vs ! ?p \<le> vs ! Parent ?p" using ord [of ?p] j(1) assms(3) pi by simp
    moreover have "vs ! j \<le> vs ! ?p" if "j \<noteq> i" using ord [of j] j that by simp
    moreover have "j \<noteq> ?p" "Parent ?p < ?p" using j Parent_less [of j] Parent_less [of ?p] by auto
    ultimately show ?thesis using pi by (auto simp: v)
  qed
  ultimately show ?thesis by (simp add: hole_up_def)
qed

text \<open>A value that is not above its parent closes the hole, which is then at any place.\<close>

lemma hole_up_closed:
  assumes "hole_up n vs i" "vs ! i \<le> vs ! Parent i" "k < n"
  shows "hole_up n vs k"
proof -
  have all: "vs ! j \<le> vs ! Parent j" if "0 < j" "j < n" for j
    using assms(1,2) that by (cases "j = i") (auto simp: hole_up_def)
  have "vs ! j \<le> vs ! Parent k" if "0 < k" "0 < j" "j < n" "Parent j = k" for j
    using all [of j] all [of k] that assms(3) by simp
  then show ?thesis using all by (simp add: hole_up_def)
qed

lemma Heapify_ok:
  assumes "n \<le> length vs" "i < n" "hole_up n vs i" "sz = 0 \<longrightarrow> i = 0"
  shows "heap_ok n (Heapify max_first sz vs i) \<and> mset (take n (Heapify max_first sz vs i)) = mset (take n vs) \<and>
    length (Heapify max_first sz vs i) = length vs"
  using assms
proof (induction i arbitrary: vs rule: less_induct)
  case (less i)
  show ?case
  proof (cases "i = 0")
    case True
    then show ?thesis using less by (subst (1 2 3) Heapify.simps) (auto simp: heap_ok_def hole_up_def)
  next
    case False
    define p where "p = Parent i"
    have pi: "p < i" using False by (simp add: p_def Parent_less)
    have pn: "p < n" using pi less by auto
    define vs' where "vs' = (if max_first (vs ! i) (vs ! p) then swap i p vs else vs)"
    have step: "Heapify max_first sz vs i = Heapify max_first sz vs' p"
      using False less(5) by (subst Heapify.simps) (auto simp: vs'_def p_def)
    have "hole_up n vs' p"
      using hole_up_swap [OF less(2) _ less(3,4)] hole_up_closed [OF less(4) _ pn] False
      by (auto simp: vs'_def max_first_def p_def not_less)
    moreover have "mset (take n vs') = mset (take n vs)" "length vs' = length vs"
      using mset_take_swap [of i n p vs] less(2,3) pn by (auto simp: vs'_def)
    moreover have "sz \<noteq> 0" using False less(5) by simp
    ultimately show ?thesis using less(1) [OF pi, of vs'] less(2,3) pn unfolding step
      by auto
  qed
qed

lemma hole_down_leaf:
  assumes "hole_down n vs i" "\<not> LeftChild i < n" "\<not> RightChild i < n"
  shows "heap_ok n vs"
  using assms Parent_children by (fastforce simp: hole_down_def heap_ok_def)

text \<open>The child that the sift compares with is in range, and no child is above it.\<close>

definition larger_child :: "nat \<Rightarrow> 'a::linorder list \<Rightarrow> nat \<Rightarrow> nat" where
  "larger_child n vs i =
     (if (if RightChild i < n then vs ! RightChild i < vs ! LeftChild i else True) then LeftChild i else RightChild i)"

lemma larger_child_bounds:
  assumes "LeftChild i < n"
  shows "larger_child n vs i < n" "i < larger_child n vs i" "Parent (larger_child n vs i) = i"
  using assms by (auto simp: larger_child_def LeftChild_def RightChild_def Parent_def)

lemma larger_child_max:
  assumes "LeftChild i < n" "0 < j" "j < n" "Parent j = i"
  shows "vs ! j \<le> vs ! larger_child n vs i"
  using Parent_children [OF assms(2), of i] assms by (auto simp: larger_child_def)

lemma Pushdown_step:
  assumes "LeftChild i < n"
  shows "Pushdown max_first n vs i =
    (let c = larger_child n vs i in if vs ! i < vs ! c then Pushdown max_first n (swap i c vs) c else vs)"
proof -
  have "n \<noteq> 0" "i \<noteq> n - 1" using assms by (auto simp: LeftChild_def)
  then show ?thesis
    using assms by (subst Pushdown.simps) (simp add: larger_child_def max_first_def Let_def)
qed

text \<open>One step down: the largest child moves up, and the hole takes its place.\<close>

lemma hole_down_swap:
  assumes "n \<le> length vs" "i < n" "hole_down n vs i" "c < n" "i < c" "Parent c = i" "vs ! i < vs ! c"
    "\<And>j. 0 < j \<Longrightarrow> j < n \<Longrightarrow> Parent j = i \<Longrightarrow> vs ! j \<le> vs ! c"
  shows "hole_down n (swap i c vs) c"
proof -
  have v: "swap i c vs ! k = (if k = i then vs ! c else if k = c then vs ! i else vs ! k)" for k
    using assms(1,2,4) by (simp add: nth_swap)
  have ord: "vs ! j \<le> vs ! Parent j" if "0 < j" "j < n" "Parent j \<noteq> i" for j
    using assms(3) that by (simp add: hole_down_def)
  have "swap i c vs ! j \<le> swap i c vs ! Parent j" if j: "0 < j" "j < n" "Parent j \<noteq> c" for j
  proof -
    have "vs ! c \<le> vs ! Parent i" "Parent i < i" if "j = i"
      using assms(3-6) j(1) that Parent_less by (auto simp: hole_down_def)
    then show ?thesis using ord [OF j(1,2)] assms(5-7) assms(8) [OF j(1,2)] j(3) by (auto simp: v)
  qed
  moreover have "swap i c vs ! j \<le> swap i c vs ! Parent c" if j: "0 < j" "j < n" "Parent j = c" for j
    using Parent_less [OF j(1)] ord [OF j(1,2)] j(3) assms(5,6) by (simp add: v)
  ultimately show ?thesis by (simp add: hole_down_def)
qed

lemma hole_down_closed:
  assumes "hole_down n vs i" "\<And>j. 0 < j \<Longrightarrow> j < n \<Longrightarrow> Parent j = i \<Longrightarrow> vs ! j \<le> vs ! i"
  shows "heap_ok n vs"
  unfolding heap_ok_def
proof (intro allI impI)
  fix j assume "0 < j" "j < n"
  then show "vs ! j \<le> vs ! Parent j" using assms by (cases "Parent j = i") (auto simp: hole_down_def)
qed

lemma Pushdown_ok:
  assumes "n \<le> length vs" "i < n" "hole_down n vs i"
  shows "heap_ok n (Pushdown max_first n vs i) \<and> mset (take n (Pushdown max_first n vs i)) = mset (take n vs) \<and>
    length (Pushdown max_first n vs i) = length vs"
  using assms
proof (induction "n - i" arbitrary: i vs rule: less_induct)
  case less
  show ?case
  proof (cases "LeftChild i < n")
    case False
    then have leaf: "\<not> LeftChild i < n" "\<not> RightChild i < n" by (auto simp: LeftChild_def RightChild_def)
    then have "Pushdown max_first n vs i = vs" by (subst Pushdown.simps) (simp add: Let_def)
    then show ?thesis using hole_down_leaf [OF less(4) leaf] by simp
  next
    case ln: True
    define c where "c = larger_child n vs i"
    have c: "c < n" "i < c" "Parent c = i" using larger_child_bounds [OF ln] by (auto simp: c_def)
    have best: "vs ! j \<le> vs ! c" if "0 < j" "j < n" "Parent j = i" for j
      using larger_child_max [OF ln that] by (simp add: c_def)
    have step: "Pushdown max_first n vs i = (if vs ! i < vs ! c then Pushdown max_first n (swap i c vs) c else vs)"
      using Pushdown_step [OF ln, of vs] by (simp add: c_def Let_def)
    show ?thesis
    proof (cases "vs ! i < vs ! c")
      case False
      then have "heap_ok n vs" using hole_down_closed [OF less(4)] best by (meson le_less_linear order_trans)
      then show ?thesis using step False by simp
    next
      case True
      have "hole_down n (swap i c vs) c" by (rule hole_down_swap [OF less(2-4) c True best])
      from less(1) [OF _ _ c(1) this] show ?thesis
        using step True c less(2) mset_take_swap [OF less(3) c(1) less(2)] by simp
    qed
  qed
qed

section \<open>The max heap is a bounded priority queue\<close>

definition heap_bag :: "'a fixed_heap \<Rightarrow> 'a multiset" where
  "heap_bag h = mset (take (fh_size h) (fh_values h))"

definition heap_inv :: "nat \<Rightarrow> 'a::linorder fixed_heap \<Rightarrow> bool" where
  "heap_inv HeapSize h \<longleftrightarrow> length (fh_values h) = HeapSize \<and> fh_size h \<le> HeapSize \<and>
     heap_ok (fh_size h) (fh_values h)"

lemma size_heap_bag: "heap_inv N h \<Longrightarrow> size (heap_bag h) = fh_size h"
  by (auto simp: heap_inv_def heap_bag_def)

lemma heap_root_max:
  assumes "heap_ok n vs" "j < n"
  shows "vs ! j \<le> vs ! 0"
  using assms(2)
proof (induction j rule: less_induct)
  case (less j)
  show ?case
  proof (cases "j = 0")
    case False
    then have "vs ! j \<le> vs ! Parent j" using assms(1) less(2) by (simp add: heap_ok_def)
    moreover have "vs ! Parent j \<le> vs ! 0" using less False Parent_less [of j] by auto
    ultimately show ?thesis by (rule order_trans)
  qed simp
qed

lemma Push_ok:
  assumes "heap_inv N h" "fh_size h < N"
  shows "snd (Push max_first h x) = OkStatus \<and> heap_inv N (fst (Push max_first h x)) \<and>
    heap_bag (fst (Push max_first h x)) = add_mset x (heap_bag h)"
proof -
  let ?n = "fh_size h" and ?vs = "(fh_values h)[fh_size h := x]"
  have len: "length (fh_values h) = N" and ok: "heap_ok ?n (fh_values h)"
    using assms(1) by (auto simp: heap_inv_def)
  have "hole_up (Suc ?n) ?vs ?n"
    unfolding hole_up_def
  proof (intro conjI allI impI)
    fix j assume j: "0 < j" "j < Suc ?n" "j \<noteq> ?n"
    then have "Parent j < j" "j < ?n" using Parent_less by auto
    then show "?vs ! j \<le> ?vs ! Parent j" using ok j by (simp add: heap_ok_def)
  next
    fix j assume "0 < j" "j < Suc ?n" "Parent j = ?n"
    then show "?vs ! j \<le> ?vs ! Parent ?n" using Parent_less [of j] by simp
  qed
  from Heapify_ok [OF _ _ this, of ?n] len assms(2) have
    "heap_ok (Suc ?n) (Heapify max_first ?n ?vs ?n)"
    "mset (take (Suc ?n) (Heapify max_first ?n ?vs ?n)) = mset (take (Suc ?n) ?vs)"
    "length (Heapify max_first ?n ?vs ?n) = N" by auto
  moreover have "mset (take (Suc ?n) ?vs) = add_mset x (mset (take ?n (fh_values h)))"
    using len assms(2) by (simp add: take_Suc_conv_app_nth)
  ultimately show ?thesis using len assms(2)
    by (simp add: Push_def Let_def heap_inv_def heap_bag_def)
qed

lemma heap_max_root:
  assumes "Suc n \<le> length vs" "heap_ok (Suc n) vs"
  shows "Max_mset (mset (take (Suc n) vs)) = vs ! 0"
proof (rule Max_eqI)
  show "y \<le> vs ! 0" if y: "y \<in> set_mset (mset (take (Suc n) vs))" for y
  proof -
    from y obtain j where "j < Suc n" "y = vs ! j" using assms(1) by (auto simp: in_set_conv_nth)
    then show ?thesis using heap_root_max [OF assms(2)] by blast
  qed
  show "vs ! 0 \<in> set_mset (mset (take (Suc n) vs))"
    using assms(1) by (auto simp: in_set_conv_nth intro!: exI [of _ 0])
qed simp

lemma mset_take_last_to_root:
  assumes "Suc n \<le> length vs"
  shows "mset (take (Suc n) vs) = add_mset (vs ! 0) (mset (take n (vs[0 := vs ! n])))"
proof (cases n)
  case 0
  then show ?thesis using assms by (cases vs) auto
next
  case (Suc m)
  obtain y ys where y: "vs = y # ys" "n \<le> length ys" using assms by (cases vs) auto
  have "take (Suc n) vs = y # take n ys" "take n ys = take m ys @ [ys ! m]"
    using y Suc by (simp_all add: take_Suc_conv_app_nth)
  moreover have "take n (vs[0 := vs ! n]) = ys ! m # take m ys" using y Suc by simp
  ultimately show ?thesis using y by simp
qed

lemma Pop_ok:
  assumes "heap_inv N h" "heap_bag h \<noteq> {#}"
  shows "\<exists>h'. Pop max_first h = (h', Inr (Max_mset (heap_bag h))) \<and> heap_inv N h' \<and>
    heap_bag h = add_mset (Max_mset (heap_bag h)) (heap_bag h')"
proof -
  define n vs where "n = fh_size h - 1" and "vs = fh_values h"
  have n: "fh_size h = Suc n" using assms(2) by (cases "fh_size h") (auto simp: heap_bag_def n_def)
  have len: "length vs = N" "Suc n \<le> N" and ok: "heap_ok (Suc n) vs"
    using assms(1) n by (auto simp: heap_inv_def vs_def)
  have bag: "heap_bag h = mset (take (Suc n) vs)" by (simp add: heap_bag_def n vs_def)
  have M: "Max_mset (heap_bag h) = vs ! 0" unfolding bag using heap_max_root [OF _ ok] len by simp
  define w where "w = vs[0 := vs ! n]"
  have bag': "heap_bag h = add_mset (vs ! 0) (mset (take n w))"
    unfolding bag w_def using mset_take_last_to_root [of n vs] len by simp
  define w' where "w' = (if n \<noteq> 0 then Pushdown max_first n w 0 else w)"
  have w': "heap_ok n w' \<and> mset (take n w') = mset (take n w) \<and> length w' = N"
  proof (cases "n = 0")
    case True
    then show ?thesis using len by (simp add: w'_def w_def heap_ok_def)
  next
    case False
    have "hole_down n w 0"
      using ok by (auto simp: hole_down_def heap_ok_def w_def nth_list_update)
    then show ?thesis using Pushdown_ok [of n w 0] False len by (auto simp: w'_def w_def)
  qed
  have "Pop max_first h = (\<lparr>fh_size = n, fh_values = w'\<rparr>, Inr (vs ! 0))"
    by (simp add: Pop_def n Let_def w'_def w_def vs_def)
  moreover have "heap_inv N \<lparr>fh_size = n, fh_values = w'\<rparr>" using w' len by (simp add: heap_inv_def)
  moreover have "heap_bag \<lparr>fh_size = n, fh_values = w'\<rparr> = mset (take n w)" using w' by (simp add: heap_bag_def)
  ultimately show ?thesis unfolding M using bag' by metis
qed

interpretation max_heap: bounded_pq "Push max_first" "Pop max_first" "heap_inv N" heap_bag N for N
proof unfold_locales
  fix h :: "'a::linorder fixed_heap" and x
  show "heap_inv N h \<Longrightarrow> size (heap_bag h) < N \<Longrightarrow> snd (Push max_first h x) = OkStatus \<and>
      heap_inv N (fst (Push max_first h x)) \<and> heap_bag (fst (Push max_first h x)) = add_mset x (heap_bag h)"
    using Push_ok size_heap_bag by metis
  show "heap_inv N h \<Longrightarrow> size (heap_bag h) = N \<Longrightarrow>
      fst (Push max_first h x) = h \<and> \<not> status_ok (snd (Push max_first h x))"
    using size_heap_bag [of N h] by (simp add: Push_def heap_inv_def)
  show "heap_inv N h \<Longrightarrow> heap_bag h \<noteq> {#} \<Longrightarrow> \<exists>h'. Pop max_first h = (h', Inr (Max_mset (heap_bag h))) \<and>
      heap_inv N h' \<and> heap_bag h = add_mset (Max_mset (heap_bag h)) (heap_bag h')"
    by (rule Pop_ok)
  show "heap_inv N h \<Longrightarrow> heap_bag h = {#} \<Longrightarrow> \<exists>e. Pop max_first h = (h, Inl e) \<and> \<not> status_ok e"
    using size_heap_bag [of N h] by (simp add: Pop_def)
qed

section \<open>Properties\<close>

lemma make_heap_inv: "heap_inv (length g) (make_heap g) \<and> heap_bag (make_heap g) = {#}"
  by (simp add: heap_inv_def heap_bag_def make_heap_def heap_ok_def)

text \<open>
  A max heap sorts: pushing any values that fit and popping as many returns them in
  descending order, whatever the array held before.
\<close>

theorem max_heap_sorts:
  assumes "length xs \<le> length garbage"
  shows "pop_n (Pop max_first) (length xs) (push_all (Push max_first) (make_heap garbage) xs) =
    map Inr (rev (sort xs))"
  using max_heap.heap_sorts [of "length garbage" "make_heap garbage" xs] make_heap_inv [of garbage] assms by simp

lemma max_heap_sorts_witness:
  "pop_n (Pop max_first) 4 (push_all (Push max_first) (make_heap [0, 0, 0, 0, 0]) [3, 1, 4, 1::int]) =
    [Inr 4, Inr 3, Inr 1, Inr 1]"
proof -
  have "pop_n (Pop max_first) (length [3, 1, 4, 1::int])
      (push_all (Push max_first) (make_heap [0, 0, 0, 0, 0]) [3, 1, 4, 1::int]) = map Inr (rev (sort [3, 1, 4, 1]))"
    by (rule max_heap_sorts) simp
  then show ?thesis by (simp add: eval_nat_numeral del: pop_n.simps push_all.simps)
qed

text \<open>
  C8. Every operation of the max heap keeps the heap order and the array's length and acts on the
  multiset of its values: \<open>Push\<close> adds its argument or reports a full heap and changes nothing,
  \<open>GetRoot\<close> shows the maximum, \<open>Pop\<close> removes and returns it or reports an empty heap.
\<close>

theorem max_heap_contract:
  assumes i: "heap_inv N h"
  shows "(case Push max_first h x of (h', st) \<Rightarrow> heap_inv N h' \<and>
      (if Size_heap h < N then st = OkStatus \<and> heap_bag h' = add_mset x (heap_bag h)
       else st = ErrorStatus kFailedPrecondition ''Cannot push any more values.'' \<and> h' = h)) \<and>
    (case Pop max_first h of (h', res) \<Rightarrow> heap_inv N h' \<and> GetRoot h = res \<and>
      (if Size_heap h = 0 then res = Inl (ErrorStatus kNotFound ''Heap is empty'') \<and> h' = h
       else res = Inr (Max_mset (heap_bag h)) \<and> heap_bag h = add_mset (Max_mset (heap_bag h)) (heap_bag h')))"
proof -
  note sz = size_heap_bag [OF i]
  have "case Push max_first h x of (h', st) \<Rightarrow> heap_inv N h' \<and>
      (if Size_heap h < N then st = OkStatus \<and> heap_bag h' = add_mset x (heap_bag h)
       else st = ErrorStatus kFailedPrecondition ''Cannot push any more values.'' \<and> h' = h)"
  proof (cases "fh_size h < N")
    case True
    then show ?thesis using Push_ok [OF i, of x] by (auto simp: Size_heap_def)
  next
    case False
    then have "fh_size h = N" "length (fh_values h) = N" using i by (auto simp: heap_inv_def)
    then show ?thesis using i by (simp add: Push_def Size_heap_def)
  qed
  moreover have "case Pop max_first h of (h', res) \<Rightarrow> heap_inv N h' \<and> GetRoot h = res \<and>
      (if Size_heap h = 0 then res = Inl (ErrorStatus kNotFound ''Heap is empty'') \<and> h' = h
       else res = Inr (Max_mset (heap_bag h)) \<and> heap_bag h = add_mset (Max_mset (heap_bag h)) (heap_bag h'))"
  proof (cases "fh_size h = 0")
    case True
    then show ?thesis using i by (simp add: Pop_def Size_heap_def GetRoot_def)
  next
    case False
    then have "heap_bag h \<noteq> {#}" using sz by auto
    moreover have "snd (Pop max_first h) = GetRoot h" using False by (simp add: Pop_def GetRoot_def Let_def)
    ultimately show ?thesis using Pop_ok [OF i] False by (auto simp: Size_heap_def)
  qed
  ultimately show ?thesis by blast
qed

lemma max_heap_contract_witness:
  "case Push max_first (make_heap [0, 0]) (7::int) of (h', st) \<Rightarrow> heap_inv 2 h' \<and> st = OkStatus"
  using max_heap_contract [of 2 "make_heap [0, 0::int]" 7] make_heap_inv [of "[0, 0::int]"]
  by (simp add: Size_heap_def make_heap_def eval_nat_numeral split: prod.splits)

text \<open>
  A \<open>FixedHeap\<close> with another comparator is not a priority queue: \<open>Pushdown\<close> decides with
  \<open>operator<\<close> instead of the comparator, so a min heap returns the first of three values right and
  then the largest.
\<close>

theorem min_heap_pop_wrong:
  fixes a b c :: "'a::linorder"
  assumes "a < b" "b < c"
  shows "pop_n (Pop (<)) 2 (push_all (Push (<)) (make_heap [x, y, z]) [a, b, c]) = [Inr a, Inr c]"
  using assms less_trans [OF assms] less_not_sym [OF assms(1)] less_not_sym [OF assms(2)]
    less_not_sym [OF less_trans [OF assms]]
  by (simp add: make_heap_def Push_def Pop_def Let_def Heapify.simps Pushdown.simps Parent_def LeftChild_def
      RightChild_def swap_def eval_nat_numeral)

lemma min_heap_pop_wrong_witness:
  "pop_n (Pop (<)) 2 (push_all (Push (<)) (make_heap [0, 0, 0]) [1, 2, 3::int]) = [Inr 1, Inr 3]"
  using min_heap_pop_wrong [of 1 2 "3::int"] by simp

end
