(* ===== verification/Streams.thy ===== *)
theory Streams
  imports Rome_Prelude
begin

text \<open>
  The input streams of \<open>rome/colosseum/streams/stream.h\<close> and \<open>streams.h\<close>. A stream object is its
  \<open>terminated_\<close> flag and the state of the derived class; the virtual \<open>NextInternal\<close> is an argument
  of \<open>Next\<close>. Random engines and distributions of the standard library are an argument as well: a
  function from the state of the engine to the drawn value and the next state, of which the
  lemmas only assume its documented range.
\<close>

section \<open>Stream\<close>

type_synonym ('s, 'a) next_fun = "'s \<Rightarrow> ('a status_or \<times> 's) outcome"

definition StreamTerminatedStatus :: status where
  "StreamTerminatedStatus = ErrorStatus kOutOfRange ''Stream terminated.''"

definition IsStreamTerminated :: "status \<Rightarrow> bool" where
  "IsStreamTerminated s =
     (case s of OkStatus \<Rightarrow> False
      | ErrorStatus code message \<Rightarrow> code = kOutOfRange \<and> message = ''Stream terminated.'')"

record 's stream =
  terminated :: bool
  impl :: 's

definition make_stream :: "'s \<Rightarrow> 's stream" where
  "make_stream s = \<lparr>terminated = False, impl = s\<rparr>"

definition Next :: "('s, 'a) next_fun \<Rightarrow> ('s stream, 'a) next_fun" where
  "Next NextInternal s =
     (if \<not> terminated s
      then bindO (NextInternal (impl s)) (\<lambda>(x, i). Ret (x, s\<lparr>impl := i\<rparr>))
      else Ret (Inl StreamTerminatedStatus, s))"

definition Terminate :: "'s stream \<Rightarrow> 's stream" where
  "Terminate s = s\<lparr>terminated := True\<rparr>"

text \<open>\<open>n\<close> calls of \<open>Next\<close> in a row.\<close>

fun next_n :: "('s, 'a) next_fun \<Rightarrow> nat \<Rightarrow> 's \<Rightarrow> ('a status_or list \<times> 's) outcome" where
  "next_n nx 0 s = Ret ([], s)"
| "next_n nx (Suc n) s =
     bindO (nx s) (\<lambda>(x, s'). bindO (next_n nx n s') (\<lambda>(xs, s''). Ret (x # xs, s'')))"

section \<open>The contract of an endless stream\<close>

text \<open>
  An endless stream: from every state of its invariant it yields a value of a fixed set and stays
  in the invariant.
\<close>

locale endless_stream =
  fixes nx :: "('s, 'a) next_fun" and inv :: "'s \<Rightarrow> bool" and D :: "'a set"
  assumes step: "inv s \<Longrightarrow> \<exists>x s'. nx s = Ret (Inr x, s') \<and> x \<in> D \<and> inv s'"
begin

lemma step_Next:
  assumes "inv (impl s)" "\<not> terminated s"
  shows "\<exists>x s'. Next nx s = Ret (Inr x, s') \<and> x \<in> D \<and> inv (impl s') \<and> \<not> terminated s'"
  using step [OF assms(1)] assms(2) by (fastforce simp: Next_def)

lemma next_n_ok:
  assumes "inv (impl s)" "\<not> terminated s"
  shows "\<exists>xs s'. next_n (Next nx) n s = Ret (map Inr xs, s') \<and> length xs = n \<and> set xs \<subseteq> D \<and>
    inv (impl s') \<and> \<not> terminated s'"
  using assms
proof (induction n arbitrary: s)
  case 0
  then show ?case by simp
next
  case (Suc n)
  obtain x s1 where 1: "Next nx s = Ret (Inr x, s1)" "x \<in> D" "inv (impl s1)" "\<not> terminated s1"
    using step_Next [OF Suc(2,3)] by blast
  obtain xs s2 where 2: "next_n (Next nx) n s1 = Ret (map Inr xs, s2)" "length xs = n" "set xs \<subseteq> D"
    "inv (impl s2)" "\<not> terminated s2"
    using Suc(1) [OF 1(3,4)] by blast
  have "next_n (Next nx) (Suc n) s = Ret (map Inr (x # xs), s2)" by (simp add: 1 2)
  with 1(2) 2 show ?case by (intro exI [of _ "x # xs"] exI [of _ s2]) simp
qed

end

section \<open>TestStream\<close>

record 'a test_stream =
  ts_output :: "'a list"
  ts_iter :: nat

definition TestStream :: "'a list \<Rightarrow> 'a test_stream" where
  "TestStream input = \<lparr>ts_output = input, ts_iter = 0\<rparr>"

definition ts_NextInternal :: "('a test_stream, 'a) next_fun" where
  "ts_NextInternal s =
     (let i = ts_iter s
      in if i = length (ts_output s) then Ret (Inl StreamTerminatedStatus, s)
         else Ret (Inr (ts_output s ! i), s\<lparr>ts_iter := i + 1\<rparr>))"

section \<open>RandomDistributionStream and WeightedStream\<close>

definition rds_NextInternal :: "('g \<Rightarrow> 'a \<times> 'g) \<Rightarrow> ('g, 'a) next_fun" where
  "rds_NextInternal distribution mt = (case distribution mt of (x, mt') \<Rightarrow> Ret (Inr x, mt'))"

text \<open>
  \<open>uniform_int_distribution(a, b)\<close> draws from the closed interval from \<open>a\<close> to \<open>b\<close>.
\<close>

definition uniform_range :: "('a::order \<Rightarrow> 'a \<Rightarrow> 'g \<Rightarrow> 'a \<times> 'g) \<Rightarrow> bool" where
  "uniform_range uniform \<longleftrightarrow> (\<forall>a b mt. a \<le> b \<longrightarrow> a \<le> fst (uniform a b mt) \<and> fst (uniform a b mt) \<le> b)"

lemma uniform_rangeD:
  "uniform_range uniform \<Longrightarrow> a \<le> b \<Longrightarrow> uniform a b mt = (n, mt') \<Longrightarrow> a \<le> n \<and> n \<le> b"
  unfolding uniform_range_def by (metis fst_conv)

text \<open>
  \<open>WeightedStream\<close>: \<open>std::accumulate\<close> from the \<open>int\<close> 0 (the unsigned sum converted back to \<open>int\<close>
  in every step), and the table with each value repeated by its weight.
\<close>

record ('e, 'g) weighted_stream =
  ws_hi :: u32
  ws_output :: "'e list"
  ws_mt :: 'g

definition weight_sum :: "u32 list \<Rightarrow> u32" where
  "weight_sum weights = foldl (+) 0 weights"

definition weight_table :: "(nat \<Rightarrow> 'e) \<Rightarrow> u32 list \<Rightarrow> 'e list" where
  "weight_table E weights = concat (map (\<lambda>i. replicate (unat (weights ! i)) (E i)) [0..<length weights])"

definition WeightedStream :: "(nat \<Rightarrow> 'e) \<Rightarrow> u32 list \<Rightarrow> 'g \<Rightarrow> ('e, 'g) weighted_stream" where
  "WeightedStream E weights mt =
     \<lparr>ws_hi = weight_sum weights - 1, ws_output = weight_table E weights, ws_mt = mt\<rparr>"

definition ws_NextInternal :: "(u32 \<Rightarrow> u32 \<Rightarrow> 'g \<Rightarrow> u32 \<times> 'g) \<Rightarrow> (('e, 'g) weighted_stream, 'e) next_fun" where
  "ws_NextInternal uniform s =
     (case uniform 0 (ws_hi s) (ws_mt s) of (n, mt') \<Rightarrow>
        if unat n < length (ws_output s) then Ret (Inr (ws_output s ! unat n), s\<lparr>ws_mt := mt'\<rparr>)
        else Fault Undefined)"

section \<open>MonotonicStream and CircularStream\<close>

record 'k monotonic_stream =
  ms_step :: "'k"
  ms_value :: "'k"

definition MonotonicStream :: "'k::len word \<Rightarrow> 'k word \<Rightarrow> 'k word monotonic_stream" where
  "MonotonicStream init step = \<lparr>ms_step = step, ms_value = init\<rparr>"

definition ms_NextInternal :: "('k::len word monotonic_stream, 'k word) next_fun" where
  "ms_NextInternal s = (let v = ms_value s + ms_step s in Ret (Inr v, s\<lparr>ms_value := v\<rparr>))"

record 'k circular_stream =
  cs_step :: "'k"
  cs_start :: "'k"
  cs_end :: "'k"
  cs_curr :: "'k"

definition CircularStream :: "'k::len word \<Rightarrow> 'k word \<Rightarrow> 'k word \<Rightarrow> 'k word circular_stream" where
  "CircularStream start end step = \<lparr>cs_step = step, cs_start = start, cs_end = end, cs_curr = 0\<rparr>"

definition cs_NextInternal :: "('k::len word circular_stream, 'k word) next_fun" where
  "cs_NextInternal s =
     (let temp = cs_curr s; s' = s\<lparr>cs_curr := cs_curr s + cs_step s\<rparr>
      in if cs_end s = 0 then Fault Undefined else Ret (Inr (temp mod cs_end s + cs_start s), s'))"

section \<open>MappedStream and NoOpStream\<close>

text \<open>
  \<open>std::apply\<close> of the generator to the tuple of streams; the generator calls \<open>Next\<close> on them and
  leaves them advanced.
\<close>

definition mapped_NextInternal :: "('t, 'a) next_fun \<Rightarrow> ('t, 'a) next_fun" where
  "mapped_NextInternal generator streams = generator streams"

definition noop_NextInternal :: "(unit, unit) next_fun" where
  "noop_NextInternal s = Ret (Inr (), s)"

section \<open>Termination\<close>

lemma ts_next_n:
  assumes "ts_iter s \<le> length (ts_output s)"
  shows "next_n (Next ts_NextInternal) n \<lparr>terminated = False, impl = s\<rparr> =
    Ret (map Inr (take n (drop (ts_iter s) (ts_output s))) @
      replicate (n - (length (ts_output s) - ts_iter s)) (Inl StreamTerminatedStatus),
      \<lparr>terminated = False, impl = s\<lparr>ts_iter := min (length (ts_output s)) (ts_iter s + n)\<rparr>\<rparr>)"
  using assms
proof (induction n arbitrary: s)
  case 0
  then show ?case by (simp add: min_def)
next
  case (Suc n)
  show ?case
  proof (cases "ts_iter s = length (ts_output s)")
    case True
    then show ?thesis using Suc(1) [of s]
      by (simp add: Next_def ts_NextInternal_def Let_def)
  next
    case False
    then have lt: "ts_iter s < length (ts_output s)" using Suc(2) by simp
    define s1 where "s1 = s\<lparr>ts_iter := ts_iter s + 1\<rparr>"
    have d: "drop (ts_iter s) (ts_output s) = ts_output s ! ts_iter s # drop (Suc (ts_iter s)) (ts_output s)"
      using lt by (simp add: Cons_nth_drop_Suc)
    show ?thesis using Suc(1) [of s1] lt d
      by (simp add: Next_def ts_NextInternal_def Let_def s1_def)
  qed
qed

lemma next_n_terminated:
  "terminated s \<Longrightarrow> next_n (Next nx) n s = Ret (replicate n (Inl StreamTerminatedStatus), s)"
  by (induction n) (simp_all add: Next_def)

text \<open>
  A list stream yields its inputs in order and then \<open>StreamTerminatedStatus\<close> for ever, which
  \<open>IsStreamTerminated\<close> recognises; after \<open>Terminate\<close> any stream, whatever its class and its state,
  yields nothing else.
\<close>

theorem streams_terminate:
  "IsStreamTerminated StreamTerminatedStatus \<and>
   (\<exists>s'. next_n (Next ts_NextInternal) n (make_stream (TestStream xs)) =
     Ret (map Inr (take n xs) @ replicate (n - length xs) (Inl StreamTerminatedStatus), s')) \<and>
   next_n (Next nx) n (Terminate s) = Ret (replicate n (Inl StreamTerminatedStatus), Terminate s)"
proof (intro conjI)
  show "IsStreamTerminated StreamTerminatedStatus"
    by (simp add: IsStreamTerminated_def StreamTerminatedStatus_def)
  show "\<exists>s'. next_n (Next ts_NextInternal) n (make_stream (TestStream xs)) =
     Ret (map Inr (take n xs) @ replicate (n - length xs) (Inl StreamTerminatedStatus), s')"
    using ts_next_n [of "TestStream xs" n] by (simp add: make_stream_def TestStream_def)
  show "next_n (Next nx) n (Terminate s) = Ret (replicate n (Inl StreamTerminatedStatus), Terminate s)"
    by (rule next_n_terminated) (simp add: Terminate_def)
qed

section \<open>The weighted stream\<close>

lemma count_weight_blocks:
  assumes "inj E" "distinct js"
  shows "count_list (concat (map (\<lambda>j. replicate (w j) (E j)) js)) (E i) = (if i \<in> set js then w i else 0)"
proof -
  have c: "count_list (replicate n (E j)) (E i) = (if j = i then n else 0)" for n j
    using assms(1) by (induction n) (auto dest: injD)
  show ?thesis using assms(2) by (induction js) (auto simp: c)
qed

lemma count_list_card: "count_list xs x = card {k. k < length xs \<and> xs ! k = x}"
proof -
  have "count_list xs x = length (filter (\<lambda>y. y = x) xs)" by (induction xs) auto
  then show ?thesis by (simp add: length_filter_conv_card)
qed

lemma length_weight_table: "length (weight_table E weights) = sum_list (map unat weights)"
proof -
  have "length (weight_table E weights) = sum_list (map (\<lambda>i. unat (weights ! i)) [0..<length weights])"
    by (simp add: weight_table_def length_concat comp_def)
  also have "map (\<lambda>i. unat (weights ! i)) [0..<length weights] = map unat weights"
    by (rule nth_equalityI) simp_all
  finally show ?thesis .
qed

lemma weight_sum_unat:
  assumes "sum_list (map unat weights) < 2 ^ 32"
  shows "unat (weight_sum weights) = sum_list (map unat weights)"
proof -
  have "unat (foldl (+) a weights) = (unat a + sum_list (map unat weights)) mod 2 ^ 32" for a :: u32
  proof (induction weights arbitrary: a)
    case Nil
    have "unat a < 2 ^ 32" by (rule order_less_le_trans [OF unsigned_less]) simp
    then show ?case by simp
  next
    case (Cons x xs)
    then show ?case by (simp add: unat_word_ariths mod_simps add.assoc)
  qed
  from this [of 0] show ?thesis using assms by (simp add: weight_sum_def)
qed

definition weights_ok :: "u32 list \<Rightarrow> bool" where
  "weights_ok weights \<longleftrightarrow> 0 < sum_list (map unat weights) \<and> sum_list (map unat weights) < 2 ^ 31"

lemma weight_hi:
  assumes "weights_ok weights"
  shows "unat (weight_sum weights - 1) + 1 = length (weight_table E weights)"
proof -
  have u: "unat (weight_sum weights) = length (weight_table E weights)"
    using assms weight_sum_unat by (simp add: weights_ok_def length_weight_table)
  have pos: "0 < unat (weight_sum weights)" using assms unfolding u length_weight_table by (simp add: weights_ok_def)
  then have "weight_sum weights \<noteq> 0" by (simp add: unat_gt_0)
  then have "unat (weight_sum weights - 1) = unat (weight_sum weights) - 1" by (rule unat_minus_one)
  with pos u show ?thesis by linarith
qed

definition weighted_inv :: "(u32 \<Rightarrow> u32 \<Rightarrow> 'g \<Rightarrow> u32 \<times> 'g) \<Rightarrow> (nat \<Rightarrow> 'e) \<Rightarrow> u32 list \<Rightarrow> ('e, 'g) weighted_stream \<Rightarrow> bool" where
  "weighted_inv uniform E weights s \<longleftrightarrow> uniform_range uniform \<and> weights_ok weights \<and>
     ws_hi s = weight_sum weights - 1 \<and> ws_output s = weight_table E weights"

definition positive_values :: "(nat \<Rightarrow> 'e) \<Rightarrow> u32 list \<Rightarrow> 'e set" where
  "positive_values E weights = {E i | i. i < length weights \<and> weights ! i \<noteq> 0}"

lemma set_weight_table: "set (weight_table E weights) = positive_values E weights"
  by (auto simp: weight_table_def positive_values_def unat_eq_0)

interpretation weighted: endless_stream "ws_NextInternal uniform" "weighted_inv uniform E weights"
  "positive_values E weights" for uniform E weights
proof
  fix s
  assume i: "weighted_inv uniform E weights s"
  obtain n mt' where d: "uniform 0 (ws_hi s) (ws_mt s) = (n, mt')" by force
  have "n \<le> ws_hi s" using i d uniform_rangeD [of uniform 0 "ws_hi s" "ws_mt s" n mt'] by (simp add: weighted_inv_def)
  then have "unat n < length (ws_output s)"
    using i weight_hi [of weights E] by (simp add: weighted_inv_def word_le_nat_alt)
  then show "\<exists>x s'. ws_NextInternal uniform s = Ret (Inr x, s') \<and> x \<in> positive_values E weights \<and>
      weighted_inv uniform E weights s'"
    using i d nth_mem [of "unat n" "ws_output s"] set_weight_table [of E weights]
    by (simp add: ws_NextInternal_def weighted_inv_def)
qed

lemma WeightedStream_inv:
  "uniform_range uniform \<Longrightarrow> weights_ok weights \<Longrightarrow> weighted_inv uniform E weights (WeightedStream E weights mt)"
  by (simp add: weighted_inv_def WeightedStream_def)

text \<open>
  A weighted stream with a positive total weight below \<open>2^31\<close> never terminates and never
  leaves its table, yields only values of positive weight, and of the equally likely draws of the
  distribution exactly \<open>weights[i]\<close> give the value \<open>E(i)\<close>.
\<close>

theorem weighted_stream_frequencies:
  assumes "uniform_range uniform" "weights_ok weights" "inj E" "i < length weights"
  shows "card {d. d \<le> ws_hi (WeightedStream E weights mt) \<and>
      (\<exists>s'. ws_NextInternal (\<lambda>a b g. (d, g)) (WeightedStream E weights mt) = Ret (Inr (E i), s'))} = unat (weights ! i) \<and>
    (\<exists>xs s'. next_n (Next (ws_NextInternal uniform)) n (make_stream (WeightedStream E weights mt)) = Ret (map Inr xs, s') \<and>
      length xs = n \<and> set xs \<subseteq> positive_values E weights)"
proof
  define t where "t = weight_table E weights"
  note hi = weight_hi [OF assms(2), of E, folded t_def]
  have pick: "(d \<le> weight_sum weights - 1 \<and>
      (\<exists>s'. ws_NextInternal (\<lambda>a b g. (d, g)) (WeightedStream E weights mt) = Ret (Inr (E i), s')))
    \<longleftrightarrow> unat d < length t \<and> t ! unat d = E i" for d
    using hi by (auto simp: ws_NextInternal_def WeightedStream_def word_le_nat_alt t_def)
  have "bij_betw unat {d :: u32. unat d < length t \<and> t ! unat d = E i} {k. k < length t \<and> t ! k = E i}"
  proof (rule bij_betw_imageI)
    show "inj_on unat {d :: u32. unat d < length t \<and> t ! unat d = E i}"
      by (rule inj_onI) (simp add: word_unat_eq_iff)
    have "k < 2 ^ 32" if "k < length t" for k
      using that assms(2) by (simp add: t_def length_weight_table weights_ok_def)
    then have "unat (of_nat k :: u32) = k" if "k < length t" for k
      using that by (simp add: unat_of_nat)
    then have "k \<in> unat ` {d :: u32. unat d < length t \<and> t ! unat d = E i}" if "k < length t" "t ! k = E i" for k
      using that by (intro image_eqI [of _ unat "of_nat k"]) simp_all
    then show "unat ` {d :: u32. unat d < length t \<and> t ! unat d = E i} = {k. k < length t \<and> t ! k = E i}"
      by blast
  qed
  then have "card {d :: u32. unat d < length t \<and> t ! unat d = E i} = count_list t (E i)"
    by (simp add: bij_betw_same_card count_list_card)
  also have "\<dots> = unat (weights ! i)" unfolding t_def weight_table_def
    by (subst count_weight_blocks) (use assms(3,4) in auto)
  finally show "card {d. d \<le> ws_hi (WeightedStream E weights mt) \<and>
      (\<exists>s'. ws_NextInternal (\<lambda>a b g. (d, g)) (WeightedStream E weights mt) = Ret (Inr (E i), s'))} = unat (weights ! i)"
    using pick by (simp add: WeightedStream_def)
  show "\<exists>xs s'. next_n (Next (ws_NextInternal uniform)) n (make_stream (WeightedStream E weights mt)) = Ret (map Inr xs, s') \<and>
      length xs = n \<and> set xs \<subseteq> positive_values E weights"
    using weighted.next_n_ok [of uniform E weights "make_stream (WeightedStream E weights mt)" n]
      WeightedStream_inv [OF assms(1,2)]
    by (fastforce simp: make_stream_def)
qed

lemma uniform_low: "uniform_range (\<lambda>a b g. (a, g))"
  by (simp add: uniform_range_def)

lemma weighted_stream_frequencies_witness:
  "card {d. d \<le> ws_hi (WeightedStream id [2, 0, 3] ()) \<and>
      (\<exists>s'. ws_NextInternal (\<lambda>a b g. (d, g)) (WeightedStream id [2, 0, 3] ()) = Ret (Inr (id 2), s'))} = 3"
  using weighted_stream_frequencies [OF uniform_low _ inj_on_id, of "[2, 0, 3]" 2 "()" 0]
  by (simp add: weights_ok_def)

section \<open>Arithmetic progressions\<close>

lemma next_n_progression:
  assumes "\<And>k. nx (g k) = Ret (Inr (f k), g (Suc k))"
  shows "next_n nx n (g j) = Ret (map (\<lambda>k. Inr (f k)) [j..<j + n], g (j + n))"
proof (induction n arbitrary: j)
  case (Suc n)
  have "[j..<j + Suc n] = j # [Suc j..<Suc j + n]" by (simp add: upt_rec)
  with Suc [of "Suc j"] show ?case by (simp add: assms del: upt_Suc)
qed simp

text \<open>
  The \<open>n\<close>-th value of a circular stream is \<open>start + (n * step mod 2^w) mod end\<close>: the stream
  cycles through a window of \<open>end\<close> values above \<open>start\<close>, not through the interval from \<open>start\<close> to
  \<open>end\<close>. A monotonic stream starts one step above its initial value.
\<close>

theorem circular_stream_window:
  fixes start step last init :: "'k::len word"
  assumes "last \<noteq> 0"
  shows "(\<exists>s'. next_n (Next cs_NextInternal) n (make_stream (CircularStream start last step)) =
      Ret (map (\<lambda>k. Inr (of_nat k * step mod last + start)) [0..<n], s')) \<and>
    (\<exists>s'. next_n (Next ms_NextInternal) n (make_stream (MonotonicStream init step)) =
      Ret (map (\<lambda>k. Inr (init + of_nat (Suc k) * step)) [0..<n], s'))"
proof
  define c where "c k = \<lparr>terminated = False, impl = \<lparr>cs_step = step, cs_start = start, cs_end = last,
    cs_curr = of_nat k * step\<rparr>\<rparr>" for k
  have "Next cs_NextInternal (c k) = Ret (Inr (of_nat k * step mod last + start), c (Suc k))" for k
    using assms by (simp add: c_def Next_def cs_NextInternal_def Let_def algebra_simps)
  from next_n_progression [where g = c, OF this, of n 0]
  show "\<exists>s'. next_n (Next cs_NextInternal) n (make_stream (CircularStream start last step)) =
      Ret (map (\<lambda>k. Inr (of_nat k * step mod last + start)) [0..<n], s')"
    by (simp add: c_def make_stream_def CircularStream_def)
  define m where "m k = \<lparr>terminated = False, impl = \<lparr>ms_step = step, ms_value = init + of_nat k * step\<rparr>\<rparr>" for k
  have "Next ms_NextInternal (m k) = Ret (Inr (init + of_nat (Suc k) * step), m (Suc k))" for k
    by (simp add: m_def Next_def ms_NextInternal_def Let_def algebra_simps)
  from next_n_progression [where g = m, OF this, of n 0]
  show "\<exists>s'. next_n (Next ms_NextInternal) n (make_stream (MonotonicStream init step)) =
      Ret (map (\<lambda>k. Inr (init + of_nat (Suc k) * step)) [0..<n], s')"
    by (simp add: m_def make_stream_def MonotonicStream_def)
qed

lemma circular_stream_window_witness:
  "\<exists>s'. next_n (Next cs_NextInternal) 4 (make_stream (CircularStream 10 12 (5 :: u32))) =
     Ret ([Inr 10, Inr 15, Inr 20, Inr 13], s')"
  using conjunct1 [OF circular_stream_window [of 12 4 10 "5 :: u32" 0]] by (simp add: upt_rec)

end
