(* ===== verification/Qps_Controller.thy ===== *)
theory Qps_Controller
  imports Rome_Prelude
begin

text \<open>
  The rate limiters of \<open>rome/colosseum/qps_controller.h\<close>. The readings of \<open>Clock::now()\<close>, in
  nanoseconds, are a sequence \<open>clk\<close>; the state counts the readings taken, so that \<open>Wait\<close> reads on
  from where the last call stopped. Token counts are integers: the 64-bit product of the rate and
  the elapsed seconds is assumed not to overflow.
\<close>

section \<open>The contract of a controller\<close>

text \<open>
  What a controlled component relies on: a call of \<open>Wait\<close> returns, and the \<open>n\<close>-th call returns no
  earlier than the rate allows.
\<close>

locale rate_limiter =
  fixes wait :: "'q \<Rightarrow> 'q run" and inv :: "nat \<Rightarrow> 'q \<Rightarrow> bool"
  assumes wait_returns: "inv n q \<Longrightarrow> \<exists>q'. wait q = Some (Ret q') \<and> inv (Suc n) q'"

section \<open>The token bucket\<close>

record token_bucket =
  tb_max_qps :: int
  tb_tokens :: int
  tb_last_refill :: int
  tb_reads :: nat

definition ns_per_s :: int where "ns_per_s = 1000000000"

text \<open>\<open>duration_cast<seconds>\<close> truncates towards zero.\<close>

definition to_seconds :: "int \<Rightarrow> int" where
  "to_seconds ns = (if ns < 0 then - ((- ns) div ns_per_s) else ns div ns_per_s)"

definition make_bucket :: "(nat \<Rightarrow> int) \<Rightarrow> int \<Rightarrow> token_bucket" where
  "make_bucket clk max_qps =
     \<lparr>tb_max_qps = max_qps, tb_tokens = max_qps, tb_last_refill = clk 0, tb_reads = 1\<rparr>"

definition TryRefreshTokens :: "(nat \<Rightarrow> int) \<Rightarrow> token_bucket \<Rightarrow> token_bucket" where
  "TryRefreshTokens clk b =
     (let now = clk (tb_reads b);
          b' = b\<lparr>tb_reads := tb_reads b + 1\<rparr>;
          deposit = to_seconds (now - tb_last_refill b) * tb_max_qps b
      in if deposit > 0
         then b'\<lparr>tb_tokens := max (tb_tokens b + deposit) (tb_max_qps b), tb_last_refill := now\<rparr>
         else b')"

partial_function (option) wait_loop :: "(nat \<Rightarrow> int) \<Rightarrow> token_bucket \<Rightarrow> token_bucket option" where
  "wait_loop clk b =
     (let b' = TryRefreshTokens clk b in if tb_tokens b' = 0 then wait_loop clk b' else Some b')"

definition Wait :: "(nat \<Rightarrow> int) \<Rightarrow> token_bucket \<Rightarrow> token_bucket run" where
  "Wait clk b = (case wait_loop clk b of None \<Rightarrow> None
     | Some b' \<Rightarrow> Some (Ret (b'\<lparr>tb_tokens := tb_tokens b' - 1\<rparr>)))"

text \<open>The cycling controller: its \<open>TryUpdateQps\<close> does nothing.\<close>

record cycling_bucket =
  cy_bucket :: token_bucket
  cy_curr_qps :: int

definition TryUpdateQps :: "cycling_bucket \<Rightarrow> cycling_bucket" where
  "TryUpdateQps c = c"

partial_function (option) cycling_loop :: "(nat \<Rightarrow> int) \<Rightarrow> cycling_bucket \<Rightarrow> cycling_bucket option" where
  "cycling_loop clk c =
     (let c' = TryUpdateQps c; c'' = c'\<lparr>cy_bucket := TryRefreshTokens clk (cy_bucket c')\<rparr>
      in if tb_tokens (cy_bucket c'') = 0 then cycling_loop clk c'' else Some c'')"

definition cycling_Wait :: "(nat \<Rightarrow> int) \<Rightarrow> cycling_bucket \<Rightarrow> cycling_bucket run" where
  "cycling_Wait clk c = (case cycling_loop clk c of None \<Rightarrow> None
     | Some c' \<Rightarrow> Some (Ret (c'\<lparr>cy_bucket := (cy_bucket c')\<lparr>tb_tokens := tb_tokens (cy_bucket c') - 1\<rparr>\<rparr>)))"

section \<open>Invariant\<close>

text \<open>
  A clock that never runs backwards and passes every bound. After \<open>n\<close> calls, the tokens handed out
  and those left are what the full bucket and the whole seconds up to the last refill account for.
\<close>

definition clock_ok :: "(nat \<Rightarrow> int) \<Rightarrow> bool" where
  "clock_ok clk \<longleftrightarrow> (\<forall>i j. i \<le> j \<longrightarrow> clk i \<le> clk j) \<and> (\<forall>t. \<exists>i. t \<le> clk i)"

definition bucket_inv :: "(nat \<Rightarrow> int) \<Rightarrow> int \<Rightarrow> nat \<Rightarrow> token_bucket \<Rightarrow> bool" where
  "bucket_inv clk qps n b \<longleftrightarrow> clock_ok clk \<and> 0 < qps \<and> tb_max_qps b = qps \<and> 0 \<le> tb_tokens b \<and> 1 \<le> tb_reads b \<and>
     clk 0 \<le> tb_last_refill b \<and> tb_last_refill b \<le> clk (tb_reads b - 1) \<and>
     int n + tb_tokens b \<le> qps * (1 + (tb_last_refill b - clk 0) div ns_per_s)"

lemma to_seconds_nonneg: "0 \<le> ns \<Longrightarrow> to_seconds ns = ns div ns_per_s"
  by (simp add: to_seconds_def)

lemma ns_per_s_pos [simp]: "0 < ns_per_s"
  by (simp add: ns_per_s_def)

lemma div_add_floor: "0 < m \<Longrightarrow> (x div m + y div m :: int) \<le> (x + y) div m"
  by (simp add: div_add1_eq [of x y m] pos_imp_zdiv_nonneg_iff)

lemma refresh_inv:
  assumes i: "bucket_inv clk qps n b" shows "bucket_inv clk qps n (TryRefreshTokens clk b)"
proof -
  define now where "now = clk (tb_reads b)"
  have mono: "i \<le> j \<Longrightarrow> clk i \<le> clk j" for i j using i by (simp add: bucket_inv_def clock_ok_def)
  have now: "tb_last_refill b \<le> now" using i mono [of "tb_reads b - 1" "tb_reads b"] by (simp add: bucket_inv_def now_def)
  define secs where "secs = (now - tb_last_refill b) div ns_per_s"
  have secs: "to_seconds (now - tb_last_refill b) = secs" using now by (simp add: secs_def to_seconds_nonneg)
  show ?thesis
  proof (cases "secs * qps > 0")
    case True
    have "0 < secs" using True i by (simp add: bucket_inv_def zero_less_mult_iff)
    then have "qps \<le> secs * qps" using i by (simp add: bucket_inv_def)
    then have mx: "max (tb_tokens b + secs * qps) qps = tb_tokens b + secs * qps"
      using i unfolding bucket_inv_def by linarith
    have "(tb_last_refill b - clk 0) div ns_per_s + secs \<le> (now - clk 0) div ns_per_s"
      using div_add_floor [of ns_per_s "tb_last_refill b - clk 0" "now - tb_last_refill b"] by (simp add: secs_def)
    then have "qps * ((tb_last_refill b - clk 0) div ns_per_s + secs) \<le> qps * ((now - clk 0) div ns_per_s)"
      using i by (intro mult_left_mono) (auto simp: bucket_inv_def)
    then have "int n + (tb_tokens b + secs * qps) \<le> qps * (1 + (now - clk 0) div ns_per_s)"
      using i by (simp add: bucket_inv_def algebra_simps)
    with True i now mx show ?thesis
      by (simp add: TryRefreshTokens_def Let_def bucket_inv_def now_def [symmetric] secs)
  next
    case False
    have "clk (tb_reads b - 1) \<le> now" unfolding now_def by (rule mono) simp
    with False i show ?thesis
      by (simp add: TryRefreshTokens_def Let_def bucket_inv_def now_def [symmetric] secs)
  qed
qed

text \<open>Once the clock has moved on by a second the bucket is refilled, so the loop ends.\<close>

lemma wait_loop_returns:
  assumes "bucket_inv clk qps n b" "tb_last_refill b + ns_per_s \<le> clk i"
  shows "\<exists>b'. wait_loop clk b = Some b' \<and> bucket_inv clk qps n b' \<and> 0 < tb_tokens b'"
  using assms
proof (induction "Suc i - tb_reads b" arbitrary: b rule: less_induct)
  case less
  define b1 where "b1 = TryRefreshTokens clk b"
  have i1: "bucket_inv clk qps n b1" unfolding b1_def by (rule refresh_inv [OF less(2)])
  show ?case
  proof (cases "tb_tokens b1 = 0")
    case False
    then have "wait_loop clk b = Some b1" by (subst wait_loop.simps) (simp add: b1_def [symmetric] Let_def)
    with i1 False show ?thesis by (simp add: bucket_inv_def)
  next
    case True
    have q: "0 < qps" "tb_max_qps b = qps" "0 \<le> tb_tokens b" using less(2) by (auto simp: bucket_inv_def)
    have nd: "\<not> to_seconds (clk (tb_reads b) - tb_last_refill b) * qps > 0"
    proof
      assume d: "to_seconds (clk (tb_reads b) - tb_last_refill b) * qps > 0"
      then have "tb_tokens b1 = max (tb_tokens b + to_seconds (clk (tb_reads b) - tb_last_refill b) * qps) qps"
        by (simp add: b1_def TryRefreshTokens_def Let_def q)
      with True q show False by simp
    qed
    then have b1: "b1 = b\<lparr>tb_reads := tb_reads b + 1\<rparr>" by (simp add: b1_def TryRefreshTokens_def Let_def q)
    have "tb_reads b \<le> i"
    proof (rule ccontr)
      assume "\<not> tb_reads b \<le> i"
      then have "clk i \<le> clk (tb_reads b)" using less(2) by (simp add: bucket_inv_def clock_ok_def)
      then have "ns_per_s \<le> clk (tb_reads b) - tb_last_refill b" using less(3) by simp
      then have "0 < (clk (tb_reads b) - tb_last_refill b) div ns_per_s" by (simp add: pos_imp_zdiv_pos_iff)
      moreover have "0 \<le> clk (tb_reads b) - tb_last_refill b"
        using \<open>ns_per_s \<le> _\<close> ns_per_s_pos by linarith
      ultimately show False using nd q(1) by (simp add: to_seconds_nonneg zero_less_mult_iff)
    qed
    then have "\<exists>b'. wait_loop clk b1 = Some b' \<and> bucket_inv clk qps n b' \<and> 0 < tb_tokens b'"
      using less(3) by (intro less(1) i1) (simp_all add: b1)
    moreover have "wait_loop clk b = wait_loop clk b1"
      by (subst wait_loop.simps) (simp add: b1_def [symmetric] Let_def True)
    ultimately show ?thesis by simp
  qed
qed

lemma Wait_ok:
  assumes "bucket_inv clk qps n b"
  shows "\<exists>b'. Wait clk b = Some (Ret b') \<and> bucket_inv clk qps (Suc n) b'"
proof -
  obtain i where "tb_last_refill b + ns_per_s \<le> clk i" using assms unfolding bucket_inv_def clock_ok_def by blast
  from wait_loop_returns [OF assms this] obtain b' where
    "wait_loop clk b = Some b'" "bucket_inv clk qps n b'" "0 < tb_tokens b'" by blast
  then show ?thesis by (auto simp: Wait_def bucket_inv_def)
qed

interpretation bucket: rate_limiter "Wait clk" "bucket_inv clk qps" for clk qps
  by unfold_locales (rule Wait_ok)

fun wait_n :: "('q \<Rightarrow> 'q run) \<Rightarrow> nat \<Rightarrow> 'q \<Rightarrow> 'q run" where
  "wait_n w 0 q = Some (Ret q)"
| "wait_n w (Suc n) q = bindR (w q) (wait_n w n)"

context rate_limiter
begin

lemma wait_n_returns: "inv m q \<Longrightarrow> \<exists>q'. wait_n wait n q = Some (Ret q') \<and> inv (m + n) q'"
proof (induction n arbitrary: m q)
  case (Suc n)
  obtain q1 where q1: "wait q = Some (Ret q1)" "inv (Suc m) q1" using wait_returns [OF Suc(2)] by blast
  from Suc(1) [OF q1(2)] q1(1) show ?case by simp
qed simp

end

text \<open>The cycling controller runs the same loop on its bucket.\<close>

lemma cycling_loop_bucket:
  "wait_loop clk b = Some b' \<Longrightarrow> \<forall>c. cycling_loop clk (c\<lparr>cy_bucket := b\<rparr>) = Some (c\<lparr>cy_bucket := b'\<rparr>)"
proof (rule wait_loop.raw_induct [where P = "\<lambda>clk b b'. \<forall>c. cycling_loop clk (c\<lparr>cy_bucket := b\<rparr>) = Some (c\<lparr>cy_bucket := b'\<rparr>)"])
  fix wl clk b b'
  assume IH: "\<And>clk b b'. wl clk b = Some b' \<Longrightarrow> \<forall>c. cycling_loop clk (c\<lparr>cy_bucket := b\<rparr>) = Some (c\<lparr>cy_bucket := b'\<rparr>)"
    and eq: "(let b' = TryRefreshTokens clk b in if tb_tokens b' = 0 then wl clk b' else Some b') = Some b'"
  show "\<forall>c. cycling_loop clk (c\<lparr>cy_bucket := b\<rparr>) = Some (c\<lparr>cy_bucket := b'\<rparr>)"
  proof
    fix c
    show "cycling_loop clk (c\<lparr>cy_bucket := b\<rparr>) = Some (c\<lparr>cy_bucket := b'\<rparr>)"
      using eq IH [of clk "TryRefreshTokens clk b" b']
      by (subst cycling_loop.simps) (auto simp: Let_def TryUpdateQps_def split: if_splits)
  qed
qed

lemma cycling_Wait_ok:
  "Wait clk (cy_bucket c) = Some (Ret b') \<Longrightarrow> cycling_Wait clk c = Some (Ret (c\<lparr>cy_bucket := b'\<rparr>))"
proof -
  assume "Wait clk (cy_bucket c) = Some (Ret b')"
  then obtain b where b: "wait_loop clk (cy_bucket c) = Some b" "b' = b\<lparr>tb_tokens := tb_tokens b - 1\<rparr>"
    by (auto simp: Wait_def split: option.splits)
  have "cycling_loop clk (c\<lparr>cy_bucket := cy_bucket c\<rparr>) = Some (c\<lparr>cy_bucket := b\<rparr>)"
    using cycling_loop_bucket [OF b(1)] by blast
  then show ?thesis by (simp add: cycling_Wait_def b(2))
qed

interpretation cycling: rate_limiter "cycling_Wait clk" "\<lambda>n (c :: cycling_bucket). bucket_inv clk qps n (cy_bucket c)" for clk qps
proof
  fix n and c :: cycling_bucket
  assume "bucket_inv clk qps n (cy_bucket c)"
  then obtain b' where "Wait clk (cy_bucket c) = Some (Ret b')" "bucket_inv clk qps (Suc n) b'" using Wait_ok by blast
  then show "\<exists>q'. cycling_Wait clk c = Some (Ret q') \<and> bucket_inv clk qps (Suc n) (cy_bucket q')"
    using cycling_Wait_ok by fastforce
qed

lemma make_bucket_inv: "clock_ok clk \<Longrightarrow> 0 < qps \<Longrightarrow> bucket_inv clk qps 0 (make_bucket clk qps)"
  by (simp add: make_bucket_def bucket_inv_def)



section \<open>Bursts\<close>

lemma wait_at_rest:
  assumes "clk (tb_reads b) = tb_last_refill b" "0 < tb_tokens b"
  shows "Wait clk b = Some (Ret (b\<lparr>tb_reads := tb_reads b + 1, tb_tokens := tb_tokens b - 1\<rparr>))"
proof -
  have "TryRefreshTokens clk b = b\<lparr>tb_reads := tb_reads b + 1\<rparr>"
    using assms(1) by (simp add: TryRefreshTokens_def Let_def to_seconds_def)
  then show ?thesis using assms(2) by (simp add: Wait_def wait_loop.simps [of clk b] Let_def)
qed

lemma waits_at_rest:
  "int n \<le> tb_tokens b \<Longrightarrow> (\<And>j. tb_reads b \<le> j \<Longrightarrow> j < tb_reads b + n \<Longrightarrow> clk j = tb_last_refill b) \<Longrightarrow>
    wait_n (Wait clk) n b = Some (Ret (b\<lparr>tb_reads := tb_reads b + n, tb_tokens := tb_tokens b - int n\<rparr>))"
proof (induction n arbitrary: b)
  case (Suc n)
  define b1 where "b1 = b\<lparr>tb_reads := tb_reads b + 1, tb_tokens := tb_tokens b - 1\<rparr>"
  have "Wait clk b = Some (Ret b1)" unfolding b1_def using Suc(2,3) by (intro wait_at_rest) auto
  moreover have "wait_n (Wait clk) n b1 = Some (Ret (b1\<lparr>tb_reads := tb_reads b1 + n, tb_tokens := tb_tokens b1 - int n\<rparr>))"
    using Suc(2,3) by (intro Suc(1)) (auto simp: b1_def)
  ultimately show ?case by (simp add: b1_def)
qed simp

text \<open>
  The bucket is not capped: after \<open>k\<close> idle seconds \<open>k + 1\<close> times the rate passes in the same
  instant, one clock reading per call.
\<close>

theorem qps_idle_burst:
  assumes "0 < qps" "1 \<le> k" "n = nat ((k + 1) * qps)" "\<And>j. 1 \<le> j \<Longrightarrow> j \<le> n \<Longrightarrow> clk j = clk 0 + k * ns_per_s"
  shows "\<exists>b. wait_n (Wait clk) n (make_bucket clk qps) = Some (Ret b) \<and> tb_reads b = n + 1"
proof -
  define b where "b = make_bucket clk qps"
  have n: "int n = (k + 1) * qps" "1 \<le> n" using assms(1-3) by (auto simp: zero_less_mult_iff Suc_le_eq)
  have c1: "clk 1 = clk 0 + k * ns_per_s" using assms(4) [of 1] n by simp
  have secs: "to_seconds (k * ns_per_s) = k" using assms(2) by (simp add: to_seconds_def ns_per_s_def)
  have kq: "qps \<le> k * qps" "0 < k * qps" using assms(1,2) by (simp_all add: zero_less_mult_iff)
  define b1 where "b1 = b\<lparr>tb_reads := 2, tb_tokens := qps + k * qps, tb_last_refill := clk 1\<rparr>"
  have mx: "max (qps + k * qps) qps = qps + k * qps" using kq(2) by linarith
  have r: "TryRefreshTokens clk b = b1"
    using kq assms(1) by (simp add: b_def b1_def make_bucket_def TryRefreshTokens_def Let_def c1 [unfolded One_nat_def] secs mx)
  define b2 where "b2 = b1\<lparr>tb_tokens := tb_tokens b1 - 1\<rparr>"
  have "qps + k * qps \<noteq> 0" using kq assms(1) by linarith
  then have w: "Wait clk b = Some (Ret b2)"
    by (simp add: Wait_def wait_loop.simps [of clk b] r Let_def b2_def b1_def)
  have "wait_n (Wait clk) (n - 1) b2 = Some (Ret (b2\<lparr>tb_reads := tb_reads b2 + (n - 1), tb_tokens := tb_tokens b2 - int (n - 1)\<rparr>))"
    using n assms(4) c1 by (intro waits_at_rest) (auto simp: b2_def b1_def algebra_simps of_nat_diff)
  moreover have "wait_n (Wait clk) n b = bindR (Wait clk b) (wait_n (Wait clk) (n - 1))"
    using n(2) by (cases n) simp_all
  ultimately show ?thesis using w n(2) by (simp add: b_def [symmetric] b2_def b1_def)
qed

lemma qps_idle_burst_witness:
  "\<exists>b. wait_n (Wait (\<lambda>j. if j = 0 then 0 else 10 * ns_per_s)) 1100 (make_bucket (\<lambda>j. if j = 0 then 0 else 10 * ns_per_s) 100)
     = Some (Ret b) \<and> tb_reads b = 1101"
  using qps_idle_burst [of 100 10 1100 "\<lambda>j. if j = 0 then 0 else 10 * ns_per_s"] by simp

end
