(* ===== verification/Metrics.thy ===== *)
theory Metrics
  imports Float64
begin

text \<open>
  The metrics \<open>Counter<uint64_t>\<close> (\<open>rome/metrics/counter.h\<close>) and \<open>Stopwatch\<close>
  (\<open>rome/metrics/stopwatch.h\<close>, \<open>stopwatch.cc\<close>). The readings of the time stamp counter are
  arguments of the operations, in the order in which the code takes them; the frequency files are
  arguments of \<open>sw_Create\<close>.
\<close>

section \<open>Counter\<close>

record counter =
  ctr_name :: string
  ctr_counter :: u64

definition make_counter :: "string \<Rightarrow> counter" where
  "make_counter nm = \<lparr>ctr_name = nm, ctr_counter = 0\<rparr>"

definition make_counter_at :: "string \<Rightarrow> u64 \<Rightarrow> counter" where
  "make_counter_at nm n = \<lparr>ctr_name = nm, ctr_counter = n\<rparr>"

definition GetCounter :: "counter \<Rightarrow> u64" where "GetCounter c = ctr_counter c"

definition ctr_assign :: "counter \<Rightarrow> u64 \<Rightarrow> counter" where
  "ctr_assign c n = c\<lparr>ctr_counter := n\<rparr>"

definition ctr_add :: "counter \<Rightarrow> u64 \<Rightarrow> counter" where
  "ctr_add c rhs = c\<lparr>ctr_counter := ctr_counter c + rhs\<rparr>"

definition ctr_sub :: "counter \<Rightarrow> u64 \<Rightarrow> counter" where
  "ctr_sub c rhs = c\<lparr>ctr_counter := ctr_counter c - rhs\<rparr>"

text \<open>The increments and decrements: the new state, and for the postfix forms the old value.\<close>

definition ctr_pre_inc :: "counter \<Rightarrow> counter" where
  "ctr_pre_inc c = c\<lparr>ctr_counter := ctr_counter c + 1\<rparr>"

definition ctr_post_inc :: "counter \<Rightarrow> counter \<times> counter" where
  "ctr_post_inc c = (let old = c in (ctr_pre_inc c, old))"

definition ctr_pre_dec :: "counter \<Rightarrow> counter" where
  "ctr_pre_dec c = c\<lparr>ctr_counter := ctr_counter c - 1\<rparr>"

definition ctr_post_dec :: "counter \<Rightarrow> counter \<times> counter" where
  "ctr_post_dec c = (let old = c in (ctr_pre_dec c, old))"

definition ctr_eq_value :: "counter \<Rightarrow> u64 \<Rightarrow> bool" where
  "ctr_eq_value c n \<longleftrightarrow> ctr_counter c = n"

definition ctr_eq :: "counter \<Rightarrow> counter \<Rightarrow> bool" where
  "ctr_eq a b \<longleftrightarrow> ctr_name a = ctr_name b \<and> ctr_eq_value a (ctr_counter b)"

definition ctr_ToString :: "counter \<Rightarrow> string" where
  "ctr_ToString c = ''count: '' @ decimal (unat (ctr_counter c)) @ ''''"

text \<open>\<open>ToProto\<close>: the name and the count of the message.\<close>

definition ctr_ToProto :: "counter \<Rightarrow> string \<times> u64" where
  "ctr_ToProto c = (ctr_name c, ctr_counter c)"

definition ctr_Accumulate :: "counter \<Rightarrow> counter status_or \<Rightarrow> counter \<times> status" where
  "ctr_Accumulate c other =
     (case other of
        Inl s \<Rightarrow> (c, s)
      | Inr b \<Rightarrow>
          if \<not> ctr_name c = ctr_name b
          then (c, ErrorStatus kFailedPrecondition (''Counter name does not match: '' @ ctr_name b))
          else (ctr_add c (ctr_counter b), OkStatus))"

section \<open>Stopwatch\<close>

text \<open>
  \<open>RdtscpAcquire\<close> and \<open>RdtscpRelease\<close> read the counter as two 32-bit registers and join them.
\<close>

definition Rdtscp :: "u32 \<Rightarrow> u32 \<Rightarrow> u64" where
  "Rdtscp hi lo = push_bit 32 (ucast hi) + ucast lo"

record split =
  sp_tsc_freq_khz :: u32
  sp_start :: u64
  sp_end :: u64

record stopwatch =
  sw_name :: string
  sw_tsc_freq_khz :: u64
  sw_start :: u64
  sw_end :: u64
  sw_lap :: u64

definition kDefaultCpuFreqKhz :: u64 where "kDefaultCpuFreqKhz = 2300000"

definition make_stopwatch :: "string \<Rightarrow> u64 \<Rightarrow> u64 \<Rightarrow> stopwatch" where
  "make_stopwatch nm freq now =
     \<lparr>sw_name = nm, sw_tsc_freq_khz = freq, sw_start = now, sw_end = 0, sw_lap = now\<rparr>"

text \<open>
  \<open>Create\<close>: each frequency file is \<open>None\<close> when it cannot be opened, otherwise the number read
  from it (\<open>operator>>\<close> stores 0 when it does not hold one).
\<close>

definition sw_Create :: "string \<Rightarrow> u64 option \<Rightarrow> u64 option \<Rightarrow> u64 \<Rightarrow> stopwatch" where
  "sw_Create nm tsc_freq_file max_freq_file now =
     make_stopwatch nm
       (case tsc_freq_file of
          Some f \<Rightarrow> f
        | None \<Rightarrow> (case max_freq_file of Some f \<Rightarrow> f | None \<Rightarrow> kDefaultCpuFreqKhz)) now"

text \<open>
  \<open>KhzToGhz\<close> takes an \<open>int\<close>: the unsigned frequency is converted. The division of the elapsed
  cycles by it is a \<open>double\<close> that must fit \<open>uint64_t\<close>; \<open>std::chrono::nanoseconds\<close> holds it as
  a signed 64-bit integer.
\<close>

definition KhzToGhz :: "u32 \<Rightarrow> double" where
  "KhzToGhz khz = ddiv (double_of_int (sint khz)) 1000000"

definition split_GetRuntimeNanoseconds :: "split \<Rightarrow> int outcome" where
  "split_GetRuntimeNanoseconds sp =
     (let ghz = KhzToGhz (sp_tsc_freq_khz sp);
          ns = ddiv (double_of_int (uint (sp_end sp - sp_start sp))) ghz
      in if ghz = 0 \<or> ns \<le> -1 \<or> ns \<ge> 2 ^ 64 then Fault Undefined
         else Ret (sint (word_of_int (trunc ns) :: u64)))"

definition GetSplit :: "stopwatch \<Rightarrow> u64 \<Rightarrow> split" where
  "GetSplit w now = \<lparr>sp_tsc_freq_khz = ucast (sw_tsc_freq_khz w), sp_start = sw_start w, sp_end = now\<rparr>"

definition GetLap :: "stopwatch \<Rightarrow> u64 \<Rightarrow> u64 \<Rightarrow> stopwatch \<times> split" where
  "GetLap w now1 now2 =
     (let sp = \<lparr>sp_tsc_freq_khz = ucast (sw_tsc_freq_khz w), sp_start = sw_lap w, sp_end = now1\<rparr>
      in (w\<lparr>sw_lap := now2\<rparr>, sp))"

definition GetLapSplit :: "stopwatch \<Rightarrow> u64 \<Rightarrow> split" where
  "GetLapSplit w now = \<lparr>sp_tsc_freq_khz = ucast (sw_tsc_freq_khz w), sp_start = sw_lap w, sp_end = now\<rparr>"

definition sw_Stop :: "stopwatch \<Rightarrow> u64 \<Rightarrow> stopwatch" where
  "sw_Stop w now = w\<lparr>sw_end := now\<rparr>"

definition sw_GetRuntimeNanoseconds :: "stopwatch \<Rightarrow> int outcome" where
  "sw_GetRuntimeNanoseconds w =
     split_GetRuntimeNanoseconds \<lparr>sp_tsc_freq_khz = ucast (sw_tsc_freq_khz w), sp_start = sw_start w, sp_end = sw_end w\<rparr>"

definition sw_ToString :: "stopwatch \<Rightarrow> string outcome" where
  "sw_ToString w =
     bindO (sw_GetRuntimeNanoseconds w) (\<lambda>n.
       Ret (''runtime: '' @ (if n < 0 then ''-'' else '''') @ decimal (nat \<bar>n\<bar>) @ '' ns''))"

definition sw_ToProto :: "stopwatch \<Rightarrow> (string \<times> u64) outcome" where
  "sw_ToProto w = bindO (sw_GetRuntimeNanoseconds w) (\<lambda>n. Ret (sw_name w, word_of_int n))"

section \<open>Merging counters\<close>

text \<open>What the workers' counters add up to: those with the counter's own name, modulo \<open>2^64\<close>.\<close>

fun ctr_merge :: "counter \<Rightarrow> counter status_or list \<Rightarrow> counter \<times> status list" where
  "ctr_merge c [] = (c, [])"
| "ctr_merge c (x # xs) = (case ctr_Accumulate c x of (c', s) \<Rightarrow>
     case ctr_merge c' xs of (c'', ss) \<Rightarrow> (c'', s # ss))"

fun same_name :: "string \<Rightarrow> counter status_or \<Rightarrow> nat" where
  "same_name nm (Inl s) = 0"
| "same_name nm (Inr b) = (if ctr_name b = nm then unat (ctr_counter b) else 0)"

lemma unat_u64_mod [simp]: "unat (w :: u64) mod 18446744073709551616 = unat w"
proof -
  have "unat w < 2 ^ 64" by (rule order_less_le_trans [OF unsigned_less]) simp
  then show ?thesis by simp
qed

text \<open>
  Accumulating any list of results leaves the name alone, adds exactly the counters of the
  same name modulo \<open>2^64\<close>, whatever their order, and reports a failure for each of the others.
\<close>

theorem counter_accumulate:
  "\<exists>c' ss. ctr_merge c xs = (c', ss) \<and> ctr_name c' = ctr_name c \<and>
     unat (GetCounter c') = (unat (GetCounter c) + (\<Sum>x\<leftarrow>xs. same_name (ctr_name c) x)) mod 2 ^ 64 \<and>
     ss = map (\<lambda>x. case x of Inl s \<Rightarrow> s | Inr b \<Rightarrow> if ctr_name c = ctr_name b then OkStatus
       else ErrorStatus kFailedPrecondition (''Counter name does not match: '' @ ctr_name b)) xs"
proof (induction xs arbitrary: c)
  case Nil
  then show ?case by (simp add: GetCounter_def)
next
  case (Cons x xs)
  obtain c1 s where a: "ctr_Accumulate c x = (c1, s)" by force
  have nm: "ctr_name c1 = ctr_name c" and
    n: "unat (GetCounter c1) = (unat (GetCounter c) + same_name (ctr_name c) x) mod 2 ^ 64" and
    s: "s = (case x of Inl s \<Rightarrow> s | Inr b \<Rightarrow> if ctr_name c = ctr_name b then OkStatus
       else ErrorStatus kFailedPrecondition (''Counter name does not match: '' @ ctr_name b))"
    using a by (auto simp: ctr_Accumulate_def ctr_add_def GetCounter_def unat_word_ariths
        split: sum.splits if_splits)
  obtain c2 ss where r: "ctr_merge c1 xs = (c2, ss)" by force
  from Cons [of c1] r nm n a s show ?case by (simp add: mod_simps add.assoc)
qed

section \<open>The measured time\<close>

lemma round_half_even_err: "\<bar>of_int (round_half_even y) - y\<bar> \<le> 1 / 2"
proof -
  have "of_int \<lfloor>y\<rfloor> \<le> y" "y < of_int \<lfloor>y\<rfloor> + 1" by linarith+
  then show ?thesis by (auto simp: round_half_even_def Let_def abs_le_iff)
qed

lemma fl_err:
  assumes "0 < x" shows "\<bar>fl x - x\<bar> \<le> x * 2 powi (- 53)"
proof -
  define u :: rat where "u = 2 powi (ilog2 x - 52)"
  have u: "u > 0" by (simp add: u_def)
  have "\<bar>of_int (round_half_even (x / u)) - x / u\<bar> * u \<le> 1 / 2 * u"
    using round_half_even_err u by (intro mult_right_mono) auto
  then have "\<bar>(of_int (round_half_even (x / u)) - x / u) * u\<bar> \<le> u / 2"
    using u by (simp add: abs_mult)
  then have "\<bar>fl x - x\<bar> \<le> u / 2"
    using u unfolding fl_pos_eq [OF assms] u_def [symmetric] by (simp add: left_diff_distrib)
  also have "u / 2 = 2 powi ilog2 x * 2 powi (- 53)" by (simp add: u_def power_int_diff power_int_minus)
  also have "\<dots> \<le> x * 2 powi (- 53)" using ilog2_bounds(1) [OF assms] by (intro mult_right_mono) auto
  finally show ?thesis .
qed

text \<open>Two roundings: the frequency in GHz and the quotient by it.\<close>

lemma quotient_err:
  assumes d: "0 \<le> d" and f: "0 < (f::rat)"
  shows "0 \<le> fl (d / fl f) \<and> \<bar>fl (d / fl f) - d / f\<bar> \<le> d / f / 2 ^ 51"
proof (cases "d = 0")
  case False
  define e :: rat where "e = 1 / 2 ^ 53"
  have e: "0 < e" "e < 1 / 4" "2 powi (- 53) = e" by (simp_all add: e_def power_int_minus)
  define g where "g = fl f"
  have g: "f * (1 - e) \<le> g" "g \<le> f * (1 + e)"
    using fl_err [OF f] unfolding g_def e(3) by (auto simp: abs_le_iff algebra_simps)
  have "0 < f * (1 - e)" using f e by simp
  then have g0: "0 < g" using g(1) by linarith
  have dg: "0 < d / g" using False d g0 by simp
  have q: "d / g * (1 - e) \<le> fl (d / g)" "fl (d / g) \<le> d / g * (1 + e)"
    using fl_err [OF dg] unfolding e(3) abs_le_iff right_diff_distrib distrib_left by linarith+
  define D where "D = d / f"
  have D: "0 \<le> D" using d f by (simp add: D_def)
  have 1: "D * f = d" using f by (simp add: D_def)
  have "d / g \<le> d / (f * (1 - e))" using g(1) d \<open>0 < f * (1 - e)\<close> by (intro divide_left_mono) auto
  also have "\<dots> = D / (1 - e)" by (simp add: D_def)
  finally have up: "d / g \<le> D / (1 - e)" .
  have "d / (f * (1 + e)) \<le> d / g" using g(2) d g0 f e by (intro divide_left_mono) auto
  then have lo: "D / (1 + e) \<le> d / g" by (simp add: D_def)
  have "fl (d / g) \<le> D / (1 - e) * (1 + e)" using q(2) up e by (meson mult_right_mono order_trans add_nonneg_nonneg less_imp_le zero_le_one)
  also have "\<dots> = D * ((1 + e) / (1 - e))" by simp
  also have "(1 + e) / (1 - e) \<le> 1 + 4 * e" using e(1,2) by (simp add: field_simps)
  finally have hi: "fl (d / g) \<le> D * (1 + 4 * e)" using D by (meson mult_left_mono order_trans)
  have "D * (1 - 4 * e) \<le> D * ((1 - e) / (1 + e))" using D e(1,2) by (intro mult_left_mono) (simp_all add: field_simps)
  also have "\<dots> = D / (1 + e) * (1 - e)" by simp
  also have "\<dots> \<le> d / g * (1 - e)" using lo e by (intro mult_right_mono) auto
  finally have lw: "D * (1 - 4 * e) \<le> fl (d / g)" using q(1) by linarith
  have "4 * e = 1 / 2 ^ 51" by (simp add: e_def)
  then have De: "D * (4 * e) = D / 2 ^ 51" by simp
  have "fl (d / g) - D \<le> D * (4 * e)" "- (fl (d / g) - D) \<le> D * (4 * e)"
    using hi lw unfolding right_diff_distrib distrib_left by linarith+
  then have "\<bar>fl (d / g) - D\<bar> \<le> D / 2 ^ 51" unfolding De [symmetric] abs_le_iff by (rule conjI)
  moreover have "0 \<le> fl (d / g)" by (rule fl_nonneg) (rule less_imp_le [OF dg])
  ultimately show ?thesis by (simp add: D_def g_def)
qed simp

text \<open>
  With the clock running at \<open>freq\<close> KHz (below \<open>2^31\<close>), a stopwatch started at reading
  \<open>t0\<close> and stopped at \<open>t1\<close> reports the elapsed time in nanoseconds with an error of at most
  one nanosecond plus a relative \<open>2^-51\<close>, as long as the time is below \<open>2^62\<close> ns and the cycles
  below \<open>2^53\<close>.
\<close>

theorem stopwatch_runtime:
  assumes "0 < freq" "freq < 2 ^ 31" "t0 \<le> t1" "uint t1 - uint t0 \<le> 2 ^ 53"
    and "(elapsed::rat) = of_int (uint t1 - uint t0) * 10 ^ 6 / of_int (uint freq)" "elapsed < 2 ^ 62"
  shows "\<exists>n. sw_GetRuntimeNanoseconds (sw_Stop (make_stopwatch nm freq t0) t1) = Ret n \<and>
    \<bar>of_int n - elapsed\<bar> \<le> 1 + elapsed / 2 ^ 51"
proof -
  define d where "d = uint t1 - uint t0"
  define g where "g = KhzToGhz (ucast freq)"
  define q where "q = ddiv (double_of_int d) g"
  have d: "uint (t1 - t0) = d" using assms(3) by (simp add: d_def uint_sub_if' word_le_def)
  have d0: "0 \<le> d" "d \<le> 2 ^ 53" using assms(3,4) by (auto simp: d_def word_le_def)
  have fr: "0 < uint freq" "uint freq < 2 ^ 31" using assms(1,2) by (simp_all add: word_less_def)
  have "sint (ucast freq :: u32) = uint freq" using fr
    by (simp add: signed_ucast_eq sint_uint signed_take_bit_int_eq_self unsigned_ucast_eq take_bit_int_eq_self)
  then have gh: "g = fl (of_int (uint freq) / 10 ^ 6)"
    using fr by (simp add: g_def KhzToGhz_def ddiv_def double_of_int_exact)
  have f0: "0 < rat_of_int (uint freq) / 10 ^ 6"
    using fr(1) by (intro divide_pos_pos) (simp_all only: of_int_0_less_iff zero_less_power zero_less_numeral)
  have g0: "0 < g" using fl_binade(1) [OF f0] unfolding gh by (rule order_less_le_trans [rotated]) simp
  have el: "elapsed = of_int d / (of_int (uint freq) / 10 ^ 6)" using assms(5) by (simp add: d_def)
  have q: "q = fl (of_int d / fl (of_int (uint freq) / 10 ^ 6))"
    using d0 by (simp add: q_def ddiv_def double_of_int_exact gh)
  have qe: "0 \<le> q" "\<bar>q - elapsed\<bar> \<le> elapsed / 2 ^ 51"
    using quotient_err [OF _ f0, of "of_int d"] d0 unfolding q el by simp_all
  have "q - elapsed \<le> elapsed / 2 ^ 51" using qe(2) unfolding abs_le_iff by blast
  moreover have "elapsed / 2 ^ 51 \<le> elapsed"
    using order_trans [OF abs_ge_zero qe(2)] by (simp add: divide_le_eq)
  ultimately have big: "q < 2 ^ 63" using assms(6) by simp
  have tq: "trunc q = \<lfloor>q\<rfloor>" using qe(1) by (simp add: trunc_def)
  have tr: "0 \<le> trunc q" "of_int (trunc q) \<le> q" "q < of_int (trunc q) + 1"
    unfolding tq using qe(1) by (simp, linarith, linarith)
  have "rat_of_int (trunc q) < of_int (2 ^ 63)" using tr(2) big by simp
  then have t63: "trunc q < 2 ^ 63" by (simp only: of_int_less_iff)
  have s: "sint (word_of_int (trunc q) :: u64) = trunc q" using tr(1) t63
    by (simp add: sint_uint uint_word_of_int signed_take_bit_int_eq_self)
  have r: "sw_GetRuntimeNanoseconds (sw_Stop (make_stopwatch nm freq t0) t1) = Ret (trunc q)"
    using g0 qe(1) big
    by (simp add: sw_GetRuntimeNanoseconds_def split_GetRuntimeNanoseconds_def sw_Stop_def make_stopwatch_def
      d Let_def g_def [symmetric] q_def [symmetric] s)
  have "\<bar>of_int (trunc q) - elapsed\<bar> \<le> 1 + elapsed / 2 ^ 51"
    using tr qe(2) unfolding abs_le_iff by linarith
  with r show ?thesis by blast
qed

lemma stopwatch_runtime_witness:
  "\<exists>n. sw_GetRuntimeNanoseconds (sw_Stop (make_stopwatch ''t'' 2300000 1000) 2301000) = Ret n \<and>
    \<bar>of_int n - (1000000::rat)\<bar> \<le> 1 + 1000000 / 2 ^ 51"
  by (rule stopwatch_runtime) simp_all

end
