(* ===== verification/ATree.thy ===== *)
theory ATree
  imports Rome_Prelude "HOL-Library.Tree"
begin

text \<open>
  \<open>ATree<Key, V, M, Visitor>\<close> of \<open>rome/internal/atree/atree.h\<close>: an augmented binary search
  tree of heap-allocated nodes with raw child pointers. The nodes live in an explicit memory
  (a partial map from addresses to nodes), so that aliasing, dangling pointers and cycles are
  visible. \<open>EmptyValue\<close> and \<open>EmptyMetadata\<close> are the type \<open>unit\<close>. A dereference of a null or
  unallocated pointer is a \<open>Fault\<close>; the pointer-chasing loops are \<open>partial_function\<close>s whose
  \<open>None\<close> is a loop that never ends.
\<close>

section \<open>Nodes and the memory\<close>

record ('k, 'v, 'm) node =
  n_key :: 'k
  n_value :: 'v
  n_metadata :: 'm
  n_left :: ptr
  n_right :: ptr

type_synonym ('k, 'v, 'm) nodes = "nat \<Rightarrow> ('k, 'v, 'm) node option"

definition new_node :: "'k \<Rightarrow> 'v \<Rightarrow> 'm \<Rightarrow> ('k, 'v, 'm) node" where
  "new_node key val metadata =
     \<lparr>n_key = key, n_value = val, n_metadata = metadata, n_left = Nullptr, n_right = Nullptr\<rparr>"

definition load :: "('k, 'v, 'm) nodes \<Rightarrow> ptr \<Rightarrow> ('k, 'v, 'm) node outcome" where
  "load h p = (case p of Nullptr \<Rightarrow> Fault Null_Deref
     | Ptr a \<Rightarrow> (case h a of None \<Rightarrow> Fault Dangling | Some n \<Rightarrow> Ret n))"

definition modify ::
  "(('k, 'v, 'm) node \<Rightarrow> ('k, 'v, 'm) node) \<Rightarrow> ('k, 'v, 'm) nodes \<Rightarrow> ptr \<Rightarrow> ('k, 'v, 'm) nodes outcome"
where
  "modify f h p = (case p of Nullptr \<Rightarrow> Fault Null_Deref
     | Ptr a \<Rightarrow> (case h a of None \<Rightarrow> Fault Dangling | Some n \<Rightarrow> Ret (h(a \<mapsto> f n))))"

definition set_left :: "('k, 'v, 'm) nodes \<Rightarrow> ptr \<Rightarrow> ptr \<Rightarrow> ('k, 'v, 'm) nodes outcome" where
  "set_left h p n = modify (\<lambda>x. x\<lparr>n_left := n\<rparr>) h p"

definition set_right :: "('k, 'v, 'm) nodes \<Rightarrow> ptr \<Rightarrow> ptr \<Rightarrow> ('k, 'v, 'm) nodes outcome" where
  "set_right h p n = modify (\<lambda>x. x\<lparr>n_right := n\<rparr>) h p"

definition set_value :: "('k, 'v, 'm) nodes \<Rightarrow> ptr \<Rightarrow> 'v \<Rightarrow> ('k, 'v, 'm) nodes outcome" where
  "set_value h p v = modify (\<lambda>x. x\<lparr>n_value := v\<rparr>) h p"

definition set_metadata :: "('k, 'v, 'm) nodes \<Rightarrow> ptr \<Rightarrow> 'm \<Rightarrow> ('k, 'v, 'm) nodes outcome" where
  "set_metadata h p m = modify (\<lambda>x. x\<lparr>n_metadata := m\<rparr>) h p"

text \<open>\<open>delete p\<close>: the memory of the node is released.\<close>

definition delete_node :: "('k, 'v, 'm) nodes \<Rightarrow> ptr \<Rightarrow> ('k, 'v, 'm) nodes outcome" where
  "delete_node h p = (case p of Nullptr \<Rightarrow> Ret h
     | Ptr a \<Rightarrow> (case h a of None \<Rightarrow> Fault Dangling | Some _ \<Rightarrow> Ret (h(a := None))))"

text \<open>The visitor: the four callbacks of \<open>VisitorInterface\<close> (\<open>visitor.h\<close>).\<close>

record ('k, 'v, 'm) visitor =
  OnInsert :: "('k, 'v, 'm) nodes \<Rightarrow> ptr \<Rightarrow> ('k, 'v, 'm) nodes outcome"
  OnRemove :: "('k, 'v, 'm) nodes \<Rightarrow> ptr \<Rightarrow> ('k, 'v, 'm) nodes outcome"
  OnUpdate :: "('k, 'v, 'm) nodes \<Rightarrow> ptr \<Rightarrow> ('k, 'v, 'm) nodes outcome"
  Update :: "('k, 'v, 'm) nodes \<Rightarrow> ptr \<Rightarrow> 'v \<Rightarrow> 'm \<Rightarrow> ('k, 'v, 'm) nodes outcome"

definition EmptyVisitor :: "('k, unit, unit) visitor" where
  "EmptyVisitor = \<lparr>OnInsert = (\<lambda>h p. Ret h), OnRemove = (\<lambda>h p. Ret h),
     OnUpdate = (\<lambda>h p. Ret h), Update = (\<lambda>h p v m. Ret h)\<rparr>"

section \<open>The tree object\<close>

text \<open>
  The object: the memory of nodes, the address the next \<open>new\<close> returns (any unused address),
  \<open>size_\<close> and \<open>cleared_\<close>. The member \<open>root_\<close> is the node at \<open>root_addr\<close>; the tree hangs off
  its left child.
\<close>

record ('k, 'v, 'm) atree =
  at_mem :: "('k, 'v, 'm) nodes"
  at_fresh :: nat
  at_size :: int
  at_cleared :: "ptr list"

definition root_addr :: nat where
  "root_addr = 0"

abbreviation root_ptr :: ptr where
  "root_ptr \<equiv> Ptr root_addr"

definition make_atree :: "'k \<Rightarrow> 'v \<Rightarrow> 'm \<Rightarrow> ('k, 'v, 'm) atree" where
  "make_atree k0 v0 m0 = \<lparr>at_mem = [root_addr \<mapsto> new_node k0 v0 m0], at_fresh = Suc root_addr,
     at_size = 0, at_cleared = []\<rparr>"

definition Size :: "('k, 'v, 'm) atree \<Rightarrow> int" where
  "Size t = at_size t"

text \<open>
  \<open>FindInternal\<close>. The optional \<open>std::deque\<close> that collects the visited nodes is a list whose
  head is the deque's back.
\<close>

partial_function (option) find_loop ::
  "('k::linorder, 'v, 'm) nodes \<Rightarrow> 'k \<Rightarrow> ptr \<Rightarrow> ptr \<Rightarrow> ptr list option \<Rightarrow> (ptr \<times> ptr \<times> ptr list option) run"
where
  "find_loop h key parent cur stack =
     (if cur = Nullptr then Some (Ret (parent, cur, stack))
      else case load h cur of
        Fault e \<Rightarrow> Some (Fault e)
      | Ret n \<Rightarrow>
          if n_key n = key then Some (Ret (parent, cur, stack))
          else find_loop h key cur
                 (if key > n_key n then n_right n else n_left n)
                 (map_option (\<lambda>s. cur # s) stack))"

definition FindInternal ::
  "('k::linorder, 'v, 'm) nodes \<Rightarrow> 'k \<Rightarrow> ptr list option \<Rightarrow> (ptr \<times> ptr \<times> ptr list option) run"
where
  "FindInternal h key stack =
     bindR (Some (load h root_ptr)) (\<lambda>r. find_loop h key root_ptr (n_left r) stack)"

definition Find :: "('k::linorder, 'v, 'm) atree \<Rightarrow> 'k \<Rightarrow> ptr status_or run" where
  "Find t key =
     bindR (FindInternal (at_mem t) key None) (\<lambda>(parent, cur, stack).
       if cur \<noteq> Nullptr then
         bindR (Some (load (at_mem t) cur)) (\<lambda>n.
           if n_key n = key then Some (Ret (Inr cur))
           else Some (Ret (Inl (ErrorStatus kNotFound ''Key not found''))))
       else Some (Ret (Inl (ErrorStatus kNotFound ''Key not found''))))"

definition InsertInternal ::
  "('k::linorder, 'v, 'm) atree \<Rightarrow> 'k \<Rightarrow> 'v \<Rightarrow> 'm \<Rightarrow> ptr \<Rightarrow> (('k, 'v, 'm) atree \<times> ptr) outcome"
where
  "InsertInternal t key val metadata parent =
     (let a = at_fresh t;
          h = (at_mem t)(a \<mapsto> new_node key val metadata)
      in bindO
        (if parent = root_ptr then set_left h parent (Ptr a)
         else bindO (load h parent) (\<lambda>p.
           if key < n_key p then set_left h parent (Ptr a) else set_right h parent (Ptr a)))
        (\<lambda>h'. Ret (t\<lparr>at_mem := h', at_fresh := Suc a, at_size := at_size t + 1\<rparr>, Ptr a)))"

text \<open>\<open>while (!stack.empty()) { f(stack.back()); stack.pop_back(); }\<close>\<close>

fun visit_stack ::
  "(('k, 'v, 'm) nodes \<Rightarrow> ptr \<Rightarrow> ('k, 'v, 'm) nodes outcome) \<Rightarrow> ('k, 'v, 'm) nodes \<Rightarrow> ptr list
   \<Rightarrow> ('k, 'v, 'm) nodes outcome"
where
  "visit_stack f h [] = Ret h"
| "visit_stack f h (p # ps) = bindO (f h p) (\<lambda>h'. visit_stack f h' ps)"

text \<open>
  The code after \<open>FindInternal\<close> that \<open>Insert\<close> and \<open>InsertOrUpdate\<close> share: insert a new node
  below \<open>parent\<close>, call \<open>OnInsert\<close> on it and on every node of the stack.
\<close>

definition insert_below ::
  "('k::linorder, 'v, 'm) visitor \<Rightarrow> ('k, 'v, 'm) atree \<Rightarrow> 'k \<Rightarrow> 'v \<Rightarrow> 'm \<Rightarrow> ptr \<Rightarrow> ptr list
   \<Rightarrow> (('k, 'v, 'm) atree \<times> status) outcome"
where
  "insert_below vis t key val metadata parent stack =
     bindO (InsertInternal t key val metadata parent) (\<lambda>(t', new_node).
     bindO (OnInsert vis (at_mem t') new_node) (\<lambda>h1.
     bindO (visit_stack (OnInsert vis) h1 stack) (\<lambda>h2.
     Ret (t'\<lparr>at_mem := h2\<rparr>, OkStatus))))"

definition Insert ::
  "('k::linorder, 'v, 'm) visitor \<Rightarrow> ('k, 'v, 'm) atree \<Rightarrow> 'k \<Rightarrow> 'v \<Rightarrow> 'm \<Rightarrow> (('k, 'v, 'm) atree \<times> status) run"
where
  "Insert vis t key val metadata =
     bindR (FindInternal (at_mem t) key (Some [])) (\<lambda>(parent, cur, stack).
     bindR (if cur = Nullptr then Some (Ret False)
            else bindR (Some (load (at_mem t) cur)) (\<lambda>n. Some (Ret (n_key n = key)))) (\<lambda>exists.
     if exists then Some (Ret (t, ErrorStatus kAlreadyExists ''Key already exists''))
     else Some (insert_below vis t key val metadata parent (the stack))))"

definition InsertOrUpdate ::
  "('k::linorder, 'v, 'm) visitor \<Rightarrow> ('k, 'v, 'm) atree \<Rightarrow> 'k \<Rightarrow> 'v \<Rightarrow> 'm \<Rightarrow> (('k, 'v, 'm) atree \<times> status) run"
where
  "InsertOrUpdate vis t key val metadata =
     bindR (FindInternal (at_mem t) key (Some [])) (\<lambda>(parent, cur, stack).
     bindR (if cur = Nullptr then Some (Ret False)
            else bindR (Some (load (at_mem t) cur)) (\<lambda>n. Some (Ret (n_key n = key)))) (\<lambda>exists.
     if exists then
       Some (bindO (Update vis (at_mem t) cur val metadata) (\<lambda>h1.
             bindO (visit_stack (OnUpdate vis) h1 (the stack)) (\<lambda>h2.
             Ret (t\<lparr>at_mem := h2\<rparr>, OkStatus))))
     else Some (insert_below vis t key val metadata parent (the stack))))"

definition ReplaceChild ::
  "('k, 'v, 'm) nodes \<Rightarrow> ptr \<Rightarrow> ptr \<Rightarrow> ptr \<Rightarrow> ('k, 'v, 'm) nodes outcome"
where
  "ReplaceChild h parent child new =
     bindO (load h parent) (\<lambda>p.
       if n_left p = child then set_left h parent new
       else assertO (n_right p = child) (set_right h parent new))"

partial_function (option) leftmost_loop :: "('k, 'v, 'm) nodes \<Rightarrow> ptr \<Rightarrow> ptr run" where
  "leftmost_loop h cur =
     (case load h cur of
        Fault e \<Rightarrow> Some (Fault e)
      | Ret n \<Rightarrow> if n_left n \<noteq> Nullptr then leftmost_loop h (n_left n) else Some (Ret cur))"

definition FindSuccessors :: "('k, 'v, 'm) nodes \<Rightarrow> ptr \<Rightarrow> (ptr \<times> ptr) run" where
  "FindSuccessors h cur =
     (if cur = Nullptr then Some (Ret (Nullptr, Nullptr))
      else bindR (Some (load h cur)) (\<lambda>n.
        if n_right n = Nullptr then Some (Ret (cur, Nullptr))
        else (let parent = cur in
          bindR (leftmost_loop h (n_right n)) (\<lambda>cur'. Some (Ret (parent, cur'))))))"

text \<open>\<open>dst->set_left(src->left()); dst->set_right(src->right());\<close>\<close>

definition copy_children :: "('k, 'v, 'm) nodes \<Rightarrow> ptr \<Rightarrow> ptr \<Rightarrow> ('k, 'v, 'm) nodes outcome" where
  "copy_children h dst src =
     bindO (load h src) (\<lambda>s. bindO (set_left h dst (n_left s)) (\<lambda>h1.
     bindO (load h1 src) (\<lambda>s1. set_right h1 dst (n_right s1))))"

definition unlink ::
  "('k, 'v, 'm) nodes \<Rightarrow> ptr \<Rightarrow> ptr \<Rightarrow> ptr \<times> ptr \<Rightarrow> ('k, 'v, 'm) nodes outcome"
where
  "unlink h parent found succ =
     (if snd succ = Nullptr then ReplaceChild h parent found Nullptr
      else if fst succ = found then
        bindO (copy_children h (snd succ) found) (\<lambda>h1. ReplaceChild h1 parent found (snd succ))
      else
        bindO (load h (snd succ)) (\<lambda>s. bindO (set_left h (fst succ) (n_right s)) (\<lambda>h0.
        bindO (copy_children h0 (snd succ) found) (\<lambda>h1. ReplaceChild h1 parent found (snd succ)))))"

definition Remove ::
  "('k::linorder, 'v, 'm) visitor \<Rightarrow> ('k, 'v, 'm) atree \<Rightarrow> 'k \<Rightarrow> (('k, 'v, 'm) atree \<times> status) run"
where
  "Remove vis t key =
     bindR (FindInternal (at_mem t) key (Some [])) (\<lambda>(parent, found, stack).
     if found = Nullptr then Some (Ret (t, ErrorStatus kNotFound ''Key not found''))
     else bindR (FindSuccessors (at_mem t) found) (\<lambda>successors.
       Some (bindO (unlink (at_mem t) parent found successors) (\<lambda>h1.
             bindO (visit_stack (OnRemove vis) h1 (the stack)) (\<lambda>h2.
             bindO (delete_node h2 found) (\<lambda>h3.
             Ret (t\<lparr>at_mem := h3, at_size := at_size t - 1\<rparr>, OkStatus)))))))"

definition Clear :: "('k, 'v, 'm) atree \<Rightarrow> ('k, 'v, 'm) atree outcome" where
  "Clear t =
     bindO (load (at_mem t) root_ptr) (\<lambda>r.
     let old = n_left r in
     bindO (set_left (at_mem t) root_ptr Nullptr) (\<lambda>h.
     Ret (t\<lparr>at_mem := h, at_cleared := at_cleared t @ [old], at_size := 0\<rparr>)))"

text \<open>The destructor: an explicit stack (its back is the list's head) per detached tree.\<close>

partial_function (option) delete_loop :: "('k, 'v, 'm) nodes \<Rightarrow> ptr list \<Rightarrow> ('k, 'v, 'm) nodes run" where
  "delete_loop h to_delete =
     (case to_delete of [] \<Rightarrow> Some (Ret h)
      | cur # rest \<Rightarrow>
          if cur = Nullptr then delete_loop h rest
          else (case load h cur of
              Fault e \<Rightarrow> Some (Fault e)
            | Ret n \<Rightarrow> (case delete_node h cur of
                  Fault e \<Rightarrow> Some (Fault e)
                | Ret h' \<Rightarrow> delete_loop h' (n_right n # n_left n # rest))))"

fun delete_all :: "('k, 'v, 'm) nodes \<Rightarrow> ptr list \<Rightarrow> ('k, 'v, 'm) nodes run" where
  "delete_all h [] = Some (Ret h)"
| "delete_all h (c # cs) = bindR (delete_loop h [c]) (\<lambda>h'. delete_all h' cs)"

definition destroy :: "('k, 'v, 'm) atree \<Rightarrow> ('k, 'v, 'm) nodes run" where
  "destroy t =
     bindR (Some (load (at_mem t) root_ptr)) (\<lambda>r.
       delete_all (at_mem t) (at_cleared t @ [n_left r]))"

end
