(* ===== verification/ATree_Shape.thy ===== *)
theory ATree_Shape
  imports ATree
begin

text \<open>
  The abstraction of the node memory: the \<^emph>\<open>shape\<close> of a tree (a functional binary tree of
  addresses and keys) that a root pointer denotes, and the facts that relate the pointer
  operations of \<open>ATree\<close> to functions on shapes: the search path, the insertion of a leaf, the
  deletion of a subtree. Two updates matter: those that change links, and those that change only
  values and metadata, which leave every shape as it is.
\<close>

section \<open>Loads and stores\<close>

lemma load_simps [simp]:
  "load h Nullptr = Fault Null_Deref"
  "h a = Some n \<Longrightarrow> load h (Ptr a) = Ret n"
  by (simp_all add: load_def)

lemma load_eq_Ret: "load h p = Ret n \<longleftrightarrow> (\<exists>a. p = Ptr a \<and> h a = Some n)"
  by (auto simp: load_def split: ptr.splits option.splits)

lemma modify_simps [simp]:
  "h a = Some n \<Longrightarrow> modify f h (Ptr a) = Ret (h(a \<mapsto> f n))"
  by (simp add: modify_def)

lemmas set_defs = set_left_def set_right_def set_value_def set_metadata_def

lemma delete_node_simps [simp]:
  "h a = Some n \<Longrightarrow> delete_node h (Ptr a) = Ret (h(a := None))"
  by (simp add: delete_node_def)

section \<open>Shapes\<close>

type_synonym 'k shape = "(nat \<times> 'k) tree"

fun shape_at :: "('k, 'v, 'm) nodes \<Rightarrow> ptr \<Rightarrow> 'k shape \<Rightarrow> bool" where
  "shape_at h p \<langle>\<rangle> \<longleftrightarrow> p = Nullptr"
| "shape_at h p \<langle>l, (a, k), r\<rangle> \<longleftrightarrow>
     p = Ptr a \<and> (\<exists>n. h a = Some n \<and> n_key n = k \<and> shape_at h (n_left n) l \<and> shape_at h (n_right n) r)"

fun addrs :: "'k shape \<Rightarrow> nat list" where
  "addrs \<langle>\<rangle> = []"
| "addrs \<langle>l, (a, k), r\<rangle> = addrs l @ a # addrs r"

fun keys :: "'k shape \<Rightarrow> 'k list" where
  "keys \<langle>\<rangle> = []"
| "keys \<langle>l, (a, k), r\<rangle> = keys l @ k # keys r"

fun ordered :: "'k::linorder shape \<Rightarrow> bool" where
  "ordered \<langle>\<rangle> = True"
| "ordered \<langle>l, (a, k), r\<rangle> \<longleftrightarrow>
     ordered l \<and> ordered r \<and> (\<forall>x \<in> set (keys l). x < k) \<and> (\<forall>x \<in> set (keys r). k < x)"

fun shape_root :: "'k shape \<Rightarrow> ptr" where
  "shape_root \<langle>\<rangle> = Nullptr"
| "shape_root \<langle>l, (a, k), r\<rangle> = Ptr a"

lemma shape_at_root: "shape_at h p s \<Longrightarrow> p = shape_root s"
  by (cases "(h, p, s)" rule: shape_at.cases) auto

lemma length_addrs: "length (addrs s) = size s"
  by (induction s rule: addrs.induct) auto

lemma shape_at_dom: "shape_at h p s \<Longrightarrow> set (addrs s) \<subseteq> dom h"
  by (induction h p s rule: shape_at.induct) fastforce+

lemma shape_at_alloc: "shape_at h p s \<Longrightarrow> a \<in> set (addrs s) \<Longrightarrow> \<exists>n. h a = Some n"
  using shape_at_dom by fastforce

lemma shape_at_unique: "shape_at h p s \<Longrightarrow> shape_at h p s' \<Longrightarrow> s = s'"
proof (induction h p s arbitrary: s' rule: shape_at.induct)
  case (1 h p)
  then show ?case by (cases "(h, p, s')" rule: shape_at.cases) auto
next
  case (2 h p l a k r)
  from 2(4) \<open>shape_at h p \<langle>l, (a, k), r\<rangle>\<close> obtain l' r' where "s' = \<langle>l', (a, k), r'\<rangle>"
    by (cases "(h, p, s')" rule: shape_at.cases) auto
  with 2 show ?case by auto
qed

text \<open>The links of a node: what a shape depends on.\<close>

definition links :: "('k, 'v, 'm) nodes \<Rightarrow> nat \<Rightarrow> ('k \<times> ptr \<times> ptr) option" where
  "links h a = map_option (\<lambda>n. (n_key n, n_left n, n_right n)) (h a)"

lemma links_Some: "links h a = Some (k, l, r) \<longleftrightarrow>
    (\<exists>n. h a = Some n \<and> n_key n = k \<and> n_left n = l \<and> n_right n = r)"
  by (auto simp: links_def)

lemma links_upd:
  "h a = Some n \<Longrightarrow> n_key n' = n_key n \<Longrightarrow> n_left n' = n_left n \<Longrightarrow> n_right n' = n_right n \<Longrightarrow>
   links (h(a \<mapsto> n')) b = links h b"
  by (simp add: links_def)

lemma shape_at_links:
  "(\<And>a. a \<in> set (addrs s) \<Longrightarrow> links h' a = links h a) \<Longrightarrow> shape_at h p s \<Longrightarrow> shape_at h' p s"
proof (induction h p s rule: shape_at.induct)
  case (1 h p)
  then show ?case by simp
next
  case (2 h p l a k r)
  then obtain n where n: "h a = Some n" "n_key n = k" "p = Ptr a"
    "shape_at h (n_left n) l" "shape_at h (n_right n) r" by auto
  have "links h' a = Some (k, n_left n, n_right n)"
    using 2(3) [of a] n by (simp add: links_def)
  then obtain n' where "h' a = Some n'" "n_key n' = k" "n_left n' = n_left n" "n_right n' = n_right n"
    by (auto simp: links_Some)
  with 2 n show ?case by simp
qed

lemma shape_at_frame:
  "shape_at h p s \<Longrightarrow> (\<And>a. a \<in> set (addrs s) \<Longrightarrow> h' a = h a) \<Longrightarrow> shape_at h' p s"
  by (erule shape_at_links [rotated]) (simp add: links_def)

lemma shape_at_upd: "shape_at h p s \<Longrightarrow> a \<notin> set (addrs s) \<Longrightarrow> shape_at (h(a := x)) p s"
  by (erule shape_at_frame) auto

section \<open>Searching\<close>

fun lookup_addr :: "'k::linorder shape \<Rightarrow> 'k \<Rightarrow> nat option" where
  "lookup_addr \<langle>\<rangle> key = None"
| "lookup_addr \<langle>l, (a, k), r\<rangle> key =
     (if k = key then Some a else lookup_addr (if key > k then r else l) key)"

text \<open>The addresses passed on the way to \<open>key\<close>, the last one first.\<close>

fun path_up :: "'k::linorder shape \<Rightarrow> 'k \<Rightarrow> nat list" where
  "path_up \<langle>\<rangle> key = []"
| "path_up \<langle>l, (a, k), r\<rangle> key =
     (if k = key then [] else path_up (if key > k then r else l) key @ [a])"

definition opt_ptr :: "nat option \<Rightarrow> ptr" where
  "opt_ptr x = (case x of None \<Rightarrow> Nullptr | Some a \<Rightarrow> Ptr a)"

lemma opt_ptr_simps [simp]:
  "opt_ptr None = Nullptr" "opt_ptr (Some a) = Ptr a"
  "opt_ptr x = Nullptr \<longleftrightarrow> x = None"
  by (simp_all add: opt_ptr_def split: option.splits)

definition last_ptr :: "ptr \<Rightarrow> nat list \<Rightarrow> ptr" where
  "last_ptr parent as = (case as of [] \<Rightarrow> parent | a # _ \<Rightarrow> Ptr a)"

lemma last_ptr_simps [simp]:
  "last_ptr p [] = p" "last_ptr p (a # as) = Ptr a"
  "last_ptr p (as @ [a]) = last_ptr (Ptr a) as"
  by (simp_all add: last_ptr_def split: list.splits)

text \<open>The search loop computes the path and the node of the key: it ends on every shape.\<close>

lemma find_loop_shape:
  "shape_at h p s \<Longrightarrow>
   find_loop h key parent p stack =
     Some (Ret (last_ptr parent (path_up s key), opt_ptr (lookup_addr s key),
       map_option (\<lambda>st. map Ptr (path_up s key) @ st) stack))"
proof (induction h p s arbitrary: parent stack rule: shape_at.induct)
  case (1 h p)
  then show ?case by (subst find_loop.simps) (cases stack; simp)
next
  case (2 h p l a k r)
  then obtain n where "p = Ptr a" "h a = Some n" "n_key n = k" by auto
  then show ?case
    using 2 by (subst find_loop.simps) (cases stack; auto)
qed

lemma lookup_addr_in: "lookup_addr s key = Some a \<Longrightarrow> a \<in> set (addrs s)"
  by (induction s key rule: lookup_addr.induct) (auto split: if_splits)

lemma path_up_in: "set (path_up s key) \<subseteq> set (addrs s)"
  by (induction s key rule: path_up.induct) auto

lemma lookup_addr_key:
  "shape_at h p s \<Longrightarrow> lookup_addr s key = Some a \<Longrightarrow> \<exists>n. h a = Some n \<and> n_key n = key"
  by (induction h p s rule: shape_at.induct) (auto split: if_splits)

lemma lookup_addr_iff: "ordered s \<Longrightarrow> (\<exists>a. lookup_addr s key = Some a) \<longleftrightarrow> key \<in> set (keys s)"
proof (induction s key rule: lookup_addr.induct)
  case (2 l a k r key)
  consider "k = key" | "k < key" | "key < k" by force
  then show ?case using 2 by cases force+
qed simp

lemma lookup_addr_None: "ordered s \<Longrightarrow> lookup_addr s key = None \<longleftrightarrow> key \<notin> set (keys s)"
  using lookup_addr_iff [of s key] by (cases "lookup_addr s key") auto

lemma path_up_distinct: "distinct (addrs s) \<Longrightarrow> distinct (path_up s key)"
  using path_up_in [where key = key]
  by (induction s key rule: path_up.induct) fastforce+

lemma lookup_notin_path:
  "distinct (addrs s) \<Longrightarrow> lookup_addr s key = Some a \<Longrightarrow> a \<notin> set (path_up s key)"
proof (induction s key rule: path_up.induct)
  case (2 l b k r key)
  then show ?case
    using lookup_addr_in [of r key a] lookup_addr_in [of l key a] by (auto split: if_splits)
qed simp

section \<open>Linking a new leaf\<close>

fun ins_shape :: "nat \<Rightarrow> 'k::linorder \<Rightarrow> 'k shape \<Rightarrow> 'k shape" where
  "ins_shape new key \<langle>\<rangle> = \<langle>\<langle>\<rangle>, (new, key), \<langle>\<rangle>\<rangle>"
| "ins_shape new key \<langle>l, (a, k), r\<rangle> =
     (if k = key then \<langle>l, (a, k), r\<rangle>
      else if key > k then \<langle>l, (a, k), ins_shape new key r\<rangle>
      else \<langle>ins_shape new key l, (a, k), r\<rangle>)"

definition link_child :: "'k::linorder \<Rightarrow> nat \<Rightarrow> ('k, 'v, 'm) node \<Rightarrow> ('k, 'v, 'm) node" where
  "link_child key new n = (if key < n_key n then n\<lparr>n_left := Ptr new\<rparr> else n\<lparr>n_right := Ptr new\<rparr>)"

lemma set_addrs_ins:
  "lookup_addr s key = None \<Longrightarrow> set (addrs (ins_shape new key s)) = insert new (set (addrs s))"
  by (induction new key s rule: ins_shape.induct) (auto split: if_splits)

lemma distinct_addrs_ins:
  "lookup_addr s key = None \<Longrightarrow> distinct (addrs s) \<Longrightarrow> new \<notin> set (addrs s) \<Longrightarrow>
   distinct (addrs (ins_shape new key s))"
  by (induction new key s rule: ins_shape.induct) (auto simp: set_addrs_ins split: if_splits)

lemma set_keys_ins: "set (keys (ins_shape new key s)) = insert key (set (keys s))"
  by (induction new key s rule: ins_shape.induct) auto

lemma ordered_ins: "ordered s \<Longrightarrow> ordered (ins_shape new key s)"
  by (induction new key s rule: ins_shape.induct) (auto simp: set_keys_ins)

lemma size_ins: "lookup_addr s key = None \<Longrightarrow> size (ins_shape new key s) = Suc (size s)"
  by (induction new key s rule: ins_shape.induct) (auto split: if_splits)

lemma path_up_ins: "lookup_addr s key = None \<Longrightarrow> path_up (ins_shape new key s) key = path_up s key"
  by (induction new key s rule: ins_shape.induct) (auto split: if_splits)

lemma lookup_addr_ins:
  "lookup_addr s key = None \<Longrightarrow>
   lookup_addr (ins_shape new key s) x = (if x = key then Some new else lookup_addr s x)"
  by (induction new key s rule: ins_shape.induct) (auto split: if_splits)

lemma ins_shape_root: "s \<noteq> \<langle>\<rangle> \<Longrightarrow> shape_root (ins_shape new key s) = shape_root s"
  by (cases s rule: shape_root.cases) auto

lemma path_up_Nil: "lookup_addr s key = None \<Longrightarrow> path_up s key = [] \<longleftrightarrow> s = \<langle>\<rangle>"
  by (cases s rule: shape_root.cases) auto

text \<open>The link is made in the root.\<close>

lemma shape_link_root:
  assumes "h a = Some n" "n_key n = k" "shape_at h (n_left n) l" "shape_at h (n_right n) r" "k \<noteq> key"
    and "a \<notin> set (addrs l)" "a \<notin> set (addrs r)" "new \<noteq> a" "(if key > k then r else l) = \<langle>\<rangle>"
    and new: "h new = Some nn" "n_key nn = key" "n_left nn = Nullptr" "n_right nn = Nullptr"
  shows "shape_at (h(a \<mapsto> link_child key new n)) (Ptr a) (ins_shape new key \<langle>l, (a, k), r\<rangle>)"
proof -
  have fr: "shape_at (h(a := x)) (n_left n) l" "shape_at (h(a := x)) (n_right n) r" for x
    using assms by (simp_all add: shape_at_upd)
  from assms(5) consider "key > k" "\<not> key < k" | "key < k" "\<not> k < key" by force
  then show ?thesis
  proof cases
    case 1
    then have "r = \<langle>\<rangle>" using assms(9) by simp
    with 1 assms fr(1) [of "Some (n\<lparr>n_right := Ptr new\<rparr>)"] show ?thesis by (simp add: link_child_def)
  next
    case 2
    then have "l = \<langle>\<rangle>" using assms(9) by simp
    with 2 assms fr(2) [of "Some (n\<lparr>n_left := Ptr new\<rparr>)"] show ?thesis by (simp add: link_child_def)
  qed
qed

lemma shape_link:
  assumes "shape_at h p s" "distinct (addrs s)" "lookup_addr s key = None"
    and "path_up s key = b # bs" "new \<notin> set (addrs s)"
    and new: "h new = Some nn" "n_key nn = key" "n_left nn = Nullptr" "n_right nn = Nullptr"
  shows "\<exists>n. h b = Some n \<and>
    shape_at (h(b \<mapsto> link_child key new n)) p (ins_shape new key s)"
  using assms(1-5)
proof (induction s arbitrary: p bs rule: addrs.induct)
  case 1
  then show ?case by simp
next
  case (2 l a k r)
  then obtain n where n: "p = Ptr a" "h a = Some n" "n_key n = k"
    "shape_at h (n_left n) l" "shape_at h (n_right n) r" by auto
  from 2 have k: "k \<noteq> key" by (auto split: if_splits)
  define c where "c = (if key > k then r else l)"
  have c: "lookup_addr c key = None" "path_up c key @ [a] = b # bs"
    using 2 k by (auto simp: c_def)
  show ?case
  proof (cases "path_up c key")
    case Nil
    with c have "c = \<langle>\<rangle>" "b = a" by (auto simp: path_up_Nil)
    then have "shape_at (h(a \<mapsto> link_child key new n)) (Ptr a) (ins_shape new key \<langle>l, (a, k), r\<rangle>)"
      using 2(4,7) by (intro shape_link_root [OF n(2-5) k _ _ _ _ new]) (auto simp: c_def)
    with n \<open>b = a\<close> show ?thesis by blast
  next
    case (Cons b' bs')
    with c have b: "path_up c key = b # bs'" by simp
    then have b_in: "b \<in> set (addrs c)" using path_up_in [of c key] by auto
    then have "b \<noteq> a" using 2 by (auto simp: c_def split: if_splits)
    show ?thesis
    proof (cases "key > k")
      case True
      then have r: "b \<in> set (addrs r)" "path_up r key = b # bs'" "lookup_addr r key = None"
        using b_in b c by (simp_all add: c_def)
      have "b \<notin> set (addrs l)" using 2(4) r(1) by auto
      have "distinct (addrs r)" "new \<notin> set (addrs r)" using 2(4,7) by auto
      from 2(2) [OF n(5) this(1) r(3) r(2) this(2)]
      obtain nb where "h b = Some nb"
        "shape_at (h(b \<mapsto> link_child key new nb)) (n_right n) (ins_shape new key r)"
        by blast
      then show ?thesis using 2(4) n k True r \<open>b \<noteq> a\<close> \<open>b \<notin> set (addrs l)\<close>
        by (auto simp: shape_at_upd simp del: fun_upd_apply simp add: fun_upd_same fun_upd_other)
    next
      case False
      then have l: "b \<in> set (addrs l)" "path_up l key = b # bs'" "lookup_addr l key = None"
        using b_in b c by (simp_all add: c_def)
      have "b \<notin> set (addrs r)" using 2(4) l(1) by auto
      have "distinct (addrs l)" "new \<notin> set (addrs l)" using 2(4,7) by auto
      from 2(1) [OF n(4) this(1) l(3) l(2) this(2)]
      obtain nb where "h b = Some nb"
        "shape_at (h(b \<mapsto> link_child key new nb)) (n_left n) (ins_shape new key l)"
        by blast
      then show ?thesis using 2(4) n k False l \<open>b \<noteq> a\<close> \<open>b \<notin> set (addrs r)\<close>
        by (auto simp: shape_at_upd simp del: fun_upd_apply simp add: fun_upd_same fun_upd_other)
    qed
  qed
qed

section \<open>Removing a leaf\<close>

text \<open>The shape without the node of \<open>key\<close>, for a node without children.\<close>

fun del_leaf :: "'k::linorder \<Rightarrow> 'k shape \<Rightarrow> 'k shape" where
  "del_leaf key \<langle>\<rangle> = \<langle>\<rangle>"
| "del_leaf key \<langle>l, (a, k), r\<rangle> =
     (if k = key then \<langle>\<rangle>
      else if key > k then \<langle>l, (a, k), del_leaf key r\<rangle>
      else \<langle>del_leaf key l, (a, k), r\<rangle>)"

text \<open>The subtree whose root holds \<open>key\<close>.\<close>

fun subtree_of :: "'k::linorder \<Rightarrow> 'k shape \<Rightarrow> 'k shape" where
  "subtree_of key \<langle>\<rangle> = \<langle>\<rangle>"
| "subtree_of key \<langle>l, (a, k), r\<rangle> =
     (if k = key then \<langle>l, (a, k), r\<rangle> else subtree_of key (if key > k then r else l))"

lemma subtree_of_at:
  "shape_at h p s \<Longrightarrow> shape_at h (opt_ptr (lookup_addr s key)) (subtree_of key s)"
  by (induction h p s rule: shape_at.induct) auto

lemma subtree_of_root: "shape_root (subtree_of key s) = opt_ptr (lookup_addr s key)"
  by (induction s key rule: lookup_addr.induct) auto

lemma subtree_of_addrs: "set (addrs (subtree_of key s)) \<subseteq> set (addrs s)"
  by (induction key s rule: subtree_of.induct) auto

lemma subtree_of_distinct: "distinct (addrs s) \<Longrightarrow> distinct (addrs (subtree_of key s))"
  by (induction key s rule: subtree_of.induct) auto

lemma set_addrs_del:
  "distinct (addrs s) \<Longrightarrow>
   set (addrs (del_leaf key s)) = set (addrs s) - set (addrs (subtree_of key s))"
proof (induction key s rule: del_leaf.induct)
  case (2 key l a k r)
  then show ?case
    using subtree_of_addrs [of key l] subtree_of_addrs [of key r] by auto
qed simp

lemma set_keys_del: "set (keys (del_leaf key s)) \<subseteq> set (keys s)"
  by (induction key s rule: del_leaf.induct) auto

lemma ordered_del: "ordered s \<Longrightarrow> ordered (del_leaf key s)"
proof (induction key s rule: del_leaf.induct)
  case (2 key l a k r)
  then show ?case
    using set_keys_del [of key l] set_keys_del [of key r] by auto
qed simp

lemma distinct_addrs_del: "distinct (addrs s) \<Longrightarrow> distinct (addrs (del_leaf key s))"
proof (induction key s rule: del_leaf.induct)
  case (2 key l a k r)
  then show ?case
    using set_addrs_del [of l key] set_addrs_del [of r key] by auto
qed simp

lemma size_del: "size (del_leaf key s) + size (subtree_of key s) = size s"
  by (induction key s rule: del_leaf.induct) auto

lemma path_up_del: "path_up (del_leaf key s) key = path_up s key"
  by (induction key s rule: del_leaf.induct) auto

lemma lookup_addr_del:
  "lookup_addr s key = Some a \<Longrightarrow> subtree_of key s = \<langle>\<langle>\<rangle>, (a, key), \<langle>\<rangle>\<rangle> \<Longrightarrow>
   lookup_addr (del_leaf key s) x = (if x = key then None else lookup_addr s x)"
  by (induction key s rule: del_leaf.induct) (auto split: if_splits)

lemma shape_at_Nullptr_iff: "shape_at h Nullptr s \<longleftrightarrow> s = \<langle>\<rangle>"
  by (cases "(h, Nullptr, s)" rule: shape_at.cases) auto

text \<open>
  Replacing the pointer to the found node in its parent \<open>b\<close> by the pointer to another shape
  replaces the subtree.
\<close>

fun graft :: "'k::linorder \<Rightarrow> 'k shape \<Rightarrow> 'k shape \<Rightarrow> 'k shape" where
  "graft key t \<langle>\<rangle> = \<langle>\<rangle>"
| "graft key t \<langle>l, (a, k), r\<rangle> =
     (if k = key then t
      else if key > k then \<langle>l, (a, k), graft key t r\<rangle>
      else \<langle>graft key t l, (a, k), r\<rangle>)"

lemma graft_Leaf: "graft key \<langle>\<rangle> s = del_leaf key s"
  by (induction key s rule: del_leaf.induct) auto

definition relink :: "ptr \<Rightarrow> ptr \<Rightarrow> ('k, 'v, 'm) node \<Rightarrow> ('k, 'v, 'm) node" where
  "relink child new n =
     (if n_left n = child then n\<lparr>n_left := new\<rparr> else n\<lparr>n_right := new\<rparr>)"

text \<open>The node to be replaced is a child of the root.\<close>

lemma shape_graft_root:
  assumes m: "h a = Some m" "n_key m = k" "shape_at h (n_left m) l" "shape_at h (n_right m) r"
    and d: "distinct (addrs \<langle>l, (a, k), r\<rangle>)" and k: "k \<noteq> key"
    and c: "(if key > k then r else l) = \<langle>cl, (x, key), cr\<rangle>"
    and t: "shape_at (h(a \<mapsto> relink (Ptr x) q m)) q t"
  shows "(n_left m = Ptr x \<or> n_right m = Ptr x) \<and>
    shape_at (h(a \<mapsto> relink (Ptr x) q m)) (Ptr a) (graft key t \<langle>l, (a, k), r\<rangle>)"
proof -
  have fr: "shape_at (h(a := y)) (n_left m) l" "shape_at (h(a := y)) (n_right m) r" for y
    using m d by (simp_all add: shape_at_upd)
  from k consider "key > k" | "\<not> key > k" "key < k" by force
  then show ?thesis
  proof cases
    case 1
    with c have r: "r = \<langle>cl, (x, key), cr\<rangle>" by simp
    then have nr: "n_right m = Ptr x" using shape_at_root [OF m(4)] by simp
    moreover have "n_left m \<noteq> Ptr x"
      using shape_at_root [OF m(3)] d r by (cases l rule: shape_root.cases) auto
    ultimately have rl: "relink (Ptr x) q m = m\<lparr>n_right := q\<rparr>" by (simp add: relink_def)
    show ?thesis
      using 1 k m nr r t fr(1) [of "Some (m\<lparr>n_right := q\<rparr>)"] unfolding rl by simp
  next
    case 2
    with c have l: "l = \<langle>cl, (x, key), cr\<rangle>" by simp
    then have nl: "n_left m = Ptr x" using shape_at_root [OF m(3)] by simp
    then have rl: "relink (Ptr x) q m = m\<lparr>n_left := q\<rparr>" by (simp add: relink_def)
    show ?thesis
      using 2 k m nl l t fr(2) [of "Some (m\<lparr>n_left := q\<rparr>)"] unfolding rl by simp
  qed
qed

lemma shape_graft:
  assumes "shape_at h p s" "distinct (addrs s)" "lookup_addr s key = Some x"
    and "path_up s key = b # bs" "shape_at (h(b \<mapsto> relink (Ptr x) q n)) q t" "h b = Some n"
  shows "(n_left n = Ptr x \<or> n_right n = Ptr x) \<and>
    shape_at (h(b \<mapsto> relink (Ptr x) q n)) p (graft key t s)"
  using assms
proof (induction s arbitrary: p bs rule: addrs.induct)
  case 1
  then show ?case by simp
next
  case (2 l a k r)
  then obtain m where m: "p = Ptr a" "h a = Some m" "n_key m = k"
    "shape_at h (n_left m) l" "shape_at h (n_right m) r" by auto
  from 2 have k: "k \<noteq> key" by (auto split: if_splits)
  define c where "c = (if key > k then r else l)"
  have c: "lookup_addr c key = Some x" "path_up c key @ [a] = b # bs"
    using 2 k by (auto simp: c_def)
  have x_in: "x \<in> set (addrs c)" using c(1) by (rule lookup_addr_in)
  show ?case
  proof (cases "path_up c key")
    case Nil
    with c have b: "b = a" by simp
    with 2 m have n: "n = m" by simp
    from Nil c x_in obtain cl cr where ceq: "c = \<langle>cl, (x, key), cr\<rangle>"
      by (cases c rule: shape_root.cases) (auto split: if_splits)
    show ?thesis
      using shape_graft_root [OF m(2-5) 2(4) k ceq [unfolded c_def]] 2(7) unfolding b n m(1) by blast
  next
    case (Cons b' bs')
    with c have b: "path_up c key = b # bs'" by simp
    then have b_in: "b \<in> set (addrs c)" using path_up_in [of c key] by auto
    then have "b \<noteq> a" using 2 by (auto simp: c_def split: if_splits)
    show ?thesis
    proof (cases "key > k")
      case True
      then have r: "b \<in> set (addrs r)" "path_up r key = b # bs'" "lookup_addr r key = Some x"
        using b_in b c by (simp_all add: c_def)
      have "b \<notin> set (addrs l)" using 2(4) r(1) by auto
      have "(n_left n = Ptr x \<or> n_right n = Ptr x) \<and>
          shape_at (h(b \<mapsto> relink (Ptr x) q n)) (n_right m) (graft key t r)"
        using 2(2) [OF m(5) _ r(3) r(2) 2(7) 2(8)] 2(4) by (simp del: fun_upd_apply)
      then show ?thesis using 2(4) m k True r \<open>b \<noteq> a\<close> \<open>b \<notin> set (addrs l)\<close>
        by (auto simp: shape_at_upd simp del: fun_upd_apply simp add: fun_upd_same fun_upd_other)
    next
      case False
      then have l: "b \<in> set (addrs l)" "path_up l key = b # bs'" "lookup_addr l key = Some x"
        using b_in b c by (simp_all add: c_def)
      have "b \<notin> set (addrs r)" using 2(4) l(1) by auto
      have "(n_left n = Ptr x \<or> n_right n = Ptr x) \<and>
          shape_at (h(b \<mapsto> relink (Ptr x) q n)) (n_left m) (graft key t l)"
        using 2(1) [OF m(4) _ l(3) l(2) 2(7) 2(8)] 2(4) by (simp del: fun_upd_apply)
      then show ?thesis using 2(4) m k False l \<open>b \<noteq> a\<close> \<open>b \<notin> set (addrs r)\<close>
        by (auto simp: shape_at_upd simp del: fun_upd_apply simp add: fun_upd_same fun_upd_other)
    qed
  qed
qed

end
