(* ===== verification/ATree_Proofs.thy ===== *)
theory ATree_Proofs
  imports ATree_Shape
begin

text \<open>
  Correctness of the operations of \<open>ATree\<close>. The contract between the tree and its visitor is
  the locale \<open>augmenting_visitor\<close>: each callback recomputes the metadata of the node it is given
  from the node's value and its children's metadata. Under that contract every operation that
  returns keeps \<open>atree_inv\<close> (search order, exact ownership of the allocated nodes, the metadata
  of every node up to date) and acts on the map the tree denotes as its name says.
\<close>

section \<open>Augmentation\<close>

definition child_ok :: "('k, 'v, 'm) nodes \<Rightarrow> ptr \<Rightarrow> bool" where
  "child_ok h p \<longleftrightarrow> (case p of Nullptr \<Rightarrow> True | Ptr a \<Rightarrow> h a \<noteq> None)"

definition child_meta :: "('k, 'v, 'm) nodes \<Rightarrow> ptr \<Rightarrow> 'm option" where
  "child_meta h p = (case p of Nullptr \<Rightarrow> None | Ptr a \<Rightarrow> map_option n_metadata (h a))"

lemma child_simps [simp]:
  "child_ok h Nullptr" "child_meta h Nullptr = None"
  "child_ok h (Ptr a) \<longleftrightarrow> (\<exists>n. h a = Some n)" "child_meta h (Ptr a) = map_option n_metadata (h a)"
  by (auto simp: child_ok_def child_meta_def)

type_synonym ('v, 'm) combiner = "'v \<Rightarrow> 'm option \<Rightarrow> 'm option \<Rightarrow> 'm"

definition refreshed ::
  "('v, 'm) combiner \<Rightarrow> ('k, 'v, 'm) nodes \<Rightarrow> ('k, 'v, 'm) node \<Rightarrow> ('k, 'v, 'm) node"
where
  "refreshed c h n =
     n\<lparr>n_metadata := c (n_value n) (child_meta h (n_left n)) (child_meta h (n_right n))\<rparr>"

text \<open>A callback that recomputes the metadata of its node and changes nothing else.\<close>

definition recomputes ::
  "('v, 'm) combiner \<Rightarrow> (('k, 'v, 'm) nodes \<Rightarrow> ptr \<Rightarrow> ('k, 'v, 'm) nodes outcome) \<Rightarrow> bool"
where
  "recomputes c f \<longleftrightarrow> (\<forall>h a n. h a = Some n \<longrightarrow> child_ok h (n_left n) \<longrightarrow> child_ok h (n_right n) \<longrightarrow>
     f h (Ptr a) = Ret (h(a \<mapsto> refreshed c h n)))"

fun aug :: "('v, 'm) combiner \<Rightarrow> ('k, 'v, 'm) nodes \<Rightarrow> 'k shape \<Rightarrow> bool" where
  "aug c h \<langle>\<rangle> = True"
| "aug c h \<langle>l, (a, k), r\<rangle> \<longleftrightarrow> aug c h l \<and> aug c h r \<and>
     (\<exists>n. h a = Some n \<and>
       n_metadata n = c (n_value n) (child_meta h (shape_root l)) (child_meta h (shape_root r)))"

text \<open>Up to date except on the search path of \<open>key\<close>.\<close>

fun aug_off :: "('v, 'm) combiner \<Rightarrow> 'k::linorder \<Rightarrow> ('k, 'v, 'm) nodes \<Rightarrow> 'k shape \<Rightarrow> bool" where
  "aug_off c key h \<langle>\<rangle> = True"
| "aug_off c key h \<langle>l, (a, k), r\<rangle> \<longleftrightarrow>
     (if k = key then aug c h \<langle>l, (a, k), r\<rangle>
      else if key > k then aug c h l \<and> aug_off c key h r
      else aug_off c key h l \<and> aug c h r)"

definition vm :: "('k, 'v, 'm) nodes \<Rightarrow> nat \<Rightarrow> ('v \<times> 'm) option" where
  "vm h a = map_option (\<lambda>n. (n_value n, n_metadata n)) (h a)"

lemma vm_Some: "vm h a = Some (v, m) \<longleftrightarrow> (\<exists>n. h a = Some n \<and> n_value n = v \<and> n_metadata n = m)"
  by (auto simp: vm_def)

lemma child_meta_vm: "vm h' a = vm h a \<Longrightarrow> child_meta h' (Ptr a) = child_meta h (Ptr a)"
  by (cases "h' a"; cases "h a"; simp add: vm_def)

lemma child_meta_root:
  "(\<And>a. a \<in> set (addrs s) \<Longrightarrow> vm h' a = vm h a) \<Longrightarrow>
   child_meta h' (shape_root s) = child_meta h (shape_root s)"
proof (cases s rule: shape_root.cases)
  case (2 l a k r)
  assume "\<And>a. a \<in> set (addrs s) \<Longrightarrow> vm h' a = vm h a"
  then have "vm h' a = vm h a" using 2 by simp
  from child_meta_vm [OF this] show ?thesis using 2 by (simp del: child_simps(4))
qed simp

lemma aug_cong:
  "(\<And>a. a \<in> set (addrs s) \<Longrightarrow> vm h' a = vm h a) \<Longrightarrow> aug c h s \<Longrightarrow> aug c h' s"
proof (induction s rule: addrs.induct)
  case (2 l a k r)
  then obtain n where n: "h a = Some n"
    "n_metadata n = c (n_value n) (child_meta h (shape_root l)) (child_meta h (shape_root r))"
    by auto
  have "vm h' a = Some (n_value n, n_metadata n)"
    using 2(3) [of a] n(1) by (simp add: vm_def)
  then obtain n' where "h' a = Some n'" "n_value n' = n_value n" "n_metadata n' = n_metadata n"
    by (auto simp: vm_Some)
  moreover have "child_meta h' (shape_root l) = child_meta h (shape_root l)"
    "child_meta h' (shape_root r) = child_meta h (shape_root r)"
    by (rule child_meta_root; simp add: 2(3))+
  ultimately show ?case using 2 n by simp
qed simp

lemma aug_upd: "aug c h s \<Longrightarrow> a \<notin> set (addrs s) \<Longrightarrow> aug c (h(a := x)) s"
  by (erule aug_cong [rotated]) (auto simp: vm_def)

lemma visit_stack_append:
  "visit_stack f h (xs @ ys) = bindO (visit_stack f h xs) (\<lambda>h'. visit_stack f h' ys)"
proof (induction xs arbitrary: h)
  case (Cons x xs)
  then show ?case by (cases "f h x") auto
qed simp

text \<open>Everything but the metadata of a node.\<close>

definition core :: "('k, 'v, 'm) nodes \<Rightarrow> nat \<Rightarrow> ('k \<times> 'v \<times> ptr \<times> ptr) option" where
  "core h a = map_option (\<lambda>n. (n_key n, n_value n, n_left n, n_right n)) (h a)"

lemma core_links: "core h' a = core h a \<Longrightarrow> links h' a = links h a"
  by (cases "h' a"; cases "h a"; simp add: core_def links_def)

lemma core_value: "core h' a = core h a \<Longrightarrow> map_option n_value (h' a) = map_option n_value (h a)"
  by (cases "h' a"; cases "h a"; simp add: core_def)

lemma core_dom: "(\<And>a. core h' a = core h a) \<Longrightarrow> dom h' = dom h"
proof -
  assume *: "\<And>a. core h' a = core h a"
  have "h' a = None \<longleftrightarrow> h a = None" for a
    using * [of a] by (cases "h' a"; cases "h a"; simp add: core_def)
  then show ?thesis by (auto simp: dom_def)
qed

lemma shape_at_core: "(\<And>a. core h' a = core h a) \<Longrightarrow> shape_at h p s \<Longrightarrow> shape_at h' p s"
  by (erule shape_at_links [rotated]) (rule core_links, blast)

lemma shape_child_ok: "shape_at h p s \<Longrightarrow> child_ok h p"
  by (cases s rule: shape_root.cases) auto

text \<open>Visiting the search path from below restores the augmentation of the whole tree.\<close>

lemma visit_path:
  assumes "recomputes c f" "shape_at h p s" "distinct (addrs s)" "aug_off c key h s"
  shows "\<exists>h'. visit_stack f h (map Ptr (path_up s key)) = Ret h' \<and> aug c h' s \<and>
    (\<forall>b. core h' b = core h b) \<and> (\<forall>b. b \<notin> set (path_up s key) \<longrightarrow> h' b = h b)"
  using assms(2-4)
proof (induction s arbitrary: p rule: addrs.induct)
  case 1
  then show ?case by simp
next
  case (2 l a k r)
  from 2(3) obtain n where n: "p = Ptr a" "h a = Some n" "n_key n = k"
    "shape_at h (n_left n) l" "shape_at h (n_right n) r" by auto
  show ?case
  proof (cases "k = key")
    case True
    then show ?thesis using 2 by auto
  next
    case False
    define d where "d = (if key > k then r else l)"
    have "\<exists>h'. visit_stack f h (map Ptr (path_up d key)) = Ret h' \<and> aug c h' d \<and>
      (\<forall>b. core h' b = core h b) \<and> (\<forall>b. b \<notin> set (path_up d key) \<longrightarrow> h' b = h b)"
    proof (cases "key > k")
      case True
      then show ?thesis using 2(2) [OF n(5)] 2(4,5) False by (simp add: d_def)
    next
      case F: False
      then show ?thesis using 2(1) [OF n(4)] 2(4,5) False by (simp add: d_def)
    qed
    then obtain h1 where h1: "visit_stack f h (map Ptr (path_up d key)) = Ret h1" "aug c h1 d"
      "\<And>b. core h1 b = core h b" "\<And>b. b \<notin> set (path_up d key) \<Longrightarrow> h1 b = h b" by blast
    have pd: "set (path_up d key) \<subseteq> set (addrs d)" by (rule path_up_in)
    then have "a \<notin> set (path_up d key)" using 2(4) by (auto simp: d_def split: if_splits)
    then have a: "h1 a = Some n" using h1(4) n by simp
    have sh: "shape_at h1 (n_left n) l" "shape_at h1 (n_right n) r"
      using h1(3) n by (auto intro: shape_at_core)
    have "aug c h1 l \<and> aug c h1 r"
    proof -
      have "h1 b = h b" if "b \<in> set (addrs (if key > k then l else r))" for b
        using that pd 2(4) by (intro h1(4)) (auto simp: d_def split: if_splits)
      then have "\<forall>b \<in> set (addrs (if key > k then l else r)). vm h1 b = vm h b"
        by (simp add: vm_def)
      then have "aug c h1 (if key > k then l else r)"
        using 2(5) False by (auto split: if_splits elim: aug_cong [rotated])
      then show ?thesis using h1(2) by (auto simp: d_def split: if_splits)
    qed
    define h2 where "h2 = h1(a \<mapsto> refreshed c h1 n)"
    have "f h1 (Ptr a) = Ret h2"
      using assms(1) a shape_child_ok [OF sh(1)] shape_child_ok [OF sh(2)]
      by (simp add: recomputes_def h2_def)
    then have "visit_stack f h (map Ptr (path_up \<langle>l, (a, k), r\<rangle> key)) = Ret h2"
      using False h1(1) by (auto simp: visit_stack_append d_def)
    moreover have "core h2 b = core h b" for b
      using h1(3) [of b] n(2) a by (auto simp: h2_def core_def refreshed_def)
    moreover have "h2 b = h b" if "b \<notin> set (path_up \<langle>l, (a, k), r\<rangle> key)" for b
      using that False h1(4) [of b] by (auto simp: h2_def d_def)
    moreover have "aug c h2 l" "aug c h2 r"
      using \<open>aug c h1 l \<and> aug c h1 r\<close> 2(4) unfolding h2_def by (simp_all add: aug_upd)
    moreover have "child_meta h2 (shape_root l) = child_meta h1 (n_left n)"
      "child_meta h2 (shape_root r) = child_meta h1 (n_right n)"
      using shape_at_root [OF n(4)] shape_at_root [OF n(5)] 2(4)
      by (cases l rule: shape_root.cases; cases r rule: shape_root.cases; auto simp: h2_def)+
    moreover have "h2 a = Some (refreshed c h1 n)" by (simp add: h2_def)
    ultimately show ?thesis
      by (intro exI [of _ h2]) (auto simp: refreshed_def)
  qed
qed

section \<open>The invariant of the tree object\<close>

text \<open>
  \<open>s\<close> is the live tree, \<open>cs\<close> are the trees detached by \<open>Clear\<close>. The allocated nodes are exactly
  the root node and the nodes of these trees, which share none.
\<close>

definition owned :: "'k shape \<Rightarrow> 'k shape list \<Rightarrow> nat list" where
  "owned s cs = root_addr # addrs s @ concat (map addrs cs)"

lemma owned_cleared:
  "distinct (owned s cs) \<Longrightarrow> b \<in> set (concat (map addrs cs)) \<Longrightarrow> b \<notin> set (root_addr # addrs s)"
  by (auto simp: owned_def)

definition root_at :: "('k, 'v, 'm) nodes \<Rightarrow> 'k shape \<Rightarrow> bool" where
  "root_at h s \<longleftrightarrow> (\<exists>r. h root_addr = Some r \<and> shape_at h (n_left r) s)"

definition atree_struct :: "('k::linorder, 'v, 'm) atree \<Rightarrow> 'k shape \<Rightarrow> 'k shape list \<Rightarrow> bool" where
  "atree_struct t s cs \<longleftrightarrow>
     root_at (at_mem t) s \<and> list_all2 (shape_at (at_mem t)) (at_cleared t) cs \<and>
     distinct (owned s cs) \<and> dom (at_mem t) = set (owned s cs) \<and>
     (\<forall>a \<ge> at_fresh t. at_mem t a = None) \<and> ordered s \<and> at_size t = int (size s)"

definition atree_inv ::
  "('v, 'm) combiner \<Rightarrow> ('k::linorder, 'v, 'm) atree \<Rightarrow> 'k shape \<Rightarrow> 'k shape list \<Rightarrow> bool"
where
  "atree_inv c t s cs \<longleftrightarrow> atree_struct t s cs \<and> aug c (at_mem t) s"

lemmas inv_defs = atree_inv_def atree_struct_def

text \<open>The map that the tree denotes.\<close>

definition denotes :: "('k::linorder, 'v, 'm) nodes \<Rightarrow> 'k shape \<Rightarrow> 'k \<rightharpoonup> 'v" where
  "denotes h s key = (case lookup_addr s key of None \<Rightarrow> None | Some a \<Rightarrow> map_option n_value (h a))"

lemma dom_denotes:
  "ordered s \<Longrightarrow> shape_at h p s \<Longrightarrow> dom (denotes h s) = set (keys s)"
proof -
  assume o: "ordered s" and s: "shape_at h p s"
  have "denotes h s key = None \<longleftrightarrow> lookup_addr s key = None" for key
    using shape_at_alloc [OF s lookup_addr_in] by (fastforce simp: denotes_def split: option.splits)
  with lookup_addr_None [OF o] show ?thesis by (auto simp: dom_def)
qed

lemma list_all2_shape_links:
  "list_all2 (shape_at h) ps cs \<Longrightarrow> (\<And>a. a \<in> set (concat (map addrs cs)) \<Longrightarrow> links h' a = links h a) \<Longrightarrow>
   list_all2 (shape_at h') ps cs"
  by (induction ps cs rule: list_all2_induct) (auto intro: shape_at_links)

lemma root_at_FindInternal:
  assumes "root_at h s"
  shows "FindInternal h key stack =
    Some (Ret (last_ptr root_ptr (path_up s key), opt_ptr (lookup_addr s key),
      map_option (\<lambda>st. map Ptr (path_up s key) @ st) stack))"
proof -
  from assms obtain r where "h root_addr = Some r" "shape_at h (n_left r) s"
    by (auto simp: root_at_def)
  then show ?thesis by (simp add: FindInternal_def find_loop_shape)
qed

lemma make_atree_inv: "atree_inv c (make_atree k0 v0 m0) \<langle>\<rangle> []"
  by (auto simp: inv_defs make_atree_def root_at_def owned_def new_node_def root_addr_def)

lemma link_child_fields:
  "n_key (link_child key a n) = n_key n" "n_value (link_child key a n) = n_value n"
  "n_metadata (link_child key a n) = n_metadata n"
  by (simp_all add: link_child_def)

text \<open>What \<open>InsertInternal\<close> does to the memory, at the position found by the search.\<close>

lemma InsertInternal_mem:
  assumes r: "root_at (at_mem t) s" and d: "distinct (owned s cs)" and l: "lookup_addr s key = None"
    and fresh: "at_mem t (at_fresh t) = None"
  shows "\<exists>h1. InsertInternal t key v m (last_ptr root_ptr (path_up s key)) =
      Ret (t\<lparr>at_mem := h1, at_fresh := Suc (at_fresh t), at_size := at_size t + 1\<rparr>, Ptr (at_fresh t)) \<and>
    root_at h1 (ins_shape (at_fresh t) key s) \<and> h1 (at_fresh t) = Some (new_node key v m) \<and>
    (\<forall>b. b \<noteq> at_fresh t \<longrightarrow> vm h1 b = vm (at_mem t) b) \<and>
    (\<forall>b. b \<noteq> at_fresh t \<longrightarrow> b \<notin> set (root_addr # addrs s) \<longrightarrow> h1 b = at_mem t b)"
proof -
  define a h where "a = at_fresh t" "h = at_mem t"
  define h0 where "h0 = h(a \<mapsto> new_node key v m)"
  from r obtain rn where rn: "h root_addr = Some rn" "shape_at h (n_left rn) s"
    by (auto simp: root_at_def a_h_def)
  have da: "distinct (addrs s)" and ra: "root_addr \<notin> set (addrs s)"
    using d by (auto simp: owned_def)
  have an: "a \<notin> set (addrs s)" "a \<noteq> root_addr"
    using shape_at_dom [OF rn(2)] fresh rn(1) by (auto simp: a_h_def)
  have h0: "shape_at h0 (n_left rn) s" "h0 root_addr = Some rn" "h0 a = Some (new_node key v m)"
    using rn an by (simp_all add: h0_def shape_at_upd del: fun_upd_apply add: fun_upd_same fun_upd_other)
  show ?thesis
  proof (cases "path_up s key")
    case Nil
    then have s: "s = \<langle>\<rangle>" using l by (simp add: path_up_Nil)
    define h1 where "h1 = h0(root_addr \<mapsto> rn\<lparr>n_left := Ptr a\<rparr>)"
    have "InsertInternal t key v m root_ptr =
        Ret (t\<lparr>at_mem := h1, at_fresh := Suc a, at_size := at_size t + 1\<rparr>, Ptr a)"
      using h0(2) by (simp add: InsertInternal_def Let_def set_defs h1_def h0_def a_h_def)
    moreover have "root_at h1 (ins_shape a key s)"
      using s h0(3) an by (simp add: root_at_def h1_def new_node_def)
    moreover have "h1 a = Some (new_node key v m)" using h0(3) an by (simp add: h1_def)
    moreover have "vm h1 b = vm h b" if "b \<noteq> a" for b
      using that rn(1) by (auto simp: h1_def h0_def vm_def)
    moreover have "h1 b = h b" if "b \<noteq> a" "b \<noteq> root_addr" for b
      using that by (simp add: h1_def h0_def)
    ultimately show ?thesis unfolding a_h_def using Nil s by (intro exI [of _ h1]) simp
  next
    case (Cons b bs)
    have b: "b \<in> set (addrs s)" using path_up_in [of s key] Cons by auto
    then have "b \<noteq> root_addr" using ra by auto
    have "b \<noteq> a" using b an by auto
    obtain n where n: "h0 b = Some n"
      "shape_at (h0(b \<mapsto> link_child key a n)) (n_left rn) (ins_shape a key s)"
      using shape_link [OF h0(1) da l Cons an(1) h0(3)] by (auto simp: new_node_def)
    define h1 where "h1 = h0(b \<mapsto> link_child key a n)"
    have "InsertInternal t key v m (Ptr b) =
        Ret (t\<lparr>at_mem := h1, at_fresh := Suc a, at_size := at_size t + 1\<rparr>, Ptr a)"
      using n(1) \<open>b \<noteq> root_addr\<close>
      by (simp add: InsertInternal_def Let_def set_defs h1_def h0_def a_h_def link_child_def)
    moreover have "root_at h1 (ins_shape a key s)"
      using n(2) h0(2) \<open>b \<noteq> root_addr\<close> unfolding h1_def root_at_def by auto
    moreover have "h1 a = Some (new_node key v m)" using h0(3) \<open>b \<noteq> a\<close> by (simp add: h1_def)
    moreover have "vm h1 x = vm h x" if "x \<noteq> a" for x
      using that n(1) by (auto simp: h1_def h0_def vm_def link_child_fields)
    moreover have "h1 x = h x" if "x \<noteq> a" "x \<notin> set (addrs s)" for x
      using that b by (auto simp: h1_def h0_def)
    ultimately show ?thesis unfolding a_h_def using Cons by (intro exI [of _ h1]) simp
  qed
qed

lemma aug_off_ins:
  assumes "h' new = Some n" "n_metadata n = c (n_value n) None None"
  shows "lookup_addr s key = None \<Longrightarrow> aug c h s \<Longrightarrow> (\<And>a. a \<in> set (addrs s) \<Longrightarrow> vm h' a = vm h a) \<Longrightarrow>
    aug_off c key h' (ins_shape new key s)"
proof (induction s rule: addrs.induct)
  case 1
  then show ?case using assms by simp
next
  case (2 l a k r)
  then have "aug c h' l" "aug c h' r" by (auto intro: aug_cong [of _ h' h])
  with 2 show ?case by (auto split: if_splits)
qed

section \<open>The contract of a visitor\<close>

locale augmenting_visitor =
  fixes vis :: "('k::linorder, 'v, 'm) visitor"
    and combine :: "('v, 'm) combiner"
    and bump :: "'v \<Rightarrow> 'v \<Rightarrow> 'm \<Rightarrow> 'v"
  assumes on_insert: "recomputes combine (OnInsert vis)"
    and on_remove: "recomputes combine (OnRemove vis)"
    and on_update: "recomputes combine (OnUpdate vis)"
    and update: "h a = Some n \<Longrightarrow> child_ok h (n_left n) \<Longrightarrow> child_ok h (n_right n) \<Longrightarrow>
      Update vis h (Ptr a) v m =
        Ret (h(a \<mapsto> refreshed combine h (n\<lparr>n_value := bump (n_value n) v m\<rparr>)))"

text \<open>
  After a change of memory that keeps the links of every tree: what is left to show for the
  invariant.
\<close>

lemma atree_struct_links:
  assumes "atree_struct t s cs" "\<And>b. links h' b = links (at_mem t) b"
  shows "atree_struct (t\<lparr>at_mem := h'\<rparr>) s cs"
proof -
  have "root_at h' s"
  proof -
    obtain r where r: "at_mem t root_addr = Some r" "shape_at (at_mem t) (n_left r) s"
      using assms(1) by (auto simp: atree_struct_def root_at_def)
    then obtain r' where "h' root_addr = Some r'" "n_left r' = n_left r"
      using assms(2) [of root_addr] by (auto simp: links_def)
    with shape_at_links [OF assms(2) r(2)] show ?thesis by (auto simp: root_at_def)
  qed
  moreover have "list_all2 (shape_at h') (at_cleared t) cs"
    using assms by (auto simp: atree_struct_def intro: list_all2_shape_links)
  moreover have "h' a = None \<longleftrightarrow> at_mem t a = None" for a
    using assms(2) [of a] by (cases "h' a"; cases "at_mem t a"; simp add: links_def)
  moreover from this have "dom h' = dom (at_mem t)" by (intro set_eqI) (simp add: domIff del: not_None_eq)
  ultimately show ?thesis using assms(1) by (simp add: atree_struct_def)
qed

lemma atree_struct_core:
  "atree_struct t s cs \<Longrightarrow> (\<And>b. core h' b = core (at_mem t) b) \<Longrightarrow> atree_struct (t\<lparr>at_mem := h'\<rparr>) s cs"
  by (erule atree_struct_links) (rule core_links)

lemma aug_off_set:
  assumes "h x = Some n" "n_metadata n' = c (n_value n') (child_meta h (n_left n)) (child_meta h (n_right n))"
  shows "shape_at h p s \<Longrightarrow> distinct (addrs s) \<Longrightarrow> lookup_addr s key = Some x \<Longrightarrow> aug c h s \<Longrightarrow>
    aug_off c key (h(x \<mapsto> n')) s"
proof (induction s arbitrary: p rule: addrs.induct)
  case 1
  then show ?case by simp
next
  case (2 l a k r)
  from 2(3) obtain m where m: "h a = Some m" "shape_at h (n_left m) l" "shape_at h (n_right m) r"
    by auto
  show ?case
  proof (cases "k = key")
    case True
    then have eq: "x = a" "m = n" using 2 m assms(1) by auto
    have "child_meta (h(a \<mapsto> n')) (shape_root l) = child_meta h (n_left n)"
      "child_meta (h(a \<mapsto> n')) (shape_root r) = child_meta h (n_right n)"
      using shape_at_root [OF m(2)] shape_at_root [OF m(3)] 2(4) eq(2)
      by (cases l rule: shape_root.cases; cases r rule: shape_root.cases; auto)+
    moreover have "aug c (h(a \<mapsto> n')) l" "aug c (h(a \<mapsto> n')) r"
      using 2 by (auto intro: aug_upd)
    ultimately show ?thesis using True assms(2) unfolding eq
      by (simp del: fun_upd_apply add: fun_upd_same)
  next
    case False
    show ?thesis
    proof (cases "key > k")
      case True
      then have "x \<in> set (addrs r)" using 2 False by (auto dest: lookup_addr_in)
      then have "aug c (h(x \<mapsto> n')) l" using 2 by (intro aug_upd) auto
      moreover have "distinct (addrs r)" "lookup_addr r key = Some x" "aug c h r"
        using 2(4-6) False True by auto
      then have "aug_off c key (h(x \<mapsto> n')) r" by (rule 2(2) [OF m(3)])
      ultimately show ?thesis using False True by (simp del: fun_upd_apply)
    next
      case F: False
      then have "x \<in> set (addrs l)" using 2 False by (auto dest: lookup_addr_in)
      then have "aug c (h(x \<mapsto> n')) r" using 2 by (intro aug_upd) auto
      moreover have "distinct (addrs l)" "lookup_addr l key = Some x" "aug c h l"
        using 2(4-6) False F by auto
      then have "aug_off c key (h(x \<mapsto> n')) l" by (rule 2(1) [OF m(2)])
      ultimately show ?thesis using False F by (simp del: fun_upd_apply)
    qed
  qed
qed

lemma denotes_core: "(\<And>b. core h' b = core h b) \<Longrightarrow> denotes h' s = denotes h s"
  using core_value [of h' _ h] by (auto simp: denotes_def fun_eq_iff split: option.splits)

text \<open>The memory after an insertion: what it denotes, and that the tree and the cleared ones are still there.\<close>

lemma denotes_ins:
  assumes "lookup_addr s key = None" "a \<notin> set (addrs s)" "h1 a = Some (new_node key v m)"
    "\<And>b. b \<noteq> a \<Longrightarrow> vm h1 b = vm h b"
  shows "denotes h1 (ins_shape a key s) = (denotes h s)(key \<mapsto> v)"
proof
  fix x
  show "denotes h1 (ins_shape a key s) x = ((denotes h s)(key \<mapsto> v)) x"
  proof (cases "lookup_addr s x")
    case None
    then show ?thesis using assms(1,3) by (auto simp: denotes_def lookup_addr_ins new_node_def)
  next
    case (Some b)
    then have "b \<noteq> a" using lookup_addr_in assms(2) by fastforce
    then have "map_option n_value (h1 b) = map_option n_value (h b)"
      using assms(4) [of b] by (cases "h1 b"; cases "h b"; simp add: vm_def)
    then show ?thesis using Some assms(1,3) by (auto simp: denotes_def lookup_addr_ins new_node_def)
  qed
qed

lemma atree_struct_ins:
  assumes i: "atree_struct t s cs" and l: "lookup_addr s key = None"
    and new: "h1 (at_fresh t) = Some (new_node key v m)" and root: "root_at h1 (ins_shape (at_fresh t) key s)"
    and vm: "\<And>b. b \<noteq> at_fresh t \<Longrightarrow> vm h1 b = vm (at_mem t) b"
    and keep: "\<And>b. b \<noteq> at_fresh t \<Longrightarrow> b \<notin> set (root_addr # addrs s) \<Longrightarrow> h1 b = at_mem t b"
  shows "atree_struct (t\<lparr>at_fresh := Suc (at_fresh t), at_size := at_size t + 1, at_mem := h1\<rparr>)
    (ins_shape (at_fresh t) key s) cs"
proof -
  define a h where "a = at_fresh t" "h = at_mem t"
  note defs = a_h_def
  have own: "distinct (owned s cs)" "dom h = set (owned s cs)" and "h a = None"
    using i by (auto simp: atree_struct_def defs)
  then have an: "a \<notin> set (owned s cs)" by auto
  have "h1 b = None \<longleftrightarrow> b \<noteq> a \<and> h b = None" for b
    using new vm [of b] by (cases "b = a"; cases "h1 b"; cases "h b"; simp add: vm_def defs)
  then have dom1: "dom h1 = insert a (dom h)" by (intro set_eqI) (simp add: domIff del: not_None_eq)
  have "links h1 b = links h b" if "b \<in> set (concat (map addrs cs))" for b
  proof -
    have "b \<in> set (owned s cs)" using that by (simp add: owned_def)
    then have "b \<noteq> a" using an by blast
    then show ?thesis using keep owned_cleared [OF own(1) that] by (simp add: links_def defs)
  qed
  then have "list_all2 (shape_at h1) (at_cleared t) cs"
    using i by (auto simp: atree_struct_def defs intro: list_all2_shape_links)
  moreover have "h1 b = None" if "b \<ge> Suc a" for b
    using dom1 i that by (metis Suc_leD defs domIff insert_iff atree_struct_def not_less_eq_eq order_refl)
  moreover have "distinct (addrs (ins_shape a key s))"
    "set (addrs (ins_shape a key s)) = insert a (set (addrs s))"
    using l own an by (auto simp: owned_def distinct_addrs_ins set_addrs_ins)
  ultimately show ?thesis
    using root own an dom1 i l
    by (auto simp: owned_def atree_struct_def defs [symmetric] ordered_ins size_ins)
qed

context augmenting_visitor begin

lemma insert_below_correct:
  assumes i: "atree_inv combine t s cs" and l: "lookup_addr s key = None"
  shows "\<exists>t'. insert_below vis t key v m (last_ptr root_ptr (path_up s key)) (map Ptr (path_up s key)) =
      Ret (t', OkStatus) \<and>
    atree_inv combine t' (ins_shape (at_fresh t) key s) cs \<and> at_cleared t' = at_cleared t \<and>
    denotes (at_mem t') (ins_shape (at_fresh t) key s) = (denotes (at_mem t) s)(key \<mapsto> v)"
proof -
  define a h s' where "a = at_fresh t" "h = at_mem t" "s' = ins_shape a key s"
  note defs = a_h_s'_def
  have fresh: "h a = None" and own: "distinct (owned s cs)" "dom h = set (owned s cs)"
    using i by (auto simp: inv_defs defs)
  then have an: "a \<notin> set (owned s cs)" by auto
  obtain h1 where h1: "InsertInternal t key v m (last_ptr root_ptr (path_up s key)) =
      Ret (t\<lparr>at_mem := h1, at_fresh := Suc a, at_size := at_size t + 1\<rparr>, Ptr a)"
    "root_at h1 s'" "h1 a = Some (new_node key v m)"
    "\<And>b. b \<noteq> a \<Longrightarrow> vm h1 b = vm h b"
    "\<And>b. b \<noteq> a \<Longrightarrow> b \<notin> set (root_addr # addrs s) \<Longrightarrow> h1 b = h b"
    using InsertInternal_mem [of t s cs key v m] i l fresh own by (auto simp: inv_defs defs)
  define h2 where "h2 = h1(a \<mapsto> refreshed combine h1 (new_node key v m))"
  have ins: "OnInsert vis h1 (Ptr a) = Ret h2"
    using on_insert h1(3) by (simp add: recomputes_def h2_def new_node_def)
  have c2: "core h2 b = core h1 b" for b
    using h1(3) by (simp add: h2_def core_def refreshed_def)
  have "aug_off combine key h2 s'"
    unfolding defs
  proof (rule aug_off_ins [where h = h])
    show "h2 (at_fresh t) = Some (refreshed combine h1 (new_node key v m))"
      by (simp add: h2_def defs)
    show "n_metadata (refreshed combine h1 (new_node key v m)) =
        combine (n_value (refreshed combine h1 (new_node key v m))) None None"
      by (simp add: refreshed_def new_node_def)
    show "aug combine h s" using i by (simp add: atree_inv_def defs)
    show "vm h2 b = vm h b" if "b \<in> set (addrs s)" for b
      using that an h1(4) [of b] by (auto simp: h2_def vm_def owned_def)
  qed (rule l)
  moreover have d: "distinct (addrs s')" "set (addrs s') = insert a (set (addrs s))"
    using l own an by (auto simp: defs owned_def distinct_addrs_ins set_addrs_ins)
  moreover obtain r where r: "h1 root_addr = Some r" "shape_at h1 (n_left r) s'"
    using h1(2) by (auto simp: root_at_def)
  moreover have "shape_at h2 (n_left r) s'" using shape_at_core [OF c2 r(2)] .
  ultimately obtain h3 where h3: "visit_stack (OnInsert vis) h2 (map Ptr (path_up s' key)) = Ret h3"
    "aug combine h3 s'" "\<And>b. core h3 b = core h2 b"
    using visit_path [OF on_insert] by blast
  define t' where "t' = t\<lparr>at_mem := h3, at_fresh := Suc a, at_size := at_size t + 1\<rparr>"
  have c3: "core h3 b = core h1 b" for b using h3(3) c2 by simp
  have "insert_below vis t key v m (last_ptr root_ptr (path_up s key)) (map Ptr (path_up s key)) =
      Ret (t', OkStatus)"
    using h1(1) ins h3(1) l by (simp add: insert_below_def path_up_ins t'_def defs)
  moreover have "atree_struct (t'\<lparr>at_mem := h3\<rparr>) s' cs"
  proof (rule atree_struct_core [where t = "t'\<lparr>at_mem := h1\<rparr>", simplified])
    have "atree_struct t s cs" using i by (simp add: atree_inv_def)
    from atree_struct_ins [OF this l] show "atree_struct (t'\<lparr>at_mem := h1\<rparr>) s' cs"
      using h1(2-5) by (simp add: t'_def defs)
    show "core h3 b = core h1 b" for b by (rule c3)
  qed
  moreover have "denotes h3 s' = (denotes h s)(key \<mapsto> v)"
    using denotes_core [of h3 h1 s'] c3 denotes_ins [of s key a h1 v m h] l h1(3,4) an
    by (simp add: defs owned_def)
  moreover have "t'\<lparr>at_mem := h3\<rparr> = t'" by (cases t) (simp add: t'_def)
  moreover have "at_mem t' = h3" "at_cleared t' = at_cleared t" by (simp_all add: t'_def)
  ultimately show ?thesis using h3(2)
    by (intro exI [of _ t']) (simp add: atree_inv_def defs)
qed

lemma insert_new:
  assumes "atree_inv combine t s cs" "lookup_addr s key = None"
  shows "\<exists>t'. Insert vis t key v m = Some (Ret (t', OkStatus)) \<and>
    InsertOrUpdate vis t key v m = Some (Ret (t', OkStatus)) \<and>
    atree_inv combine t' (ins_shape (at_fresh t) key s) cs \<and> at_cleared t' = at_cleared t \<and>
    denotes (at_mem t') (ins_shape (at_fresh t) key s) = (denotes (at_mem t) s)(key \<mapsto> v)"
  using insert_below_correct [OF assms] assms
  by (auto simp: Insert_def InsertOrUpdate_def root_at_FindInternal inv_defs)

lemma insert_duplicate:
  assumes "atree_inv combine t s cs" "lookup_addr s key = Some a"
  shows "Insert vis t key v m = Some (Ret (t, ErrorStatus kAlreadyExists ''Key already exists''))"
proof -
  obtain r n where "root_at (at_mem t) s" "at_mem t a = Some n" "n_key n = key"
    using assms lookup_addr_key by (fastforce simp: inv_defs root_at_def)
  then show ?thesis using assms(2) by (simp add: Insert_def root_at_FindInternal)
qed

lemma denotes_upd:
  assumes "lookup_addr s key = Some a" "\<And>x. lookup_addr s x = Some a \<Longrightarrow> x = key"
  shows "denotes (h(a \<mapsto> n)) s = (denotes h s)(key \<mapsto> n_value n)"
proof
  fix x
  show "denotes (h(a \<mapsto> n)) s x = ((denotes h s)(key \<mapsto> n_value n)) x"
  proof (cases "x = key")
    case True
    then show ?thesis using assms(1) by (simp add: denotes_def)
  next
    case False
    then have "lookup_addr s x \<noteq> Some a" using assms(2) by blast
    then show ?thesis using False by (simp add: denotes_def split: option.splits)
  qed
qed

lemma update_correct:
  assumes i: "atree_inv combine t s cs" and l: "lookup_addr s key = Some a"
  shows "\<exists>t' old. denotes (at_mem t) s key = Some old \<and>
    InsertOrUpdate vis t key v m = Some (Ret (t', OkStatus)) \<and>
    atree_inv combine t' s cs \<and> at_cleared t' = at_cleared t \<and>
    denotes (at_mem t') s = (denotes (at_mem t) s)(key \<mapsto> bump old v m)"
proof -
  define h where "h = at_mem t"
  obtain r where r: "h root_addr = Some r" "shape_at h (n_left r) s"
    using i by (auto simp: inv_defs root_at_def h_def)
  have d: "distinct (addrs s)" "root_addr \<notin> set (addrs s)" using i by (auto simp: inv_defs owned_def)
  obtain n where n: "h a = Some n" "n_key n = key" using lookup_addr_key [OF r(2) l] by blast
  define h1 where "h1 = h(a \<mapsto> refreshed combine h (n\<lparr>n_value := bump (n_value n) v m\<rparr>))"
  obtain sl sr where sub: "subtree_of key s = \<langle>sl, (a, key), sr\<rangle>"
    "shape_at h (n_left n) sl" "shape_at h (n_right n) sr"
    using subtree_of_at [OF r(2), of key] subtree_of_root [of key s] l n
    by (cases "subtree_of key s" rule: shape_root.cases) auto
  have up: "Update vis h (Ptr a) v m = Ret h1"
    using update [of h a n v m] n(1) shape_child_ok [OF sub(2)] shape_child_ok [OF sub(3)]
    by (simp add: h1_def)
  have c1: "links h1 b = links h b" for b
    using n(1) by (auto simp: h1_def links_def refreshed_def)
  have sh1: "shape_at h1 (n_left r) s" using c1 r(2) by (auto intro: shape_at_links)
  have "a \<in> set (addrs s)" using l by (rule lookup_addr_in)
  then have "a \<noteq> root_addr" using d by auto
  have "aug_off combine key h1 s"
    unfolding h1_def using i n(1) r(2) d(1) l
    by (intro aug_off_set [where n = n and p = "n_left r"]) (simp_all add: refreshed_def atree_inv_def h_def)
  then obtain h2 where h2: "visit_stack (OnUpdate vis) h1 (map Ptr (path_up s key)) = Ret h2"
    "aug combine h2 s" "\<And>b. core h2 b = core h1 b"
    using visit_path [OF on_update sh1 d(1)] by blast
  have "InsertOrUpdate vis t key v m = Some (Ret (t\<lparr>at_mem := h2\<rparr>, OkStatus))"
  proof -
    have "root_at h s" using r by (auto simp: root_at_def)
    then show ?thesis
      using l n up h2(1) by (simp add: InsertOrUpdate_def root_at_FindInternal h_def)
  qed
  moreover have "atree_struct (t\<lparr>at_mem := h2\<rparr>) s cs"
  proof (rule atree_struct_links)
    show "atree_struct t s cs" using i by (simp add: atree_inv_def)
    show "links h2 b = links (at_mem t) b" for b using core_links [OF h2(3)] c1 by (simp add: h_def)
  qed
  moreover have "denotes h1 s = (denotes h s)(key \<mapsto> bump (n_value n) v m)"
  proof -
    have "x = key" if "lookup_addr s x = Some a" for x using lookup_addr_key [OF r(2) that] n by auto
    from denotes_upd [OF l this, of h "refreshed combine h (n\<lparr>n_value := bump (n_value n) v m\<rparr>)"]
    show ?thesis unfolding h1_def [symmetric] by (simp add: refreshed_def)
  qed
  then have "denotes h2 s = (denotes h s)(key \<mapsto> bump (n_value n) v m)"
    unfolding denotes_core [OF h2(3)] .
  moreover have "denotes h s key = Some (n_value n)" using l n by (simp add: denotes_def)
  moreover have "atree_inv combine (t\<lparr>at_mem := h2\<rparr>) s cs"
    using \<open>atree_struct (t\<lparr>at_mem := h2\<rparr>) s cs\<close> h2(2) by (simp add: atree_inv_def)
  moreover have "at_mem (t\<lparr>at_mem := h2\<rparr>) = h2" "at_cleared (t\<lparr>at_mem := h2\<rparr>) = at_cleared t"
    by simp_all
  ultimately show ?thesis unfolding h_def by metis
qed

end

end
