(* ===== verification/ATree_Remove.thy ===== *)
theory ATree_Remove
  imports ATree_Proofs
begin

text \<open>
  \<open>Find\<close>, \<open>Clear\<close>, the destructor and \<open>Remove\<close> of \<open>ATree\<close>. \<open>Remove\<close> is exact on a node without
  children; on a node with only a left child it drops the left subtree, and on a node with a
  right child it links the successor into a cycle.
\<close>

section \<open>Find\<close>

lemma find_correct:
  assumes "atree_struct t s cs"
  shows "Find t key = Some (Ret (case lookup_addr s key of
      None \<Rightarrow> Inl (ErrorStatus kNotFound ''Key not found'') | Some a \<Rightarrow> Inr (Ptr a)))"
proof -
  obtain r where r: "at_mem t root_addr = Some r" "shape_at (at_mem t) (n_left r) s" and
    root: "root_at (at_mem t) s"
    using assms by (auto simp: atree_struct_def root_at_def)
  show ?thesis
  proof (cases "lookup_addr s key")
    case None
    then show ?thesis by (simp add: Find_def root_at_FindInternal [OF root])
  next
    case (Some a)
    then obtain n where "at_mem t a = Some n" "n_key n = key" using lookup_addr_key [OF r(2)] by blast
    then show ?thesis using Some by (simp add: Find_def root_at_FindInternal [OF root])
  qed
qed

section \<open>Clear and the destructor\<close>

lemma clear_correct:
  assumes i: "atree_struct t s cs"
  shows "\<exists>t'. Clear t = Ret t' \<and> atree_inv c t' \<langle>\<rangle> (cs @ [s]) \<and> Size t' = 0"
proof -
  obtain r where r: "at_mem t root_addr = Some r" "shape_at (at_mem t) (n_left r) s"
    using i by (auto simp: atree_struct_def root_at_def)
  define h where "h = (at_mem t)(root_addr \<mapsto> r\<lparr>n_left := Nullptr\<rparr>)"
  define t' where "t' = t\<lparr>at_mem := h, at_cleared := at_cleared t @ [n_left r], at_size := 0\<rparr>"
  have nr: "root_addr \<notin> set (addrs x)" if "x \<in> set (cs @ [s])" for x
    using i that by (auto simp: atree_struct_def owned_def)
  have "Clear t = Ret t'" using r(1) by (simp add: Clear_def set_defs t'_def h_def)
  moreover have "list_all2 (shape_at h) (at_cleared t @ [n_left r]) (cs @ [s])"
  proof (rule list_all2_shape_links [where h = "at_mem t"])
    show "list_all2 (shape_at (at_mem t)) (at_cleared t @ [n_left r]) (cs @ [s])"
      using i r by (auto simp: atree_struct_def intro: list_all2_appendI)
    show "links h a = links (at_mem t) a" if "a \<in> set (concat (map addrs (cs @ [s])))" for a
      using that nr by (auto simp: h_def links_def)
  qed
  moreover have "dom h = dom (at_mem t)" using r(1) by (auto simp: h_def)
  moreover have "h a = None" if "a \<ge> at_fresh t" for a
    using that i r(1) by (auto simp: h_def atree_struct_def)
  ultimately show ?thesis using i
    by (intro exI [of _ t'])
       (auto simp: inv_defs t'_def root_at_def owned_def Size_def h_def)
qed

lemma delete_loop_Nil [simp]: "delete_loop h [] = Some (Ret h)"
  by (subst delete_loop.simps) simp

lemma delete_loop_shape:
  "shape_at h p s \<Longrightarrow> distinct (addrs s) \<Longrightarrow>
   delete_loop h (p # rest) = delete_loop (h |` (- set (addrs s))) rest"
proof (induction s arbitrary: h p rest rule: addrs.induct)
  case 1
  have "h |` UNIV = h" by (simp add: restrict_map_def)
  with 1 show ?case by (subst delete_loop.simps) simp
next
  case (2 l a k r)
  then obtain n where n: "p = Ptr a" "h a = Some n" "shape_at h (n_left n) l" "shape_at h (n_right n) r"
    by auto
  define h1 where "h1 = h(a := None)"
  define h2 where "h2 = h1 |` (- set (addrs r))"
  have "delete_loop h (p # rest) = delete_loop h1 (n_right n # n_left n # rest)"
    using n by (subst delete_loop.simps) (simp add: h1_def)
  also have "\<dots> = delete_loop h2 (n_left n # rest)"
    unfolding h2_def using 2(4) n(4) by (intro 2(2)) (auto simp: h1_def shape_at_upd simp del: fun_upd_apply)
  also have "\<dots> = delete_loop (h2 |` (- set (addrs l))) rest"
  proof (rule 2(1))
    show "shape_at h2 (n_left n) l"
      using n(3) by (rule shape_at_frame) (use 2(4) in \<open>auto simp: h2_def h1_def restrict_map_def\<close>)
  qed (use 2(4) in simp)
  also have "h2 |` (- set (addrs l)) = h |` (- set (addrs \<langle>l, (a, k), r\<rangle>))"
    by (auto simp: h2_def h1_def restrict_map_def)
  finally show ?case .
qed

lemma delete_all_shapes:
  "list_all2 (shape_at h) ps ss \<Longrightarrow> distinct (concat (map addrs ss)) \<Longrightarrow>
   delete_all h ps = Some (Ret (h |` (- set (concat (map addrs ss)))))"
proof (induction ss arbitrary: ps h)
  case Nil
  then show ?case by (simp add: restrict_map_def)
next
  case (Cons s ss)
  then obtain p qs where ps: "ps = p # qs" "shape_at h p s" "list_all2 (shape_at h) qs ss"
    by (auto simp: list_all2_Cons2)
  define h1 where "h1 = h |` (- set (addrs s))"
  have "delete_loop h [p] = Some (Ret h1)"
    using delete_loop_shape [OF ps(2), of "[]"] Cons(3) by (simp add: h1_def)
  moreover have "list_all2 (shape_at h1) qs ss"
    using ps(3)
  proof (rule list_all2_shape_links)
    show "links h1 a = links h a" if "a \<in> set (concat (map addrs ss))" for a
      using that Cons(3) by (auto simp: h1_def links_def restrict_map_def)
  qed
  ultimately have "delete_all h ps = Some (Ret (h1 |` (- set (concat (map addrs ss)))))"
    using Cons.IH Cons.prems(2) ps(1) by simp
  also have "h1 |` (- set (concat (map addrs ss))) = h |` (- set (concat (map addrs (s # ss))))"
    by (auto simp: h1_def restrict_map_def)
  finally show ?case .
qed

lemma destroy_frees:
  assumes i: "atree_struct t s cs"
  shows "destroy t = Some (Ret (at_mem t |` (- set (concat (map addrs (cs @ [s]))))))"
proof -
  obtain r where r: "at_mem t root_addr = Some r" "shape_at (at_mem t) (n_left r) s"
    using i by (auto simp: atree_struct_def root_at_def)
  have "list_all2 (shape_at (at_mem t)) (at_cleared t @ [n_left r]) (cs @ [s])"
    using i r by (auto simp: atree_struct_def intro: list_all2_appendI)
  moreover have "distinct (concat (map addrs (cs @ [s])))"
    using i by (auto simp: atree_struct_def owned_def)
  ultimately show ?thesis using r by (simp add: destroy_def delete_all_shapes)
qed

lemma destroy_correct:
  assumes "atree_struct t s cs"
  shows "\<exists>h. destroy t = Some (Ret h) \<and> dom h = {root_addr} \<and> h root_addr = at_mem t root_addr"
proof -
  let ?h = "at_mem t |` (- set (concat (map addrs (cs @ [s]))))"
  have "dom ?h = {root_addr}" "root_addr \<notin> set (concat (map addrs (cs @ [s])))" using assms by (auto simp: atree_struct_def owned_def)
  moreover from this(2) have "?h root_addr = at_mem t root_addr" by (subst restrict_in) (simp_all only: Compl_iff not_False_eq_True)
  ultimately show ?thesis using destroy_frees [OF assms] by blast
qed

lemma list_all2_left: "list_all2 P xs ys \<Longrightarrow> x \<in> set xs \<Longrightarrow> \<exists>y \<in> set ys. P x y"
  by (induction rule: list_all2_induct) auto

lemma list_all2_right: "list_all2 P xs ys \<Longrightarrow> y \<in> set ys \<Longrightarrow> \<exists>x \<in> set xs. P x y"
  by (induction rule: list_all2_induct) auto

text \<open>A memory in which only the root is left: what else the tree points to is dangling.\<close>

lemma delete_all_dangling:
  "\<forall>p \<in> set ps. \<forall>a. p = Ptr a \<longrightarrow> h a = None \<Longrightarrow> \<exists>p \<in> set ps. p \<noteq> Nullptr \<Longrightarrow> delete_all h ps = Some (Fault Dangling)"
proof (induction ps)
  case (Cons p ps)
  show ?case
  proof (cases p)
    case Nullptr
    have "delete_loop h [Nullptr] = Some (Ret h)" by (simp add: delete_loop.simps)
    then show ?thesis using Cons Nullptr by simp
  next
    case (Ptr a)
    then have "delete_loop h [p] = Some (Fault Dangling)" using Cons(2) by (subst delete_loop.simps) (simp add: load_def)
    then show ?thesis by simp
  qed
qed simp

lemma destroy_twice:
  assumes i: "atree_struct t s cs" and h: "destroy t = Some (Ret h)" and n: "dom (at_mem t) \<noteq> {root_addr}"
  shows "destroy (t\<lparr>at_mem := h\<rparr>) = Some (Fault Dangling)"
proof -
  obtain r where r: "at_mem t root_addr = Some r" "shape_at (at_mem t) (n_left r) s"
    using i by (auto simp: atree_struct_def root_at_def)
  have l: "list_all2 (shape_at (at_mem t)) (at_cleared t @ [n_left r]) (cs @ [s])"
    using i r by (auto simp: atree_struct_def intro: list_all2_appendI)
  let ?A = "set (concat (map addrs (cs @ [s])))"
  have e: "h = at_mem t |` (- ?A)" using h destroy_frees [OF i] by simp
  have A: "root_addr \<notin> ?A" "dom (at_mem t) = insert root_addr ?A" using i by (auto simp: atree_struct_def owned_def)
  have P: "p = Nullptr \<or> (\<exists>a \<in> ?A. p = Ptr a)" if p: "p \<in> set (at_cleared t @ [n_left r])" for p
  proof -
    obtain u where u: "u \<in> set (cs @ [s])" "shape_at (at_mem t) p u" using list_all2_left [OF l p] by blast
    have "p = Nullptr \<or> (\<exists>a \<in> set (addrs u). p = Ptr a)" using u(2) by (cases "(at_mem t, p, u)" rule: shape_at.cases) auto
    moreover have "set (addrs u) \<subseteq> ?A" using u(1) by auto
    ultimately show ?thesis by blast
  qed
  have N: "\<exists>p \<in> set (at_cleared t @ [n_left r]). p \<noteq> Nullptr"
  proof -
    have "\<exists>u \<in> set (cs @ [s]). u \<noteq> \<langle>\<rangle>"
    proof (rule ccontr)
      assume "\<not> ?thesis"
      then have "\<forall>u \<in> set (cs @ [s]). addrs u = []" by auto
      then have "?A = {}" by (simp only: set_empty concat_eq_Nil_conv set_map) blast
      then show False using n A(2) by simp
    qed
    then obtain u where u: "u \<in> set (cs @ [s])" "u \<noteq> \<langle>\<rangle>" by blast
    then obtain p where "p \<in> set (at_cleared t @ [n_left r])" "shape_at (at_mem t) p u" using list_all2_right [OF l u(1)] by blast
    then show ?thesis using u(2) by (cases "(at_mem t, p, u)" rule: shape_at.cases) auto
  qed
  have "h a = None" if "a \<in> ?A" for a unfolding e using that by (intro restrict_out) blast
  then have "\<forall>p \<in> set (at_cleared t @ [n_left r]). \<forall>a. p = Ptr a \<longrightarrow> h a = None" using P by (metis ptr.distinct(1) ptr.inject)
  moreover have "h root_addr = Some r" unfolding e using A(1) r(1) by (subst restrict_in) (simp_all only: Compl_iff not_False_eq_True)
  ultimately show ?thesis using N by (simp add: destroy_def load_def delete_all_dangling del: set_append)
qed

section \<open>Remove without a right child\<close>

lemma root_at_unlink:
  assumes r: "root_at h s" and d: "root_addr \<notin> set (addrs s)" "distinct (addrs s)"
    and l: "lookup_addr s key = Some x" and path: "last_ptr root_ptr (path_up s key) = Ptr b"
    and t: "\<And>n. h b = Some n \<Longrightarrow> shape_at (h(b \<mapsto> relink (Ptr x) q n)) q t"
  shows "\<exists>n. h b = Some n \<and> ReplaceChild h (Ptr b) (Ptr x) q = Ret (h(b \<mapsto> relink (Ptr x) q n)) \<and>
    root_at (h(b \<mapsto> relink (Ptr x) q n)) (graft key t s)"
proof -
  obtain rn where rn: "h root_addr = Some rn" "shape_at h (n_left rn) s"
    using r by (auto simp: root_at_def)
  show ?thesis
  proof (cases "path_up s key")
    case Nil
    then have b: "b = root_addr" using path by simp
    from Nil l obtain sl sr where s: "s = \<langle>sl, (x, key), sr\<rangle>"
      by (cases s rule: shape_root.cases) (auto split: if_splits)
    then have left: "n_left rn = Ptr x" using rn(2) by simp
    then have "relink (Ptr x) q rn = rn\<lparr>n_left := q\<rparr>" by (simp add: relink_def)
    with t [unfolded b, OF rn(1)] rn(1) left s show ?thesis
      unfolding b by (auto simp: ReplaceChild_def set_defs root_at_def)
  next
    case (Cons b' bs)
    then have b: "path_up s key = b # bs" "b \<in> set (addrs s)"
      using path path_up_in [of s key] by auto
    then obtain n where n: "h b = Some n" using shape_at_alloc [OF rn(2)] by blast
    have g: "n_left n = Ptr x \<or> n_right n = Ptr x"
      "shape_at (h(b \<mapsto> relink (Ptr x) q n)) (n_left rn) (graft key t s)"
      using shape_graft [OF rn(2) d(2) l b(1) t [OF n] n] by blast+
    have "b \<noteq> root_addr" using b d by auto
    then have "root_at (h(b \<mapsto> relink (Ptr x) q n)) (graft key t s)"
      using rn(1) g(2) unfolding root_at_def by auto
    moreover have "ReplaceChild h (Ptr b) (Ptr x) q = Ret (h(b \<mapsto> relink (Ptr x) q n))"
      using n g(1) by (auto simp: ReplaceChild_def set_defs relink_def)
    ultimately show ?thesis using n by blast
  qed
qed

lemma relink_fields:
  "n_key (relink c q n) = n_key n" "n_value (relink c q n) = n_value n"
  "n_metadata (relink c q n) = n_metadata n"
  by (simp_all add: relink_def)

lemma aug_off_del:
  "subtree_of key s = \<langle>sl, (x, key), \<langle>\<rangle>\<rangle> \<Longrightarrow> aug c h s \<Longrightarrow> (\<And>a. a \<in> set (addrs s) \<Longrightarrow> vm h' a = vm h a) \<Longrightarrow>
    aug_off c key h' (del_leaf key s)"
proof (induction s rule: addrs.induct)
  case (2 l a k r)
  then have "aug c h' l" "aug c h' r" by (auto intro: aug_cong [of _ h' h])
  with 2 show ?case by (auto split: if_splits)
qed simp

lemma keys_lookup_subtree:
  "ordered s \<Longrightarrow> subtree_of key s = \<langle>l, (a, k), r\<rangle> \<Longrightarrow>
   lookup_addr (del_leaf key s) x = (if x \<in> set (keys \<langle>l, (a, k), r\<rangle>) then None else lookup_addr s x)"
proof (induction s rule: addrs.induct)
  case (2 sl b c sr)
  have keys: "set (keys (subtree_of key u)) \<subseteq> set (keys u)" for u
    by (induction key u rule: subtree_of.induct) auto
  show ?case
  proof (cases "c = key")
    case True
    then have "lookup_addr \<langle>sl, (b, c), sr\<rangle> x = None" if "x \<notin> set (keys \<langle>sl, (b, c), sr\<rangle>)"
      using lookup_addr_None [OF 2(3), of x] that by simp
    then show ?thesis using True 2(4) by auto
  next
    case False
    show ?thesis
    proof (cases "key > c")
      case True
      then have "subtree_of key sr = \<langle>l, (a, k), r\<rangle>" using 2(4) False by simp
      moreover have "c < x" if "x \<in> set (keys \<langle>l, (a, k), r\<rangle>)"
        using that keys [of sr] 2(3) calculation by auto
      ultimately show ?thesis using 2(2,3) True False by auto
    next
      case F: False
      then have "subtree_of key sl = \<langle>l, (a, k), r\<rangle>" using 2(4) False by simp
      moreover have "x < c" if "x \<in> set (keys \<langle>l, (a, k), r\<rangle>)"
        using that keys [of sl] 2(3) calculation by auto
      ultimately show ?thesis using 2(1,3) F False by fastforce
    qed
  qed
qed simp

text \<open>The node of a key in a tree that hangs off the root.\<close>

lemma root_at_subtree:
  assumes "root_at h s" "subtree_of key s = \<langle>sl, (a, key), sr\<rangle>"
  obtains n where "lookup_addr s key = Some a" "h a = Some n" "shape_at h (n_left n) sl" "shape_at h (n_right n) sr"
proof -
  obtain r where r: "h root_addr = Some r" "shape_at h (n_left r) s" using assms(1) by (auto simp: root_at_def)
  have l: "lookup_addr s key = Some a"
    using subtree_of_root [of key s] assms(2) by (cases "lookup_addr s key") auto
  then show ?thesis using subtree_of_at [OF r(2), of key] assms(2) that by auto
qed

lemma root_at_free:
  assumes "root_at h1 u" "\<And>x. core h2 x = core h1 x" "a \<notin> set (addrs u)" "a \<noteq> root_addr"
  shows "root_at (h2(a := None)) u"
proof -
  obtain r1 where r1: "h1 root_addr = Some r1" "shape_at h1 (n_left r1) u" using assms(1) by (auto simp: root_at_def)
  obtain r2 where "h2 root_addr = Some r2" "n_left r2 = n_left r1"
    using core_links [OF assms(2), of root_addr] r1(1) by (auto simp: links_def)
  then show ?thesis
    using shape_at_upd [OF shape_at_core [OF assms(2) r1(2)] assms(3), of None] assms(4) by (auto simp: root_at_def)
qed

lemma denotes_del:
  assumes "ordered s" "subtree_of key s = \<langle>sl, (a, key), \<langle>\<rangle>\<rangle>" "root_at h s"
    and v: "\<And>y. y \<noteq> a \<Longrightarrow> map_option n_value (h' y) = map_option n_value (h y)"
  shows "denotes h' (del_leaf key s) = (\<lambda>x. if x = key \<or> x \<in> set (keys sl) then None else denotes h s x)"
proof
  fix x
  obtain r where r: "h root_addr = Some r" "shape_at h (n_left r) s" using assms(3) by (auto simp: root_at_def)
  have l: "lookup_addr s key = Some a" using root_at_subtree [OF assms(3,2)] by blast
  have "lookup_addr s x \<noteq> Some a" if "x \<noteq> key"
    using lookup_addr_key [OF r(2), of x a] lookup_addr_key [OF r(2) l] that by auto
  then show "denotes h' (del_leaf key s) x = (if x = key \<or> x \<in> set (keys sl) then None else denotes h s x)"
    using keys_lookup_subtree [OF assms(1,2), of x] v by (cases "lookup_addr s x") (auto simp: denotes_def)
qed

context augmenting_visitor begin

lemma remove_no_right:
  assumes i: "atree_inv combine t s cs" and sub: "subtree_of key s = \<langle>sl, (a, key), \<langle>\<rangle>\<rangle>"
  shows "\<exists>t'. Remove vis t key = Some (Ret (t', OkStatus)) \<and>
    root_at (at_mem t') (del_leaf key s) \<and> aug combine (at_mem t') (del_leaf key s) \<and>
    list_all2 (shape_at (at_mem t')) (at_cleared t) cs \<and>
    dom (at_mem t') = dom (at_mem t) - {a} \<and> at_cleared t' = at_cleared t \<and>
    at_fresh t' = at_fresh t \<and> at_size t' = at_size t - 1 \<and>
    denotes (at_mem t') (del_leaf key s) =
      (\<lambda>x. if x = key \<or> x \<in> set (keys sl) then None else denotes (at_mem t) s x)"
proof -
  define h where "h = at_mem t"
  have st: "root_at h s" "distinct (owned s cs)" "ordered s" "aug combine h s" "dom h = set (owned s cs)"
    "list_all2 (shape_at h) (at_cleared t) cs"
    using i by (auto simp: inv_defs h_def)
  have d: "root_addr \<notin> set (addrs s)" "distinct (addrs s)" using st(2) by (auto simp: owned_def)
  obtain n where l: "lookup_addr s key = Some a" and n: "h a = Some n" "n_right n = Nullptr"
    using root_at_subtree [OF st(1) sub] by auto
  have a: "a \<in> set (addrs s)" using l by (rule lookup_addr_in)
  then have ar: "a \<noteq> root_addr" using d by auto
  have succ: "FindSuccessors h (Ptr a) = Some (Ret (Ptr a, Nullptr))"
    using n by (simp add: FindSuccessors_def)
  obtain b where b: "last_ptr root_ptr (path_up s key) = Ptr b"
    by (cases "path_up s key") auto
  have b_in: "b \<in> set (root_addr # addrs s)"
    using b path_up_in [of s key] by (cases "path_up s key") auto
  have "b \<noteq> a" using b ar lookup_notin_path [OF d(2) l] by (cases "path_up s key") auto
  obtain nb where nb: "h b = Some nb"
    "ReplaceChild h (Ptr b) (Ptr a) Nullptr = Ret (h(b \<mapsto> relink (Ptr a) Nullptr nb))"
    "root_at (h(b \<mapsto> relink (Ptr a) Nullptr nb)) (graft key \<langle>\<rangle> s)"
    using root_at_unlink [OF st(1) d l b, of Nullptr "\<langle>\<rangle>"] by auto
  define h1 where "h1 = h(b \<mapsto> relink (Ptr a) Nullptr nb)"
  have vm1: "vm h1 x = vm h x" for x using nb(1) by (simp add: h1_def vm_def relink_fields)
  have root1: "root_at h1 (del_leaf key s)" using nb(3) by (simp add: graft_Leaf h1_def)
  then obtain r1 where r1: "h1 root_addr = Some r1" "shape_at h1 (n_left r1) (del_leaf key s)"
    by (auto simp: root_at_def)
  have "aug_off combine key h1 (del_leaf key s)" using aug_off_del [OF sub st(4)] vm1 by blast
  then obtain h2 where h2: "visit_stack (OnRemove vis) h1 (map Ptr (path_up s key)) = Ret h2"
    "aug combine h2 (del_leaf key s)" "\<And>x. core h2 x = core h1 x"
    "\<And>x. x \<notin> set (path_up s key) \<Longrightarrow> h2 x = h1 x"
    using visit_path [OF on_remove r1(2) distinct_addrs_del [OF d(2)], of key]
    unfolding path_up_del by blast
  have "h1 a = Some n" using n(1) \<open>b \<noteq> a\<close> by (simp add: h1_def)
  then have h2a: "h2 a = Some n" using h2(4) lookup_notin_path [OF d(2) l] by simp
  define h3 where "h3 = h2(a := None)"
  define t' where "t' = t\<lparr>at_mem := h3, at_size := at_size t - 1\<rparr>"
  have na: "a \<notin> set (addrs (del_leaf key s))"
    using set_addrs_del [OF d(2), of key] sub by simp
  have "Remove vis t key = Some (Ret (t', OkStatus))"
    using b l nb(2) h2(1) h2a succ st(1)
    by (simp add: Remove_def root_at_FindInternal unlink_def h_def h1_def t'_def h3_def)
  moreover have "root_at h3 (del_leaf key s)" unfolding h3_def by (rule root_at_free [OF root1 h2(3) na ar])
  moreover have "aug combine h3 (del_leaf key s)" unfolding h3_def using h2(2) na by (rule aug_upd)
  moreover have "list_all2 (shape_at h3) (at_cleared t) cs"
  proof (rule list_all2_shape_links [OF st(6)])
    fix x assume x: "x \<in> set (concat (map addrs cs))"
    from owned_cleared [OF st(2) x] a b_in have "x \<noteq> a" "x \<noteq> b" by auto
    then show "links h3 x = links h x"
      using core_links [OF h2(3), of x] by (simp add: h3_def h1_def links_def)
  qed
  moreover have "dom h3 = dom h - {a}"
    using core_dom [OF h2(3)] nb(1) by (auto simp: h3_def h1_def)
  moreover have "denotes h3 (del_leaf key s) =
      (\<lambda>x. if x = key \<or> x \<in> set (keys sl) then None else denotes h s x)"
  proof (rule denotes_del [OF st(3) sub st(1)])
    fix y assume "y \<noteq> a"
    then show "map_option n_value (h3 y) = map_option n_value (h y)"
      using core_value [OF h2(3), of y] vm1 [of y] nb(1) by (auto simp: h3_def h1_def relink_fields)
  qed
  ultimately show ?thesis unfolding h_def by (intro exI [of _ t']) (simp add: t'_def)
qed

end

end
