(* ===== verification/ATree_Cycle.thy ===== *)
theory ATree_Cycle
  imports ATree_Remove
begin

text \<open>
  \<open>Remove\<close> of a node with a right child. \<open>FindSuccessors\<close> returns the node itself as the
  successor's parent, so the code always takes the branch for a direct child: the successor
  inherits both children of the removed node, its right one leading back to itself. The memory
  that is left holds no tree any more, and searches that meet the cycle never return.
\<close>

section \<open>Descending through the links\<close>

text \<open>
  \<open>steps h dir m p q\<close>: \<open>m\<close> child links lead from \<open>p\<close> to \<open>q\<close>; at a node with key \<open>k\<close> the
  descent goes right if \<open>dir k = Some True\<close>, left if \<open>dir k = Some False\<close>.
\<close>

inductive steps :: "('k, 'v, 'm) nodes \<Rightarrow> ('k \<Rightarrow> bool option) \<Rightarrow> nat \<Rightarrow> ptr \<Rightarrow> ptr \<Rightarrow> bool"
  for h :: "('k, 'v, 'm) nodes" and dir :: "'k \<Rightarrow> bool option"
where
  steps_refl: "steps h dir 0 p p"
| steps_step: "h a = Some n \<Longrightarrow> dir (n_key n) = Some d \<Longrightarrow>
    steps h dir m (if d then n_right n else n_left n) q \<Longrightarrow> steps h dir (Suc m) (Ptr a) q"

inductive_cases steps_SucE: "steps h dir (Suc m) p q"
inductive_simps steps_0_iff: "steps h dir 0 p q"

lemma steps_trans: "steps h dir m p q \<Longrightarrow> steps h dir m' q r \<Longrightarrow> steps h dir (m + m') p r"
  by (induction rule: steps.induct) (auto intro: steps_step)

lemma steps_shape:
  "steps h dir m p q \<Longrightarrow> shape_at h p s \<Longrightarrow> \<exists>s'. shape_at h q s' \<and> size s' + m \<le> size s"
proof (induction arbitrary: s rule: steps.induct)
  case (steps_step a n d m q)
  then obtain l k r where s: "s = \<langle>l, (a, k), r\<rangle>" "shape_at h (n_left n) l" "shape_at h (n_right n) r"
    by (cases s rule: shape_root.cases) auto
  then have "\<exists>s'. shape_at h q s' \<and> size s' + m \<le> size (if d then r else l)"
    using steps_step.IH by simp
  then show ?case using s(1) by (auto split: if_splits)
qed auto

lemma cycle_no_shape:
  assumes "steps h dir m p q" "steps h dir (Suc m') q q"
  shows "\<not> shape_at h p s"
proof
  assume "shape_at h p s"
  then obtain s1 where s1: "shape_at h q s1" using steps_shape [OF assms(1)] by blast
  then obtain s2 where "shape_at h q s2" "size s2 + Suc m' \<le> size s1"
    using steps_shape [OF assms(2)] by blast
  with shape_at_unique [OF s1] show False by auto
qed

definition search_dir :: "'k::linorder \<Rightarrow> 'k \<Rightarrow> bool option" where
  "search_dir key k = (if k = key then None else Some (key > k))"

lemma cycle_next:
  assumes "steps h (search_dir key) (Suc m') q q" "steps h (search_dir key) m cur q"
  shows "\<exists>a n m2. cur = Ptr a \<and> h a = Some n \<and> n_key n \<noteq> key \<and>
    steps h (search_dir key) m2 (if key > n_key n then n_right n else n_left n) q"
proof -
  obtain m1 where "steps h (search_dir key) (Suc m1) cur q"
    using assms by (cases m) (auto simp: steps_0_iff)
  then obtain a n d where a: "cur = Ptr a" "h a = Some n" "search_dir key (n_key n) = Some d"
    "steps h (search_dir key) m1 (if d then n_right n else n_left n) q"
    by (rule steps_SucE) blast
  then have "n_key n \<noteq> key" "d = (key > n_key n)" by (auto simp: search_dir_def split: if_splits)
  then show ?thesis using a by blast
qed

lemma cycle_no_result:
  "find_loop h key parent cur stack = Some y \<Longrightarrow>
   \<forall>q m m'. steps h (search_dir key) (Suc m') q q \<longrightarrow> \<not> steps h (search_dir key) m cur q"
proof (rule find_loop.raw_induct [where P = "\<lambda>h key parent cur stack y.
    \<forall>q m m'. steps h (search_dir key) (Suc m') q q \<longrightarrow> \<not> steps h (search_dir key) m cur q"])
  fix f :: "('k::linorder, 'v, 'm) nodes \<Rightarrow> 'k \<Rightarrow> ptr \<Rightarrow> ptr \<Rightarrow> ptr list option \<Rightarrow>
      (ptr \<times> ptr \<times> ptr list option) run"
    and h :: "('k, 'v, 'm) nodes" and key parent cur stack y
  assume IH: "\<And>h key parent cur stack y. f h key parent cur stack = Some y \<Longrightarrow>
      \<forall>q m m'. steps h (search_dir key) (Suc m') q q \<longrightarrow> \<not> steps h (search_dir key) m cur q"
    and y: "(if cur = Nullptr then Some (Ret (parent, cur, stack))
      else case load h cur of Fault e \<Rightarrow> Some (Fault e)
        | Ret n \<Rightarrow> if n_key n = key then Some (Ret (parent, cur, stack))
          else f h key cur (if key > n_key n then n_right n else n_left n)
            (map_option ((#) cur) stack)) = Some y"
  show "\<forall>q m m'. steps h (search_dir key) (Suc m') q q \<longrightarrow> \<not> steps h (search_dir key) m cur q"
  proof (intro allI impI notI)
    fix q m m'
    assume c: "steps h (search_dir key) (Suc m') q q" "steps h (search_dir key) m cur q"
    from cycle_next [OF c] obtain a n m2 where n: "cur = Ptr a" "h a = Some n" "n_key n \<noteq> key"
      "steps h (search_dir key) m2 (if key > n_key n then n_right n else n_left n) q" by blast
    with y have "f h key cur (if key > n_key n then n_right n else n_left n)
        (map_option ((#) cur) stack) = Some y" by simp
    from IH [OF this] c(1) n(4) show False by blast
  qed
qed

lemma cycle_diverges:
  assumes "steps h (search_dir key) m p q" "steps h (search_dir key) (Suc m') q q"
  shows "find_loop h key parent p stack = None"
  using cycle_no_result [of h key parent p stack] assms by (cases "find_loop h key parent p stack") auto

section \<open>The path to the removed node and the spine below it\<close>

lemma steps_path:
  "shape_at h p s \<Longrightarrow> distinct (addrs s) \<Longrightarrow> lookup_addr s key = Some a \<Longrightarrow> path_up s key = b # bs \<Longrightarrow>
   h b = Some n \<Longrightarrow> h' b = Some n' \<Longrightarrow> n_key n' = n_key n \<Longrightarrow>
   n_left n' = n_left (relink (Ptr a) q n) \<Longrightarrow> n_right n' = n_right (relink (Ptr a) q n) \<Longrightarrow>
   (\<And>x. x \<in> set bs \<Longrightarrow> links h' x = links h x) \<Longrightarrow>
   (\<And>x m. x \<in> set (b # bs) \<Longrightarrow> h x = Some m \<Longrightarrow> dir (n_key m) = Some (key > n_key m)) \<Longrightarrow>
   \<exists>m. steps h' dir m p q"
proof (induction s arbitrary: p bs rule: addrs.induct)
  case 1
  then show ?case by simp
next
  case (2 l c k r)
  from 2(3) obtain nc where nc: "p = Ptr c" "h c = Some nc" "n_key nc = k"
    "shape_at h (n_left nc) l" "shape_at h (n_right nc) r" by auto
  have k: "k \<noteq> key" using 2(6) by auto
  define d where "d = (if key > k then r else l)"
  have d: "lookup_addr d key = Some a" "path_up d key @ [c] = b # bs"
    using 2(5,6) k by (auto simp: d_def)
  have ch: "shape_at h (if key > k then n_right nc else n_left nc) d"
    using nc by (simp add: d_def)
  show ?case
  proof (cases "path_up d key")
    case Nil
    then have eq: "c = b" "nc = n" using d(2) nc(2) 2(7) by auto
    from Nil d(1) obtain dl dr where dd: "d = \<langle>dl, (a, key), dr\<rangle>"
      by (cases d rule: shape_root.cases) (auto split: if_splits)
    have "n_left n \<noteq> Ptr a" if "key > k"
      using shape_at_root [OF nc(4)] 2(4) dd that eq(2)
      by (cases l rule: shape_root.cases) (auto simp: d_def)
    then have "(if key > k then n_right n' else n_left n') = q"
      using 2(10,11) dd ch eq by (auto simp: relink_def)
    then have "steps h' dir (Suc 0) (Ptr b) q"
      using 2(8,9) 2(13) [of b n] 2(7) nc(3) eq by (intro steps_step) (auto intro: steps_refl)
    then show ?thesis using nc(1) eq by blast
  next
    case (Cons b' bs')
    then have bs: "path_up d key = b # bs'" "bs = bs' @ [c]" using d(2) by auto
    have "\<exists>m. steps h' dir m (if key > k then n_right nc else n_left nc) q"
    proof (cases "key > k")
      case True
      have "\<exists>m. steps h' dir m (n_right nc) q"
      proof (rule 2(2) [OF nc(5) _ _ _ 2(7-11)])
        show "dir (n_key m) = Some (key > n_key m)" if "x \<in> set (b # bs')" "h x = Some m" for x m
          using 2(13) [of x m] that bs by auto
      qed (use 2(4,12) d bs True in \<open>auto simp: d_def\<close>)
      then show ?thesis using True by simp
    next
      case False
      have "\<exists>m. steps h' dir m (n_left nc) q"
      proof (rule 2(1) [OF nc(4) _ _ _ 2(7-11)])
        show "dir (n_key m) = Some (key > n_key m)" if "x \<in> set (b # bs')" "h x = Some m" for x m
          using 2(13) [of x m] that bs by auto
      qed (use 2(4,12) d bs False in \<open>auto simp: d_def\<close>)
      then show ?thesis using False by simp
    qed
    then obtain m where m: "steps h' dir m (if key > k then n_right nc else n_left nc) q" by blast
    have "links h' c = links h c" using 2(12) bs by simp
    then obtain n2 where n2: "h' c = Some n2" "n_key n2 = k" "n_left n2 = n_left nc" "n_right n2 = n_right nc"
      using nc by (auto simp: links_def)
    have "dir k = Some (key > k)" using 2(13) [of c nc] bs nc by simp
    then have "steps h' dir (Suc m) (Ptr c) q" using n2 m by (intro steps_step) auto
    then show ?thesis using nc(1) by blast
  qed
qed

fun spine :: "'k shape \<Rightarrow> nat list" where
  "spine \<langle>\<rangle> = []"
| "spine \<langle>l, (a, k), r\<rangle> = a # spine l"

text \<open>The keys to the right of the leftmost node.\<close>

fun leftmost_right :: "'k shape \<Rightarrow> 'k shape" where
  "leftmost_right \<langle>\<rangle> = \<langle>\<rangle>"
| "leftmost_right \<langle>l, (a, k), r\<rangle> = (if l = \<langle>\<rangle> then r else leftmost_right l)"

lemma leftmost_loop_shape:
  "shape_at h p s \<Longrightarrow> s \<noteq> \<langle>\<rangle> \<Longrightarrow> leftmost_loop h p = Some (Ret (Ptr (last (spine s))))"
proof (induction s arbitrary: p rule: addrs.induct)
  case (2 l a k r)
  then obtain n where "p = Ptr a" "h a = Some n" "shape_at h (n_left n) l" by auto
  moreover have "n_left n = Nullptr \<longleftrightarrow> l = \<langle>\<rangle>" if "shape_at h (n_left n) l" for n :: "('a, 'b, 'c) node"
    using that by (cases l rule: shape_root.cases) auto
  ultimately show ?case
    using 2(1) [of "n_left n"]
    by (subst leftmost_loop.simps) (cases l rule: shape_root.cases; auto)
qed simp

lemma spine_in: "set (spine s) \<subseteq> set (addrs s)"
  by (induction s rule: spine.induct) auto

lemma steps_spine:
  "shape_at h p s \<Longrightarrow> distinct (addrs s) \<Longrightarrow> s \<noteq> \<langle>\<rangle> \<Longrightarrow>
   (\<And>x. x \<in> set (spine s) \<Longrightarrow> x \<noteq> last (spine s) \<Longrightarrow> links h' x = links h x) \<Longrightarrow>
   (\<And>x n. x \<in> set (spine s) \<Longrightarrow> x \<noteq> last (spine s) \<Longrightarrow> h x = Some n \<Longrightarrow> dir (n_key n) = Some False) \<Longrightarrow>
   \<exists>m. steps h' dir m p (Ptr (last (spine s)))"
proof (induction s arbitrary: p rule: spine.induct)
  case (2 l a k r)
  from 2(2) obtain n where n: "p = Ptr a" "h a = Some n" "n_key n = k" "shape_at h (n_left n) l" by auto
  show ?case
  proof (cases "l = \<langle>\<rangle>")
    case True
    then show ?thesis using n(1) by (auto intro: steps_refl)
  next
    case False
    then have ne: "spine l \<noteq> []" by (cases l rule: spine.cases) auto
    then have "last (spine l) \<in> set (addrs l)" using spine_in last_in_set by fastforce
    then have al: "a \<noteq> last (spine l)" using 2(3) by auto
    have "\<exists>m. steps h' dir m (n_left n) (Ptr (last (spine l)))"
    proof (rule 2(1) [OF n(4)])
      show "dir (n_key m) = Some False" if "x \<in> set (spine l)" "x \<noteq> last (spine l)" "h x = Some m" for x m
        using 2(6) [of x m] that ne by auto
    qed (use 2(3,5) False ne in auto)
    then obtain m where m: "steps h' dir m (n_left n) (Ptr (last (spine l)))" by blast
    obtain n2 where "h' a = Some n2" "n_key n2 = k" "n_left n2 = n_left n"
      using 2(5) [of a] n al ne by (auto simp: links_def)
    moreover have "dir k = Some False" using 2(6) [of a n] n al ne by auto
    ultimately have "steps h' dir (Suc m) (Ptr a) (Ptr (last (spine l)))"
      using m by (intro steps_step) auto
    then show ?thesis using n(1) ne by auto
  qed
qed simp

section \<open>Remove with a right child\<close>

lemma child_ok_links:
  "(\<And>a. links h' a = None \<longleftrightarrow> links h a = None) \<Longrightarrow> child_ok h' p \<longleftrightarrow> child_ok h p"
  by (cases p) (simp_all add: child_ok_def links_def)

definition node_ok :: "('k, 'v, 'm) nodes \<Rightarrow> nat \<Rightarrow> bool" where
  "node_ok h a \<longleftrightarrow> (\<exists>k l r. links h a = Some (k, l, r) \<and> child_ok h l \<and> child_ok h r)"

lemma node_ok_links: "(\<And>a. links h' a = links h a) \<Longrightarrow> node_ok h' a = node_ok h a"
  by (simp add: node_ok_def child_ok_links [of h' h])

lemma visit_ok:
  "recomputes c f \<Longrightarrow> (\<And>a. a \<in> set as \<Longrightarrow> node_ok h a) \<Longrightarrow>
   \<exists>h'. visit_stack f h (map Ptr as) = Ret h' \<and> (\<forall>b. core h' b = core h b)"
proof (induction as arbitrary: h)
  case (Cons a as)
  have "node_ok h a" using Cons(3) by simp
  then obtain n where n: "h a = Some n" "child_ok h (n_left n)" "child_ok h (n_right n)"
    by (auto simp: node_ok_def links_def)
  define h1 where "h1 = h(a \<mapsto> refreshed c h n)"
  have f: "f h (Ptr a) = Ret h1" using Cons(2) n by (simp add: recomputes_def h1_def)
  have c1: "core h1 b = core h b" for b using n(1) by (simp add: h1_def core_def refreshed_def)
  have "node_ok h1 b" if "b \<in> set as" for b
    using Cons(3) [of b] that node_ok_links [of h1 h, OF core_links [OF c1]] by simp
  from Cons(1) [OF Cons(2) this] f c1 show ?case by auto
qed simp

lemma shape_node_ok: "shape_at h p s \<Longrightarrow> a \<in> set (addrs s) \<Longrightarrow> node_ok h a"
proof (induction h p s rule: shape_at.induct)
  case (2 h p l b k r)
  then obtain n where n: "h b = Some n" "shape_at h (n_left n) l" "shape_at h (n_right n) r" by auto
  from shape_child_ok [OF n(2)] shape_child_ok [OF n(3)] n(1) have "node_ok h b"
    by (auto simp: node_ok_def links_def)
  with 2 n show ?case by auto
qed simp

lemma path_keys:
  "ordered s \<Longrightarrow> shape_at h p s \<Longrightarrow> key' \<in> set (keys (subtree_of key s)) \<Longrightarrow>
   x \<in> set (path_up s key) \<Longrightarrow> h x = Some n \<Longrightarrow>
   n_key n \<noteq> key \<and> n_key n \<noteq> key' \<and> (n_key n < key' \<longleftrightarrow> n_key n < key)"
proof (induction s arbitrary: p rule: addrs.induct)
  case (2 l a k r)
  have keys: "set (keys (subtree_of key u)) \<subseteq> set (keys u)" for u :: "'a shape"
    by (induction key u rule: subtree_of.induct) auto
  from 2(4) obtain m where m: "h a = Some m" "n_key m = k" "shape_at h (n_left m) l" "shape_at h (n_right m) r"
    by auto
  have k: "k \<noteq> key" using 2(6) by auto
  show ?case
  proof (cases "key > k")
    case True
    then have "key' \<in> set (keys (subtree_of key r))" "x = a \<or> x \<in> set (path_up r key)"
      using 2(5,6) k by auto
    then show ?thesis
      using 2(2) [OF _ m(4)] 2(3,7) k m(1,2) keys [of r] True by auto
  next
    case False
    then have "key' \<in> set (keys (subtree_of key l))" "x = a \<or> x \<in> set (path_up l key)"
      using 2(5,6) k by auto
    moreover from this have "key' < k" using keys [of l] 2(3) by auto
    ultimately show ?thesis
      using 2(1) [OF _ m(3)] 2(3,7) k m(1,2) False by auto
  qed
qed simp

lemma shape_key_in: "shape_at h p s \<Longrightarrow> a \<in> set (addrs s) \<Longrightarrow> h a = Some n \<Longrightarrow> n_key n \<in> set (keys s)"
  by (induction h p s rule: shape_at.induct) fastforce+

lemma spine_keys:
  "ordered s \<Longrightarrow> shape_at h p s \<Longrightarrow> x \<in> set (spine s) \<Longrightarrow> x \<noteq> last (spine s) \<Longrightarrow> h x = Some n \<Longrightarrow>
   h (last (spine s)) = Some m \<Longrightarrow> n_key m < n_key n \<and> (\<forall>k \<in> set (keys (leftmost_right s)). k < n_key n)"
proof (induction s arbitrary: p rule: spine.induct)
  case (2 l a k r)
  from 2(3) obtain na where na: "h a = Some na" "n_key na = k" "shape_at h (n_left na) l" by auto
  have l: "l \<noteq> \<langle>\<rangle>" using 2(4,5) by auto
  then have ne: "spine l \<noteq> []" by (cases l rule: spine.cases) auto
  have lk: "set (keys (leftmost_right u)) \<subseteq> set (keys u)" for u :: "'a shape"
    by (induction u rule: leftmost_right.induct) auto
  show ?case
  proof (cases "x = a")
    case True
    have "last (spine l) \<in> set (addrs l)" using ne spine_in last_in_set by blast
    then have "n_key m \<in> set (keys l)" using shape_key_in [OF na(3)] 2(7) ne by simp
    then show ?thesis using True 2(2,6) na lk [of l] l by auto
  next
    case False
    then show ?thesis using 2(1) [OF _ na(3)] 2(2,4-7) l ne by auto
  qed
qed simp

lemma leftmost_keys:
  "ordered s \<Longrightarrow> shape_at h p s \<Longrightarrow> h (last (spine s)) = Some m \<Longrightarrow> k \<in> set (keys (leftmost_right s)) \<Longrightarrow>
   n_key m < k"
proof (induction s arbitrary: p rule: spine.induct)
  case (2 l a k' r)
  show ?case
  proof (cases "l = \<langle>\<rangle>")
    case False
    then have "spine l \<noteq> []" by (cases l rule: spine.cases) auto
    then show ?thesis using 2 False by auto
  qed (use 2 in auto)
qed simp

lemma path_subtree_disjoint:
  "distinct (addrs s) \<Longrightarrow> x \<in> set (path_up s key) \<Longrightarrow> x \<notin> set (addrs (subtree_of key s))"
proof (induction s rule: addrs.induct)
  case (2 l a k r)
  then show ?case
    using subtree_of_addrs [of key l] subtree_of_addrs [of key r] path_up_in [of l key] path_up_in [of r key]
    by (auto split: if_splits)
qed simp

lemma ordered_subtree: "ordered s \<Longrightarrow> ordered (subtree_of key s)"
  by (induction key s rule: subtree_of.induct) auto

text \<open>
  The memory that \<open>Remove\<close> leaves, up to metadata: the successor \<open>c\<close> has the children of the
  removed node \<open>a\<close>, the parent \<open>b\<close> points to \<open>c\<close>, and \<open>a\<close> is gone.
\<close>

definition spliced :: "('k, 'v, 'm) nodes \<Rightarrow> nat \<Rightarrow> nat \<Rightarrow> nat \<Rightarrow> ('k, 'v, 'm) nodes \<Rightarrow> bool" where
  "spliced h a b c h' \<longleftrightarrow> (\<exists>na nb nc nb' nc'. h a = Some na \<and> h b = Some nb \<and> h c = Some nc \<and>
     h' b = Some nb' \<and> n_key nb' = n_key nb \<and>
     n_left nb' = n_left (relink (Ptr a) (Ptr c) nb) \<and> n_right nb' = n_right (relink (Ptr a) (Ptr c) nb) \<and>
     h' c = Some nc' \<and> n_key nc' = n_key nc \<and> n_left nc' = n_left na \<and> n_right nc' = n_right na \<and>
     (\<forall>x. x \<noteq> a \<longrightarrow> x \<noteq> b \<longrightarrow> x \<noteq> c \<longrightarrow> links h' x = links h x))"

lemma spliced_cycle:
  assumes r: "root_at h s" and d: "root_addr \<notin> set (addrs s)" "distinct (addrs s)"
    and sub: "subtree_of key s = \<langle>sl, (a, key), sr\<rangle>" "sr \<noteq> \<langle>\<rangle>" and c: "c = last (spine sr)"
    and b: "last_ptr root_ptr (path_up s key) = Ptr b" and sp: "spliced h a b c h'"
    and path: "\<And>x n. x \<in> set (path_up s key) \<Longrightarrow> h x = Some n \<Longrightarrow> dir (n_key n) = Some (key > n_key n)"
    and succ: "\<And>n. h c = Some n \<Longrightarrow> dir (n_key n) = Some True"
    and spine: "\<And>x n. x \<in> set (spine sr) \<Longrightarrow> x \<noteq> c \<Longrightarrow> h x = Some n \<Longrightarrow> dir (n_key n) = Some False"
  shows "\<exists>rn m m'. h' root_addr = Some rn \<and> steps h' dir m (n_left rn) (Ptr c) \<and>
    steps h' dir (Suc m') (Ptr c) (Ptr c)"
proof -
  obtain na nb nc nb' nc' where
    n: "h a = Some na" "h b = Some nb" "h c = Some nc" "h' b = Some nb'" "n_key nb' = n_key nb"
      "n_left nb' = n_left (relink (Ptr a) (Ptr c) nb)" "n_right nb' = n_right (relink (Ptr a) (Ptr c) nb)"
      "h' c = Some nc'" "n_key nc' = n_key nc" "n_left nc' = n_left na" "n_right nc' = n_right na" and
    same: "\<And>x. x \<noteq> a \<Longrightarrow> x \<noteq> b \<Longrightarrow> x \<noteq> c \<Longrightarrow> links h' x = links h x"
    using sp by (auto simp: spliced_def)
  obtain rn where rn: "h root_addr = Some rn" "shape_at h (n_left rn) s"
    using r by (auto simp: root_at_def)
  have l: "lookup_addr s key = Some a"
    using subtree_of_root [of key s] sub by (cases "lookup_addr s key") auto
  have sra: "shape_at h (n_right na) sr" "distinct (addrs sr)" "a \<notin> set (addrs sr)"
    using subtree_of_at [OF rn(2), of key] subtree_of_distinct [OF d(2), of key] l sub n(1) by auto
  have ne: "spine sr \<noteq> []" using sub(2) by (cases sr rule: spine.cases) auto
  then have cs: "c \<in> set (addrs sr)" using spine_in last_in_set c by blast
  have ss: "set (addrs sr) \<subseteq> set (addrs (subtree_of key s))" "a \<in> set (addrs (subtree_of key s))"
    using sub by auto
  have np: "x \<notin> set (addrs sr) \<and> x \<noteq> a" if "x \<in> set (path_up s key)" for x
    using path_subtree_disjoint [OF d(2) that] ss by auto
  have bn: "b \<notin> set (addrs sr)"
    using b np [of b] d(1) subtree_of_addrs [of key s] ss
    by (cases "path_up s key") auto
  have "\<exists>m. steps h' dir m (n_right na) (Ptr (last (spine sr)))"
  proof (rule steps_spine [OF sra(1,2) sub(2)])
    show "links h' x = links h x" if "x \<in> set (spine sr)" "x \<noteq> last (spine sr)" for x
      using that c spine_in [of sr] bn sra(3) by (intro same) auto
    show "dir (n_key n) = Some False"
      if "x \<in> set (spine sr)" "x \<noteq> last (spine sr)" "h x = Some n" for x n
      using that c spine by simp
  qed
  then obtain m' where "steps h' dir (Suc m') (Ptr c) (Ptr c)"
    using steps_step [of h' c nc' dir True] n(8,9,11) succ [OF n(3)] c by auto
  moreover have "\<exists>rn m. h' root_addr = Some rn \<and> steps h' dir m (n_left rn) (Ptr c)"
  proof (cases "path_up s key")
    case Nil
    then have "b = root_addr" "n_left rn = Ptr a"
      using b l rn(2) by (cases s rule: shape_root.cases; auto split: if_splits)+
    then have "n_left nb' = Ptr c" using n(2,6) rn(1) by (auto simp: relink_def)
    then show ?thesis using n(4) \<open>b = root_addr\<close> by (auto intro: steps_refl)
  next
    case (Cons b' bs)
    then have bs: "path_up s key = b # bs" using b by simp
    have "\<exists>m. steps h' dir m (n_left rn) (Ptr c)"
    proof (rule steps_path [where h = h and n = nb and h' = h' and n' = nb', OF rn(2) d(2) l bs n(2) n(4-7)])
      show "links h' x = links h x" if "x \<in> set bs" for x
        using that np [of x] bs cs path_up_distinct [OF d(2), of key] by (intro same) auto
    qed (use path bs in auto)
    moreover have "root_addr \<noteq> b" "root_addr \<noteq> c" "root_addr \<noteq> a"
      using d(1) path_up_in [of s key] bs cs ss subtree_of_addrs [of key s] by auto
    then have "links h' root_addr = links h root_addr" using same by blast
    then obtain rn' where "h' root_addr = Some rn'" "n_left rn' = n_left rn"
      using rn(1) by (auto simp: links_def)
    ultimately show ?thesis by auto
  qed
  ultimately show ?thesis by blast
qed

lemma parent_child:
  assumes "root_at h s" "root_addr \<notin> set (addrs s)" "distinct (addrs s)"
    "lookup_addr s key = Some a" "last_ptr root_ptr (path_up s key) = Ptr b"
  shows "\<exists>n. h b = Some n \<and> (n_left n = Ptr a \<or> n_right n = Ptr a)"
proof -
  obtain n where n: "h b = Some n"
    "ReplaceChild h (Ptr b) (Ptr a) Nullptr = Ret (h(b \<mapsto> relink (Ptr a) Nullptr n))"
    using root_at_unlink [OF assms, of Nullptr "\<langle>\<rangle>"] by auto
  then show ?thesis by (auto simp: ReplaceChild_def assertO_eq_Ret split: if_splits)
qed

text \<open>The memory after the two writes of \<open>unlink\<close>, before the metadata are recomputed.\<close>

definition splice ::
    "nat \<Rightarrow> nat \<Rightarrow> nat \<Rightarrow> ('k, 'v, 'm) node \<Rightarrow> ('k, 'v, 'm) node \<Rightarrow> ('k, 'v, 'm) node \<Rightarrow> ('k, 'v, 'm) nodes \<Rightarrow> ('k, 'v, 'm) nodes"
where
  "splice a b c na nb nc h =
     h(c \<mapsto> nc\<lparr>n_left := n_left na, n_right := n_right na\<rparr>, b \<mapsto> relink (Ptr a) (Ptr c) nb)"

lemma unlink_splice:
  assumes "h a = Some na" "h b = Some nb" "h c = Some nc" "a \<noteq> c" "b \<noteq> a" "b \<noteq> c"
    "n_left nb = Ptr a \<or> n_right nb = Ptr a"
  shows "unlink h (Ptr b) (Ptr a) (Ptr a, Ptr c) = Ret (splice a b c na nb nc h)"
proof -
  have "copy_children h (Ptr c) (Ptr a) = Ret (h(c \<mapsto> nc\<lparr>n_left := n_left na, n_right := n_right na\<rparr>))"
    using assms by (simp add: copy_children_def set_defs)
  then show ?thesis
    using assms by (auto simp: unlink_def ReplaceChild_def set_defs splice_def relink_def)
qed

lemma splice_node_ok:
  assumes "shape_at h p s" "x \<in> set (addrs s)" "x \<noteq> c" "h b = Some nb" "h c = Some nc"
  shows "node_ok (splice a b c na nb nc h) x"
proof -
  obtain n where n: "h x = Some n" "child_ok h (n_left n)" "child_ok h (n_right n)"
    using shape_node_ok [OF assms(1,2)] by (auto simp: node_ok_def links_def)
  have "child_ok (splice a b c na nb nc h) q" if "child_ok h q" for q
    using that assms(4,5) by (cases q) (auto simp: splice_def)
  then show ?thesis using n assms(3-5)
    by (cases "x = b") (auto simp: node_ok_def links_def splice_def relink_def)
qed

lemma spliced_splice:
  assumes "h a = Some na" "h b = Some nb" "h c = Some nc" "a \<noteq> c" "b \<noteq> a" "b \<noteq> c"
    and core: "\<And>x. core h3 x = core (splice a b c na nb nc h) x"
  shows "spliced h a b c (h3(a := None))"
proof -
  obtain nb' where "h3 b = Some nb'" "n_key nb' = n_key (relink (Ptr a) (Ptr c) nb)"
    "n_left nb' = n_left (relink (Ptr a) (Ptr c) nb)" "n_right nb' = n_right (relink (Ptr a) (Ptr c) nb)"
    using core_links [OF core, of b] by (auto simp: links_def splice_def)
  moreover obtain nc' where "h3 c = Some nc'" "n_key nc' = n_key nc"
    "n_left nc' = n_left na" "n_right nc' = n_right na"
    using core_links [OF core, of c] assms(6) by (auto simp: links_def splice_def)
  moreover have "links h3 x = links h x" if "x \<noteq> b" "x \<noteq> c" for x
    using core_links [OF core, of x] that by (simp add: links_def splice_def)
  ultimately show ?thesis using assms(1-6) by (auto simp: spliced_def relink_fields links_def)
qed

context augmenting_visitor begin

lemma remove_right_child:
  assumes i: "atree_inv combine t s cs" and sub: "subtree_of key s = \<langle>sl, (a, key), sr\<rangle>" "sr \<noteq> \<langle>\<rangle>"
  shows "\<exists>t' b. Remove vis t key = Some (Ret (t', OkStatus)) \<and>
    last_ptr root_ptr (path_up s key) = Ptr b \<and>
    spliced (at_mem t) a b (last (spine sr)) (at_mem t') \<and>
    at_size t' = at_size t - 1 \<and> dom (at_mem t') = dom (at_mem t) - {a}"
proof -
  define h c where "h = at_mem t" "c = last (spine sr)"
  have st: "root_at h s" "root_addr \<notin> set (addrs s)" "distinct (addrs s)"
    using i by (auto simp: inv_defs h_c_def owned_def)
  obtain r where r: "h root_addr = Some r" "shape_at h (n_left r) s"
    using st(1) by (auto simp: root_at_def)
  obtain na where l: "lookup_addr s key = Some a"
    and na: "h a = Some na" "shape_at h (n_left na) sl" "shape_at h (n_right na) sr"
    using root_at_subtree [OF st(1) sub(1)] by blast
  have ne: "spine sr \<noteq> []" using sub(2) by (cases sr rule: spine.cases) auto
  then have c: "c \<in> set (addrs sr)" using spine_in last_in_set h_c_def(2) by blast
  then obtain nc where nc: "h c = Some nc" using shape_at_alloc [OF na(3)] by blast
  have ac: "a \<noteq> c" using subtree_of_distinct [OF st(3), of key] sub(1) c by auto
  obtain b where b: "last_ptr root_ptr (path_up s key) = Ptr b" by (cases "path_up s key") auto
  obtain nb where nb: "h b = Some nb" "n_left nb = Ptr a \<or> n_right nb = Ptr a"
    using parent_child [OF st l b] by blast
  have np: "x \<noteq> a \<and> x \<noteq> c" if "x \<in> set (path_up s key)" for x
    using path_subtree_disjoint [OF st(3) that] sub(1) c by auto
  have bc: "b \<noteq> a" "b \<noteq> c"
    using b np st(2) c l lookup_addr_in [OF l] subtree_of_addrs [of key s] sub(1)
    by (cases "path_up s key"; auto)+
  define h2 where "h2 = splice a b c na nb nc h"
  have "n_right na \<noteq> Nullptr" using na(3) sub(2) by (auto simp: shape_at_Nullptr_iff)
  then have succ: "FindSuccessors h (Ptr a) = Some (Ret (Ptr a, Ptr c))"
    using na leftmost_loop_shape [OF na(3) sub(2)] by (simp add: FindSuccessors_def h_c_def)
  have un: "unlink h (Ptr b) (Ptr a) (Ptr a, Ptr c) = Ret h2"
    unfolding h2_def by (rule unlink_splice [OF na(1) nb(1) nc ac bc nb(2)])
  have ok: "node_ok h2 x" if x: "x \<in> set (path_up s key)" for x
    unfolding h2_def using np [OF x] path_up_in x
    by (intro splice_node_ok [OF r(2) _ _ nb(1) nc]) fast+
  obtain h3 where h3: "visit_stack (OnRemove vis) h2 (map Ptr (path_up s key)) = Ret h3"
    "\<And>x. core h3 x = core h2 x"
    using visit_ok [OF on_remove ok] by blast
  have "h2 a = Some na" using na(1) ac bc by (simp add: h2_def splice_def)
  then obtain na3 where na3: "h3 a = Some na3" using h3(2) [of a] by (auto simp: core_def)
  define t' where "t' = t\<lparr>at_mem := h3(a := None), at_size := at_size t - 1\<rparr>"
  have "Remove vis t key = Some (Ret (t', OkStatus))"
    using b l un h3(1) na3 succ st(1) by (simp add: Remove_def root_at_FindInternal h_c_def t'_def)
  moreover have "spliced h a b c (at_mem t')"
    using spliced_splice [OF na(1) nb(1) nc ac bc h3(2) [unfolded h2_def]] by (simp add: t'_def)
  moreover have "dom (at_mem t') = dom h - {a}"
    using core_dom [OF h3(2)] nb(1) nc by (auto simp: t'_def h2_def splice_def)
  ultimately show ?thesis using b by (auto simp: t'_def h_c_def)
qed

text \<open>Afterwards no tree hangs off the root, and searches below the successor hang.\<close>

lemma remove_right_child_cycle:
  assumes i: "atree_inv combine t s cs" and sub: "subtree_of key s = \<langle>sl, (a, key), sr\<rangle>" "sr \<noteq> \<langle>\<rangle>"
  shows "\<exists>t'. Remove vis t key = Some (Ret (t', OkStatus)) \<and> (\<forall>s'. \<not> root_at (at_mem t') s') \<and>
    (\<forall>k \<in> set (keys (leftmost_right sr)). Find t' k = None)"
proof -
  obtain t' b where t': "Remove vis t key = Some (Ret (t', OkStatus))"
    and b: "last_ptr root_ptr (path_up s key) = Ptr b"
    and sp: "spliced (at_mem t) a b (last (spine sr)) (at_mem t')"
    using remove_right_child [OF assms] by blast
  define c where "c = last (spine sr)"
  have st: "root_at (at_mem t) s" "root_addr \<notin> set (addrs s)" "distinct (addrs s)" "ordered s"
    using i by (auto simp: inv_defs owned_def)
  obtain r where r: "at_mem t root_addr = Some r" "shape_at (at_mem t) (n_left r) s"
    using st(1) by (auto simp: root_at_def)
  obtain na where na: "at_mem t a = Some na" "shape_at (at_mem t) (n_right na) sr"
    using root_at_subtree [OF st(1) sub(1)] by blast
  obtain nc where nc: "at_mem t c = Some nc" using sp by (auto simp: spliced_def c_def)
  have sub_ord: "ordered sr" "\<forall>k \<in> set (keys sr). key < k"
    using ordered_subtree [OF st(4), of key] sub(1) by auto
  have ne: "spine sr \<noteq> []" using sub(2) by (cases sr rule: spine.cases) auto
  then have "c \<in> set (addrs sr)" using spine_in last_in_set c_def by blast
  then have kc: "n_key nc \<in> set (keys sr)" using shape_key_in [OF na(2) _ nc] by blast
  have in_sub: "k \<in> set (keys (subtree_of key s))" if "k \<in> set (keys sr)" for k using sub(1) that by simp
  have lr: "set (keys (leftmost_right u)) \<subseteq> set (keys u)" for u :: "'k shape"
    by (induction u rule: leftmost_right.induct) auto
  note cyc = spliced_cycle [OF st(1-3) sub c_def b sp [folded c_def]]
  have "\<not> root_at (at_mem t') s'" for s'
  proof -
    have "\<exists>rn m m'. at_mem t' root_addr = Some rn \<and>
        steps (at_mem t') (\<lambda>k. Some (key > k \<or> k = n_key nc)) m (n_left rn) (Ptr c) \<and>
        steps (at_mem t') (\<lambda>k. Some (key > k \<or> k = n_key nc)) (Suc m') (Ptr c) (Ptr c)"
    proof (rule cyc)
      show "Some (key > n_key n \<or> n_key n = n_key nc) = Some (key > n_key n)"
        if "x \<in> set (path_up s key)" "at_mem t x = Some n" for x n
        using path_keys [OF st(4) r(2) in_sub [OF kc] that] by auto
      show "Some (key > n_key n \<or> n_key n = n_key nc) = Some False"
        if "x \<in> set (spine sr)" "x \<noteq> c" "at_mem t x = Some n" for x n
      proof -
        have "n_key n \<in> set (keys sr)" using shape_key_in [OF na(2) _ that(3)] that(1) spine_in by fast
        then show ?thesis
          using spine_keys [OF sub_ord(1) na(2) that(1) that(2) [unfolded c_def] that(3) nc [unfolded c_def]] sub_ord(2)
          by (auto dest: less_asym)
      qed
    qed (use nc in auto)
    then show ?thesis using cycle_no_shape by (auto simp: root_at_def) blast
  qed
  moreover have "Find t' k = None" if k: "k \<in> set (keys (leftmost_right sr))" for k
  proof -
    have ksr: "k \<in> set (keys sr)" using k lr by blast
    have "\<exists>rn m m'. at_mem t' root_addr = Some rn \<and>
        steps (at_mem t') (search_dir k) m (n_left rn) (Ptr c) \<and>
        steps (at_mem t') (search_dir k) (Suc m') (Ptr c) (Ptr c)"
    proof (rule cyc)
      show "search_dir k (n_key n) = Some (key > n_key n)"
        if "x \<in> set (path_up s key)" "at_mem t x = Some n" for x n
        using path_keys [OF st(4) r(2) in_sub [OF ksr] that] by (auto simp: search_dir_def)
      show "search_dir k (n_key n) = Some True" if "at_mem t c = Some n" for n
        using leftmost_keys [OF sub_ord(1) na(2) that [unfolded c_def] k] by (auto simp: search_dir_def)
      show "search_dir k (n_key n) = Some False"
        if "x \<in> set (spine sr)" "x \<noteq> c" "at_mem t x = Some n" for x n
        using spine_keys [OF sub_ord(1) na(2) that(1) that(2) [unfolded c_def] that(3) nc [unfolded c_def]] k
        by (auto simp: search_dir_def)
    qed
    then show ?thesis by (auto simp: Find_def FindInternal_def cycle_diverges)
  qed
  ultimately show ?thesis using t' by blast
qed

end

end
