(* ===== verification/ATree_Props.thy ===== *)
theory ATree_Props
  imports ATree_Cycle
begin

text \<open>
  The properties of \<open>ATree\<close>, and the interpretation of the visitor contract on the code's
  \<open>EmptyVisitor\<close> (a plain set or map without augmentation).
\<close>

section \<open>The empty visitor\<close>

definition no_meta :: "(unit, unit) combiner" where
  "no_meta v l r = ()"

definition keep_value :: "unit \<Rightarrow> unit \<Rightarrow> unit \<Rightarrow> unit" where
  "keep_value old v m = old"

lemma unit_refreshed: "h a = Some n \<Longrightarrow> h(a \<mapsto> refreshed no_meta h n) = h"
  for n :: "('k, unit, unit) node"
  by (cases n) (auto simp: refreshed_def no_meta_def fun_eq_iff)

interpretation plain: augmenting_visitor EmptyVisitor no_meta keep_value
proof unfold_locales
  fix h :: "('k::linorder, unit, unit) nodes" and a n v m
  assume "h a = Some n"
  moreover have "refreshed no_meta h (n\<lparr>n_value := keep_value (n_value n) v m\<rparr>) = n"
    by (cases n) (simp add: refreshed_def)
  ultimately show "Update EmptyVisitor h (Ptr a) v m =
      Ret (h(a \<mapsto> refreshed no_meta h (n\<lparr>n_value := keep_value (n_value n) v m\<rparr>)))"
    by (simp only: EmptyVisitor_def visitor.simps) (simp add: fun_upd_idem)
qed (auto simp: recomputes_def EmptyVisitor_def unit_refreshed)

section \<open>Runs of operations\<close>

text \<open>
  The operations of a client that inserts, updates, looks up and clears, with what it sees of
  each: the status of an insertion, the value at the address \<open>Find\<close> returns, the size.
\<close>

datatype ('k, 'v, 'm) atree_op =
  OpInsert 'k 'v 'm | OpInsertOrUpdate 'k 'v 'm | OpFind 'k | OpClear | OpSize

datatype 'v answer = AStatus status | AFound "'v option" | ACleared | ASize int

fun step_op ::
  "('k::linorder, 'v, 'm) visitor \<Rightarrow> ('k, 'v, 'm) atree \<Rightarrow> ('k, 'v, 'm) atree_op
   \<Rightarrow> (('k, 'v, 'm) atree \<times> 'v answer) run"
where
  "step_op vis t (OpInsert k v m) = bindR (Insert vis t k v m) (\<lambda>(t', st). Some (Ret (t', AStatus st)))"
| "step_op vis t (OpInsertOrUpdate k v m) =
     bindR (InsertOrUpdate vis t k v m) (\<lambda>(t', st). Some (Ret (t', AStatus st)))"
| "step_op vis t (OpFind k) = bindR (Find t k) (\<lambda>res. case res of
       Inl _ \<Rightarrow> Some (Ret (t, AFound None))
     | Inr p \<Rightarrow> bindR (Some (load (at_mem t) p)) (\<lambda>n. Some (Ret (t, AFound (Some (n_value n))))))"
| "step_op vis t OpClear = bindR (Some (Clear t)) (\<lambda>t'. Some (Ret (t', ACleared)))"
| "step_op vis t OpSize = Some (Ret (t, ASize (Size t)))"

fun run_ops ::
  "('k::linorder, 'v, 'm) visitor \<Rightarrow> ('k, 'v, 'm) atree \<Rightarrow> ('k, 'v, 'm) atree_op list
   \<Rightarrow> (('k, 'v, 'm) atree \<times> 'v answer list) run"
where
  "run_ops vis t [] = Some (Ret (t, []))"
| "run_ops vis t (x # xs) = bindR (step_op vis t x) (\<lambda>(t', a).
     bindR (run_ops vis t' xs) (\<lambda>(t'', as). Some (Ret (t'', a # as))))"

text \<open>The same operations on a finite map.\<close>

fun spec_op :: "('v \<Rightarrow> 'v \<Rightarrow> 'm \<Rightarrow> 'v) \<Rightarrow> ('k \<rightharpoonup> 'v) \<Rightarrow> ('k, 'v, 'm) atree_op \<Rightarrow> ('k \<rightharpoonup> 'v) \<times> 'v answer" where
  "spec_op bump f (OpInsert k v m) =
     (if f k = None then (f(k \<mapsto> v), AStatus OkStatus)
      else (f, AStatus (ErrorStatus kAlreadyExists ''Key already exists'')))"
| "spec_op bump f (OpInsertOrUpdate k v m) =
     (f(k \<mapsto> (case f k of None \<Rightarrow> v | Some old \<Rightarrow> bump old v m)), AStatus OkStatus)"
| "spec_op bump f (OpFind k) = (f, AFound (f k))"
| "spec_op bump f OpClear = (Map.empty, ACleared)"
| "spec_op bump f OpSize = (f, ASize (int (card (dom f))))"

fun spec_ops ::
  "('v \<Rightarrow> 'v \<Rightarrow> 'm \<Rightarrow> 'v) \<Rightarrow> ('k \<rightharpoonup> 'v) \<Rightarrow> ('k, 'v, 'm) atree_op list \<Rightarrow> ('k \<rightharpoonup> 'v) \<times> 'v answer list"
where
  "spec_ops bump f [] = (f, [])"
| "spec_ops bump f (x # xs) =
     (let (f', a) = spec_op bump f x; (f'', as) = spec_ops bump f' xs in (f'', a # as))"

lemma distinct_keys: "ordered s \<Longrightarrow> distinct (keys s)"
  by (induction s rule: keys.induct) (auto dest: less_asym)

lemma length_keys: "length (keys s) = size s"
  by (induction s rule: keys.induct) auto

lemma atree_size:
  assumes "atree_struct t s cs"
  shows "Size t = int (card (dom (denotes (at_mem t) s)))"
proof -
  obtain r where "at_mem t root_addr = Some r" "shape_at (at_mem t) (n_left r) s" "ordered s" "at_size t = int (size s)"
    using assms by (auto simp: atree_struct_def root_at_def)
  then show ?thesis
    by (simp add: Size_def dom_denotes distinct_card [OF distinct_keys] length_keys)
qed

lemma denotes_lookup:
  assumes "atree_struct t s cs"
  shows "denotes (at_mem t) s k = None \<longleftrightarrow> lookup_addr s k = None"
proof -
  obtain r where "at_mem t root_addr = Some r" "shape_at (at_mem t) (n_left r) s" using assms by (auto simp: atree_struct_def root_at_def)
  then show ?thesis
    using lookup_addr_in shape_at_alloc by (fastforce simp: denotes_def split: option.splits)
qed

context augmenting_visitor begin

lemma insert_or_update_correct:
  assumes "atree_inv combine t s cs"
  shows "\<exists>t' s'. InsertOrUpdate vis t k v m = Some (Ret (t', OkStatus)) \<and>
    atree_inv combine t' s' cs \<and> at_cleared t' = at_cleared t \<and>
    denotes (at_mem t') s' =
      (denotes (at_mem t) s)(k \<mapsto> (case denotes (at_mem t) s k of None \<Rightarrow> v | Some old \<Rightarrow> bump old v m))"
proof (cases "lookup_addr s k")
  case None
  then have "denotes (at_mem t) s k = None" by (simp add: denotes_def)
  then show ?thesis using insert_new [OF assms None, of v m] by auto
next
  case (Some a)
  then show ?thesis using update_correct [OF assms Some, of v m] by fastforce
qed

lemma insert_correct:
  assumes i: "atree_inv combine t s cs"
  shows "\<exists>t' s' st. Insert vis t k v m = Some (Ret (t', st)) \<and> atree_inv combine t' s' cs \<and>
    spec_op bump (denotes (at_mem t) s) (OpInsert k v m) = (denotes (at_mem t') s', AStatus st)"
proof (cases "lookup_addr s k")
  case None
  then have "denotes (at_mem t) s k = None" by (simp add: denotes_def)
  then show ?thesis using insert_new [OF i None, of v m] by (auto intro: sym)
next
  case (Some a)
  moreover have "denotes (at_mem t) s k \<noteq> None"
    using Some denotes_lookup [of t s cs k] i by (simp add: atree_inv_def)
  ultimately show ?thesis using insert_duplicate [OF i Some, of v m] i by auto
qed

lemma step_op_refines:
  assumes i: "atree_inv combine t s cs"
  shows "\<exists>t' a s' cs'. step_op vis t x = Some (Ret (t', a)) \<and> atree_inv combine t' s' cs' \<and>
    spec_op bump (denotes (at_mem t) s) x = (denotes (at_mem t') s', a)"
proof (cases x)
  case (OpInsert k v m)
  then show ?thesis using insert_correct [OF i, of k v m] by fastforce
next
  case (OpInsertOrUpdate k v m)
  then show ?thesis using insert_or_update_correct [OF i, of k v m] by fastforce
next
  case (OpFind k)
  have st: "atree_struct t s cs" using i by (simp add: atree_inv_def)
  then obtain r where r: "at_mem t root_addr = Some r" "shape_at (at_mem t) (n_left r) s" by (auto simp: atree_struct_def root_at_def)
  show ?thesis
  proof (cases "lookup_addr s k")
    case None
    then show ?thesis using OpFind i find_correct [OF st, of k] by (auto simp: denotes_def)
  next
    case (Some a)
    obtain n where "at_mem t a = Some n" using lookup_addr_key [OF r(2) Some] by blast
    then show ?thesis using OpFind i Some find_correct [OF st, of k] by (auto simp: denotes_def)
  qed
next
  case OpClear
  have st: "atree_struct t s cs" using i by (simp add: atree_inv_def)
  obtain t' where "Clear t = Ret t'" "atree_inv combine t' \<langle>\<rangle> (cs @ [s])"
    using clear_correct [OF st] by blast
  moreover have "denotes (at_mem t') \<langle>\<rangle> = Map.empty" by (simp add: denotes_def fun_eq_iff)
  ultimately show ?thesis using OpClear by (auto intro!: exI [of _ "\<langle>\<rangle>"])
next
  case OpSize
  have "atree_struct t s cs" using i by (simp add: atree_inv_def)
  from atree_size [OF this] show ?thesis using OpSize i
    by (intro exI [of _ t] exI [of _ "ASize (Size t)"] exI [of _ s] exI [of _ cs]) simp
qed

lemma run_ops_refines:
  "atree_inv combine t s cs \<Longrightarrow> \<exists>t' as s' cs'. run_ops vis t xs = Some (Ret (t', as)) \<and>
    atree_inv combine t' s' cs' \<and>
    spec_ops bump (denotes (at_mem t) s) xs = (denotes (at_mem t') s', as)"
proof (induction xs arbitrary: t s cs)
  case (Cons x xs)
  from step_op_refines [OF Cons(2), of x] obtain t1 a s1 cs1 where
    1: "step_op vis t x = Some (Ret (t1, a))" "atree_inv combine t1 s1 cs1"
      "spec_op bump (denotes (at_mem t) s) x = (denotes (at_mem t1) s1, a)" by blast
  from Cons(1) [OF 1(2)] obtain t2 as s2 cs2 where
    2: "run_ops vis t1 xs = Some (Ret (t2, as))" "atree_inv combine t2 s2 cs2"
      "spec_ops bump (denotes (at_mem t1) s1) xs = (denotes (at_mem t2) s2, as)" by blast
  show ?case using 1 2 by (intro exI [of _ t2]) auto
qed auto

end

section \<open>Properties\<close>



text \<open>
  \<open>InsertOrUpdate\<close> never fails: it binds a new key to the given value, or updates the node
  of an existing key through the visitor, and afterwards the order and the metadata of all nodes
  are up to date again.
\<close>

theorem atree_insert_or_update:
  assumes "augmenting_visitor vis c bump" "atree_inv c t s cs"
  shows "\<exists>t' s'. InsertOrUpdate vis t k v m = Some (Ret (t', OkStatus)) \<and> atree_inv c t' s' cs \<and>
    denotes (at_mem t') s' =
      (denotes (at_mem t) s)(k \<mapsto> (case denotes (at_mem t) s k of None \<Rightarrow> v | Some old \<Rightarrow> bump old v m))"
  using augmenting_visitor.insert_or_update_correct [OF assms] by blast

lemma atree_insert_or_update_witness:
  "\<exists>t' s'. InsertOrUpdate EmptyVisitor (make_atree (0::int) () ()) 7 () () = Some (Ret (t', OkStatus)) \<and>
    atree_inv no_meta t' s' [] \<and> denotes (at_mem t') s' 7 = Some ()"
proof -
  obtain t' s' where *: "InsertOrUpdate EmptyVisitor (make_atree (0::int) () ()) 7 () () = Some (Ret (t', OkStatus))"
    "atree_inv no_meta t' s' []"
    "denotes (at_mem t') s' = (denotes (at_mem (make_atree (0::int) () ())) \<langle>\<rangle>)(7 \<mapsto>
      (case denotes (at_mem (make_atree (0::int) () ())) \<langle>\<rangle> 7 of None \<Rightarrow> () | Some old \<Rightarrow> keep_value old () ()))"
    using atree_insert_or_update [OF plain.augmenting_visitor_axioms make_atree_inv, of "0::int" "()" "()" 7 "()" "()"]
    by blast
  have "denotes (at_mem t') s' 7 = Some ()" unfolding *(3) by simp
  with *(1,2) show ?thesis by blast
qed

text \<open>
  \<open>Find\<close> returns the address of the node that holds the key, or the status \<open>kNotFound\<close>, and
  never faults or loops.
\<close>

theorem atree_find:
  assumes "atree_struct t s cs"
  shows "(\<exists>a n. Find t key = Some (Ret (Inr (Ptr a))) \<and> at_mem t a = Some n \<and> n_key n = key \<and>
      denotes (at_mem t) s key = Some (n_value n)) \<or>
    Find t key = Some (Ret (Inl (ErrorStatus kNotFound ''Key not found''))) \<and> key \<notin> set (keys s)"
proof -
  obtain r where r: "at_mem t root_addr = Some r" "shape_at (at_mem t) (n_left r) s" "ordered s"
    using assms by (auto simp: atree_struct_def root_at_def)
  show ?thesis
  proof (cases "lookup_addr s key")
    case None
    then show ?thesis using find_correct [OF assms, of key] lookup_addr_None [OF r(3), of key] by simp
  next
    case (Some a)
    then show ?thesis using find_correct [OF assms, of key] lookup_addr_key [OF r(2) Some]
      by (auto simp: denotes_def)
  qed
qed

lemma atree_find_witness:
  "Find (make_atree (0::int) () ()) 4 = Some (Ret (Inl (ErrorStatus kNotFound ''Key not found'')))"
proof -
  have "atree_struct (make_atree (0::int) () ()) \<langle>\<rangle> []"
    using make_atree_inv [of no_meta] by (simp add: atree_inv_def)
  from atree_find [OF this, of 4] show ?thesis by (simp add: denotes_def)
qed

lemma remove_leaf_owned:
  assumes "atree_inv c t s cs" "subtree_of key s = \<langle>\<langle>\<rangle>, (a, key), \<langle>\<rangle>\<rangle>"
  shows "dom (at_mem t) - {a} = set (owned (del_leaf key s) cs)" "distinct (owned (del_leaf key s) cs)"
proof -
  have d: "distinct (owned s cs)" "dom (at_mem t) = set (owned s cs)" using assms(1) by (auto simp: inv_defs)
  then have ds: "distinct (addrs s)" by (simp add: owned_def)
  have da: "set (addrs (del_leaf key s)) = set (addrs s) - {a}"
    using set_addrs_del [OF ds, of key] assms(2) by simp
  have "a \<in> set (addrs s)" using subtree_of_addrs [of key s] assms(2) by auto
  then show "dom (at_mem t) - {a} = set (owned (del_leaf key s) cs)" using d da by (auto simp: owned_def)
  show "distinct (owned (del_leaf key s) cs)"
    using d(1) da distinct_addrs_del [OF ds, of key] by (auto simp: owned_def)
qed

text \<open>
  \<open>Remove\<close> of a key whose node has no children takes exactly that key out of the map, frees
  its node, and leaves a well-formed tree with up-to-date metadata; an absent key is reported.
\<close>

theorem atree_remove_leaf:
  assumes v: "augmenting_visitor vis c bump" and i: "atree_inv c t s cs"
    and leaf: "\<And>l a r. subtree_of key s = \<langle>l, (a, key), r\<rangle> \<Longrightarrow> l = \<langle>\<rangle> \<and> r = \<langle>\<rangle>"
  shows "\<exists>t' s' st. Remove vis t key = Some (Ret (t', st)) \<and> atree_inv c t' s' cs \<and>
    denotes (at_mem t') s' = (denotes (at_mem t) s)(key := None) \<and>
    st = (if denotes (at_mem t) s key = None then ErrorStatus kNotFound ''Key not found'' else OkStatus)"
proof (cases "lookup_addr s key")
  case None
  moreover have "root_at (at_mem t) s" using i by (simp add: inv_defs)
  ultimately have "Remove vis t key = Some (Ret (t, ErrorStatus kNotFound ''Key not found''))"
    by (simp add: Remove_def root_at_FindInternal)
  then show ?thesis using i None by (intro exI [of _ t] exI [of _ s]) (auto simp: denotes_def fun_upd_idem_iff)
next
  case (Some a)
  then obtain l k r where "subtree_of key s = \<langle>l, (a, k), r\<rangle>"
    using subtree_of_root [of key s] by (cases "subtree_of key s" rule: shape_root.cases) auto
  moreover have "k = key" using calculation by (induction key s rule: subtree_of.induct) (auto split: if_splits)
  ultimately have sub: "subtree_of key s = \<langle>\<langle>\<rangle>, (a, key), \<langle>\<rangle>\<rangle>" using leaf by blast
  have "size (del_leaf key s) = size s - 1" "size s > 0" using size_del [of key s] sub by auto
  moreover have "ordered (del_leaf key s)" using i by (simp add: inv_defs ordered_del)
  moreover note remove_leaf_owned [OF i sub]
  moreover obtain t' where t': "Remove vis t key = Some (Ret (t', OkStatus))"
    "root_at (at_mem t') (del_leaf key s)" "aug c (at_mem t') (del_leaf key s)"
    "list_all2 (shape_at (at_mem t')) (at_cleared t) cs" "dom (at_mem t') = dom (at_mem t) - {a}"
    "at_cleared t' = at_cleared t" "at_fresh t' = at_fresh t" "at_size t' = at_size t - 1"
    "denotes (at_mem t') (del_leaf key s) = (\<lambda>x. if x = key then None else denotes (at_mem t) s x)"
    using augmenting_visitor.remove_no_right [OF v i sub] by auto
  moreover have "at_mem t' x = None" if "x \<ge> at_fresh t" for x
  proof -
    have "x \<notin> dom (at_mem t)" using i that by (auto simp: inv_defs)
    then have "x \<notin> dom (at_mem t')" using t'(5) by simp
    then show ?thesis by (simp add: domIff)
  qed
  ultimately have "atree_inv c t' (del_leaf key s) cs"
    using i by (simp add: inv_defs)
  moreover have "denotes (at_mem t) s key \<noteq> None"
    using denotes_lookup [of t s cs key] Some i by (simp add: atree_inv_def)
  moreover have "(\<lambda>x. if x = key then None else denotes (at_mem t) s x) = (denotes (at_mem t) s)(key := None)"
    by (auto simp: fun_eq_iff)
  ultimately show ?thesis using t'(1,9)
    by (intro exI [of _ t'] exI [of _ "del_leaf key s"] exI [of _ OkStatus] conjI) (simp_all del: fun_upd_apply)
qed

lemma atree_remove_leaf_witness:
  "\<exists>t t' s'. InsertOrUpdate EmptyVisitor (make_atree (0::int) () ()) 7 () () = Some (Ret (t, OkStatus)) \<and>
    Remove EmptyVisitor t 7 = Some (Ret (t', OkStatus)) \<and> atree_inv no_meta t' s' []"
proof -
  let ?t0 = "make_atree (0::int) () ()"
  have i0: "atree_inv no_meta ?t0 \<langle>\<rangle> []" by (rule make_atree_inv)
  have "lookup_addr \<langle>\<rangle> (7::int) = None" by simp
  from plain.insert_new [OF i0 this, of "()" "()"] obtain t where
    t: "InsertOrUpdate EmptyVisitor ?t0 7 () () = Some (Ret (t, OkStatus))"
      "atree_inv no_meta t \<langle>\<langle>\<rangle>, (at_fresh ?t0, 7), \<langle>\<rangle>\<rangle> []"
      "denotes (at_mem t) \<langle>\<langle>\<rangle>, (at_fresh ?t0, 7), \<langle>\<rangle>\<rangle> = (denotes (at_mem ?t0) \<langle>\<rangle>)(7 \<mapsto> ())"
    by auto
  have d: "denotes (at_mem t) \<langle>\<langle>\<rangle>, (at_fresh ?t0, 7), \<langle>\<rangle>\<rangle> 7 = Some ()" unfolding t(3) by simp
  obtain t' s' where "Remove EmptyVisitor t 7 = Some (Ret (t', OkStatus))" "atree_inv no_meta t' s' []"
    using atree_remove_leaf [OF plain.augmenting_visitor_axioms t(2), of 7] d by auto
  with t(1) show ?thesis by blast
qed

text \<open>
  C36. \<open>Remove\<close> of a key whose node has a left child only does more than its name says: the
  whole left subtree leaves the map with the key (the node's parent is given \<open>nullptr\<close>), its
  nodes stay allocated but unreachable, and \<open>Size\<close> drops by one only.
\<close>

theorem atree_remove_drops_left:
  assumes v: "augmenting_visitor vis c bump" and i: "atree_inv c t s cs"
    and sub: "subtree_of key s = \<langle>l, (a, key), \<langle>\<rangle>\<rangle>"
  shows "\<exists>t' s'. Remove vis t key = Some (Ret (t', OkStatus)) \<and> root_at (at_mem t') s' \<and>
    denotes (at_mem t') s' = (denotes (at_mem t) s) |` (- insert key (set (keys l))) \<and>
    dom (at_mem t') = dom (at_mem t) - {a} \<and> set (addrs s') = set (addrs s) - insert a (set (addrs l)) \<and>
    Size t' = Size t - 1 \<and> Size t' = int (size s') + int (size l)"
proof -
  have d: "distinct (addrs s)" "at_size t = int (size s)" using i by (auto simp: inv_defs owned_def)
  obtain t' where t': "Remove vis t key = Some (Ret (t', OkStatus))" "root_at (at_mem t') (del_leaf key s)"
    "dom (at_mem t') = dom (at_mem t) - {a}" "at_size t' = at_size t - 1"
    "denotes (at_mem t') (del_leaf key s) =
      (\<lambda>x. if x = key \<or> x \<in> set (keys l) then None else denotes (at_mem t) s x)"
    using augmenting_visitor.remove_no_right [OF v i sub] by blast
  moreover have "(\<lambda>x. if x = key \<or> x \<in> set (keys l) then None else denotes (at_mem t) s x) =
      (denotes (at_mem t) s) |` (- insert key (set (keys l)))"
    by (auto simp: restrict_map_def)
  moreover have "set (addrs (del_leaf key s)) = set (addrs s) - insert a (set (addrs l))"
    using set_addrs_del [OF d(1), of key] sub by auto
  moreover have "int (size (del_leaf key s)) + int (size l) = at_size t - 1"
    using size_del [of key s] sub d(2) by simp
  ultimately show ?thesis by (intro exI [of _ t'] exI [of _ "del_leaf key s"]) (simp add: Size_def)
qed


text \<open>A concrete tree for the two: the keys 4, 2, 6, 7, 1 inserted in this order.\<close>

lemma insert_plain:
  assumes "atree_inv no_meta t s []" "lookup_addr s k = None"
  shows "\<exists>t' a. Insert EmptyVisitor t k () () = Some (Ret (t', OkStatus)) \<and> atree_inv no_meta t' (ins_shape a k s) []"
  using plain.insert_new [OF assms, of "()" "()"] by blast

lemma example_tree:
  "\<exists>t a b c d e. run_ops EmptyVisitor (make_atree (0::int) () ()) (map (\<lambda>k. OpInsert k () ()) [4, 2, 6, 7, 1]) =
       Some (Ret (t, replicate 5 (AStatus OkStatus))) \<and>
   atree_inv no_meta t
     \<langle>\<langle>\<langle>\<langle>\<rangle>, (e, 1), \<langle>\<rangle>\<rangle>, (b, 2), \<langle>\<rangle>\<rangle>, (a, 4), \<langle>\<langle>\<rangle>, (c, 6), \<langle>\<langle>\<rangle>, (d, 7), \<langle>\<rangle>\<rangle>\<rangle>\<rangle> []"
proof -
  have "atree_inv no_meta (make_atree (0::int) () ()) \<langle>\<rangle> []" by (rule make_atree_inv)
  from insert_plain [OF this, of 4] obtain t1 a where
    1: "Insert EmptyVisitor (make_atree (0::int) () ()) 4 () () = Some (Ret (t1, OkStatus))"
      "atree_inv no_meta t1 \<langle>\<langle>\<rangle>, (a, 4), \<langle>\<rangle>\<rangle> []" by auto
  from insert_plain [OF 1(2), of 2] obtain t2 b where
    2: "Insert EmptyVisitor t1 2 () () = Some (Ret (t2, OkStatus))"
      "atree_inv no_meta t2 \<langle>\<langle>\<langle>\<rangle>, (b, 2), \<langle>\<rangle>\<rangle>, (a, 4), \<langle>\<rangle>\<rangle> []" by auto
  from insert_plain [OF 2(2), of 6] obtain t3 c where
    3: "Insert EmptyVisitor t2 6 () () = Some (Ret (t3, OkStatus))"
      "atree_inv no_meta t3 \<langle>\<langle>\<langle>\<rangle>, (b, 2), \<langle>\<rangle>\<rangle>, (a, 4), \<langle>\<langle>\<rangle>, (c, 6), \<langle>\<rangle>\<rangle>\<rangle> []" by auto
  from insert_plain [OF 3(2), of 7] obtain t4 d where
    4: "Insert EmptyVisitor t3 7 () () = Some (Ret (t4, OkStatus))"
      "atree_inv no_meta t4 \<langle>\<langle>\<langle>\<rangle>, (b, 2), \<langle>\<rangle>\<rangle>, (a, 4), \<langle>\<langle>\<rangle>, (c, 6), \<langle>\<langle>\<rangle>, (d, 7), \<langle>\<rangle>\<rangle>\<rangle>\<rangle> []" by auto
  from insert_plain [OF 4(2), of 1] obtain t5 e where
    5: "Insert EmptyVisitor t4 1 () () = Some (Ret (t5, OkStatus))"
      "atree_inv no_meta t5
        \<langle>\<langle>\<langle>\<langle>\<rangle>, (e, 1), \<langle>\<rangle>\<rangle>, (b, 2), \<langle>\<rangle>\<rangle>, (a, 4), \<langle>\<langle>\<rangle>, (c, 6), \<langle>\<langle>\<rangle>, (d, 7), \<langle>\<rangle>\<rangle>\<rangle>\<rangle> []" by auto
  have "run_ops EmptyVisitor (make_atree (0::int) () ()) (map (\<lambda>k. OpInsert k () ()) [4, 2, 6, 7, 1]) =
      Some (Ret (t5, replicate 5 (AStatus OkStatus)))"
    using 1(1) 2(1) 3(1) 4(1) 5(1) by (simp add: eval_nat_numeral)
  with 5(2) show ?thesis by blast
qed

lemma atree_remove_drops_left_witness:
  "\<exists>t t' s'. run_ops EmptyVisitor (make_atree (0::int) () ()) (map (\<lambda>k. OpInsert k () ()) [4, 2, 6, 7, 1]) =
       Some (Ret (t, replicate 5 (AStatus OkStatus))) \<and>
     Remove EmptyVisitor t 2 = Some (Ret (t', OkStatus)) \<and> root_at (at_mem t') s' \<and>
     denotes (at_mem t') s' 1 = None \<and> Size t' = int (size s') + 1"
proof -
  obtain t a b c d e where t: "run_ops EmptyVisitor (make_atree (0::int) () ())
      (map (\<lambda>k. OpInsert k () ()) [4, 2, 6, 7, 1]) = Some (Ret (t, replicate 5 (AStatus OkStatus)))"
    and i: "atree_inv no_meta t
     \<langle>\<langle>\<langle>\<langle>\<rangle>, (e, 1), \<langle>\<rangle>\<rangle>, (b, 2), \<langle>\<rangle>\<rangle>, (a, 4), \<langle>\<langle>\<rangle>, (c, 6), \<langle>\<langle>\<rangle>, (d, 7), \<langle>\<rangle>\<rangle>\<rangle>\<rangle> []"
    using example_tree by blast
  have "subtree_of 2 \<langle>\<langle>\<langle>\<langle>\<rangle>, (e, 1), \<langle>\<rangle>\<rangle>, (b, 2::int), \<langle>\<rangle>\<rangle>, (a, 4), \<langle>\<langle>\<rangle>, (c, 6), \<langle>\<langle>\<rangle>, (d, 7), \<langle>\<rangle>\<rangle>\<rangle>\<rangle> =
      \<langle>\<langle>\<langle>\<rangle>, (e, 1), \<langle>\<rangle>\<rangle>, (b, 2), \<langle>\<rangle>\<rangle>" by simp
  from atree_remove_drops_left [OF plain.augmenting_visitor_axioms i this] obtain t' s' where
    "Remove EmptyVisitor t 2 = Some (Ret (t', OkStatus))" "root_at (at_mem t') s'"
    "Size t' = int (size s') + int (size \<langle>\<langle>\<rangle>, (e, 1::int), \<langle>\<rangle>\<rangle>)" "denotes (at_mem t') s' 1 = None"
    by (auto simp: restrict_map_def)
  with t show ?thesis by auto
qed


end
