(* ===== verification/Summary.thy ===== *)
theory Summary
  imports ATree_Props Float64 "HOL-Library.Multiset"
begin

text \<open>
  \<open>Summary<T>\<close> of \<open>rome/metrics/summary.h\<close> at \<open>T = double\<close>: streaming statistics over windows of
  samples. The samples of the current window live in an \<open>ATree\<close> whose nodes count their
  duplicates (value) and the samples of their subtree (metadata), kept up by
  \<open>SubtreeCountVisitor\<close>; percentiles are order statistics found by rank. The counters are
  integers: a count beyond \<open>2^31\<close> samples in one window is out of scope.
\<close>

section \<open>SubtreeCountVisitor\<close>

definition metadata_or_0 :: "('k, 'v, int) nodes \<Rightarrow> ptr \<Rightarrow> int outcome" where
  "metadata_or_0 h p = (if p \<noteq> Nullptr then bindO (load h p) (\<lambda>n. Ret (n_metadata n)) else Ret 0)"

definition Visit :: "('k, int, int) nodes \<Rightarrow> ptr \<Rightarrow> ('k, int, int) nodes outcome" where
  "Visit h cur =
     bindO (load h cur) (\<lambda>n.
     bindO (metadata_or_0 h (n_left n)) (\<lambda>left_total.
     bindO (metadata_or_0 h (n_right n)) (\<lambda>right_total.
     set_metadata h cur (left_total + right_total + n_value n))))"

definition SubtreeCountVisitor :: "('k, int, int) visitor" where
  "SubtreeCountVisitor = \<lparr>OnInsert = Visit, OnRemove = Visit, OnUpdate = Visit,
     Update = (\<lambda>h cur v m.
       bindO (load h cur) (\<lambda>n.
       bindO (set_value h cur (n_value n + 1)) (\<lambda>h'. Visit h' cur)))\<rparr>"

section \<open>PercentileAccessor\<close>

definition GetSize :: "('k, int, int) atree \<Rightarrow> int outcome" where
  "GetSize t = bindO (load (at_mem t) root_ptr) (\<lambda>r. metadata_or_0 (at_mem t) (n_left r))"

partial_function (option) percentile_loop ::
  "('k, int, int) nodes \<Rightarrow> int \<Rightarrow> ptr \<Rightarrow> ptr run"
where
  "percentile_loop h rank cur =
     bindR (Some (load h cur)) (\<lambda>n.
     if n_left n = Nullptr \<and> n_right n = Nullptr then Some (assertO (n_metadata n \<ge> rank) (Ret cur))
     else bindR (Some (metadata_or_0 h (n_left n))) (\<lambda>lt.
       bindR (Some (metadata_or_0 h (n_right n))) (\<lambda>rt.
       if n_metadata n - rt \<ge> rank \<and> lt < rank then Some (Ret cur)
       else if n_left n \<noteq> Nullptr \<and> lt \<ge> rank then percentile_loop h rank (n_left n)
       else if n_right n = Nullptr then Some (Fault Assert_Fail)
       else percentile_loop h (rank - (n_metadata n - rt)) (n_right n))))"

definition rank_of :: "double \<Rightarrow> int \<Rightarrow> int" where
  "rank_of percentile n =
     (if percentile = 0 then 1 else trunc (dmul (ddiv percentile 100) (double_of_int n)))"

definition FindNthPercentile :: "('k, int, int) atree \<Rightarrow> double \<Rightarrow> ptr run" where
  "FindNthPercentile t percentile =
     (if percentile > 100 \<or> percentile < 0 then Some (Fault Assert_Fail)
      else bindR (Some (GetSize t)) (\<lambda>sz.
        bindR (Some (load (at_mem t) root_ptr)) (\<lambda>r.
          percentile_loop (at_mem t) (rank_of percentile sz) (n_left r))))"

section \<open>Summary\<close>

record summary =
  su_name :: string
  su_units :: string
  su_window_size :: int
  su_samples :: "(double, int, int) atree"
  su_initialized :: bool
  su_min :: double
  su_p50 :: double
  su_p90 :: double
  su_p95 :: double
  su_p99 :: double
  su_p999 :: double
  su_max :: double
  su_total_samples :: int
  su_mean :: double
  su_squared_total :: double
  su_variance :: double

definition make_summary :: "string \<Rightarrow> string \<Rightarrow> int \<Rightarrow> summary" where
  "make_summary nm units window_size = \<lparr>su_name = nm, su_units = units, su_window_size = window_size,
     su_samples = make_atree 0 0 0, su_initialized = False, su_min = 0, su_p50 = 0, su_p90 = 0,
     su_p95 = 0, su_p99 = 0, su_p999 = 0, su_max = 0, su_total_samples = 0, su_mean = 0,
     su_squared_total = 0, su_variance = 0\<rparr>"

text \<open>The literal \<open>99.9\<close>.\<close>

definition d99_9 :: double where
  "d99_9 = fl (999 / 10)"

text \<open>\<open>accessor.FindNthPercentile(samples_, p).value()->key()\<close>\<close>

definition percentile_key :: "summary \<Rightarrow> double \<Rightarrow> double run" where
  "percentile_key s p =
     bindR (FindNthPercentile (su_samples s) p) (\<lambda>node.
     bindR (Some (load (at_mem (su_samples s)) node)) (\<lambda>n. Some (Ret (n_key n))))"

definition UpdatePercentile :: "summary \<Rightarrow> double \<Rightarrow> summary run" where
  "UpdatePercentile s p =
     bindR (percentile_key s p) (\<lambda>val.
     let toward = (\<lambda>x. dadd x (ddiv (dsub val x) (double_of_int (su_total_samples s)))) in
     if p = 0 then Some (Ret (s\<lparr>su_min := min (su_min s) val\<rparr>))
     else if p = 50 then Some (Ret (s\<lparr>su_p50 := toward (su_p50 s)\<rparr>))
     else if p = 90 then Some (Ret (s\<lparr>su_p90 := toward (su_p90 s)\<rparr>))
     else if p = 95 then Some (Ret (s\<lparr>su_p95 := toward (su_p95 s)\<rparr>))
     else if p = 99 then Some (Ret (s\<lparr>su_p99 := toward (su_p99 s)\<rparr>))
     else if p = d99_9 then Some (Ret (s\<lparr>su_p999 := toward (su_p999 s)\<rparr>))
     else if p = 100 then Some (Ret (s\<lparr>su_max := max (su_max s) val\<rparr>))
     else Some (Fault Assert_Fail))"

definition UpdatePercentilesAndClearSamples :: "summary \<Rightarrow> summary run" where
  "UpdatePercentilesAndClearSamples s =
     bindR (Some (GetSize (su_samples s))) (\<lambda>sz.
     if sz = 0 then Some (Ret s)
     else bindR
      (if \<not> su_initialized s then
         bindR (percentile_key s 0) (\<lambda>k0. bindR (percentile_key s 50) (\<lambda>k50.
         bindR (percentile_key s 90) (\<lambda>k90. bindR (percentile_key s 95) (\<lambda>k95.
         bindR (percentile_key s 99) (\<lambda>k99. bindR (percentile_key s d99_9) (\<lambda>k999.
         bindR (percentile_key s 100) (\<lambda>k100.
           Some (Ret (s\<lparr>su_min := k0, su_p50 := k50, su_p90 := k90, su_p95 := k95, su_p99 := k99,
             su_p999 := k999, su_max := k100, su_initialized := True\<rparr>)))))))))
       else
         bindR (UpdatePercentile s 0) (\<lambda>s. bindR (UpdatePercentile s 50) (\<lambda>s.
         bindR (UpdatePercentile s 90) (\<lambda>s. bindR (UpdatePercentile s 95) (\<lambda>s.
         bindR (UpdatePercentile s 99) (\<lambda>s. bindR (UpdatePercentile s d99_9) (\<lambda>s.
         UpdatePercentile s 100)))))))
      (\<lambda>s'. bindR (Some (Clear (su_samples s'))) (\<lambda>t. Some (Ret (s'\<lparr>su_samples := t\<rparr>)))))"

text \<open>\<open>operator<<\<close>\<close>

definition sample :: "summary \<Rightarrow> double \<Rightarrow> summary run" where
  "sample s0 val =
     bindR (Some (GetSize (su_samples s0))) (\<lambda>sz.
     bindR (if sz = su_window_size s0 then UpdatePercentilesAndClearSamples s0 else Some (Ret s0)) (\<lambda>s.
     bindR (InsertOrUpdate SubtreeCountVisitor (su_samples s) val 1 1) (\<lambda>(t, st).
     if \<not> status_ok st then Some (Fault Assert_Fail)
     else (let total = su_total_samples s + 1;
               delta = dsub val (su_mean s);
               mean = dadd (su_mean s) (ddiv delta (double_of_int total));
               squared = dadd (su_squared_total s) (dmul val val)
           in Some (Ret (s\<lparr>su_samples := t, su_total_samples := total, su_mean := mean,
                su_squared_total := squared,
                su_variance := dsub (ddiv squared (double_of_int total)) (dmul mean mean)\<rparr>))))))"

fun stream_samples :: "summary \<Rightarrow> double list \<Rightarrow> summary run" where
  "stream_samples s [] = Some (Ret s)"
| "stream_samples s (x # xs) = bindR (sample s x) (\<lambda>s'. stream_samples s' xs)"

definition GetPercentileInternal :: "summary \<Rightarrow> double \<Rightarrow> (summary \<times> double) run" where
  "GetPercentileInternal s0 p =
     bindR (UpdatePercentilesAndClearSamples s0) (\<lambda>s.
     if p = 0 then Some (Ret (s, su_min s))
     else if p = 50 then Some (Ret (s, su_p50 s))
     else if p = 90 then Some (Ret (s, su_p90 s))
     else if p = 95 then Some (Ret (s, su_p95 s))
     else if p = 99 then Some (Ret (s, su_p99 s))
     else if p = d99_9 then Some (Ret (s, su_p999 s))
     else if p = 100 then Some (Ret (s, su_max s))
     else Some (Fault Assert_Fail))"

definition GetMin :: "summary \<Rightarrow> (summary \<times> double) run" where "GetMin s = GetPercentileInternal s 0"
definition Get50thPercentile :: "summary \<Rightarrow> (summary \<times> double) run" where "Get50thPercentile s = GetPercentileInternal s 50"
definition Get90thPercentile :: "summary \<Rightarrow> (summary \<times> double) run" where "Get90thPercentile s = GetPercentileInternal s 90"
definition Get95thPercentile :: "summary \<Rightarrow> (summary \<times> double) run" where "Get95thPercentile s = GetPercentileInternal s 95"
definition Get99thPercentile :: "summary \<Rightarrow> (summary \<times> double) run" where "Get99thPercentile s = GetPercentileInternal s 99"
definition Get999thPercentile :: "summary \<Rightarrow> (summary \<times> double) run" where "Get999thPercentile s = GetPercentileInternal s d99_9"
definition GetMax :: "summary \<Rightarrow> (summary \<times> double) run" where "GetMax s = GetPercentileInternal s 100"
definition GetMean :: "summary \<Rightarrow> double" where "GetMean s = su_mean s"
definition GetNumSamples :: "summary \<Rightarrow> int" where "GetNumSamples s = su_total_samples s"

text \<open>\<open>x += (y * d.total_samples_ - x * total_samples_) / double(total_samples_ + d.total_samples_)\<close>\<close>

definition weighted :: "int \<Rightarrow> int \<Rightarrow> double \<Rightarrow> double \<Rightarrow> double" where
  "weighted n m x y =
     dadd x (ddiv (dsub (dmul y (double_of_int m)) (dmul x (double_of_int n)))
       (double_of_int (n + m)))"

text \<open>
  \<open>auto d = other.value()\<close> copies the summary and shares the nodes of its samples: \<open>ATree\<close> has no copy constructor of
  its own. The copy is destroyed at the end, so the result has the other summary as it is left.
\<close>

definition Accumulate :: "summary \<Rightarrow> summary status_or \<Rightarrow> (summary \<times> summary status_or \<times> status) run" where
  "Accumulate s0 other =
     (case other of
        Inl st \<Rightarrow> Some (Ret (s0, other, st))
      | Inr d \<Rightarrow>
          bindR
           (if su_name d \<noteq> su_name s0 then Some (Ret (s0, ErrorStatus kFailedPrecondition ''Unexpected metric ID''))
            else bindR (UpdatePercentilesAndClearSamples s0) (\<lambda>s.
              let w = weighted (su_total_samples s) (su_total_samples d) in
              Some (Ret (s\<lparr>su_min := w (su_min s) (su_min d), su_p50 := w (su_p50 s) (su_p50 d),
                su_p90 := w (su_p90 s) (su_p90 d), su_p95 := w (su_p95 s) (su_p95 d),
                su_p99 := w (su_p99 s) (su_p99 d), su_p999 := w (su_p999 s) (su_p999 d),
                su_max := w (su_max s) (su_max d), su_mean := w (su_mean s) (su_mean d),
                su_variance := w (su_variance s) (su_variance d)\<rparr>, OkStatus))))
           (\<lambda>(s, st). bindR (destroy (su_samples d)) (\<lambda>h.
              Some (Ret (s, Inr (d\<lparr>su_samples := (su_samples d)\<lparr>at_mem := h\<rparr>\<rparr>), st)))))"

text \<open>The message \<open>SummaryProto\<close>; \<open>sqrt_d\<close> is the C library's square root.\<close>

record summary_proto =
  sp_name :: string
  sp_units :: string
  sp_count :: int
  sp_mean :: double
  sp_stddev :: double
  sp_percentiles :: "double list"  \<comment> \<open>min, p50, p90, p95, p99, p999, max\<close>

definition ToProto :: "(double \<Rightarrow> double) \<Rightarrow> summary \<Rightarrow> (summary \<times> summary_proto) run" where
  "ToProto sqrt_d s0 =
     bindR (UpdatePercentilesAndClearSamples s0) (\<lambda>s.
       Some (Ret (s, \<lparr>sp_name = su_name s, sp_units = su_units s, sp_count = su_total_samples s,
         sp_mean = su_mean s, sp_stddev = sqrt_d (su_variance s),
         sp_percentiles = [su_min s, su_p50 s, su_p90 s, su_p95 s, su_p99 s, su_p999 s, su_max s]\<rparr>)))"

text \<open>
  \<open>ToString\<close>: the same values as text; \<open>fmt\<close> is the output operator of the standard library on a \<open>double\<close>.
\<close>

definition quote :: string where
  "quote = [CHR 0x22]"

definition su_ToString :: "(double \<Rightarrow> string) \<Rightarrow> (double \<Rightarrow> double) \<Rightarrow> summary \<Rightarrow> (summary \<times> string) run" where
  "su_ToString fmt sqrt_d s0 =
     bindR (UpdatePercentilesAndClearSamples s0) (\<lambda>s.
       Some (Ret (s, ''units: '' @ quote @ su_units s @ quote @ '', '' @ ''summary: '' @
         ''{mean: '' @ fmt (su_mean s) @ '', '' @ ''stddev: '' @ fmt (sqrt_d (su_variance s)) @ '', '' @
         ''samples: '' @ decimal (nat (su_total_samples s)) @ ''}, '' @ ''percentiles: '' @
         ''{min: '' @ fmt (su_min s) @ '', '' @ ''p50: '' @ fmt (su_p50 s) @ '', '' @ ''p90: '' @ fmt (su_p90 s) @ '', '' @
         ''p95: '' @ fmt (su_p95 s) @ '', '' @ ''p99: '' @ fmt (su_p99 s) @ '', '' @ ''p999: '' @ fmt (su_p999 s) @ '', '' @
         ''max: '' @ fmt (su_max s) @ ''}'')))"

definition GetStddev :: "(double \<Rightarrow> double) \<Rightarrow> summary \<Rightarrow> double" where
  "GetStddev sqrt_d s = sqrt_d (su_variance s)"

end
