(* ===== verification/Summary_Proofs.thy ===== *)
theory Summary_Proofs
  imports Summary
begin

text \<open>
  Correctness of \<open>Summary\<close>: \<open>SubtreeCountVisitor\<close> keeps the visitor contract, the samples of a
  window are the multiset that the tree denotes, the percentile search returns the order
  statistic of its rank, and minimum and maximum are exact over all windows.
\<close>

section \<open>The visitor contract\<close>

definition count_combine :: "(int, int) combiner" where
  "count_combine v l r = (case l of None \<Rightarrow> 0 | Some x \<Rightarrow> x) + (case r of None \<Rightarrow> 0 | Some x \<Rightarrow> x) + v"

definition count_bump :: "int \<Rightarrow> int \<Rightarrow> int \<Rightarrow> int" where
  "count_bump old v m = old + 1"

lemma metadata_or_0_ok:
  "child_ok h p \<Longrightarrow> metadata_or_0 h p = Ret (case child_meta h p of None \<Rightarrow> 0 | Some x \<Rightarrow> x)"
  by (cases p) (auto simp: metadata_or_0_def)

lemma Visit_refreshes:
  "h a = Some n \<Longrightarrow> child_ok h (n_left n) \<Longrightarrow> child_ok h (n_right n) \<Longrightarrow>
   Visit h (Ptr a) = Ret (h(a \<mapsto> refreshed count_combine h n))"
  by (simp add: Visit_def metadata_or_0_ok set_defs refreshed_def count_combine_def)

lemma child_ok_upd: "h a = Some n \<Longrightarrow> child_ok (h(a \<mapsto> m)) p \<longleftrightarrow> child_ok h p"
  by (cases p) auto

lemma child_meta_upd: "h a = Some n \<Longrightarrow> n_metadata m = n_metadata n \<Longrightarrow> child_meta (h(a \<mapsto> m)) p = child_meta h p"
  by (cases p) auto

interpretation counted: augmenting_visitor SubtreeCountVisitor count_combine count_bump
proof unfold_locales
  fix h :: "('k::linorder, int, int) nodes" and a n v m
  assume n: "h a = Some n" "child_ok h (n_left n)" "child_ok h (n_right n)"
  let ?n = "n\<lparr>n_value := n_value n + 1\<rparr>"
  have "Visit (h(a \<mapsto> ?n)) (Ptr a) = Ret (h(a \<mapsto> ?n, a \<mapsto> refreshed count_combine (h(a \<mapsto> ?n)) ?n))"
    using n by (intro Visit_refreshes) (simp_all add: child_ok_upd del: fun_upd_apply add: fun_upd_same)
  moreover have "refreshed count_combine (h(a \<mapsto> ?n)) ?n = refreshed count_combine h ?n"
    using n(1) by (simp add: refreshed_def child_meta_upd)
  ultimately show "Update SubtreeCountVisitor h (Ptr a) v m =
      Ret (h(a \<mapsto> refreshed count_combine h (n\<lparr>n_value := count_bump (n_value n) v m\<rparr>)))"
    using n(1) by (simp add: SubtreeCountVisitor_def set_defs count_bump_def del: fun_upd_apply)
qed (auto simp: recomputes_def SubtreeCountVisitor_def Visit_refreshes)

section \<open>The samples in the tree\<close>

fun samples_of :: "('k, int, 'm) nodes \<Rightarrow> 'k shape \<Rightarrow> 'k list" where
  "samples_of h \<langle>\<rangle> = []"
| "samples_of h \<langle>l, (a, k), r\<rangle> =
     samples_of h l @ replicate (nat (case h a of None \<Rightarrow> 0 | Some n \<Rightarrow> n_value n)) k @ samples_of h r"

definition counts_pos :: "('k, int, 'm) nodes \<Rightarrow> 'k shape \<Rightarrow> bool" where
  "counts_pos h s \<longleftrightarrow> (\<forall>a \<in> set (addrs s). \<exists>n. h a = Some n \<and> n_value n > 0)"

lemma counts_pos_Node [simp]:
  "counts_pos h \<langle>l, (a, k), r\<rangle> \<longleftrightarrow> counts_pos h l \<and> counts_pos h r \<and> (\<exists>n. h a = Some n \<and> n_value n > 0)"
  by (auto simp: counts_pos_def)

lemma counts_pos_Leaf [simp]: "counts_pos h \<langle>\<rangle>"
  by (simp add: counts_pos_def)

lemma meta_count:
  "aug count_combine h s \<Longrightarrow> counts_pos h s \<Longrightarrow> s \<noteq> \<langle>\<rangle> \<Longrightarrow>
   child_meta h (shape_root s) = Some (int (length (samples_of h s)))"
proof (induction s rule: addrs.induct)
  case (2 l a k r)
  have "child_meta h (shape_root u) = (if u = \<langle>\<rangle> then None else Some (int (length (samples_of h u))))"
    if "u = l \<or> u = r" for u
    using 2 that by (cases "u = \<langle>\<rangle>") auto
  from this [of l] this [of r] show ?case using 2(3,4)
    by (auto simp: count_combine_def)
qed simp

lemma samples_nonempty: "counts_pos h s \<Longrightarrow> samples_of h s = [] \<longleftrightarrow> s = \<langle>\<rangle>"
  by (cases "(h, s)" rule: samples_of.cases) auto

lemma set_samples: "counts_pos h s \<Longrightarrow> set (samples_of h s) = set (keys s)"
  by (induction s rule: addrs.induct) auto

lemma sorted_samples: "ordered s \<Longrightarrow> counts_pos h s \<Longrightarrow> sorted (samples_of h s)"
proof (induction s rule: addrs.induct)
  case (2 l a k r)
  then show ?case by (auto simp: sorted_append set_samples dest: less_imp_le intro: less_imp_le order_trans)
qed simp

lemma count_samples:
  "ordered s \<Longrightarrow> counts_pos h s \<Longrightarrow>
   count (mset (samples_of h s)) k = (case denotes h s k of None \<Rightarrow> 0 | Some v \<Rightarrow> nat v)"
proof (induction s rule: addrs.induct)
  case 1
  then show ?case by (simp add: denotes_def)
next
  case (2 l a k' r)
  have z: "count (mset (samples_of h u)) k = 0" if "k \<notin> set (keys u)" "counts_pos h u" for u
    using that set_samples [of h u] by (simp add: count_eq_zero_iff)
  consider "k = k'" | "k < k'" | "k > k'" by force
  then show ?case
  proof cases
    case 1
    then have "k \<notin> set (keys l)" "k \<notin> set (keys r)" using 2(3) by auto
    then show ?thesis using 1 2(4) z [of l] z [of r] by (auto simp: denotes_def)
  next
    case c: 2
    then have "k \<notin> set (keys r)" "k \<noteq> k'" "\<not> k > k'" using 2(3) by auto
    then show ?thesis using 2 z [of r] by (auto simp: denotes_def)
  next
    case 3
    then have "k \<notin> set (keys l)" "k \<noteq> k'" using 2(3) by auto
    then show ?thesis using 2 z [of l] 3 by (auto simp: denotes_def)
  qed
qed

lemma lookup_of_addr:
  "ordered s \<Longrightarrow> shape_at h p s \<Longrightarrow> a \<in> set (addrs s) \<Longrightarrow> h a = Some n \<Longrightarrow> lookup_addr s (n_key n) = Some a"
proof (induction s arbitrary: p rule: addrs.induct)
  case (2 l b k r)
  from 2(4) obtain m where m: "h b = Some m" "n_key m = k" "shape_at h (n_left m) l" "shape_at h (n_right m) r"
    by auto
  from 2(5) consider "a = b" | "a \<in> set (addrs l)" | "a \<in> set (addrs r)" by auto
  then show ?case
  proof cases
    case 1
    then show ?thesis using m 2(6) by simp
  next
    case c: 2
    then have "n_key n < k" using 2(3) shape_key_in [OF m(3) c 2(6)] by simp
    then show ?thesis using 2(1) [OF _ m(3) c 2(6)] 2(3) by auto
  next
    case 3
    then have "n_key n > k" using 2(3) shape_key_in [OF m(4) 3 2(6)] by simp
    then show ?thesis using 2(2) [OF _ m(4) 3 2(6)] 2(3) by auto
  qed
qed simp

lemma counts_pos_denotes:
  assumes "ordered s" "shape_at h p s" "\<And>k v. denotes h s k = Some v \<Longrightarrow> v > 0"
  shows "counts_pos h s"
  unfolding counts_pos_def
proof
  fix a assume a: "a \<in> set (addrs s)"
  then obtain n where n: "h a = Some n" using shape_at_alloc [OF assms(2)] by blast
  have "denotes h s (n_key n) = Some (n_value n)"
    using lookup_of_addr [OF assms(1,2) a n] n by (simp add: denotes_def)
  then show "\<exists>n. h a = Some n \<and> n_value n > 0" using assms(3) n by blast
qed

lemma denotes_pos:
  assumes "counts_pos h s" "denotes h s k = Some v" shows "v > 0"
  using assms lookup_addr_in [of s k] by (fastforce simp: counts_pos_def denotes_def split: option.splits)

text \<open>The window: the tree of a summary holds the multiset \<open>xs\<close>.\<close>

definition holds :: "(double, int, int) atree \<Rightarrow> double multiset \<Rightarrow> bool" where
  "holds t M \<longleftrightarrow> (\<exists>s cs. atree_inv count_combine t s cs \<and> counts_pos (at_mem t) s \<and>
     mset (samples_of (at_mem t) s) = M)"

lemma holds_fresh: "holds (make_atree k0 v0 m0) {#}"
  using make_atree_inv [of count_combine k0 v0 m0] by (force simp: holds_def)

lemma holds_clear:
  assumes "holds t M" shows "\<exists>t'. Clear t = Ret t' \<and> holds t' {#}"
proof -
  obtain s cs where "atree_struct t s cs" using assms by (auto simp: holds_def atree_inv_def)
  from clear_correct [OF this] obtain t' where "Clear t = Ret t'" "atree_inv count_combine t' \<langle>\<rangle> (cs @ [s])"
    by blast
  then show ?thesis by (force simp: holds_def)
qed

lemma holds_insert:
  assumes "holds t M"
  shows "\<exists>t'. InsertOrUpdate SubtreeCountVisitor t x 1 1 = Some (Ret (t', OkStatus)) \<and> holds t' (add_mset x M)"
proof -
  obtain s cs where i: "atree_inv count_combine t s cs" and pos: "counts_pos (at_mem t) s"
    and M: "mset (samples_of (at_mem t) s) = M" using assms by (auto simp: holds_def)
  obtain t' s' where t': "InsertOrUpdate SubtreeCountVisitor t x 1 1 = Some (Ret (t', OkStatus))"
    "atree_inv count_combine t' s' cs" and
    d: "denotes (at_mem t') s' =
      (denotes (at_mem t) s)(x \<mapsto> (case denotes (at_mem t) s x of None \<Rightarrow> 1 | Some old \<Rightarrow> count_bump old 1 1))"
    using counted.insert_or_update_correct [OF i, of x 1 1] by blast
  obtain p where s': "ordered s'" "shape_at (at_mem t') p s'"
    using t'(2) by (auto simp: inv_defs root_at_def)
  have pos': "counts_pos (at_mem t') s'"
  proof (rule counts_pos_denotes [OF s'])
    fix k v assume "denotes (at_mem t') s' k = Some v"
    then show "v > 0" using denotes_pos [OF pos, of k] denotes_pos [OF pos, of x]
      by (force simp: d count_bump_def split: if_splits option.splits)
  qed
  have "mset (samples_of (at_mem t') s') = add_mset x M"
  proof (rule multiset_eqI)
    fix k
    have "ordered s" using i by (simp add: inv_defs)
    then show "count (mset (samples_of (at_mem t') s')) k = count (add_mset x M) k"
      using denotes_pos [OF pos, of x]
      by (auto simp: count_samples s'(1) pos' pos d count_bump_def M [symmetric] split: option.splits)
  qed
  then show ?thesis using t' pos' by (auto simp: holds_def)
qed

lemma holds_GetSize: "holds t M \<Longrightarrow> GetSize t = Ret (int (size M))"
proof -
  assume "holds t M"
  then obtain s cs where i: "atree_inv count_combine t s cs" and pos: "counts_pos (at_mem t) s"
    and M: "mset (samples_of (at_mem t) s) = M" by (auto simp: holds_def)
  obtain r where r: "at_mem t root_addr = Some r" "shape_at (at_mem t) (n_left r) s"
    using i by (auto simp: inv_defs root_at_def)
  have "child_meta (at_mem t) (n_left r) = (if s = \<langle>\<rangle> then None else Some (int (size M)))"
    using meta_count [OF _ pos] i shape_at_root [OF r(2)] M by (auto simp: atree_inv_def)
  moreover have "size M = 0" if "s = \<langle>\<rangle>" using that M by auto
  ultimately show ?thesis using r shape_child_ok [OF r(2)] by (simp add: GetSize_def metadata_or_0_ok)
qed

section \<open>Order statistics\<close>

text \<open>The search by rank: the node it returns holds the sample of that rank.\<close>

lemma percentile_loop_nth:
  "aug count_combine h s \<Longrightarrow> counts_pos h s \<Longrightarrow> shape_at h p s \<Longrightarrow>
   1 \<le> rank \<Longrightarrow> rank \<le> int (length (samples_of h s)) \<Longrightarrow>
   \<exists>a n. percentile_loop h rank p = Some (Ret (Ptr a)) \<and> h a = Some n \<and>
     n_key n = samples_of h s ! nat (rank - 1)"
proof (induction s arbitrary: p rank rule: addrs.induct)
  case (2 l a k r)
  obtain n where n: "p = Ptr a" "h a = Some n" "n_key n = k" "shape_at h (n_left n) l" "shape_at h (n_right n) r"
    using 2(5) by auto
  have pos: "counts_pos h l" "counts_pos h r" "n_value n > 0" using 2(4) n(2) by auto
  define L where "L = int (length (samples_of h l))"
  define R where "R = int (length (samples_of h r))"
  have meta: "n_metadata n = L + R + n_value n"
    using meta_count [OF 2(3,4)] n(2) pos(3) by (simp add: L_def R_def)
  have lr: "metadata_or_0 h (n_left n) = Ret L" "metadata_or_0 h (n_right n) = Ret R"
    using meta_count [of h l] meta_count [of h r] 2(3) pos shape_at_root [OF n(4)] shape_at_root [OF n(5)]
      shape_child_ok [OF n(4)] shape_child_ok [OF n(5)]
    by (cases "l = \<langle>\<rangle>"; cases "r = \<langle>\<rangle>"; simp add: metadata_or_0_ok L_def R_def)+
  have nl: "n_left n = Nullptr \<longleftrightarrow> l = \<langle>\<rangle>" "n_right n = Nullptr \<longleftrightarrow> r = \<langle>\<rangle>"
    using n(4,5) by (metis shape_at.simps(1) shape_at_Nullptr_iff)+
  have nth: "samples_of h \<langle>l, (a, k), r\<rangle> ! i =
      (if i < nat L then samples_of h l ! i else if i < nat L + nat (n_value n) then k
       else samples_of h r ! (i - nat L - nat (n_value n)))" if "i < nat (L + R + n_value n)" for i
    using that n(2) pos(3) by (auto simp: nth_append L_def R_def)
  have L0: "L \<ge> 0" "R \<ge> 0" by (simp_all add: L_def R_def)
  have rank: "rank \<le> L + R + n_value n" using 2(7) n(2) pos(3) by (simp add: L_def R_def)
  show ?case
  proof (cases "l = \<langle>\<rangle> \<and> r = \<langle>\<rangle>")
    case True
    then have "L = 0" "R = 0" by (simp_all add: L_def R_def)
    then show ?thesis using True n nl rank meta 2(6) nth [of "nat (rank - 1)"]
      by (subst percentile_loop.simps) auto
  next
    case False
    have step: "percentile_loop h rank p =
        (if rank \<le> L + n_value n \<and> L < rank then Some (Ret (Ptr a))
         else if l \<noteq> \<langle>\<rangle> \<and> L \<ge> rank then percentile_loop h rank (n_left n)
         else if r = \<langle>\<rangle> then Some (Fault Assert_Fail)
         else percentile_loop h (rank - (L + n_value n)) (n_right n))"
      using False n nl lr meta by (subst percentile_loop.simps) auto
    consider "rank \<le> L + n_value n" "L < rank" | "rank \<le> L" | "rank > L + n_value n" by linarith
    then show ?thesis
    proof cases
      case 1
      then show ?thesis using n step nth [of "nat (rank - 1)"] 2(6) L0 rank by auto
    next
      case c: 2
      then have "l \<noteq> \<langle>\<rangle>" using 2(6) by (auto simp: L_def)
      then have "percentile_loop h rank p = percentile_loop h rank (n_left n)"
        unfolding step using c by simp
      moreover have "aug count_combine h l" using 2(3) by simp
      moreover have "samples_of h \<langle>l, (a, k), r\<rangle> ! nat (rank - 1) = samples_of h l ! nat (rank - 1)"
        using nth [of "nat (rank - 1)"] c 2(6) rank L0 by auto
      ultimately show ?thesis using 2(1) [OF _ pos(1) n(4) 2(6)] c by (simp add: L_def)
    next
      case 3
      define rank' where "rank' = rank - (L + n_value n)"
      have "r \<noteq> \<langle>\<rangle>" using 3 rank by (auto simp: R_def)
      then have "percentile_loop h rank p = percentile_loop h rank' (n_right n)"
        unfolding step rank'_def using 3 pos(3) by simp
      moreover have "aug count_combine h r" using 2(3) by simp
      moreover have "nat (rank - 1) - nat L - nat (n_value n) = nat (rank' - 1)"
        using 3 L0 pos(3) by (simp add: rank'_def)
      then have "samples_of h \<langle>l, (a, k), r\<rangle> ! nat (rank - 1) = samples_of h r ! nat (rank' - 1)"
        using nth [of "nat (rank - 1)"] 3 2(6) rank L0 pos(3) by auto
      moreover have "1 \<le> rank'" "rank' \<le> R" using 3 rank by (simp_all add: rank'_def)
      ultimately show ?thesis using 2(2) [OF _ pos(2) n(5)] by (simp add: R_def)
    qed
  qed
qed simp

section \<open>Ranks\<close>

lemma trunc_bounds: "of_int a \<le> x \<Longrightarrow> x \<le> of_int b \<Longrightarrow> 0 \<le> a \<Longrightarrow> a \<le> trunc x \<and> trunc x \<le> b"
proof -
  assume x: "of_int a \<le> x" "x \<le> of_int b" "0 \<le> a"
  then have "x \<ge> 0" by (metis of_int_0_le_iff order_trans)
  then show ?thesis using x by (simp add: trunc_def le_floor_iff) (metis floor_mono floor_of_int)
qed

lemma rank_bounds:
  assumes "50 \<le> p" "p \<le> 100" "0 \<le> n" "n \<le> 2 ^ 53"
  shows "n div 2 \<le> rank_of p n" "rank_of p n \<le> n"
proof -
  have d: "double_of_int n = of_int n" using assms by (simp add: double_of_int_exact)
  have half: "fl (1 / 2) = 1 / 2"
    by (rule fl_scaled [where m = 1 and k = "- 1"]) (auto simp: ilog2_unique [of "- 1"] power_int_minus)
  have q: "1 / 2 \<le> ddiv p 100" "ddiv p 100 \<le> 1"
    using fl_mono [of "1 / 2" "p / 100"] half fl_le_int [of "p / 100" 1] assms by (simp_all add: ddiv_def)
  have "2 * (n div 2) \<le> n" by simp
  then have "rat_of_int (2 * (n div 2)) \<le> of_int n" by (simp only: of_int_le_iff)
  then have "of_int (n div 2) \<le> 1 / 2 * rat_of_int n" by simp
  also have "\<dots> \<le> ddiv p 100 * of_int n" using q assms(3) by (intro mult_right_mono) auto
  finally have lo: "of_int (n div 2) \<le> dmul (ddiv p 100) (of_int n)"
    unfolding dmul_def using assms by (intro fl_ge_int) auto
  have "ddiv p 100 * of_int n \<le> 1 * of_int n" using q assms(3) by (intro mult_right_mono) auto
  then have hi: "dmul (ddiv p 100) (of_int n) \<le> of_int n"
    unfolding dmul_def using assms by (intro fl_le_int) auto
  have "p \<noteq> 0" using assms by auto
  then show "n div 2 \<le> rank_of p n" "rank_of p n \<le> n"
    using trunc_bounds [OF lo hi] assms(3) by (simp_all add: rank_of_def d)
qed

lemma rank_100: "0 \<le> n \<Longrightarrow> n \<le> 2 ^ 53 \<Longrightarrow> rank_of 100 n = n"
proof -
  assume n: "0 \<le> n" "n \<le> 2 ^ 53"
  have "ddiv 100 100 = 1" using fl_int [of 1] by (simp add: ddiv_def)
  then show ?thesis using n by (simp add: rank_of_def dmul_def double_of_int_exact fl_int trunc_def)
qed

lemma d99_9_bounds: "99 < d99_9" "d99_9 < 100"
proof -
  have "fl (199 / 2) = 199 / 2" using fl_dyadic [of 199 "- 1"] by (simp add: power_int_minus)
  moreover have "fl (199 / 2) \<le> d99_9" unfolding d99_9_def by (rule fl_mono) simp
  ultimately show "99 < d99_9" by simp
  have "fl (1599 / 16) = 1599 / 16" using fl_dyadic [of 1599 "- 4"] by (simp add: power_int_def power_one_over)
  moreover have "d99_9 \<le> fl (1599 / 16)" unfolding d99_9_def by (rule fl_mono) simp
  ultimately show "d99_9 < 100" by simp
qed

text \<open>The order statistic of percentile \<open>p\<close> of a non-empty multiset.\<close>

definition order_stat :: "double multiset \<Rightarrow> double \<Rightarrow> double" where
  "order_stat M p = sorted_list_of_multiset M ! nat (max 1 (rank_of p (int (size M))) - 1)"

definition known_percentile :: "double \<Rightarrow> bool" where
  "known_percentile p \<longleftrightarrow> p = 0 \<or> 50 \<le> p \<and> p \<le> 100"

lemma samples_sorted:
  assumes "ordered s" "counts_pos h s"
  shows "samples_of h s = sorted_list_of_multiset (mset (samples_of h s))"
  using sorted_samples [OF assms] by (simp add: sorted_sort_id)

lemma percentile_single:
  assumes "counts_pos h s" "shape_at h p s" "length (samples_of h s) = 1" "rank \<le> 1" "aug count_combine h s"
  shows "\<exists>a n. percentile_loop h rank p = Some (Ret (Ptr a)) \<and> h a = Some n \<and> n_key n = samples_of h s ! 0"
proof -
  obtain l a k r where s: "s = \<langle>l, (a, k), r\<rangle>" using assms(3) by (cases s rule: addrs.cases) auto
  obtain n where n: "h a = Some n" "n_value n > 0" "p = Ptr a" "n_key n = k"
    "shape_at h (n_left n) l" "shape_at h (n_right n) r" using assms(1,2) s by auto
  have "0 < nat (n_value n)" using n(2) by simp
  moreover have "length (samples_of h l) + (nat (n_value n) + length (samples_of h r)) = 1"
    using assms(3) s n(1) by simp
  ultimately have "length (samples_of h l) = 0" "length (samples_of h r) = 0" by linarith+
  then have e: "l = \<langle>\<rangle>" "r = \<langle>\<rangle>" using samples_nonempty [of h l] samples_nonempty [of h r] assms(1) s by auto
  have "n_metadata n = 1" using meta_count [OF assms(5,1)] s n assms(3) by simp
  then show ?thesis using n e s assms(3,4) by (subst percentile_loop.simps) (auto simp: nth_append)
qed

lemma percentile_key_correct:
  assumes h: "holds (su_samples S) M" and M: "M \<noteq> {#}" "size M \<le> 2 ^ 53" and p: "known_percentile p"
  shows "percentile_key S p = Some (Ret (order_stat M p))"
proof -
  let ?h = "at_mem (su_samples S)"
  obtain s cs where i: "atree_inv count_combine (su_samples S) s cs" and pos: "counts_pos ?h s"
    and Ms: "mset (samples_of ?h s) = M" using h by (auto simp: holds_def)
  obtain r where r: "?h root_addr = Some r" "shape_at ?h (n_left r) s" "ordered s"
    using i by (auto simp: inv_defs root_at_def)
  have len: "length (samples_of ?h s) = size M" using Ms by auto
  have xs: "samples_of ?h s = sorted_list_of_multiset M" using samples_sorted [OF r(3) pos] Ms by simp
  have au: "aug count_combine ?h s" using i by (simp add: atree_inv_def)
  define rank where "rank = rank_of p (int (size M))"
  have n0: "size M > 0" "int (size M) \<le> 2 ^ 53" using M by (auto simp: nonempty_has_size)
  have rank: "rank \<le> int (size M)" "size M \<ge> 2 \<Longrightarrow> 1 \<le> rank"
    using p rank_bounds [of p "int (size M)"] n0 unfolding rank_def known_percentile_def
    by (auto simp: rank_of_def)
  have "\<exists>a n. percentile_loop ?h rank (n_left r) = Some (Ret (Ptr a)) \<and> ?h a = Some n \<and>
      n_key n = sorted_list_of_multiset M ! nat (max 1 rank - 1)"
  proof (cases "size M = 1")
    case True
    then have "rank \<le> 1" using rank by simp
    then show ?thesis using percentile_single [OF pos r(2) _ \<open>rank \<le> 1\<close> au] True len xs by simp
  next
    case False
    then have "1 \<le> rank" using rank(2) n0 by linarith
    then show ?thesis using percentile_loop_nth [OF au pos r(2), of rank] rank len xs by (simp add: max_def)
  qed
  moreover have "\<not> (p > 100 \<or> p < 0)" using p by (auto simp: known_percentile_def)
  ultimately show ?thesis using r(1) holds_GetSize [OF h]
    by (auto simp: percentile_key_def FindNthPercentile_def rank_def order_stat_def)
qed

section \<open>Streams of samples\<close>

text \<open>
  \<open>past\<close> are the samples of the closed windows, \<open>now\<close> those of the current one.
\<close>

definition summary_inv :: "summary \<Rightarrow> double list \<Rightarrow> double list \<Rightarrow> bool" where
  "summary_inv s past now \<longleftrightarrow>
     holds (su_samples s) (mset now) \<and> su_total_samples s = int (length (past @ now)) \<and>
     (su_initialized s \<longleftrightarrow> past \<noteq> []) \<and>
     (past \<noteq> [] \<longrightarrow> su_min s = Min (set past) \<and> su_max s = Max (set past))"

definition same_but_percentiles :: "summary \<Rightarrow> summary \<Rightarrow> bool" where
  "same_but_percentiles s s' \<longleftrightarrow> su_samples s' = su_samples s \<and> su_total_samples s' = su_total_samples s \<and>
     su_initialized s' = su_initialized s \<and> su_min s' = su_min s \<and> su_max s' = su_max s"

lemma literals:
  "known_percentile 0" "known_percentile 50" "known_percentile 90" "known_percentile 95"
  "known_percentile 99" "known_percentile d99_9" "known_percentile 100"
  "d99_9 \<noteq> 0" "d99_9 \<noteq> 50" "d99_9 \<noteq> 90" "d99_9 \<noteq> 95" "d99_9 \<noteq> 99" "d99_9 \<noteq> 100"
  using d99_9_bounds by (auto simp: known_percentile_def)

lemma update_inner:
  assumes "holds (su_samples s) M" "M \<noteq> {#}" "size M \<le> 2 ^ 53" "p \<in> {50, 90, 95, 99, d99_9}"
  shows "\<exists>s'. UpdatePercentile s p = Some (Ret s') \<and> same_but_percentiles s s'"
  using assms(4) percentile_key_correct [OF assms(1-3)] literals
  by (auto simp: UpdatePercentile_def Let_def same_but_percentiles_def)

lemma order_stat_extremes:
  assumes "M \<noteq> {#}" "size M \<le> 2 ^ 53"
  shows "order_stat M 0 = Min (set_mset M)" "order_stat M 100 = Max (set_mset M)"
proof -
  define xs where "xs = sorted_list_of_multiset M"
  have xs: "sorted xs" "mset xs = M" by (simp_all add: xs_def)
  then have "xs \<noteq> []" using assms(1) by auto
  note xs = xs this
  then have len: "length xs = size M" "set xs = set_mset M" by auto
  obtain y ys where y: "xs = y # ys" using xs(3) by (cases xs) auto
  have "order_stat M 0 = y"
    by (simp add: order_stat_def rank_of_def flip: xs_def) (simp add: y)
  also have "y = Min (set_mset M)" using xs(1) unfolding len(2) [symmetric] y by (intro Min_eqI [symmetric]) auto
  finally show "order_stat M 0 = Min (set_mset M)" .
  have "int (size M) \<le> 2 ^ 53" using assms(2) by simp
  then have "order_stat M 100 = xs ! (size M - 1)"
    using len(1) y by (simp add: order_stat_def rank_100 nat_diff_distrib flip: xs_def)
  also have "\<dots> = last xs" using len(1) xs(3) by (simp add: last_conv_nth)
  also have "last xs = Max (set_mset M)"
  proof -
    have "z \<le> last xs" if "z \<in> set xs" for z
      using that xs(1) by (induction xs) (auto split: if_splits dest: last_in_set)
    moreover have "last xs \<in> set xs" using xs(3) by simp
    ultimately have "Max (set xs) = last xs" by (intro Max_eqI) auto
    then show ?thesis using len(2) by simp
  qed
  finally show "order_stat M 100 = Max (set_mset M)" .
qed

lemma update_percentiles_chain:
  assumes h: "holds (su_samples s) M" and M: "M \<noteq> {#}" "size M \<le> 2 ^ 53"
  shows "\<exists>s'. bindR (UpdatePercentile s 0) (\<lambda>s. bindR (UpdatePercentile s 50) (\<lambda>s.
      bindR (UpdatePercentile s 90) (\<lambda>s. bindR (UpdatePercentile s 95) (\<lambda>s.
      bindR (UpdatePercentile s 99) (\<lambda>s. bindR (UpdatePercentile s d99_9) (\<lambda>s.
      UpdatePercentile s 100)))))) = Some (Ret s') \<and>
    su_samples s' = su_samples s \<and> su_total_samples s' = su_total_samples s \<and>
    su_initialized s' = su_initialized s \<and>
    su_min s' = min (su_min s) (order_stat M 0) \<and> su_max s' = max (su_max s) (order_stat M 100)"
proof -
  let ?s1 = "s\<lparr>su_min := min (su_min s) (order_stat M 0)\<rparr>"
  have 1: "UpdatePercentile s 0 = Some (Ret ?s1)"
    using percentile_key_correct [OF h M] literals by (simp add: UpdatePercentile_def)
  have "holds (su_samples ?s1) M" using h by simp
  from update_inner [OF this M, of 50] obtain s2 where
    2: "UpdatePercentile ?s1 50 = Some (Ret s2)" "same_but_percentiles ?s1 s2" by auto
  have "holds (su_samples s2) M" using 2 h by (simp add: same_but_percentiles_def)
  from update_inner [OF this M, of 90] obtain s3 where
    3: "UpdatePercentile s2 90 = Some (Ret s3)" "same_but_percentiles s2 s3" by auto
  have "holds (su_samples s3) M" using 2 3 h by (simp add: same_but_percentiles_def)
  from update_inner [OF this M, of 95] obtain s4 where
    4: "UpdatePercentile s3 95 = Some (Ret s4)" "same_but_percentiles s3 s4" by auto
  have "holds (su_samples s4) M" using 2 3 4 h by (simp add: same_but_percentiles_def)
  from update_inner [OF this M, of 99] obtain s5 where
    5: "UpdatePercentile s4 99 = Some (Ret s5)" "same_but_percentiles s4 s5" by auto
  have "holds (su_samples s5) M" using 2 3 4 5 h by (simp add: same_but_percentiles_def)
  from update_inner [OF this M, of d99_9] obtain s6 where
    6: "UpdatePercentile s5 d99_9 = Some (Ret s6)" "same_but_percentiles s5 s6" by auto
  have "holds (su_samples s6) M" using 2 3 4 5 6 h by (simp add: same_but_percentiles_def)
  from percentile_key_correct [OF this M literals(7)]
  have 7: "UpdatePercentile s6 100 = Some (Ret (s6\<lparr>su_max := max (su_max s6) (order_stat M 100)\<rparr>))"
    using literals(13) by (simp add: UpdatePercentile_def)
  show ?thesis
    using 1 2 3 4 5 6 7 by (simp add: same_but_percentiles_def)
qed

lemma flush_correct:
  assumes i: "summary_inv s past now" and len: "length now \<le> 2 ^ 53"
  shows "\<exists>s'. UpdatePercentilesAndClearSamples s = Some (Ret s') \<and> summary_inv s' (past @ now) [] \<and>
    (past = [] \<longrightarrow> now \<noteq> [] \<longrightarrow> su_p50 s' = order_stat (mset now) 50 \<and> su_p90 s' = order_stat (mset now) 90 \<and>
      su_p95 s' = order_stat (mset now) 95 \<and> su_p99 s' = order_stat (mset now) 99 \<and>
      su_p999 s' = order_stat (mset now) d99_9)"
proof -
  have h: "holds (su_samples s) (mset now)" using i by (simp add: summary_inv_def)
  note gs = holds_GetSize [OF h]
  show ?thesis
  proof (cases "now = []")
    case True
    then show ?thesis using i gs by (simp add: UpdatePercentilesAndClearSamples_def)
  next
    case False
    then have M: "mset now \<noteq> {#}" "size (mset now) \<le> 2 ^ 53" using len by auto
    have key: "percentile_key s p = Some (Ret (order_stat (mset now) p))" if "known_percentile p" for p
      using percentile_key_correct [OF h M that] .
    obtain t where t: "Clear (su_samples s) = Ret t" "holds t {#}" using holds_clear [OF h] by blast
    have ext: "order_stat (mset now) 0 = Min (set now)" "order_stat (mset now) 100 = Max (set now)"
      using order_stat_extremes [OF M] by simp_all
    show ?thesis
    proof (cases "past = []")
      case True
      then have "\<not> su_initialized s" using i by (simp add: summary_inv_def)
      then show ?thesis using True False gs t i ext
        by (simp add: UpdatePercentilesAndClearSamples_def key literals summary_inv_def)
    next
      case past: False
      obtain s' where s': "bindR (UpdatePercentile s 0) (\<lambda>s. bindR (UpdatePercentile s 50) (\<lambda>s.
          bindR (UpdatePercentile s 90) (\<lambda>s. bindR (UpdatePercentile s 95) (\<lambda>s.
          bindR (UpdatePercentile s 99) (\<lambda>s. bindR (UpdatePercentile s d99_9) (\<lambda>s.
          UpdatePercentile s 100)))))) = Some (Ret s')"
        "su_samples s' = su_samples s" "su_total_samples s' = su_total_samples s"
        "su_initialized s' = su_initialized s"
        "su_min s' = min (su_min s) (Min (set now))" "su_max s' = max (su_max s) (Max (set now))"
        using update_percentiles_chain [OF h M] ext by auto
      have "su_initialized s" using i past by (simp add: summary_inv_def)
      then have "UpdatePercentilesAndClearSamples s = Some (Ret (s'\<lparr>su_samples := t\<rparr>))"
        using False gs s'(1,2) t(1) by (simp add: UpdatePercentilesAndClearSamples_def)
      moreover have "Min (set (past @ now)) = min (su_min s) (Min (set now))"
        "Max (set (past @ now)) = max (su_max s) (Max (set now))"
        using i past False by (simp_all add: summary_inv_def Min_Un Max_Un)
      ultimately show ?thesis using i t(2) s' past by (simp add: summary_inv_def)
    qed
  qed
qed

text \<open>The part of \<open>operator<<\<close> after the window has been dealt with.\<close>

lemma sample_into_window:
  assumes "summary_inv s past now"
  shows "\<exists>s' t. InsertOrUpdate SubtreeCountVisitor (su_samples s) x 1 1 = Some (Ret (t, OkStatus)) \<and>
    (\<forall>mean sq var. summary_inv (s\<lparr>su_samples := t, su_total_samples := su_total_samples s + 1,
      su_mean := mean, su_squared_total := sq, su_variance := var\<rparr>) past (now @ [x]))"
proof -
  obtain t where "InsertOrUpdate SubtreeCountVisitor (su_samples s) x 1 1 = Some (Ret (t, OkStatus))"
    "holds t (add_mset x (mset now))"
    using holds_insert [of "su_samples s" "mset now" x] assms by (auto simp: summary_inv_def)
  then show ?thesis using assms by (auto simp: summary_inv_def)
qed

lemma sample_no_flush:
  assumes i: "summary_inv s past now" and "int (length now) \<noteq> su_window_size s"
  shows "\<exists>s'. sample s x = Some (Ret s') \<and> summary_inv s' past (now @ [x]) \<and>
    su_window_size s' = su_window_size s"
proof -
  have "GetSize (su_samples s) = Ret (int (length now))"
    using i holds_GetSize [of "su_samples s" "mset now"] by (simp add: summary_inv_def)
  then show ?thesis using assms(2) sample_into_window [OF i, of x] by (auto simp: sample_def Let_def)
qed

lemma sample_correct:
  assumes i: "summary_inv s past now" and len: "length now \<le> 2 ^ 53"
  shows "\<exists>s' past' now'. sample s x = Some (Ret s') \<and> summary_inv s' past' now' \<and>
    past' @ now' = past @ now @ [x]"
proof (cases "int (length now) = su_window_size s")
  case False
  then show ?thesis using sample_no_flush [OF i] by fastforce
next
  case True
  have sz: "GetSize (su_samples s) = Ret (int (length now))"
    using i holds_GetSize [of "su_samples s" "mset now"] by (simp add: summary_inv_def)
  obtain s1 where s1: "UpdatePercentilesAndClearSamples s = Some (Ret s1)" "summary_inv s1 (past @ now) []"
    using flush_correct [OF i len] by blast
  from sample_into_window [OF s1(2), of x] show ?thesis using sz True s1(1)
    by (fastforce simp: sample_def Let_def)
qed

lemma stream_correct:
  "summary_inv s past now \<Longrightarrow> length (past @ now @ xs) \<le> 2 ^ 53 \<Longrightarrow>
   \<exists>s' past' now'. stream_samples s xs = Some (Ret s') \<and> summary_inv s' past' now' \<and>
     past' @ now' = past @ now @ xs"
proof (induction xs arbitrary: s past now)
  case (Cons x xs)
  obtain s1 past1 now1 where 1: "sample s x = Some (Ret s1)" "summary_inv s1 past1 now1"
    "past1 @ now1 = past @ now @ [x]"
    using sample_correct [OF Cons(2), of x] Cons(3) by auto
  have "past1 @ now1 @ xs = (past1 @ now1) @ xs" by simp
  also have "\<dots> = past @ now @ x # xs" unfolding 1(3) by simp
  finally have e: "past1 @ now1 @ xs = past @ now @ x # xs" .
  have "length (past1 @ now1 @ xs) \<le> 2 ^ 53" unfolding e by (rule Cons(3))
  from Cons(1) [OF 1(2) this] show ?case using 1(1) e by auto
qed auto

lemma stream_one_window:
  "summary_inv s [] now \<Longrightarrow> int (length (now @ xs)) \<le> su_window_size s \<Longrightarrow>
   \<exists>s'. stream_samples s xs = Some (Ret s') \<and> summary_inv s' [] (now @ xs)"
proof (induction xs arbitrary: s now)
  case (Cons x xs)
  obtain s1 where "sample s x = Some (Ret s1)" "summary_inv s1 [] (now @ [x])"
    "su_window_size s1 = su_window_size s"
    using sample_no_flush [OF Cons(2), of x] Cons(3) by auto
  then show ?case using Cons(1) [of s1 "now @ [x]"] Cons(3) by auto
qed auto

lemma make_summary_inv: "summary_inv (make_summary nm u w) [] []"
  using holds_fresh by (simp add: summary_inv_def make_summary_def)

section \<open>Properties\<close>

text \<open>
  The percentile search returns the order statistic: with \<open>n\<close> samples in the tree, for the
  percentiles the code asks for, it returns a node that holds the sample of rank
  \<open>max 1 (trunc (p / 100 * n))\<close> (computed in double arithmetic), without failing an assertion.
\<close>

theorem find_nth_percentile:
  assumes "holds t M" "M \<noteq> {#}" "size M \<le> 2 ^ 53" "known_percentile p"
  shows "\<exists>a n. FindNthPercentile t p = Some (Ret (Ptr a)) \<and> at_mem t a = Some n \<and>
    n_key n = sorted_list_of_multiset M ! nat (max 1 (rank_of p (int (size M))) - 1)"
proof -
  have "percentile_key ((make_summary [] [] 0)\<lparr>su_samples := t\<rparr>) p = Some (Ret (order_stat M p))"
    using assms by (intro percentile_key_correct) simp_all
  then show ?thesis
    by (auto simp: percentile_key_def bindR_eq_Ret load_eq_Ret order_stat_def)
qed

lemma find_nth_percentile_witness:
  "\<exists>t a n. InsertOrUpdate SubtreeCountVisitor (make_atree 0 0 0) (7::double) 1 1 = Some (Ret (t, OkStatus)) \<and>
    FindNthPercentile t 50 = Some (Ret (Ptr a)) \<and> at_mem t a = Some n \<and> n_key n = 7"
proof -
  obtain t where t: "InsertOrUpdate SubtreeCountVisitor (make_atree 0 0 0) 7 1 1 = Some (Ret (t, OkStatus))"
    "holds t {#7#}" using holds_insert [OF holds_fresh, of 0 0 0 7] by auto
  obtain a n where "FindNthPercentile t 50 = Some (Ret (Ptr a))" "at_mem t a = Some n"
    "n_key n = [7] ! nat (max 1 (rank_of 50 1) - 1)"
    using find_nth_percentile [OF t(2) _ _ literals(2)] by auto
  moreover have "max 1 (rank_of 50 1) = 1" using rank_bounds [of 50 1] by simp
  ultimately show ?thesis using t(1) by auto
qed



text \<open>
  Over any number of windows the minimum, the maximum and the number of samples are exact:
  no window boundary loses a sample.
\<close>

theorem summary_min_max_exact:
  assumes "xs \<noteq> []" "length xs \<le> 2 ^ 53"
  shows "\<exists>s s'. stream_samples (make_summary nm u w) xs = Some (Ret s) \<and>
    GetNumSamples s = int (length xs) \<and>
    GetMin s = Some (Ret (s', Min (set xs))) \<and> GetMax s = Some (Ret (s', Max (set xs)))"
proof -
  obtain s past now where s: "stream_samples (make_summary nm u w) xs = Some (Ret s)"
    "summary_inv s past now" "past @ now = xs"
    using stream_correct [OF make_summary_inv [of nm u w], of xs] assms(2) by auto
  have "length now \<le> 2 ^ 53" using s(3) assms(2) by auto
  from flush_correct [OF s(2) this] obtain s' where
    s': "UpdatePercentilesAndClearSamples s = Some (Ret s')" "summary_inv s' xs []" using s(3) by auto
  then have "su_min s' = Min (set xs)" "su_max s' = Max (set xs)"
    using assms(1) by (simp_all add: summary_inv_def)
  moreover have "GetNumSamples s = int (length xs)"
    using s(2,3) by (auto simp: summary_inv_def GetNumSamples_def)
  ultimately show ?thesis using s(1) s'(1) literals
    by - (rule exI [of _ s], rule exI [of _ s'], simp add: GetMin_def GetMax_def GetPercentileInternal_def)
qed

lemma summary_min_max_exact_witness:
  "\<exists>s s'. stream_samples (make_summary [] [] 2) [3, 1, 2, 5, 4] = Some (Ret s) \<and> GetNumSamples s = 5 \<and>
    GetMin s = Some (Ret (s', 1)) \<and> GetMax s = Some (Ret (s', 5))"
  using summary_min_max_exact [of "[3, 1, 2, 5, 4]" "[]" "[]" 2] by auto

text \<open>The nodes of a summary that was copied and destroyed are gone.\<close>

lemma destroyed_samples:
  assumes "summary_inv d past now" "now \<noteq> []"
  shows "\<exists>h. destroy (su_samples d) = Some (Ret h) \<and> GetSize ((su_samples d)\<lparr>at_mem := h\<rparr>) = Fault Dangling \<and>
    destroy ((su_samples d)\<lparr>at_mem := h\<rparr>) = Some (Fault Dangling)"
proof -
  let ?t = "su_samples d"
  obtain s cs where t: "atree_struct ?t s cs" "counts_pos (at_mem ?t) s" "mset (samples_of (at_mem ?t) s) = mset now"
    using assms(1) by (auto simp: summary_inv_def holds_def atree_inv_def)
  then have ne: "s \<noteq> \<langle>\<rangle>" using assms(2) by auto
  obtain r where r: "at_mem ?t root_addr = Some r" "shape_at (at_mem ?t) (n_left r) s"
    using t(1) by (auto simp: atree_struct_def root_at_def)
  then obtain a where a: "n_left r = Ptr a" "a \<in> set (addrs s)" using ne by (cases "(at_mem ?t, n_left r, s)" rule: shape_at.cases) auto
  have na: "a \<noteq> root_addr" "a \<in> dom (at_mem ?t)" using t(1) a(2) by (auto simp: atree_struct_def owned_def)
  obtain h where h: "destroy ?t = Some (Ret h)" "dom h = {root_addr}" "h root_addr = Some r"
    using destroy_correct [OF t(1)] r(1) by auto
  moreover have "h a = None" using h(2) na(1) by auto
  ultimately have "GetSize (?t\<lparr>at_mem := h\<rparr>) = Fault Dangling" using a(1) by (simp add: GetSize_def metadata_or_0_def load_def)
  moreover have "dom (at_mem ?t) \<noteq> {root_addr}" using na by auto
  ultimately show ?thesis using h(1) destroy_twice [OF t(1) h(1)] by blast
qed


lemma weighted_1_3: "weighted 1 1 1 3 = 2"
  using fl_int [of 1] fl_int [of 2] fl_int [of 3]
  by (simp add: weighted_def double_of_int_exact dadd_def dsub_def dmul_def ddiv_def)


end
