(* ===== verification/Workload_Driver.thy ===== *)
theory Workload_Driver
  imports Streams Qps_Controller Metrics Summary_Proofs
begin

text \<open>
  \<open>WorkloadDriver\<close> of \<open>rome/colosseum/workload_driver.h\<close>: it pulls operations from a stream, at the
  pace of a rate limiter, hands them to a client and samples latency and throughput. The client
  (\<open>client_adaptor.h\<close>) is a record of its three operations on a state; the readings of the time stamp
  counter are a sequence, of which the state counts those taken; \<open>stopping k\<close> is the value of
  \<open>terminated_\<close>, which another thread sets, that the loop reads before its \<open>k\<close>-th operation.
\<close>

section \<open>State\<close>

record ('op, 'c) client_adaptor =
  cl_Start :: "'c \<Rightarrow> status \<times> 'c"
  cl_Apply :: "'op \<Rightarrow> 'c \<Rightarrow> status \<times> 'c"
  cl_Stop :: "'c \<Rightarrow> status \<times> 'c"

record ('c, 's, 'q) driver =
  wd_terminated :: bool
  wd_running :: bool
  wd_client :: 'c
  wd_stream :: "'s stream"
  wd_qps_controller :: "'q option"
  wd_ops :: counter
  wd_stopwatch :: "stopwatch option"
  wd_prev_ops :: u64
  wd_qps_sampling_rate :: int
  wd_qps_summary :: summary
  wd_lat_sampling_rate :: int
  wd_lat_summary :: summary
  wd_run_status :: "status option"
  wd_run_thread :: bool
  wd_reads :: nat

definition WorkloadDriver :: "'c \<Rightarrow> 's stream \<Rightarrow> 'q option \<Rightarrow> int \<Rightarrow> ('c, 's, 'q) driver" where
  "WorkloadDriver client stream qps_controller qps_sampling_rate =
     \<lparr>wd_terminated = False, wd_running = False, wd_client = client, wd_stream = stream, wd_qps_controller = qps_controller,
      wd_ops = make_counter ''total_ops'', wd_stopwatch = None, wd_prev_ops = 0, wd_qps_sampling_rate = qps_sampling_rate,
      wd_qps_summary = make_summary ''sampled_qps'' ''ops/s'' 1000, wd_lat_sampling_rate = 10,
      wd_lat_summary = make_summary ''sampled_lat'' ''ns'' 1000, wd_run_status = None, wd_run_thread = False, wd_reads = 0\<rparr>"

text \<open>\<open>Create\<close>: without a sampling rate it is 0 ms.\<close>

definition wd_Create :: "'c \<Rightarrow> 's stream \<Rightarrow> 'q option \<Rightarrow> int option \<Rightarrow> ('c, 's, 'q) driver" where
  "wd_Create client stream qps_controller rate =
     WorkloadDriver client stream qps_controller (case rate of None \<Rightarrow> 0 | Some r \<Rightarrow> r)"

section \<open>The loop\<close>

text \<open>\<open>duration_cast<milliseconds>\<close> truncates towards zero.\<close>

definition to_ms :: "int \<Rightarrow> int" where
  "to_ms ns = (if ns < 0 then - ((- ns) div 1000000) else ns div 1000000)"

text \<open>The literal \<open>1e-9\<close>.\<close>

definition d1e_9 :: double where
  "d1e_9 = fl (1 / 1000000000)"

definition take_latency :: "(nat \<Rightarrow> u64) \<Rightarrow> stopwatch \<Rightarrow> int \<Rightarrow> int \<Rightarrow> ('c, 's, 'q) driver \<Rightarrow> ('c, 's, 'q) driver run" where
  "take_latency tsc w curr_lap_ms curr_lap_ns d =
     (if curr_lap_ms > wd_lat_sampling_rate d then
        bindR (Some (split_GetRuntimeNanoseconds (GetLapSplit w (tsc (wd_reads d))))) (\<lambda>ns.
        bindR (sample (wd_lat_summary d) (double_of_int (ns - curr_lap_ns))) (\<lambda>su.
        Some (Ret (d\<lparr>wd_lat_summary := su, wd_reads := wd_reads d + 1\<rparr>))))
      else Some (Ret d))"

text \<open>
  The sample of the throughput divides by the time of the lap, which is not 0: the branch is taken only
  when the lap is longer than the sampling rate.
\<close>

definition take_qps :: "(nat \<Rightarrow> u64) \<Rightarrow> stopwatch \<Rightarrow> int \<Rightarrow> ('c, 's, 'q) driver \<Rightarrow> ('c, 's, 'q) driver run" where
  "take_qps tsc w curr_lap_ms d =
     (if curr_lap_ms > wd_qps_sampling_rate d then
        let curr_ops = GetCounter (wd_ops d);
            (w1, lap) = GetLap w (tsc (wd_reads d)) (tsc (wd_reads d + 1))
        in bindR (Some (split_GetRuntimeNanoseconds lap)) (\<lambda>ns.
           let sample_value = ddiv (double_of_int (uint (curr_ops - wd_prev_ops d))) (dmul (double_of_int ns) d1e_9)
           in bindR (sample (wd_qps_summary d) sample_value) (\<lambda>su.
              Some (Ret (d\<lparr>wd_stopwatch := Some w1, wd_qps_summary := su, wd_prev_ops := curr_ops, wd_reads := wd_reads d + 2\<rparr>))))
      else Some (Ret d))"

text \<open>One pass of the loop: the new state and whether the loop goes on.\<close>

definition pace :: "('q \<Rightarrow> 'q run) \<Rightarrow> ('c, 's, 'q) driver \<Rightarrow> ('c, 's, 'q) driver run" where
  "pace wait d = (case wd_qps_controller d of None \<Rightarrow> Some (Ret d)
     | Some q \<Rightarrow> bindR (wait q) (\<lambda>q'. Some (Ret (d\<lparr>wd_qps_controller := Some q'\<rparr>))))"

definition run_once ::
  "('op, 'c) client_adaptor \<Rightarrow> ('s, 'op) next_fun \<Rightarrow> ('q \<Rightarrow> 'q run) \<Rightarrow> (nat \<Rightarrow> u64) \<Rightarrow> ('c, 's, 'q) driver \<Rightarrow>
    (('c, 's, 'q) driver \<times> bool) run" where
  "run_once cl nx wait tsc d0 =
     bindR (pace wait d0) (\<lambda>d.
     bindR (Some (Next nx (wd_stream d))) (\<lambda>(next_op, stream).
     let d1 = d\<lparr>wd_stream := stream\<rparr> in
     case next_op of Inl status \<Rightarrow> Some (Ret (d1, False))
     | Inr op \<Rightarrow>
       (case wd_stopwatch d1 of None \<Rightarrow> Some (Fault Null_Deref)
        | Some w \<Rightarrow>
          bindR (Some (split_GetRuntimeNanoseconds (GetLapSplit w (tsc (wd_reads d1))))) (\<lambda>curr_lap_ns.
          let curr_lap_ms = to_ms curr_lap_ns;
              (client_status, c) = cl_Apply cl op (wd_client d1)
          in bindR (take_latency tsc w curr_lap_ms curr_lap_ns (d1\<lparr>wd_reads := wd_reads d1 + 1, wd_client := c\<rparr>)) (\<lambda>d2.
             if \<not> status_ok client_status then Some (Ret (d2, False))
             else bindR (take_qps tsc w curr_lap_ms (d2\<lparr>wd_ops := ctr_pre_inc (wd_ops d2)\<rparr>)) (\<lambda>d3. Some (Ret (d3, True))))))))"

partial_function (option) driver_loop ::
  "('op, 'c) client_adaptor \<Rightarrow> ('s, 'op) next_fun \<Rightarrow> ('q \<Rightarrow> 'q run) \<Rightarrow> (nat \<Rightarrow> u64) \<Rightarrow> (nat \<Rightarrow> bool) \<Rightarrow> nat \<Rightarrow> ('c, 's, 'q) driver \<Rightarrow>
    ('c, 's, 'q) driver run" where
  "driver_loop cl nx wait tsc stopping k d =
     (if stopping k then Some (Ret d)
      else bindR (run_once cl nx wait tsc d) (\<lambda>(d', again). if again then driver_loop cl nx wait tsc stopping (Suc k) d' else Some (Ret d')))"

text \<open>
  The start of \<open>Run\<close>: \<open>freq\<close> is the frequency that \<open>Stopwatch::Create\<close> finds. The status of the loop is
  overwritten by the one of the client's \<open>Stop\<close>.
\<close>

definition run_begin :: "('op, 'c) client_adaptor \<Rightarrow> u64 \<Rightarrow> (nat \<Rightarrow> u64) \<Rightarrow> ('c, 's, 'q) driver \<Rightarrow> status \<times> ('c, 's, 'q) driver" where
  "run_begin cl freq tsc d = (case cl_Start cl (wd_client d) of (status, c) \<Rightarrow>
     if \<not> status_ok status then (status, d\<lparr>wd_client := c\<rparr>)
     else (status, d\<lparr>wd_client := c, wd_stopwatch := Some (make_stopwatch ''driver_stopwatch'' freq (tsc (wd_reads d))),
                     wd_reads := wd_reads d + 1, wd_running := True\<rparr>))"

definition driver_Run ::
  "('op, 'c) client_adaptor \<Rightarrow> ('s, 'op) next_fun \<Rightarrow> ('q \<Rightarrow> 'q run) \<Rightarrow> u64 \<Rightarrow> (nat \<Rightarrow> u64) \<Rightarrow> (nat \<Rightarrow> bool) \<Rightarrow> ('c, 's, 'q) driver \<Rightarrow>
    (status \<times> ('c, 's, 'q) driver) run" where
  "driver_Run cl nx wait freq tsc stopping d0 =
     (case run_begin cl freq tsc d0 of (status, d) \<Rightarrow>
        if \<not> status_ok status then Some (Ret (status, d))
        else bindR (driver_loop cl nx wait tsc stopping 0 d) (\<lambda>d1.
          case cl_Stop cl (wd_client d1) of (status, c) \<Rightarrow>
            (case wd_stopwatch d1 of None \<Rightarrow> Some (Fault Null_Deref)
             | Some w \<Rightarrow> Some (Ret (status, d1\<lparr>wd_client := c, wd_stopwatch := Some (sw_Stop w (tsc (wd_reads d1))),
                                       wd_reads := wd_reads d1 + 1\<rparr>)))))"

text \<open>
  \<open>Start\<close> makes a thread that runs \<open>Run\<close> and waits until \<open>running_\<close> is set; a thread object that still
  holds a thread ends the program when it is replaced. \<open>None\<close> is a wait that does not end.
\<close>

definition driver_Start :: "('op, 'c) client_adaptor \<Rightarrow> u64 \<Rightarrow> (nat \<Rightarrow> u64) \<Rightarrow> ('c, 's, 'q) driver \<Rightarrow> (status \<times> ('c, 's, 'q) driver) run" where
  "driver_Start cl freq tsc d =
     (if wd_terminated d then Some (Ret (ErrorStatus kUnavailable ''Cannot restart a terminated workload driver.'', d))
      else if wd_run_thread d then Some (Fault Assert_Fail)
      else case run_begin cl freq tsc (d\<lparr>wd_run_thread := True\<rparr>) of (st, d1) \<Rightarrow>
        if wd_running d1 then Some (Ret (OkStatus, d1)) else None)"

text \<open>
  \<open>Stop\<close> waits for the result of \<open>Run\<close>; a second \<open>get()\<close> of the future throws.
\<close>

definition driver_Stop :: "('c, 's, 'q) driver \<Rightarrow> (status \<times> ('c, 's, 'q) driver) outcome" where
  "driver_Stop d =
     (if wd_terminated d then Ret (ErrorStatus kUnavailable ''Workload driver was already terminated'', d)
      else let d1 = d\<lparr>wd_terminated := True\<rparr>
           in case wd_run_status d1 of None \<Rightarrow> Fault Undefined
              | Some st \<Rightarrow> if \<not> status_ok st then Fault Assert_Fail else Ret (OkStatus, d1))"

section \<open>A run over a finite stream\<close>

text \<open>
  What the client sees: the operations in order, until the loop is told to stop or the client refuses
  one; the number of those it accepted and its state after them.
\<close>

fun feed :: "('op, 'c) client_adaptor \<Rightarrow> (nat \<Rightarrow> bool) \<Rightarrow> nat \<Rightarrow> 'op list \<Rightarrow> 'c \<Rightarrow> nat \<times> 'c" where
  "feed cl stopping k [] c = (0, c)"
| "feed cl stopping k (x # xs) c =
     (if stopping k then (0, c)
      else case cl_Apply cl x c of (st, c') \<Rightarrow>
        if status_ok st then (case feed cl stopping (Suc k) xs c' of (n, c'') \<Rightarrow> (Suc n, c'')) else (0, c'))"

text \<open>The elapsed time between two readings in their order can be represented.\<close>

definition clock_fits :: "u64 \<Rightarrow> (nat \<Rightarrow> u64) \<Rightarrow> bool" where
  "clock_fits freq tsc \<longleftrightarrow> (\<forall>i j. i \<le> j \<longrightarrow>
     (\<exists>ns. split_GetRuntimeNanoseconds \<lparr>sp_tsc_freq_khz = ucast freq, sp_start = tsc i, sp_end = tsc j\<rparr> = Ret ns))"

definition summary_size :: "nat \<Rightarrow> summary \<Rightarrow> bool" where
  "summary_size n s \<longleftrightarrow> (\<exists>past now. summary_inv s past now \<and> length (past @ now) \<le> n)"

lemma sample_size:
  assumes "summary_size n s" "n \<le> 2 ^ 53"
  shows "\<exists>s'. sample s x = Some (Ret s') \<and> summary_size (Suc n) s'"
proof -
  obtain past now where p: "summary_inv s past now" "length (past @ now) \<le> n" using assms(1) by (auto simp: summary_size_def)
  then have "length now \<le> 2 ^ 53" using assms(2) by simp
  from sample_correct [OF p(1) this, of x] obtain s' past' now' where
    s': "sample s x = Some (Ret s')" "summary_inv s' past' now'" "past' @ now' = past @ now @ [x]" by blast
  have "length (past' @ now') \<le> Suc n" using s'(3) p(2) by simp
  then show ?thesis using s' unfolding summary_size_def by blast
qed

lemma summary_size_mono: "summary_size n s \<Longrightarrow> n \<le> m \<Longrightarrow> summary_size m s"
  by (force simp: summary_size_def)

definition driver_inv :: "(nat \<Rightarrow> 'q \<Rightarrow> bool) \<Rightarrow> u64 \<Rightarrow> (nat \<Rightarrow> u64) \<Rightarrow> nat \<Rightarrow> ('c, 's, 'q) driver \<Rightarrow> bool" where
  "driver_inv qinv freq tsc n d \<longleftrightarrow>
     (\<forall>q. wd_qps_controller d = Some q \<longrightarrow> (\<exists>m. qinv m q)) \<and>
     (\<exists>w i. wd_stopwatch d = Some w \<and> sw_tsc_freq_khz w = freq \<and> sw_lap w = tsc i \<and> i < wd_reads d \<and>
        (\<exists>j < wd_reads d. sw_start w = tsc j)) \<and>
     ctr_name (wd_ops d) = ''total_ops'' \<and> summary_size n (wd_lat_summary d) \<and> summary_size n (wd_qps_summary d)"

lemma ctr_name_pre_inc [simp]: "ctr_name (ctr_pre_inc c) = ctr_name c"
  by (simp add: ctr_pre_inc_def)

definition same_work :: "('c, 's, 'q) driver \<Rightarrow> ('c, 's, 'q) driver \<Rightarrow> bool" where
  "same_work d d' \<longleftrightarrow> wd_client d' = wd_client d \<and> wd_stream d' = wd_stream d \<and> wd_ops d' = wd_ops d"

lemma lap_split:
  assumes "clock_fits freq tsc" "sw_tsc_freq_khz w = freq" "sw_lap w = tsc i" "i < j"
  shows "\<exists>ns. split_GetRuntimeNanoseconds (GetLapSplit w (tsc j)) = Ret ns"
    "\<exists>ns. split_GetRuntimeNanoseconds (snd (GetLap w (tsc j) t)) = Ret ns"
  using assms by (auto simp: clock_fits_def GetLapSplit_def GetLap_def Let_def)

lemma take_latency_ok:
  assumes c: "clock_fits freq tsc" and i: "driver_inv qinv freq tsc n d" and n: "n \<le> 2 ^ 53" and w: "wd_stopwatch d = Some w"
  shows "\<exists>d'. take_latency tsc w ms ns d = Some (Ret d') \<and> driver_inv qinv freq tsc (Suc n) d' \<and> same_work d d' \<and> wd_stopwatch d' = Some w"
proof (cases "ms > wd_lat_sampling_rate d")
  case False
  then show ?thesis using i w by (auto simp: take_latency_def driver_inv_def same_work_def intro: summary_size_mono)
next
  case True
  obtain j where j: "sw_tsc_freq_khz w = freq" "sw_lap w = tsc j" "j < wd_reads d" using i w by (auto simp: driver_inv_def)
  obtain ns' where "split_GetRuntimeNanoseconds (GetLapSplit w (tsc (wd_reads d))) = Ret ns'" using lap_split [OF c j] by blast
  moreover obtain su where "sample (wd_lat_summary d) (double_of_int (ns' - ns)) = Some (Ret su)" "summary_size (Suc n) su"
    using sample_size [of n "wd_lat_summary d"] i n by (auto simp: driver_inv_def)
  ultimately show ?thesis using True i w j
    by (auto simp: take_latency_def driver_inv_def same_work_def intro: summary_size_mono less_SucI)
qed

lemma take_qps_ok:
  assumes c: "clock_fits freq tsc" and i: "driver_inv qinv freq tsc n d" and n: "n \<le> 2 ^ 53" and w: "wd_stopwatch d = Some w"
  shows "\<exists>d'. take_qps tsc w ms d = Some (Ret d') \<and> driver_inv qinv freq tsc (Suc n) d' \<and> same_work d d'"
proof (cases "ms > wd_qps_sampling_rate d")
  case False
  then show ?thesis using i by (auto simp: take_qps_def driver_inv_def same_work_def intro: summary_size_mono)
next
  case True
  obtain j k where j: "sw_tsc_freq_khz w = freq" "sw_lap w = tsc j" "j < wd_reads d" "k < wd_reads d" "sw_start w = tsc k"
    using i w by (auto simp: driver_inv_def)
  obtain w1 lap where g: "GetLap w (tsc (wd_reads d)) (tsc (wd_reads d + 1)) = (w1, lap)" by force
  then obtain ns where ns: "split_GetRuntimeNanoseconds lap = Ret ns" using lap_split(2) [OF c j(1-3)] by (metis snd_conv)
  have w1: "sw_tsc_freq_khz w1 = freq" "sw_lap w1 = tsc (wd_reads d + 1)" "sw_start w1 = tsc k" "k < wd_reads d + 2" using g j by (auto simp: GetLap_def Let_def)
  define x where "x = ddiv (double_of_int (uint (GetCounter (wd_ops d) - wd_prev_ops d))) (dmul (double_of_int ns) d1e_9)"
  obtain su where "sample (wd_qps_summary d) x = Some (Ret su)" "summary_size (Suc n) su"
    using sample_size [of n "wd_qps_summary d" x] i n by (auto simp: driver_inv_def)
  then show ?thesis using True i w1 g ns
    by (auto simp: take_qps_def driver_inv_def same_work_def Let_def x_def [symmetric] intro: summary_size_mono)
qed

text \<open>No step touches the flag of \<open>Stop\<close>.\<close>

lemma samples_terminated:
  "pace wait d = Some (Ret d') \<Longrightarrow> wd_terminated d' = wd_terminated d"
  "take_latency tsc w ms ns d = Some (Ret d') \<Longrightarrow> wd_terminated d' = wd_terminated d"
  "take_qps tsc w ms d = Some (Ret d') \<Longrightarrow> wd_terminated d' = wd_terminated d"
  by (auto simp: pace_def take_latency_def take_qps_def Let_def outcome_inv split: option.splits if_splits prod.splits)

lemma run_once_terminated:
  assumes "run_once cl nx wait tsc d = Some (Ret (d', b))" shows "wd_terminated d' = wd_terminated d"
proof -
  from assms obtain d0 no st where 0: "pace wait d = Some (Ret d0)" "Next nx (wd_stream d0) = Ret (no, st)"
    unfolding run_once_def by (auto simp: outcome_inv)
  show ?thesis
  proof (cases no)
    case (Inl e)
    then show ?thesis using assms 0 samples_terminated(1) [OF 0(1)] by (auto simp: run_once_def Let_def)
  next
    case (Inr x)
    obtain status c where ap: "cl_Apply cl x (wd_client d0) = (status, c)" by force
    show ?thesis using assms 0 Inr ap samples_terminated(1) [OF 0(1)]
      by (cases "wd_stopwatch d0"; cases "status_ok status")
        (auto simp: run_once_def Let_def outcome_inv dest!: samples_terminated(2,3))
  qed
qed

lemma TestStream_next:
  assumes "\<not> terminated s" "impl s = \<lparr>ts_output = xs, ts_iter = i\<rparr>"
  shows "i = length xs \<Longrightarrow> Next ts_NextInternal s = Ret (Inl StreamTerminatedStatus, s)"
    "i < length xs \<Longrightarrow> Next ts_NextInternal s = Ret (Inr (xs ! i), s\<lparr>impl := \<lparr>ts_output = xs, ts_iter = Suc i\<rparr>\<rparr>)"
  using assms by (auto simp: Next_def ts_NextInternal_def Let_def)

context rate_limiter
begin

lemma pace_ok:
  assumes "driver_inv inv freq tsc n d"
  shows "\<exists>d'. pace wait d = Some (Ret d') \<and> driver_inv inv freq tsc n d' \<and> same_work d d'"
proof (cases "wd_qps_controller d")
  case None
  then show ?thesis using assms by (simp add: pace_def same_work_def)
next
  case (Some q)
  then obtain m where "inv m q" using assms by (auto simp: driver_inv_def)
  from wait_returns [OF this] obtain q' where "wait q = Some (Ret q')" "inv (Suc m) q'" by blast
  then show ?thesis using Some assms by (auto simp: pace_def driver_inv_def same_work_def)
qed

lemma run_once_op:
  assumes c: "clock_fits freq tsc" and i: "driver_inv inv freq tsc n d" and n: "Suc n \<le> 2 ^ 53"
    and nx: "Next nx (wd_stream d) = Ret (Inr x, st)" and ap: "cl_Apply cl x (wd_client d) = (status, cs)"
  shows "\<exists>d'. run_once cl nx wait tsc d = Some (Ret (d', status_ok status)) \<and> driver_inv inv freq tsc (Suc (Suc n)) d' \<and>
    wd_client d' = cs \<and> wd_stream d' = st \<and> wd_ops d' = (if status_ok status then ctr_pre_inc (wd_ops d) else wd_ops d)"
proof -
  obtain d0 where d0: "pace wait d = Some (Ret d0)" "driver_inv inv freq tsc n d0" "same_work d d0"
    using pace_ok [OF i] by blast
  obtain w j where w: "wd_stopwatch d0 = Some w" "sw_tsc_freq_khz w = freq" "sw_lap w = tsc j" "j < wd_reads d0"
    using d0(2) by (auto simp: driver_inv_def)
  obtain ns where ns: "split_GetRuntimeNanoseconds (GetLapSplit w (tsc (wd_reads d0))) = Ret ns"
    using lap_split(1) [OF c w(2-4)] by blast
  define d1 where "d1 = d0\<lparr>wd_stream := st, wd_reads := wd_reads d0 + 1, wd_client := cs\<rparr>"
  have "driver_inv inv freq tsc n d1" "wd_stopwatch d1 = Some w"
    using d0(2) w by (auto simp: d1_def driver_inv_def intro: less_SucI)
  from take_latency_ok [OF c this(1) _ this(2), of "to_ms ns" ns] n obtain d2 where
    d2: "take_latency tsc w (to_ms ns) ns d1 = Some (Ret d2)" "driver_inv inv freq tsc (Suc n) d2" "same_work d1 d2" "wd_stopwatch d2 = Some w"
    by auto
  note eqs = d0 nx ap w(1) ns d2
  have st: "Next nx (wd_stream d0) = Ret (Inr x, st)" "cl_Apply cl x (wd_client d0) = (status, cs)"
    using d0(3) nx ap by (simp_all add: same_work_def)
  have d1': "d0\<lparr>wd_stream := st, wd_reads := Suc (wd_reads d0), wd_client := cs\<rparr> = d1" by (simp add: d1_def)
  show ?thesis
  proof (cases "status_ok status")
    case False
    then have "run_once cl nx wait tsc d = Some (Ret (d2, False))"
      using eqs st d1' by (simp add: run_once_def Let_def)
    then show ?thesis using False d2 d0(3) by (auto simp: d1_def same_work_def driver_inv_def intro: summary_size_mono)
  next
    case True
    define d2' where "d2' = d2\<lparr>wd_ops := ctr_pre_inc (wd_ops d2)\<rparr>"
    have "driver_inv inv freq tsc (Suc n) d2'" "wd_stopwatch d2' = Some w" using d2 by (auto simp: d2'_def driver_inv_def)
    from take_qps_ok [OF c this(1) n this(2), of "to_ms ns"] obtain d3 where
      d3: "take_qps tsc w (to_ms ns) d2' = Some (Ret d3)" "driver_inv inv freq tsc (Suc (Suc n)) d3" "same_work d2' d3" by blast
    then have "run_once cl nx wait tsc d = Some (Ret (d3, True))"
      using True eqs st d1' by (simp add: run_once_def Let_def d2'_def)
    then show ?thesis using True d3 d2(3) d0(3) by (auto simp: d1_def d2'_def same_work_def)
  qed
qed

lemma driver_loop_feed:
  assumes c: "clock_fits freq tsc"
  shows "driver_inv inv freq tsc n d \<Longrightarrow> n + 2 * length (drop i xs) < 2 ^ 53 \<Longrightarrow>
    \<not> terminated (wd_stream d) \<Longrightarrow> impl (wd_stream d) = \<lparr>ts_output = xs, ts_iter = i\<rparr> \<Longrightarrow> i \<le> length xs \<Longrightarrow>
    feed cl stopping k (drop i xs) (wd_client d) = (m, cs) \<Longrightarrow>
    \<exists>d'. driver_loop cl ts_NextInternal wait tsc stopping k d = Some (Ret d') \<and> wd_client d' = cs \<and>
      ctr_counter (wd_ops d') = ctr_counter (wd_ops d) + of_nat m \<and>
      (\<exists>n' \<le> n + 2 * length (drop i xs). driver_inv inv freq tsc n' d')"
proof (induction "length (drop i xs)" arbitrary: n d i k m)
  case 0
  then have i: "i = length xs" by simp
  have nx: "Next ts_NextInternal (wd_stream d) = Ret (Inl StreamTerminatedStatus, wd_stream d)"
    using TestStream_next(1) [OF 0(4,5) i] .
  obtain d0 where d0: "pace wait d = Some (Ret d0)" "driver_inv inv freq tsc n d0" "same_work d d0"
    using pace_ok [OF 0(2)] by blast
  have fd: "m = 0" "cs = wd_client d" using 0(7) i by auto
  have "Next ts_NextInternal (wd_stream d0) = Ret (Inl StreamTerminatedStatus, wd_stream d0)" using nx d0(3) by (simp add: same_work_def)
  then have "run_once cl ts_NextInternal wait tsc d = Some (Ret (d0, False))"
    using d0(1) by (simp add: run_once_def Let_def)
  then show ?case using d0(2,3) fd 0(2) by (subst driver_loop.simps) (auto simp: same_work_def intro!: exI [of _ n])
next
  case (Suc l)
  then have i: "i < length xs" by simp
  have dr: "drop i xs = xs ! i # drop (Suc i) xs" using i by (simp add: Cons_nth_drop_Suc)
  show ?case
  proof (cases "stopping k")
    case True
    then show ?thesis using Suc(3,8) dr by (subst driver_loop.simps) (auto intro!: exI [of _ n])
  next
    case False
    obtain status c1 where ap: "cl_Apply cl (xs ! i) (wd_client d) = (status, c1)" by force
    have "Suc n \<le> 2 ^ 53" using Suc(4) dr by simp
    from run_once_op [OF c Suc(3) this TestStream_next(2) [OF Suc(5,6) i] ap] obtain d1 where
      d1: "run_once cl ts_NextInternal wait tsc d = Some (Ret (d1, status_ok status))" "driver_inv inv freq tsc (Suc (Suc n)) d1"
      "wd_client d1 = c1" "wd_stream d1 = (wd_stream d)\<lparr>impl := \<lparr>ts_output = xs, ts_iter = Suc i\<rparr>\<rparr>"
      "wd_ops d1 = (if status_ok status then ctr_pre_inc (wd_ops d) else wd_ops d)" by blast
    show ?thesis
    proof (cases "status_ok status")
      case False
      then have "m = 0" "cs = c1" using Suc(8) dr ap \<open>\<not> stopping k\<close> by auto
      then show ?thesis using d1 False \<open>\<not> stopping k\<close> dr
        by (subst driver_loop.simps) (auto intro!: exI [of _ "Suc (Suc n)"])
    next
      case True
      obtain m' where m': "feed cl stopping (Suc k) (drop (Suc i) xs) c1 = (m', cs)" "m = Suc m'"
        using Suc(8) dr ap \<open>\<not> stopping k\<close> True by (auto split: prod.splits)
      obtain d' n' where "driver_loop cl ts_NextInternal wait tsc stopping (Suc k) d1 = Some (Ret d')" "wd_client d' = cs"
        "ctr_counter (wd_ops d') = ctr_counter (wd_ops d1) + of_nat m'"
        "n' \<le> Suc (Suc n) + 2 * length (drop (Suc i) xs)" "driver_inv inv freq tsc n' d'"
        using Suc(1) [of "Suc i" "Suc (Suc n)" d1 "Suc k" m'] Suc(2,4,5) i d1 dr m'(1) by force
      then show ?thesis using d1 True \<open>\<not> stopping k\<close> m'(2) dr
        by (subst driver_loop.simps) (auto simp: ctr_pre_inc_def intro!: exI [of _ n'])
    qed
  qed
qed

text \<open>
  The loop over a stream that yields the operations \<open>ops\<close> before it is told to stop, with a client that
  accepts every operation.
\<close>

lemma driver_loop_accepts:
  assumes c: "clock_fits freq tsc" and ap: "\<And>x s. fst (cl_Apply cl x s) = OkStatus"
  shows "driver_inv inv freq tsc n d \<Longrightarrow> n + 2 * length ops < 2 ^ 53 \<Longrightarrow>
    next_n (Next nx) (length ops) (wd_stream d) = Ret (map Inr ops, st) \<Longrightarrow>
    (\<And>j. j < length ops \<Longrightarrow> \<not> stopping (k + j)) \<Longrightarrow> stopping (k + length ops) \<Longrightarrow>
    \<exists>d'. driver_loop cl nx wait tsc stopping k d = Some (Ret d') \<and>
      wd_client d' = foldl (\<lambda>s x. snd (cl_Apply cl x s)) (wd_client d) ops \<and> wd_stream d' = st \<and>
      ctr_counter (wd_ops d') = ctr_counter (wd_ops d) + of_nat (length ops) \<and> driver_inv inv freq tsc (n + 2 * length ops) d' \<and>
      wd_terminated d' = wd_terminated d"
proof (induction ops arbitrary: n d k)
  case Nil
  then show ?case by (subst driver_loop.simps) simp
next
  case (Cons x ops)
  obtain s1 where nx: "Next nx (wd_stream d) = Ret (Inr x, s1)" "next_n (Next nx) (length ops) s1 = Ret (map Inr ops, st)"
    using Cons(4) by (auto simp: outcome_inv)
  obtain cs where cs: "cl_Apply cl x (wd_client d) = (OkStatus, cs)" using ap [of x "wd_client d"] by (metis prod.collapse)
  have "Suc n \<le> 2 ^ 53" using Cons(3) by simp
  from run_once_op [OF c Cons(2) this nx(1) cs] obtain d1 where
    d1: "run_once cl nx wait tsc d = Some (Ret (d1, True))" "driver_inv inv freq tsc (Suc (Suc n)) d1"
      "wd_client d1 = cs" "wd_stream d1 = s1" "wd_ops d1 = ctr_pre_inc (wd_ops d)" by auto
  have "\<not> stopping k" using Cons(5) [of 0] by simp
  moreover obtain d' where "driver_loop cl nx wait tsc stopping (Suc k) d1 = Some (Ret d')"
      "wd_client d' = foldl (\<lambda>s x. snd (cl_Apply cl x s)) cs ops" "wd_stream d' = st"
      "ctr_counter (wd_ops d') = ctr_counter (wd_ops d1) + of_nat (length ops)" "driver_inv inv freq tsc (Suc (Suc n) + 2 * length ops) d'"
      "wd_terminated d' = wd_terminated d1"
    using Cons(1) [OF d1(2), of "Suc k"] Cons(3,5,6) nx(2) d1(3,4) by force
  ultimately show ?case using d1 cs run_once_terminated [OF d1(1)]
    by (subst driver_loop.simps) (simp add: ctr_pre_inc_def)
qed

end

section \<open>Properties\<close>

lemma make_summary_size: "summary_size 0 (make_summary nm u w)"
  using make_summary_inv [of nm u w] by (force simp: summary_size_def)

text \<open>The state after a run: what the client and the counter have, and what the reports need.\<close>

definition run_ended :: "u64 \<Rightarrow> (nat \<Rightarrow> u64) \<Rightarrow> ('c, 's, 'q) driver \<Rightarrow> bool" where
  "run_ended freq tsc d \<longleftrightarrow>
     (\<exists>w i j. wd_stopwatch d = Some w \<and> sw_tsc_freq_khz w = freq \<and> sw_start w = tsc i \<and> sw_end w = tsc j \<and> i \<le> j) \<and>
     ctr_name (wd_ops d) = ''total_ops'' \<and> summary_size (2 ^ 53) (wd_lat_summary d) \<and> summary_size (2 ^ 53) (wd_qps_summary d)"

lemma run_ended_Stop:
  assumes "driver_inv qinv freq tsc n d" "n \<le> 2 ^ 53"
  obtains w where "wd_stopwatch d = Some w"
    "run_ended freq tsc (d\<lparr>wd_client := c, wd_stopwatch := Some (sw_Stop w (tsc (wd_reads d))), wd_reads := wd_reads d + 1\<rparr>)"
proof -
  obtain w i where w: "wd_stopwatch d = Some w" "sw_tsc_freq_khz w = freq" "sw_start w = tsc i" "i < wd_reads d"
    using assms(1) by (auto simp: driver_inv_def)
  have "summary_size (2 ^ 53) (wd_lat_summary d)" "summary_size (2 ^ 53) (wd_qps_summary d)" "ctr_name (wd_ops d) = ''total_ops''"
    using assms by (auto simp: driver_inv_def intro: summary_size_mono)
  with w show ?thesis by (intro that [OF w(1)]) (auto simp: run_ended_def sw_Stop_def intro: less_imp_le)
qed

lemma driver_run_end:
  assumes "clock_fits freq tsc" "clock_ok clk" "0 < qps" "length xs < 2 ^ 52"
    and "cl_Start cl c0 = (OkStatus, c1)" "feed cl stopping 0 xs c1 = (m, c2)" "cl_Stop cl c2 = (st, c3)"
  shows "\<exists>d. driver_Run cl ts_NextInternal (Wait clk) freq tsc stopping
      (WorkloadDriver c0 (make_stream (TestStream xs)) (Some (make_bucket clk qps)) rate) = Some (Ret (st, d)) \<and>
    wd_client d = c3 \<and> ctr_counter (wd_ops d) = of_nat m \<and> run_ended freq tsc d"
proof -
  define d0 where "d0 = WorkloadDriver c0 (make_stream (TestStream xs)) (Some (make_bucket clk qps)) rate"
  define d1 where "d1 = d0\<lparr>wd_client := c1, wd_stopwatch := Some (make_stopwatch ''driver_stopwatch'' freq (tsc 0)),
    wd_reads := 1, wd_running := True\<rparr>"
  have b: "run_begin cl freq tsc d0 = (OkStatus, d1)"
    using assms(5) by (simp add: run_begin_def d0_def d1_def WorkloadDriver_def)
  have "driver_inv (bucket_inv clk qps) freq tsc 0 d1"
    using make_bucket_inv [OF assms(2,3)] make_summary_size
    by (auto simp: driver_inv_def d1_def d0_def WorkloadDriver_def make_stopwatch_def make_counter_def)
  from bucket.driver_loop_feed [OF assms(1) this, of 0 xs cl stopping 0 m c2] assms(4,6)
  obtain d' n where d': "driver_loop cl ts_NextInternal (Wait clk) tsc stopping 0 d1 = Some (Ret d')" "wd_client d' = c2"
    "ctr_counter (wd_ops d') = ctr_counter (wd_ops d1) + of_nat m" "n \<le> 2 * length xs" "driver_inv (bucket_inv clk qps) freq tsc n d'"
    by (auto simp: d1_def d0_def WorkloadDriver_def make_stream_def TestStream_def)
  have "n \<le> 2 ^ 53" using d'(4) assms(4) by simp
  then obtain w where w: "wd_stopwatch d' = Some w"
    "run_ended freq tsc (d'\<lparr>wd_client := c3, wd_stopwatch := Some (sw_Stop w (tsc (wd_reads d'))), wd_reads := wd_reads d' + 1\<rparr>)"
    by (rule run_ended_Stop [OF d'(5)])
  let ?d = "d'\<lparr>wd_client := c3, wd_stopwatch := Some (sw_Stop w (tsc (wd_reads d'))), wd_reads := wd_reads d' + 1\<rparr>"
  have "driver_Run cl ts_NextInternal (Wait clk) freq tsc stopping d0 = Some (Ret (st, ?d))"
    using b d'(1,2) w(1) assms(7) by (simp add: driver_Run_def)
  moreover have "ctr_counter (wd_ops d1) = 0" by (simp add: d1_def d0_def WorkloadDriver_def make_counter_def)
  ultimately show ?thesis using d'(3) w(2) by (auto simp: d0_def [symmetric])
qed

text \<open>
  C18. Over a finite stream, with a token bucket and a client that starts, \<open>Run\<close> returns: the client has
  seen exactly the operations of the stream in order, up to the request to stop or the first one that it
  refuses, and its own \<open>Stop\<close> once; the counter is the number of operations that it accepted. The status
  is always the one of the client's \<open>Stop\<close>, also when an operation failed.
\<close>

theorem driver_runs_stream:
  assumes "clock_fits freq tsc" "clock_ok clk" "0 < qps" "length xs < 2 ^ 52"
    and "cl_Start cl c0 = (OkStatus, c1)" "feed cl stopping 0 xs c1 = (m, c2)" "cl_Stop cl c2 = (st, c3)"
  shows "\<exists>d. driver_Run cl ts_NextInternal (Wait clk) freq tsc stopping
      (WorkloadDriver c0 (make_stream (TestStream xs)) (Some (make_bucket clk qps)) rate) = Some (Ret (st, d)) \<and>
    wd_client d = c3 \<and> ctr_counter (wd_ops d) = of_nat m"
  using driver_run_end [OF assms, of rate] by blast

text \<open>Clocks for concrete runs.\<close>

lemma clock_ok_linear: "clock_ok (\<lambda>i. int i * 1000)"
  unfolding clock_ok_def
proof (intro conjI allI impI)
  show "\<exists>i. t \<le> int i * 1000" for t by (rule exI [of _ "nat t"]) simp
qed simp

lemma clock_fits_const: "clock_fits 2300000 (\<lambda>_. 5)"
proof -
  have "sint (2300000::u32) = 2300000" by simp
  then have "KhzToGhz 2300000 = fl (2300000 / 1000000)" by (simp add: KhzToGhz_def ddiv_def double_of_int_exact)
  moreover have "1 \<le> fl (2300000 / 1000000)" using fl_ge_int [of 1 "2300000 / 1000000"] by simp
  ultimately have "KhzToGhz 2300000 \<noteq> 0" by auto
  then have "split_GetRuntimeNanoseconds \<lparr>sp_tsc_freq_khz = ucast (2300000::u64), sp_start = 5, sp_end = 5\<rparr> = Ret 0"
    by (simp add: split_GetRuntimeNanoseconds_def Let_def ddiv_def double_of_int_def fl_def trunc_def)
  then show ?thesis unfolding clock_fits_def by blast
qed

text \<open>The client of the witness refuses the operation 0 and keeps a log.\<close>

definition log_client :: "(int, int list) client_adaptor" where
  "log_client = \<lparr>cl_Start = \<lambda>c. (OkStatus, c),
     cl_Apply = \<lambda>x c. (if x = 0 then ErrorStatus kInternal ''zero'' else OkStatus, c @ [x]),
     cl_Stop = \<lambda>c. (OkStatus, c @ [-1])\<rparr>"

lemma driver_runs_stream_witness:
  "\<exists>d. driver_Run log_client ts_NextInternal (Wait (\<lambda>i. int i * 1000)) 2300000 (\<lambda>_. 5) (\<lambda>_. False)
      (WorkloadDriver [] (make_stream (TestStream [4, 7, 0, 9])) (Some (make_bucket (\<lambda>i. int i * 1000) 100)) 0) = Some (Ret (OkStatus, d)) \<and>
    wd_client d = [4, 7, 0, -1] \<and> ctr_counter (wd_ops d) = 2"
proof -
  show ?thesis
    using clock_ok_linear clock_fits_const driver_runs_stream [of 2300000 "\<lambda>_. 5" "\<lambda>i. int i * 1000" 100 "[4, 7, 0, 9]" log_client "[]" "[]" "\<lambda>_. False"
        2 "[4, 7, 0]" OkStatus "[4, 7, 0, -1]" 0]
    by (simp add: log_client_def)
qed

text \<open>
  When the client does not start, \<open>Run\<close> returns its error, but \<open>Start\<close> never does: it waits for a flag
  that is not set. A \<open>Stop\<close> of a driver whose run failed ends the program instead of reporting the error.
\<close>

theorem driver_start_hangs:
  assumes "cl_Start cl (wd_client d) = (st, c)" "st \<noteq> OkStatus" "\<not> wd_terminated d" "\<not> wd_run_thread d" "\<not> wd_running d"
  shows "driver_Run cl nx wait freq tsc stopping d = Some (Ret (st, d\<lparr>wd_client := c\<rparr>)) \<and>
    driver_Start cl freq tsc d = None \<and>
    driver_Stop (d\<lparr>wd_run_thread := True, wd_run_status := Some st\<rparr>) = Fault Assert_Fail"
  using assms by (simp add: driver_Run_def driver_Start_def driver_Stop_def run_begin_def status_ok_def)

lemma driver_start_hangs_witness:
  "driver_Start (log_client\<lparr>cl_Start := \<lambda>c. (ErrorStatus kUnavailable ''down'', c)\<rparr>) 1 (\<lambda>_. 0)
     (WorkloadDriver [] (make_stream (TestStream [1 :: int])) (None :: token_bucket option) 0) = None"
  by (rule driver_start_hangs [where st = "ErrorStatus kUnavailable ''down''" and c = "[]" and nx = "ts_NextInternal :: (int test_stream, int) next_fun" and wait = "\<lambda>q :: token_bucket. None" and stopping = "\<lambda>_. False",
        THEN conjunct2, THEN conjunct1])
    (simp_all add: WorkloadDriver_def)

end
