(* ===== verification/Driver_Report.thy ===== *)
theory Driver_Report
  imports Workload_Driver
begin

text \<open>
  The reports of \<open>WorkloadDriver\<close> (\<open>ToString\<close>, \<open>ToProto\<close>) and its destructor. Both reports bring the
  percentiles of the two summaries up to date, so they change the driver; the operator that prints a
  metric (\<open>metrics/metric.h\<close>) puts its name in front of its text.
\<close>

section \<open>The reports\<close>

definition print_metric :: "string \<Rightarrow> string \<Rightarrow> string" where
  "print_metric name text = ''name: '' @ quote @ name @ quote @ '', '' @ text"

definition endl :: string where
  "endl = [CHR 0x0A]"

definition driver_ToString :: "(double \<Rightarrow> string) \<Rightarrow> (double \<Rightarrow> double) \<Rightarrow> ('c, 's, 'q) driver \<Rightarrow> (('c, 's, 'q) driver \<times> string) run" where
  "driver_ToString fmt sqrt_d d =
     bindR (su_ToString fmt sqrt_d (wd_lat_summary d)) (\<lambda>(lat, lat_text).
     bindR (su_ToString fmt sqrt_d (wd_qps_summary d)) (\<lambda>(qps, qps_text).
     case wd_stopwatch d of None \<Rightarrow> Some (Fault Null_Deref)
     | Some w \<Rightarrow>
       bindR (Some (sw_ToString w)) (\<lambda>sw_text.
       Some (Ret (d\<lparr>wd_lat_summary := lat, wd_qps_summary := qps\<rparr>,
         print_metric (ctr_name (wd_ops d)) (ctr_ToString (wd_ops d)) @ endl @
         print_metric (su_name lat) lat_text @ endl @ print_metric (su_name qps) qps_text @ endl @
         print_metric (sw_name w) sw_text)))))"

record driver_proto =
  dp_ops :: "string \<times> u64"
  dp_runtime :: "string \<times> u64"
  dp_qps :: summary_proto
  dp_latency :: summary_proto

definition driver_ToProto :: "(double \<Rightarrow> double) \<Rightarrow> ('c, 's, 'q) driver \<Rightarrow> (('c, 's, 'q) driver \<times> driver_proto) run" where
  "driver_ToProto sqrt_d d =
     (case wd_stopwatch d of None \<Rightarrow> Some (Fault Null_Deref)
      | Some w \<Rightarrow>
        bindR (Some (sw_ToProto w)) (\<lambda>runtime.
        bindR (ToProto sqrt_d (wd_qps_summary d)) (\<lambda>(qps, qps_proto).
        bindR (ToProto sqrt_d (wd_lat_summary d)) (\<lambda>(lat, lat_proto).
        Some (Ret (d\<lparr>wd_qps_summary := qps, wd_lat_summary := lat\<rparr>,
          \<lparr>dp_ops = ctr_ToProto (wd_ops d), dp_runtime = runtime, dp_qps = qps_proto, dp_latency = lat_proto\<rparr>))))))"

text \<open>The destructor joins the thread through a pointer that is set by \<open>Start\<close> only.\<close>

definition driver_destroy :: "('c, 's, 'q) driver \<Rightarrow> ('c, 's, 'q) driver outcome" where
  "driver_destroy d = (let d' = d\<lparr>wd_terminated := True\<rparr> in if wd_run_thread d' then Ret d' else Fault Null_Deref)"

section \<open>Reports are stable\<close>

lemma flush_stable:
  assumes "summary_size n s" "n \<le> 2 ^ 53"
  shows "\<exists>s'. UpdatePercentilesAndClearSamples s = Some (Ret s') \<and> UpdatePercentilesAndClearSamples s' = Some (Ret s')"
proof -
  obtain past now where i: "summary_inv s past now" "length (past @ now) \<le> n" using assms(1) by (auto simp: summary_size_def)
  then have "length now \<le> 2 ^ 53" using assms(2) by simp
  from flush_correct [OF i(1) this] obtain s' where
    s': "UpdatePercentilesAndClearSamples s = Some (Ret s')" "summary_inv s' (past @ now) []" by blast
  then have "GetSize (su_samples s') = Ret 0" using holds_GetSize [of "su_samples s'" "{#}"] by (simp add: summary_inv_def)
  then show ?thesis using s'(1) by (simp add: UpdatePercentilesAndClearSamples_def)
qed

lemma reports_stable:
  assumes "clock_fits freq tsc" "run_ended freq tsc d"
  shows "\<exists>d' text proto. driver_ToString fmt sqrt_d d = Some (Ret (d', text)) \<and> driver_ToString fmt sqrt_d d' = Some (Ret (d', text)) \<and>
    driver_ToProto sqrt_d d = Some (Ret (d', proto)) \<and> driver_ToProto sqrt_d d' = Some (Ret (d', proto)) \<and>
    dp_ops proto = (''total_ops'', ctr_counter (wd_ops d))"
proof -
  obtain w i j where w: "wd_stopwatch d = Some w" "sw_tsc_freq_khz w = freq" "sw_start w = tsc i" "sw_end w = tsc j" "i \<le> j"
    using assms(2) by (auto simp: run_ended_def)
  then obtain ns where ns: "sw_GetRuntimeNanoseconds w = Ret ns"
    using assms(1) by (auto simp: clock_fits_def sw_GetRuntimeNanoseconds_def)
  obtain lat where lat: "UpdatePercentilesAndClearSamples (wd_lat_summary d) = Some (Ret lat)" "UpdatePercentilesAndClearSamples lat = Some (Ret lat)"
    using flush_stable [of "2 ^ 53" "wd_lat_summary d"] assms(2) by (auto simp: run_ended_def)
  obtain qps where qps: "UpdatePercentilesAndClearSamples (wd_qps_summary d) = Some (Ret qps)" "UpdatePercentilesAndClearSamples qps = Some (Ret qps)"
    using flush_stable [of "2 ^ 53" "wd_qps_summary d"] assms(2) by (auto simp: run_ended_def)
  have n: "ctr_name (wd_ops d) = ''total_ops''" using assms(2) by (simp add: run_ended_def)
  show ?thesis
    using w(1) ns lat qps n
    by (simp add: driver_ToString_def driver_ToProto_def su_ToString_def ToProto_def sw_ToString_def sw_ToProto_def ctr_ToProto_def)
qed

text \<open>The text begins with the number of operations, and only the summaries change.\<close>

lemma driver_text:
  assumes "clock_fits freq tsc" "run_ended freq tsc d"
  obtains d' rest where "driver_ToString fmt sqrt_d d = Some (Ret (d', print_metric ''total_ops'' (ctr_ToString (wd_ops d)) @ endl @ rest))"
    "wd_stream d' = wd_stream d" "wd_client d' = wd_client d" "wd_ops d' = wd_ops d"
proof -
  obtain d' out where t: "driver_ToString fmt sqrt_d d = Some (Ret (d', out))" using reports_stable [OF assms, of fmt sqrt_d] by blast
  have "ctr_name (wd_ops d) = ''total_ops''" using assms(2) by (simp add: run_ended_def)
  then have "\<exists>rest. out = print_metric ''total_ops'' (ctr_ToString (wd_ops d)) @ endl @ rest"
    "wd_stream d' = wd_stream d \<and> wd_client d' = wd_client d \<and> wd_ops d' = wd_ops d"
    using t by (auto simp: driver_ToString_def outcome_inv split: option.splits)
  then show ?thesis using t that by blast
qed

text \<open>
  After a run over a finite stream both reports return, whatever the samples: the text and the
  message are the same in whatever order and however often they are asked for, and the message has
  the number of operations that the client accepted. A driver that was never started has no
  report, and its destructor ends the program.
\<close>

theorem driver_reports:
  fixes rate :: int
  assumes "clock_fits freq tsc" "clock_ok clk" "0 < qps" "length xs < 2 ^ 52"
    and "cl_Start cl c0 = (OkStatus, c1)" "feed cl stopping 0 xs c1 = (m, c2)" "cl_Stop cl c2 = (st, c3)"
  defines "new \<equiv> WorkloadDriver c0 (make_stream (TestStream xs)) (Some (make_bucket clk qps)) rate"
  shows "(\<exists>d d' text proto. driver_Run cl ts_NextInternal (Wait clk) freq tsc stopping new = Some (Ret (st, d)) \<and>
      driver_ToString fmt sqrt_d d = Some (Ret (d', text)) \<and> driver_ToString fmt sqrt_d d' = Some (Ret (d', text)) \<and>
      driver_ToProto sqrt_d d = Some (Ret (d', proto)) \<and> driver_ToProto sqrt_d d' = Some (Ret (d', proto)) \<and>
      dp_ops proto = (''total_ops'', of_nat m)) \<and>
    driver_ToProto sqrt_d new = Some (Fault Null_Deref) \<and> driver_destroy new = Fault Null_Deref"
proof -
  obtain d where d: "driver_Run cl ts_NextInternal (Wait clk) freq tsc stopping new = Some (Ret (st, d))"
    "ctr_counter (wd_ops d) = of_nat m" "run_ended freq tsc d"
    using driver_run_end [OF assms(1-7), of rate] unfolding new_def by blast
  then show ?thesis using reports_stable [OF assms(1) d(3), of fmt sqrt_d]
    by (auto simp: new_def driver_ToProto_def driver_destroy_def WorkloadDriver_def)
qed

lemma driver_reports_witness:
  "\<exists>d d' proto. driver_Run log_client ts_NextInternal (Wait (\<lambda>i. int i * 1000)) 2300000 (\<lambda>_. 5) (\<lambda>_. False)
      (WorkloadDriver [] (make_stream (TestStream [4, 7, 0, 9])) (Some (make_bucket (\<lambda>i. int i * 1000) 100)) 0) = Some (Ret (OkStatus, d)) \<and>
    driver_ToProto id d = Some (Ret (d', proto)) \<and> dp_ops proto = (''total_ops'', 2)"
  using driver_reports [of 2300000 "\<lambda>_. 5" "\<lambda>i. int i * 1000" 100 "[4, 7, 0, 9]" log_client "[]" "[]" "\<lambda>_. False"
      2 "[4, 7, 0]" OkStatus "[4, 7, 0, -1]" 0 "\<lambda>_. []" id] clock_ok_linear clock_fits_const
  by (simp add: log_client_def) blast

end
