(* ===== verification/Hello_World.thy ===== *)
theory Hello_World
  imports Driver_Report
begin

text \<open>
  The example \<open>gladiators/hello_world/main.cc\<close>: a client that adds and subtracts, fed by the workload
  driver from a stream that maps a weighted stream of operation types and a stream of uniform doubles,
  at the pace of a token bucket when a rate is asked for. The random engines and distributions, the
  clocks and the moment at which the main thread calls \<open>Stop\<close> are arguments.
\<close>

section \<open>The client\<close>

datatype simple_op_type = kAdd | kSubtract

record simple_op =
  so_type :: simple_op_type
  so_data :: double

definition SimpleClientAdaptor :: double where
  "SimpleClientAdaptor = 0"

definition simple_Start :: "double \<Rightarrow> status \<times> double" where
  "simple_Start s = (OkStatus, s)"

definition simple_Apply :: "simple_op \<Rightarrow> double \<Rightarrow> status \<times> double" where
  "simple_Apply op s = (OkStatus, case so_type op of kAdd \<Rightarrow> dadd s (so_data op) | kSubtract \<Rightarrow> dsub s (so_data op))"

definition simple_Stop :: "double \<Rightarrow> status \<times> double" where
  "simple_Stop s = (OkStatus, s)"

definition simple_client :: "(simple_op, double) client_adaptor" where
  "simple_client = \<lparr>cl_Start = simple_Start, cl_Apply = simple_Apply, cl_Stop = simple_Stop\<rparr>"

section \<open>The stream and the driver\<close>

definition simple_type_of :: "nat \<Rightarrow> simple_op_type" where
  "simple_type_of i = (if i = 0 then kAdd else kSubtract)"

type_synonym ('g, 'h) op_streams = "(simple_op_type, 'g) weighted_stream stream \<times> 'h stream"

definition simple_generator ::
  "((simple_op_type, 'g) weighted_stream, simple_op_type) next_fun \<Rightarrow> ('h, double) next_fun \<Rightarrow> (('g, 'h) op_streams, simple_op) next_fun" where
  "simple_generator op_next data_next streams =
     bindO (Next op_next (fst streams)) (\<lambda>(op, op_stream).
     case op of Inl status \<Rightarrow> Ret (Inl status, (op_stream, snd streams))
     | Inr t \<Rightarrow>
       bindO (Next data_next (snd streams)) (\<lambda>(data, data_stream).
       Ret (case data of Inl status \<Rightarrow> Inl status | Inr x \<Rightarrow> Inr \<lparr>so_type = t, so_data = x\<rparr>, (op_stream, data_stream))))"

definition hello_next ::
  "(u32 \<Rightarrow> u32 \<Rightarrow> 'g \<Rightarrow> u32 \<times> 'g) \<Rightarrow> (double \<Rightarrow> double \<Rightarrow> 'h \<Rightarrow> double \<times> 'h) \<Rightarrow> (('g, 'h) op_streams, simple_op) next_fun" where
  "hello_next uniform_int uniform_real =
     mapped_NextInternal (simple_generator (ws_NextInternal uniform_int) (rds_NextInternal (uniform_real 0 1000)))"

definition hello_stream :: "'g \<Rightarrow> 'h \<Rightarrow> ('g, 'h) op_streams stream" where
  "hello_stream g h = make_stream (make_stream (WeightedStream simple_type_of [1, 1] g), make_stream h)"

definition hello_driver :: "(nat \<Rightarrow> int) \<Rightarrow> int \<Rightarrow> 'g \<Rightarrow> 'h \<Rightarrow> (double, ('g, 'h) op_streams, token_bucket) driver" where
  "hello_driver clk max_qps g h =
     wd_Create SimpleClientAdaptor (hello_stream g h) (if max_qps > 0 then Some (make_bucket clk max_qps) else None) None"

text \<open>
  The exit code, the driver at the end and the output. \<open>Start\<close> waits for the thread of \<open>Run\<close> to be on its way;
  \<open>stopping\<close> is what that thread then reads of the flag that \<open>Stop\<close> sets.
\<close>

definition hello_main ::
  "(double \<Rightarrow> string) \<Rightarrow> (double \<Rightarrow> double) \<Rightarrow> (u32 \<Rightarrow> u32 \<Rightarrow> 'g \<Rightarrow> u32 \<times> 'g) \<Rightarrow> (double \<Rightarrow> double \<Rightarrow> 'h \<Rightarrow> double \<times> 'h) \<Rightarrow> (nat \<Rightarrow> int) \<Rightarrow> u64 \<Rightarrow> (nat \<Rightarrow> u64) \<Rightarrow>
    (nat \<Rightarrow> bool) \<Rightarrow> int \<Rightarrow> 'g \<Rightarrow> 'h \<Rightarrow> (int \<times> (double, ('g, 'h) op_streams, token_bucket) driver \<times> string) run" where
  "hello_main fmt sqrt_d uniform_int uniform_real clk freq tsc stopping max_qps g h =
     (let driver = hello_driver clk max_qps g h
      in bindR (driver_Start simple_client freq tsc driver) (\<lambda>(status, started).
         if \<not> status_ok status then Some (Ret (1, started, []))
         else bindR (driver_Run simple_client (hello_next uniform_int uniform_real) (Wait clk) freq tsc stopping driver) (\<lambda>(run_status, ran).
              bindR (Some (driver_Stop (ran\<lparr>wd_run_thread := True, wd_run_status := Some run_status\<rparr>))) (\<lambda>(status, stopped).
              if \<not> status_ok status then Some (Ret (1, stopped, []))
              else bindR (driver_ToString fmt sqrt_d stopped) (\<lambda>(reported, text). Some (Ret (0, reported, text @ endl)))))))"

section \<open>The stream never ends\<close>

definition hello_inv ::
  "(u32 \<Rightarrow> u32 \<Rightarrow> 'g \<Rightarrow> u32 \<times> 'g) \<Rightarrow> (double \<Rightarrow> double \<Rightarrow> 'h \<Rightarrow> double \<times> 'h) \<Rightarrow> ('g, 'h) op_streams \<Rightarrow> bool" where
  "hello_inv uniform_int uniform_real s \<longleftrightarrow> uniform_range uniform_real \<and> \<not> terminated (fst s) \<and> \<not> terminated (snd s) \<and>
     weighted_inv uniform_int simple_type_of [1, 1] (impl (fst s))"

interpretation hello: endless_stream "hello_next uniform_int uniform_real" "hello_inv uniform_int uniform_real"
  "{op. 0 \<le> so_data op \<and> so_data op \<le> 1000}" for uniform_int :: "u32 \<Rightarrow> u32 \<Rightarrow> 'g \<Rightarrow> u32 \<times> 'g" and uniform_real :: "double \<Rightarrow> double \<Rightarrow> 'h \<Rightarrow> double \<times> 'h"
proof
  fix s :: "('g, 'h) op_streams"
  assume i: "hello_inv uniform_int uniform_real s"
  obtain t s1 where 1: "Next (ws_NextInternal uniform_int) (fst s) = Ret (Inr t, s1)"
    "weighted_inv uniform_int simple_type_of [1, 1] (impl s1)" "\<not> terminated s1"
    using weighted.step_Next [of uniform_int simple_type_of "[1, 1]" "fst s"] i by (auto simp: hello_inv_def)
  obtain x h where x: "uniform_real 0 1000 (impl (snd s)) = (x, h)" by force
  then have "0 \<le> x \<and> x \<le> 1000" using uniform_rangeD [of uniform_real 0 1000] i by (simp add: hello_inv_def)
  then show "\<exists>op s'. hello_next uniform_int uniform_real s = Ret (Inr op, s') \<and> op \<in> {op. 0 \<le> so_data op \<and> so_data op \<le> 1000} \<and>
      hello_inv uniform_int uniform_real s'"
    using i 1 x by (simp add: hello_next_def mapped_NextInternal_def simple_generator_def Next_def [of "rds_NextInternal _"] rds_NextInternal_def hello_inv_def)
qed

lemma hello_stream_inv:
  "uniform_range uniform_int \<Longrightarrow> uniform_range uniform_real \<Longrightarrow> hello_inv uniform_int uniform_real (impl (hello_stream g h))"
  using WeightedStream_inv [of uniform_int "[1, 1]" simple_type_of g] by (simp add: hello_inv_def hello_stream_def make_stream_def weights_ok_def)

section \<open>The sum\<close>

definition apply_all :: "double \<Rightarrow> simple_op list \<Rightarrow> double" where
  "apply_all s ops = foldl (\<lambda>s op. snd (simple_Apply op s)) s ops"

lemma apply_all_bound:
  assumes "\<bar>s\<bar> \<le> of_int (1000 * int n)" "\<forall>op \<in> set ops. 0 \<le> so_data op \<and> so_data op \<le> 1000" "n + length ops < 2 ^ 43"
  shows "\<bar>apply_all s ops\<bar> \<le> of_int (1000 * int (n + length ops))"
  using assms
proof (induction ops arbitrary: s n)
  case (Cons op ops)
  define b where "b = 1000 * int (Suc n)"
  have "\<bar>b\<bar> \<le> 2 ^ 53" "\<bar>- b\<bar> \<le> 2 ^ 53" using Cons(4) by (simp_all add: b_def)
  then have "\<bar>fl y\<bar> \<le> of_int b" if "\<bar>y\<bar> \<le> of_int b" for y
    using fl_le_int [of y b] fl_ge_int [of "- b" y] that by (simp add: abs_le_iff)
  moreover have "\<bar>s + so_data op\<bar> \<le> of_int b" "\<bar>s - so_data op\<bar> \<le> of_int b" using Cons(2,3) unfolding b_def abs_le_iff by auto
  ultimately have "\<bar>snd (simple_Apply op s)\<bar> \<le> of_int (1000 * int (Suc n))"
    unfolding b_def by (simp add: simple_Apply_def dadd_def dsub_def split: simple_op_type.split)
  from Cons(1) [OF this] Cons(3,4) show ?case by (simp add: apply_all_def)
qed (simp add: apply_all_def)

section \<open>The whole program\<close>

lemma hello_starts: "\<exists>d. driver_Start simple_client freq tsc (hello_driver clk max_qps g h) = Some (Ret (OkStatus, d))"
  by (simp add: driver_Start_def run_begin_def simple_client_def simple_Start_def hello_driver_def wd_Create_def WorkloadDriver_def)

lemma hello_run:
  assumes "clock_ok clk" "clock_fits freq tsc" "n < 2 ^ 43" "\<forall>k < n. \<not> stopping k" "stopping n"
    and ops: "next_n (Next (hello_next uniform_int uniform_real)) n (hello_stream g h) = Ret (map Inr ops, st)" "length ops = n"
  shows "\<exists>d. driver_Run simple_client (hello_next uniform_int uniform_real) (Wait clk) freq tsc stopping (hello_driver clk max_qps g h) =
      Some (Ret (OkStatus, d)) \<and> run_ended freq tsc d \<and> \<not> wd_terminated d \<and> wd_stream d = st \<and>
      ctr_counter (wd_ops d) = of_nat n \<and> wd_client d = apply_all 0 ops"
proof -
  define d0 where "d0 = hello_driver clk max_qps g h"
  define d1 where "d1 = d0\<lparr>wd_stopwatch := Some (make_stopwatch ''driver_stopwatch'' freq (tsc 0)), wd_reads := 1, wd_running := True\<rparr>"
  have fields: "\<not> wd_terminated d0" "wd_client d0 = 0" "wd_reads d0 = 0" "wd_stream d0 = hello_stream g h" "ctr_counter (wd_ops d0) = 0"
    by (simp_all add: d0_def hello_driver_def wd_Create_def WorkloadDriver_def SimpleClientAdaptor_def make_counter_def)
  have b: "run_begin simple_client freq tsc d0 = (OkStatus, d1)"
    using fields by (simp add: run_begin_def d1_def simple_client_def simple_Start_def)
  have "driver_inv (bucket_inv clk max_qps) freq tsc 0 d1"
    using make_bucket_inv [OF assms(1), of max_qps] make_summary_size
    by (auto simp: driver_inv_def d1_def d0_def hello_driver_def wd_Create_def WorkloadDriver_def make_stopwatch_def make_counter_def)
  from bucket.driver_loop_accepts [OF assms(2) _ this, of simple_client ops "hello_next uniform_int uniform_real" st stopping 0]
  obtain d' where d': "driver_loop simple_client (hello_next uniform_int uniform_real) (Wait clk) tsc stopping 0 d1 = Some (Ret d')"
    "wd_client d' = apply_all 0 ops" "wd_stream d' = st" "ctr_counter (wd_ops d') = of_nat n"
    "driver_inv (bucket_inv clk max_qps) freq tsc (2 * n) d'" "\<not> wd_terminated d'"
    using ops assms(3-5) fields by (auto simp: d1_def simple_client_def simple_Apply_def apply_all_def)
  have "2 * n \<le> 2 ^ 53" using assms(3) by simp
  then obtain w where w: "wd_stopwatch d' = Some w"
    "run_ended freq tsc (d'\<lparr>wd_client := wd_client d', wd_stopwatch := Some (sw_Stop w (tsc (wd_reads d'))), wd_reads := wd_reads d' + 1\<rparr>)"
    by (rule run_ended_Stop [OF d'(5)])
  then show ?thesis using b d' by (auto simp: driver_Run_def d0_def [symmetric] simple_client_def simple_Stop_def)
qed

text \<open>
  C15. The example, with or without a rate: when \<open>Stop\<close> reaches the loop before its operation number \<open>n\<close>, the
  program ends with the exit code 0; the driver has applied exactly the first \<open>n\<close> operations of the stream, in
  order, and counted them, the sum of the client is the rounded sum of those, within \<open>1000 * n\<close>, and the
  output begins with their number.
\<close>

theorem hello_world_runs:
  assumes "uniform_range uniform_int" "uniform_range uniform_real" "clock_ok clk" "clock_fits freq tsc"
    and "n < 2 ^ 43" "\<forall>k < n. \<not> stopping k" "stopping n"
  shows "\<exists>ops st d output. next_n (Next (hello_next uniform_int uniform_real)) n (hello_stream g h) = Ret (map Inr ops, st) \<and>
    length ops = n \<and> hello_main fmt sqrt_d uniform_int uniform_real clk freq tsc stopping max_qps g h =
      Some (Ret (0, d, print_metric ''total_ops'' (''count: '' @ decimal n) @ endl @ output)) \<and>
    wd_stream d = st \<and> ctr_counter (wd_ops d) = of_nat n \<and> wd_client d = apply_all 0 ops \<and> \<bar>wd_client d\<bar> \<le> of_nat (1000 * n)"
proof -
  obtain ops st where ops: "next_n (Next (hello_next uniform_int uniform_real)) n (hello_stream g h) = Ret (map Inr ops, st)"
    "length ops = n" "set ops \<subseteq> {op. 0 \<le> so_data op \<and> so_data op \<le> 1000}"
    using hello.next_n_ok [OF hello_stream_inv [OF assms(1,2), of g h], of n] by (auto simp: hello_stream_def make_stream_def)
  obtain d where d: "driver_Run simple_client (hello_next uniform_int uniform_real) (Wait clk) freq tsc stopping (hello_driver clk max_qps g h) =
      Some (Ret (OkStatus, d))" "run_ended freq tsc d" "\<not> wd_terminated d" "wd_stream d = st" "ctr_counter (wd_ops d) = of_nat n"
      "wd_client d = apply_all 0 ops"
    using hello_run [OF assms(3-7) ops(1,2)] by blast
  let ?d = "d\<lparr>wd_run_thread := True, wd_run_status := Some OkStatus, wd_terminated := True\<rparr>"
  have "run_ended freq tsc ?d" using d(2) by (simp add: run_ended_def)
  from driver_text [OF assms(4) this, of fmt sqrt_d] obtain d' rest where d':
    "driver_ToString fmt sqrt_d ?d = Some (Ret (d', print_metric ''total_ops'' (ctr_ToString (wd_ops d)) @ endl @ rest))"
    "wd_stream d' = wd_stream d" "wd_client d' = wd_client d" "wd_ops d' = wd_ops d" by auto
  have "unat (of_nat n :: u64) = n" using assms(5) by (simp add: unat_of_nat take_bit_nat_eq_self)
  then have "ctr_ToString (wd_ops d) = ''count: '' @ decimal n" using d(5) by (simp add: ctr_ToString_def)
  then have "hello_main fmt sqrt_d uniform_int uniform_real clk freq tsc stopping max_qps g h =
      Some (Ret (0, d', print_metric ''total_ops'' (''count: '' @ decimal n) @ endl @ rest @ endl))"
    using d(1,3) d'(1) hello_starts [of freq tsc clk max_qps g h] by (auto simp: hello_main_def driver_Stop_def Let_def)
  moreover have "\<bar>apply_all 0 ops\<bar> \<le> of_nat (1000 * n)"
    using apply_all_bound [of 0 0 ops] ops(2,3) assms(5) by auto
  ultimately show ?thesis using ops d d' by auto
qed

lemma hello_world_runs_witness:
  "\<exists>d output. hello_main (\<lambda>_. []) id (\<lambda>a b g. (b, g)) (\<lambda>a b h. (b, h)) (\<lambda>i. int i * 1000) 2300000 (\<lambda>_. 5) (\<lambda>k. k = 4) (-1) () () =
      Some (Ret (0, d, output)) \<and> ctr_counter (wd_ops d) = 4 \<and> \<bar>wd_client d\<bar> \<le> 4000"
proof -
  have "uniform_range (\<lambda>a b g. (b :: u32, g :: unit))" "uniform_range (\<lambda>a b g. (b :: double, g :: unit))"
    by (simp_all add: uniform_range_def)
  from hello_world_runs [OF this clock_ok_linear clock_fits_const, of 4 "\<lambda>k. k = 4" "()" "()" "\<lambda>_. []" id "-1"]
  show ?thesis by force
qed

end
