(* ===== verification/Status_Util.thy ===== *)
theory Status_Util
  imports Streams
begin

text \<open>
  \<open>StatusBuilder\<close> of \<open>rome/util/status_util.h\<close>, the checks and assertions of \<open>rome/logging/logging.h\<close>, and
  the matchers on statuses of \<open>rome/testutil/status_matcher.h\<close> and \<open>stream_matcher.h\<close>. The other
  theories write a \<open>Status\<close> that the code builds with a builder as its result, and a check or an
  assertion as the branch it is; the lemmas here justify both.
\<close>

section \<open>String streams and status builders\<close>

text \<open>
  A \<open>std::stringstream\<close> as far as the builder uses it: its characters and the position of the next
  write. A stream made from a string has that position at its beginning.
\<close>

record stringstream =
  ss_buf :: string
  ss_put :: nat

definition stringstream :: "string \<Rightarrow> stringstream" where
  "stringstream s = \<lparr>ss_buf = s, ss_put = 0\<rparr>"

definition ss_write :: "string \<Rightarrow> stringstream \<Rightarrow> stringstream" where
  "ss_write t s =
     \<lparr>ss_buf = take (ss_put s) (ss_buf s) @ t @ drop (ss_put s + length t) (ss_buf s),
      ss_put = ss_put s + length t\<rparr>"

definition ss_str :: "stringstream \<Rightarrow> string" where
  "ss_str s = ss_buf s"

text \<open>The error code is the template parameter; \<open>t\<close> is the text that \<open>operator<<\<close> prints of its argument.\<close>

record status_builder =
  sb_code :: status_code
  sb_ss :: stringstream

definition StatusBuilder :: "status_code \<Rightarrow> status_builder" where
  "StatusBuilder code = \<lparr>sb_code = code, sb_ss = stringstream []\<rparr>"

definition sb_copy :: "status_builder \<Rightarrow> status_builder" where
  "sb_copy other = \<lparr>sb_code = sb_code other, sb_ss = stringstream (ss_str (sb_ss other))\<rparr>"

definition sb_append :: "string \<Rightarrow> status_builder \<Rightarrow> status_builder" where
  "sb_append t b = b\<lparr>sb_ss := ss_write t (sb_ss b)\<rparr>"

definition sb_status :: "status_builder \<Rightarrow> status" where
  "sb_status b = ErrorStatus (sb_code b) (ss_str (sb_ss b))"

lemma fold_append:
  assumes "ss_put (sb_ss b) = length (ss_buf (sb_ss b))"
  shows "sb_status (fold sb_append ts b) = ErrorStatus (sb_code b) (ss_buf (sb_ss b) @ concat ts)"
  using assms
proof (induction ts arbitrary: b)
  case Nil
  then show ?case by (simp add: sb_status_def ss_str_def)
next
  case (Cons t ts)
  have "ss_put (sb_ss (sb_append t b)) = length (ss_buf (sb_ss (sb_append t b)))"
    using Cons(2) by (simp add: sb_append_def ss_write_def)
  from Cons(1) [OF this] show ?case using Cons(2) by (simp add: sb_append_def ss_write_def)
qed

text \<open>
  A builder that is only appended to becomes the status with its code and the concatenation of
  everything that was streamed into it, and a copy of it, such as \<open>ROME_RETURN\<close> makes, becomes the same
  status. But a copy writes from the beginning: what is appended to it replaces the first characters
  of the message.
\<close>

theorem status_builder_text:
  "let b = fold sb_append ts (StatusBuilder code)
   in sb_status b = ErrorStatus code (concat ts) \<and> sb_status (sb_copy b) = sb_status b \<and>
      sb_status (sb_append t (sb_copy b)) = ErrorStatus code (t @ drop (length t) (concat ts))"
proof -
  define b where "b = fold sb_append ts (StatusBuilder code)"
  have s: "sb_status b = ErrorStatus code (concat ts)"
    unfolding b_def by (subst fold_append) (simp_all add: StatusBuilder_def stringstream_def)
  then have "sb_code b = code" "ss_buf (sb_ss b) = concat ts" by (simp_all add: sb_status_def ss_str_def)
  then show ?thesis using s
    by (simp add: b_def [symmetric] Let_def sb_copy_def sb_append_def sb_status_def ss_str_def stringstream_def ss_write_def)
qed

section \<open>Logging, checks and assertions\<close>

text \<open>
  The level that the library is compiled with is \<open>cfg\<close>: a message is written when its own level is
  not below. The output is the list of messages with their levels.
\<close>

type_synonym log_output = "(nat \<times> string) list"

definition TRACE :: nat where "TRACE = 0"
definition DEBUG :: nat where "DEBUG = 1"
definition INFO :: nat where "INFO = 2"
definition WARN :: nat where "WARN = 3"
definition ERROR :: nat where "ERROR = 4"
definition CRITICAL :: nat where "CRITICAL = 5"
definition OFF :: nat where "OFF = 6"

definition rome_log :: "nat \<Rightarrow> nat \<Rightarrow> string \<Rightarrow> log_output \<Rightarrow> log_output" where
  "rome_log cfg level msg out = (if cfg \<le> level then out @ [(level, msg)] else out)"

definition ROME_TRACE :: "nat \<Rightarrow> string \<Rightarrow> log_output \<Rightarrow> log_output" where "ROME_TRACE cfg = rome_log cfg TRACE"
definition ROME_DEBUG :: "nat \<Rightarrow> string \<Rightarrow> log_output \<Rightarrow> log_output" where "ROME_DEBUG cfg = rome_log cfg DEBUG"
definition ROME_INFO :: "nat \<Rightarrow> string \<Rightarrow> log_output \<Rightarrow> log_output" where "ROME_INFO cfg = rome_log cfg INFO"
definition ROME_WARN :: "nat \<Rightarrow> string \<Rightarrow> log_output \<Rightarrow> log_output" where "ROME_WARN cfg = rome_log cfg WARN"
definition ROME_ERROR :: "nat \<Rightarrow> string \<Rightarrow> log_output \<Rightarrow> log_output" where "ROME_ERROR cfg = rome_log cfg ERROR"
definition ROME_CRITICAL :: "nat \<Rightarrow> string \<Rightarrow> log_output \<Rightarrow> log_output" where "ROME_CRITICAL cfg = rome_log cfg CRITICAL"

text \<open>A statement of the code, and what follows it: a function from the output to a result and the output.\<close>

type_synonym 'a logged = "log_output \<Rightarrow> 'a \<times> log_output"

definition ROME_FATAL :: "nat \<Rightarrow> string \<Rightarrow> 'a outcome logged" where
  "ROME_FATAL cfg msg out = (Fault Assert_Fail, rome_log cfg CRITICAL msg out)"

definition ROME_CHECK_QUIET :: "'a logged \<Rightarrow> bool \<Rightarrow> 'a logged \<Rightarrow> 'a logged" where
  "ROME_CHECK_QUIET ret_func check rest out = (if \<not> check then ret_func out else rest out)"

definition ROME_CHECK :: "nat \<Rightarrow> 'a logged \<Rightarrow> bool \<Rightarrow> string \<Rightarrow> 'a logged \<Rightarrow> 'a logged" where
  "ROME_CHECK cfg ret_func check msg rest out =
     (if \<not> check then ret_func (rome_log cfg ERROR msg out) else rest out)"

text \<open>
  The macro writes its argument twice: an expression whose status is bad is evaluated once more for the
  message, unless messages of that level are compiled away.
\<close>

definition ROME_CHECK_OK :: "nat \<Rightarrow> (status \<Rightarrow> string) \<Rightarrow> 'a logged \<Rightarrow> status logged \<Rightarrow> 'a logged \<Rightarrow> 'a logged" where
  "ROME_CHECK_OK cfg show_status ret_func status rest out =
     (case status out of (s, out1) \<Rightarrow>
        if \<not> status_ok s
        then if cfg \<le> ERROR
             then (case status out1 of (s', out2) \<Rightarrow> ret_func (rome_log cfg ERROR (show_status s') out2))
             else ret_func out1
        else rest out1)"

definition ROME_ASSERT :: "nat \<Rightarrow> bool \<Rightarrow> string \<Rightarrow> 'a outcome logged \<Rightarrow> 'a outcome logged" where
  "ROME_ASSERT cfg check msg rest out =
     (if \<not> check then (Fault Assert_Fail, rome_log cfg CRITICAL msg out) else rest out)"

definition ROME_ASSERT_OK :: "nat \<Rightarrow> (status \<Rightarrow> string) \<Rightarrow> status \<Rightarrow> 'a outcome logged \<Rightarrow> 'a outcome logged" where
  "ROME_ASSERT_OK cfg show_status status rest out =
     (if \<not> status_ok status then (Fault Assert_Fail, rome_log cfg CRITICAL (show_status status) out) else rest out)"

text \<open>The debugging checks are compiled away when \<open>ROME_NDEBUG\<close> is set.\<close>

definition ROME_CHECK_DEBUG :: "bool \<Rightarrow> nat \<Rightarrow> 'a logged \<Rightarrow> bool \<Rightarrow> string \<Rightarrow> 'a logged \<Rightarrow> 'a logged" where
  "ROME_CHECK_DEBUG ndebug cfg ret_func check msg rest out =
     (if \<not> ndebug \<and> \<not> check then ret_func (rome_log cfg ERROR msg out) else rest out)"

definition ROME_ASSERT_DEBUG :: "bool \<Rightarrow> nat \<Rightarrow> bool \<Rightarrow> string \<Rightarrow> 'a outcome logged \<Rightarrow> 'a outcome logged" where
  "ROME_ASSERT_DEBUG ndebug cfg check msg rest out =
     (if \<not> ndebug \<and> \<not> check then (Fault Assert_Fail, rome_log cfg ERROR msg out) else rest out)"

text \<open>The level has no influence on the result of a program, and an assertion is \<open>assertO\<close>.\<close>

definition output_free :: "'a logged \<Rightarrow> 'a \<Rightarrow> bool" where
  "output_free m x \<longleftrightarrow> (\<forall>out. fst (m out) = x)"

lemma checks_output_free:
  assumes "output_free ret x" "output_free rest y" "output_free st s"
  shows "output_free (ROME_CHECK_QUIET ret c rest) (if c then y else x)"
    "output_free (ROME_CHECK cfg ret c msg rest) (if c then y else x)"
    "output_free (ROME_CHECK_OK cfg sh ret st rest) (if status_ok s then y else x)"
proof -
  show "output_free (ROME_CHECK_OK cfg sh ret st rest) (if status_ok s then y else x)"
    unfolding output_free_def
  proof
    fix out
    have "fst (st out) = s" using assms(3) by (simp add: output_free_def)
    then show "fst (ROME_CHECK_OK cfg sh ret st rest out) = (if status_ok s then y else x)"
      using assms(1,2) by (simp add: output_free_def ROME_CHECK_OK_def case_prod_beta)
  qed
qed (use assms in \<open>simp_all add: output_free_def ROME_CHECK_QUIET_def ROME_CHECK_def\<close>)

lemma asserts_output_free:
  assumes "output_free rest y"
  shows "output_free (ROME_ASSERT cfg c msg rest) (assertO c y)"
    "output_free (ROME_ASSERT_OK cfg sh s rest) (assertO (status_ok s) y)"
    "output_free (ROME_ASSERT_DEBUG nd cfg c msg rest) (assertO (nd \<or> c) y)"
  using assms by (simp_all add: output_free_def ROME_ASSERT_def ROME_ASSERT_OK_def ROME_ASSERT_DEBUG_def assertO_def)

section \<open>Matchers\<close>

definition GetStatus :: "status \<Rightarrow> status" where
  "GetStatus s = s"

definition GetStatus_or :: "'a status_or \<Rightarrow> status" where
  "GetStatus_or s = (case s of Inl e \<Rightarrow> e | Inr _ \<Rightarrow> OkStatus)"

text \<open>\<open>code()\<close> and \<open>message()\<close>; the code \<open>None\<close> is \<open>kOk\<close>.\<close>

definition status_code_of :: "status \<Rightarrow> status_code option" where
  "status_code_of s = (case s of OkStatus \<Rightarrow> None | ErrorStatus c m \<Rightarrow> Some c)"

definition status_message :: "status \<Rightarrow> string" where
  "status_message s = (case s of OkStatus \<Rightarrow> [] | ErrorStatus c m \<Rightarrow> m)"

definition IsOk :: "status \<Rightarrow> bool" where
  "IsOk actual_value = status_ok (GetStatus actual_value)"

definition StatusIs :: "status_code option \<Rightarrow> status \<Rightarrow> bool" where
  "StatusIs code arg \<longleftrightarrow> status_code_of (GetStatus arg) = code"

definition HasMessage :: "string \<Rightarrow> status \<Rightarrow> bool" where
  "HasMessage message arg \<longleftrightarrow> status_message (GetStatus arg) = message"

definition IsStreamTerminatedStatus :: "status \<Rightarrow> bool" where
  "IsStreamTerminatedStatus arg = IsStreamTerminated (GetStatus arg)"

text \<open>
  \<open>MatchAndExplain\<close>: whether the value matches, and the explanation. The inner matcher explains itself in
  the same way; \<open>show_status\<close> and \<open>show_value\<close> print a status and a value.
\<close>

definition IsOkAndHolds ::
    "(status \<Rightarrow> string) \<Rightarrow> ('a \<Rightarrow> string) \<Rightarrow> ('a \<Rightarrow> bool \<times> string) \<Rightarrow> 'a status_or \<Rightarrow> bool \<times> string" where
  "IsOkAndHolds show_status show_value inner actual_value =
     (case actual_value of
        Inl e \<Rightarrow> (False, ''which has status '' @ show_status e)
      | Inr v \<Rightarrow> (case inner v of (matches, explanation) \<Rightarrow>
          (matches, if explanation \<noteq> [] then ''which contains value '' @ show_value v @ '', '' @ explanation else [])))"

definition describe_IsOkAndHolds :: "string \<Rightarrow> string" where
  "describe_IsOkAndHolds inner = ''is OK and has a value that '' @ inner"

definition describe_not_IsOkAndHolds :: "string \<Rightarrow> string" where
  "describe_not_IsOkAndHolds inner_negation = ''isn'' @ [CHR 0x27] @ ''t OK or has a value that '' @ inner_negation"

lemma matchers_agree:
  "IsOk (GetStatus_or s) \<longleftrightarrow> (\<exists>v. s = Inr v) \<or> s = Inl OkStatus"
  "fst (IsOkAndHolds ss sv inner s) \<longleftrightarrow> (\<exists>v. s = Inr v \<and> fst (inner v))"
  "IsOk e \<longleftrightarrow> StatusIs None e"
  "sb_status b = e \<Longrightarrow> StatusIs (Some (sb_code b)) e \<and> HasMessage (ss_str (sb_ss b)) e"
  by (auto simp: IsOk_def GetStatus_def GetStatus_or_def status_ok_def IsOkAndHolds_def StatusIs_def
      status_code_of_def sb_status_def HasMessage_def status_message_def split: sum.splits prod.splits status.splits)

text \<open>A stream that has ended is recognised by the matcher, and no value or other error is.\<close>

lemma terminated_stream_matches:
  "IsStreamTerminatedStatus StreamTerminatedStatus"
  "IsStreamTerminatedStatus e \<longleftrightarrow> StatusIs (Some kOutOfRange) e \<and> HasMessage ''Stream terminated.'' e"
  by (auto simp: IsStreamTerminatedStatus_def GetStatus_def StreamTerminatedStatus_def IsStreamTerminated_def
      StatusIs_def HasMessage_def status_code_of_def status_message_def split: status.splits)

end
