(* ===== verification/Log_Setup.thy ===== *)
theory Log_Setup
  imports Status_Util
begin

text \<open>
  The setup of the log in \<open>rome/logging/logging.h\<close>. The functions of spdlog are an argument, on a state \<open>'st\<close> of its
  registry and with loggers of a type \<open>'l\<close>; what the code needs of them is \<open>spdlog_documented\<close>.
\<close>

section \<open>Initialisation and its end\<close>

text \<open>\<open>sp_output\<close> has the messages that were written, with their levels.\<close>

record ('st, 'l) spdlog =
  sp_get :: "string \<Rightarrow> 'st \<Rightarrow> 'l option"
  sp_init_thread_pool :: "nat \<Rightarrow> nat \<Rightarrow> 'st \<Rightarrow> 'st"
  sp_create :: "string \<Rightarrow> 'st \<Rightarrow> 'l \<times> 'st"
  sp_create_async :: "string \<Rightarrow> 'st \<Rightarrow> 'l \<times> 'st"
  sp_set_level :: "'l \<Rightarrow> nat \<Rightarrow> 'st \<Rightarrow> 'st"
  sp_level :: "'l \<Rightarrow> 'st \<Rightarrow> nat"
  sp_level_string_views :: "nat \<Rightarrow> string"
  sp_set_pattern :: "'l \<Rightarrow> string \<Rightarrow> 'st \<Rightarrow> 'st"
  sp_set_default_logger :: "'l \<Rightarrow> 'st \<Rightarrow> 'st"
  sp_default_logger :: "'st \<Rightarrow> 'l"
  sp_log :: "'l \<Rightarrow> nat \<Rightarrow> string \<Rightarrow> 'st \<Rightarrow> 'st"
  sp_drop :: "string \<Rightarrow> 'st \<Rightarrow> 'st"
  sp_output :: "'st \<Rightarrow> log_output"

text \<open>
  The macros of spdlog write to the default logger, unless the compiled level, \<open>cfg\<close>, is above the message's; \<open>async\<close> is
  whether \<open>ROME_ASYNC_LOG\<close> is defined.
\<close>

definition spdlog_call :: "('st, 'l) spdlog \<Rightarrow> nat \<Rightarrow> nat \<Rightarrow> string \<Rightarrow> 'st \<Rightarrow> 'st" where
  "spdlog_call sp cfg level msg st = (if cfg \<le> level then sp_log sp (sp_default_logger sp st) level msg st else st)"

definition log_pattern :: string where
  "log_pattern = ''[%Y-%m-%d %H:%M%S thread:%t] [%^%l%$] [%@] %v''"

definition rome_logger :: "('st, 'l) spdlog \<Rightarrow> bool \<Rightarrow> 'st \<Rightarrow> 'l \<times> 'st" where
  "rome_logger sp async st =
     (case sp_get sp ''rome'' st of
        Some lg \<Rightarrow> (lg, st)
      | None \<Rightarrow> if async then sp_create_async sp ''rome'' (sp_init_thread_pool sp 8192 1 st) else sp_create sp ''rome'' st)"

definition rome_init_log :: "('st, 'l) spdlog \<Rightarrow> bool \<Rightarrow> nat \<Rightarrow> 'st \<Rightarrow> 'st" where
  "rome_init_log sp async cfg st =
     (let (lg, st) = rome_logger sp async st;
          st = sp_set_level sp lg cfg st;
          st = sp_set_pattern sp lg log_pattern st;
          st = sp_set_default_logger sp lg st
      in spdlog_call sp cfg INFO (''Logging level: '' @ sp_level_string_views sp (sp_level sp (sp_default_logger sp st) st)) st)"

definition ROME_INIT_LOG :: "('st, 'l) spdlog \<Rightarrow> bool \<Rightarrow> nat \<Rightarrow> 'st \<Rightarrow> 'st" where
  "ROME_INIT_LOG sp async cfg = (if cfg = OFF then (\<lambda>st. st) else rome_init_log sp async cfg)"

definition ROME_DEINIT_LOG :: "('st, 'l) spdlog \<Rightarrow> nat \<Rightarrow> 'st \<Rightarrow> 'st" where
  "ROME_DEINIT_LOG sp cfg = (if cfg = OFF then (\<lambda>st. st) else sp_drop sp ''rome'')"

section \<open>What is documented of the library\<close>

text \<open>
  A created logger is registered under its name until it is dropped, a logger has the level that it was given, the default logger is the one
  that was set, and a logger writes what is not below its level.
\<close>

definition spdlog_documented :: "('st, 'l) spdlog \<Rightarrow> bool" where
  "spdlog_documented sp \<longleftrightarrow>
     (\<forall>nm st. (let (lg, st') = sp_create sp nm st in sp_get sp nm st' = Some lg \<and> sp_output sp st' = sp_output sp st) \<and>
        (let (lg, st') = sp_create_async sp nm st in sp_get sp nm st' = Some lg \<and> sp_output sp st' = sp_output sp st) \<and>
        sp_get sp nm (sp_drop sp nm st) = None \<and> sp_output sp (sp_drop sp nm st) = sp_output sp st) \<and>
     (\<forall>a b st. sp_output sp (sp_init_thread_pool sp a b st) = sp_output sp st) \<and>
     (\<forall>lg n txt nm st.
        sp_get sp nm (sp_set_level sp lg n st) = sp_get sp nm st \<and> sp_get sp nm (sp_set_pattern sp lg txt st) = sp_get sp nm st \<and>
        sp_get sp nm (sp_set_default_logger sp lg st) = (sp_get sp nm st :: 'l option) \<and> sp_get sp nm (sp_log sp lg n txt st) = sp_get sp nm st \<and>
        sp_level sp lg (sp_set_level sp lg n st) = n \<and> sp_level sp lg (sp_set_pattern sp lg txt st) = sp_level sp lg st \<and>
        sp_level sp lg (sp_set_default_logger sp lg st) = sp_level sp lg st \<and> sp_level sp lg (sp_log sp lg n txt st) = sp_level sp lg st \<and>
        sp_default_logger sp (sp_set_default_logger sp lg st) = lg \<and> sp_default_logger sp (sp_log sp lg n txt st) = sp_default_logger sp st \<and>
        sp_output sp (sp_set_level sp lg n st) = sp_output sp st \<and> sp_output sp (sp_set_pattern sp lg txt st) = sp_output sp st \<and>
        sp_output sp (sp_set_default_logger sp lg st) = sp_output sp st \<and>
        sp_output sp (sp_log sp lg n txt st) = sp_output sp st @ (if sp_level sp lg st \<le> n then [(n, txt)] else []))"

definition log_ready :: "('st, 'l) spdlog \<Rightarrow> nat \<Rightarrow> 'l \<Rightarrow> 'st \<Rightarrow> bool" where
  "log_ready sp cfg lg st \<longleftrightarrow> sp_get sp ''rome'' st = Some lg \<and> sp_default_logger sp st = lg \<and> sp_level sp lg st = cfg"

lemma created:
  assumes "spdlog_documented sp"
  shows "sp_create sp nm st = (lg, st') \<Longrightarrow> sp_get sp nm st' = Some lg \<and> sp_output sp st' = sp_output sp st"
    "sp_create_async sp nm st = (lg, st') \<Longrightarrow> sp_get sp nm st' = Some lg \<and> sp_output sp st' = sp_output sp st"
    "sp_output sp (sp_init_thread_pool sp a b st) = sp_output sp st"
proof -
  have "\<forall>nm st. let (lg, st') = sp_create sp nm st in sp_get sp nm st' = Some lg \<and> sp_output sp st' = sp_output sp st"
    "\<forall>nm st. let (lg, st') = sp_create_async sp nm st in sp_get sp nm st' = Some lg \<and> sp_output sp st' = sp_output sp st"
    using assms unfolding spdlog_documented_def by blast+
  from this(1) [THEN spec, THEN spec, of nm st] this(2) [THEN spec, THEN spec, of nm st]
  show "sp_create sp nm st = (lg, st') \<Longrightarrow> sp_get sp nm st' = Some lg \<and> sp_output sp st' = sp_output sp st"
    "sp_create_async sp nm st = (lg, st') \<Longrightarrow> sp_get sp nm st' = Some lg \<and> sp_output sp st' = sp_output sp st" by simp_all
  show "sp_output sp (sp_init_thread_pool sp a b st) = sp_output sp st" using assms unfolding spdlog_documented_def by blast
qed

lemma rome_logger_get:
  assumes "spdlog_documented sp" "rome_logger sp async st = (lg, st')"
  shows "sp_get sp ''rome'' st' = Some lg" "sp_output sp st' = sp_output sp st"
    "sp_get sp ''rome'' st = Some lg0 \<Longrightarrow> lg = lg0 \<and> st' = st"
  using assms(2) created [OF assms(1)] unfolding rome_logger_def
  by (auto split: option.splits if_splits)

text \<open>
  After the initialisation the default logger is the one of the name, with the level of the compilation, and a
  second one keeps it; the macros then write exactly what the checks and assertions of \<open>Status_Util\<close> have in their output.
\<close>

theorem init_log_ready:
  assumes "spdlog_documented sp" "cfg < OFF"
  shows "\<exists>lg. log_ready sp cfg lg (ROME_INIT_LOG sp async cfg st) \<and>
    (\<forall>lg0. sp_get sp ''rome'' st = Some lg0 \<longrightarrow> lg = lg0) \<and>
    sp_output sp (ROME_INIT_LOG sp async cfg st) = rome_log cfg INFO (''Logging level: '' @ sp_level_string_views sp cfg) (sp_output sp st)"
proof -
  obtain lg st1 where l: "rome_logger sp async st = (lg, st1)" by force
  note g = rome_logger_get [OF assms(1) l]
  have "log_ready sp cfg lg (ROME_INIT_LOG sp async cfg st) \<and>
    sp_output sp (ROME_INIT_LOG sp async cfg st) = rome_log cfg INFO (''Logging level: '' @ sp_level_string_views sp cfg) (sp_output sp st)"
    using assms g(1,2) unfolding spdlog_documented_def
    by (simp add: ROME_INIT_LOG_def rome_init_log_def l spdlog_call_def log_ready_def rome_log_def)
  then show ?thesis using g(3) by blast
qed

lemma call_is_rome_log:
  assumes "spdlog_documented sp" "log_ready sp cfg lg st"
  shows "sp_output sp (spdlog_call sp cfg level msg st) = rome_log cfg level msg (sp_output sp st) \<and>
    log_ready sp cfg lg (spdlog_call sp cfg level msg st)"
  using assms unfolding spdlog_documented_def log_ready_def by (simp add: spdlog_call_def rome_log_def)

lemma deinit_drops: "spdlog_documented sp \<Longrightarrow> cfg < OFF \<Longrightarrow> sp_get sp ''rome'' (ROME_DEINIT_LOG sp cfg st) = None"
  by (simp add: ROME_DEINIT_LOG_def spdlog_documented_def)

text \<open>
  A registry in which a logger is its name: the registered names, a level for each name, the default name and the output.
\<close>

definition name_registry :: "(string set \<times> (string \<Rightarrow> nat) \<times> string \<times> log_output, string) spdlog" where
  "name_registry = \<lparr>sp_get = (\<lambda>nm (r, lv, d, out). if nm \<in> r then Some nm else None), sp_init_thread_pool = (\<lambda>_ _ st. st),
     sp_create = (\<lambda>nm (r, lv, d, out). (nm, (insert nm r, lv, d, out))), sp_create_async = (\<lambda>nm (r, lv, d, out). (nm, (insert nm r, lv, d, out))),
     sp_set_level = (\<lambda>nm n (r, lv, d, out). (r, lv(nm := n), d, out)), sp_level = (\<lambda>nm (r, lv, d, out). lv nm),
     sp_level_string_views = decimal, sp_set_pattern = (\<lambda>_ _ st. st), sp_set_default_logger = (\<lambda>nm (r, lv, d, out). (r, lv, nm, out)),
     sp_default_logger = (\<lambda>(r, lv, d, out). d),
     sp_log = (\<lambda>nm n msg (r, lv, d, out). (r, lv, d, out @ (if lv nm \<le> n then [(n, msg)] else []))),
     sp_drop = (\<lambda>nm (r, lv, d, out). (r - {nm}, lv, d, out)), sp_output = (\<lambda>(r, lv, d, out). out)\<rparr>"

lemma name_registry_documented: "spdlog_documented name_registry"
  unfolding spdlog_documented_def by (simp add: name_registry_def split: prod.splits)

text \<open>Trace messages are lost before the initialisation of a library that is compiled with them, and written after it.\<close>

lemma init_log_ready_witness:
  "spdlog_call name_registry TRACE TRACE ''a'' ({}, \<lambda>_. INFO, '''', []) = ({}, \<lambda>_. INFO, '''', []) \<and>
   (\<exists>lg. log_ready name_registry TRACE lg (ROME_INIT_LOG name_registry False TRACE ({}, \<lambda>_. INFO, '''', [])))"
  using init_log_ready [OF name_registry_documented, of TRACE False "({}, \<lambda>_. INFO, '''', [])"]
  by (auto simp: TRACE_def OFF_def INFO_def spdlog_call_def name_registry_def)

end
