(* ===== verification/Bitset.thy ===== *)
theory Bitset
  imports Rome_Prelude
begin

text \<open>
  \<open>uint8_bitset<N>\<close> of \<open>rome/datastructure/bitset.h\<close>: a set of at most eight flags in one
  byte. The template parameter \<open>N\<close> is the first argument of every operation; the class's
  \<open>static_assert(N <= 8)\<close> is the premise \<open>N \<le> 8\<close> of the lemmas. The state of an object
  is its \<open>data\<close> byte. \<open>assert(bit < N)\<close> is the outcome \<open>Fault Assert_Fail\<close>.
\<close>

section \<open>The interface: an array of flags\<close>

text \<open>
  What a client of a flag array relies on: a read after a write sees the written flag and
  no other flag changed. \<open>get n s i\<close> and \<open>put n s i x\<close> work on the \<open>n\<close> flags of \<open>s\<close>.
\<close>

locale flag_store =
  fixes get :: "nat \<Rightarrow> 's \<Rightarrow> nat \<Rightarrow> bool"
    and put :: "nat \<Rightarrow> 's \<Rightarrow> nat \<Rightarrow> bool \<Rightarrow> 's"
    and cap :: nat
  assumes get_put: "n \<le> cap \<Longrightarrow> i < n \<Longrightarrow> j < n \<Longrightarrow>
    get n (put n s i x) j = (if i = j then x else get n s j)"
begin

lemma get_put_same: "n \<le> cap \<Longrightarrow> i < n \<Longrightarrow> get n (put n s i x) i = x"
  by (simp add: get_put)

text \<open>A run of writes is a run of list updates on the vector of the flags.\<close>

lemma get_writes:
  assumes "n \<le> cap" "\<forall>(i, x) \<in> set ws. i < n" "length ref = n"
    and "\<forall>j < n. get n s j = ref ! j"
  shows "\<forall>j < n. get n (fold (\<lambda>(i, x) s. put n s i x) ws s) j
    = fold (\<lambda>(i, x) r. r[i := x]) ws ref ! j"
  using assms
proof (induction ws arbitrary: s ref)
  case Nil
  then show ?case by simp
next
  case (Cons w ws)
  obtain i x where w: "w = (i, x)" by force
  have "\<forall>j < n. get n (put n s i x) j = ref[i := x] ! j"
    using Cons.prems w by (auto simp: get_put nth_list_update)
  then show ?case
    using Cons.IH [of "ref[i := x]" "put n s i x"] Cons.prems w by simp
qed

end

section \<open>The operations\<close>

text \<open>The body of \<open>set(bit, Bool<x>)\<close> after its assertion.\<close>

definition put_bit :: "u8 \<Rightarrow> nat \<Rightarrow> bool \<Rightarrow> u8" where
  "put_bit data i x =
     (if x then data OR push_bit i 1 else data AND NOT (push_bit i 1))"

definition bs_set :: "nat \<Rightarrow> u8 \<Rightarrow> u8 \<Rightarrow> bool \<Rightarrow> u8 outcome" where
  "bs_set N data i x = assertO (unat i < N) (Ret (put_bit data (unat i) x))"

definition bs_get :: "nat \<Rightarrow> u8 \<Rightarrow> u8 \<Rightarrow> bool outcome" where
  "bs_get N data i = assertO (unat i < N) (Ret (drop_bit (unat i) data AND 1 = 1))"

text \<open>The immediately called lambda that computes \<open>all_set_bits\<close>: a loop of \<open>set\<close>.\<close>

fun set_each :: "nat \<Rightarrow> nat list \<Rightarrow> u8 \<Rightarrow> u8 outcome" where
  "set_each N [] r = Ret r"
| "set_each N (i # is) r = bindO (bs_set N r (of_nat i) True) (set_each N is)"

definition all_set_bits :: "nat \<Rightarrow> u8" where
  "all_set_bits N = (case set_each N [0..<N] 0 of Ret r \<Rightarrow> r | Fault _ \<Rightarrow> 0)"

definition bs_eq :: "nat \<Rightarrow> u8 \<Rightarrow> u8 \<Rightarrow> bool" where
  "bs_eq N lhs rhs \<longleftrightarrow> all_set_bits N AND rhs = all_set_bits N AND lhs"

definition bs_neq :: "nat \<Rightarrow> u8 \<Rightarrow> u8 \<Rightarrow> bool" where
  "bs_neq N lhs rhs \<longleftrightarrow> all_set_bits N AND rhs \<noteq> all_set_bits N AND lhs"

text \<open>The converting constructor: \<open>data(x)\<close> keeps the low byte of the integer.\<close>

definition bs_of_int :: "u64 \<Rightarrow> u8" where
  "bs_of_int x = ucast x"

section \<open>Lemmas\<close>

lemma bit_put_bit:
  "bit (put_bit d i x) j \<longleftrightarrow> (if i = j \<and> j < 8 then x else bit d j)"
  using bit_word_lt_len [of d j]
  by (auto simp: put_bit_def bit_simps)

lemma drop_bit_and_1: "(drop_bit i d AND 1 = 1) \<longleftrightarrow> bit d i" for d :: u8
  by (simp add: and_one_eq bit_iff_odd_drop_bit flip: odd_iff_mod_2_eq_one)

lemma bs_get_Ret [rome_simps]: "unat i < N \<Longrightarrow> bs_get N d i = Ret (bit d (unat i))"
  by (simp add: bs_get_def drop_bit_and_1)

lemma bs_set_Ret [rome_simps]:
  "unat i < N \<Longrightarrow> bs_set N d i x = Ret (put_bit d (unat i) x)"
  by (simp add: bs_set_def)

lemma bs_get_Fault: "bs_get N d i = Fault e \<longleftrightarrow> N \<le> unat i \<and> e = Assert_Fail"
  by (auto simp: bs_get_def assertO_def)

lemma bs_set_Fault: "bs_set N d i x = Fault e \<longleftrightarrow> N \<le> unat i \<and> e = Assert_Fail"
  by (auto simp: bs_set_def assertO_def)

lemma unat_of_nat_u8: "i < 8 \<Longrightarrow> unat (of_nat i :: u8) = i"
  by (simp add: unat_of_nat)

lemma set_each_Ret:
  assumes "N \<le> 8" "\<forall>i \<in> set is. i < N"
  shows "\<exists>r'. set_each N is r = Ret r' \<and> (\<forall>j. bit r' j \<longleftrightarrow> bit r j \<or> j \<in> set is)"
  using assms(2)
proof (induction "is" arbitrary: r)
  case Nil
  then show ?case by simp
next
  case (Cons i "is")
  with assms(1) have i: "i < 8" "i < N" by auto
  then have "bs_set N r (of_nat i) True = Ret (put_bit r i True)"
    by (simp add: bs_set_Ret unat_of_nat_u8)
  moreover have "\<forall>j. bit (put_bit r i True) j \<longleftrightarrow> bit r j \<or> j = i"
    using i by (auto simp: bit_put_bit)
  ultimately show ?case
    using Cons.IH [of "put_bit r i True"] Cons.prems by auto
qed

lemma bit_all_set_bits:
  assumes "N \<le> 8"
  shows "bit (all_set_bits N) j \<longleftrightarrow> j < N"
proof -
  obtain r where "set_each N [0..<N] 0 = Ret r" "\<forall>j. bit r j \<longleftrightarrow> bit (0 :: u8) j \<or> j \<in> set [0..<N]"
    using set_each_Ret [of N "[0..<N]" 0] assms by auto
  then show ?thesis by (simp add: all_set_bits_def)
qed

lemma all_set_bits_mask: "N \<le> 8 \<Longrightarrow> all_set_bits N = mask N"
  by (rule word_bit_eqI) (simp add: bit_all_set_bits bit_mask_iff)

interpretation bs: flag_store "\<lambda>N d i. bit d i" "\<lambda>N. put_bit" 8
  by unfold_locales (auto simp: bit_put_bit)

text \<open>A run of \<open>set\<close> calls on one object.\<close>

fun bs_run :: "nat \<Rightarrow> (u8 \<times> bool) list \<Rightarrow> u8 \<Rightarrow> u8 outcome" where
  "bs_run N [] d = Ret d"
| "bs_run N ((i, x) # ws) d = bindO (bs_set N d i x) (bs_run N ws)"

lemma bs_run_Ret:
  "\<forall>(i, x) \<in> set ws. unat i < N \<Longrightarrow>
   bs_run N ws d = Ret (fold (\<lambda>(i, x) s. put_bit s i x) (map (\<lambda>(i, x). (unat i, x)) ws) d)"
  by (induction ws arbitrary: d) (auto simp: bs_set_Ret)

lemma fold_map_unat:
  "fold (\<lambda>(i, x) r. r[i := x]) (map (\<lambda>(i :: u8, x). (unat i, x)) ws) r
     = fold (\<lambda>(i, x) r. r[unat i := x]) ws r"
  by (induction ws arbitrary: r) auto

section \<open>Properties\<close>

text \<open>
  A bitset behaves as the vector of its flags: after any run of \<open>set\<close> calls with
  in-range indices, started on the default object, no assertion fails and every \<open>get\<close>
  returns the entry of the vector on which the same writes were made.
\<close>

theorem bitset_matches_reference:
  assumes "N \<le> 8" and "\<forall>(i, x) \<in> set ws. unat i < N"
  shows "\<exists>d. bs_run N ws 0 = Ret d \<and>
    (\<forall>j. unat j < N \<longrightarrow>
      bs_get N d j = Ret (fold (\<lambda>(i, x) r. r[unat i := x]) ws (replicate N False) ! unat j))"
proof -
  let ?ws = "map (\<lambda>(i :: u8, x). (unat i, x)) ws"
  let ?d = "fold (\<lambda>(i, x) s. put_bit s i x) ?ws (0 :: u8)"
  have "\<forall>(i, x) \<in> set ?ws. i < N" using assms(2) by auto
  then have "\<forall>j < N. bit ?d j = fold (\<lambda>(i, x) r. r[i := x]) ?ws (replicate N False) ! j"
    using bs.get_writes [of N ?ws "replicate N False" 0] assms(1) by simp
  then have "\<forall>j. unat j < N \<longrightarrow> bs_get N ?d j =
      Ret (fold (\<lambda>(i, x) r. r[unat i := x]) ws (replicate N False) ! unat j)"
    by (simp add: bs_get_Ret fold_map_unat)
  then show ?thesis using bs_run_Ret [OF assms(2)] by blast
qed

theorem bitset_matches_reference_witness:
  "\<exists>d. bs_run 4 [(1, True), (3, True), (1, False)] 0 = Ret d \<and>
    (\<forall>j. unat j < 4 \<longrightarrow> bs_get 4 d j =
      Ret (fold (\<lambda>(i, x) r. r[unat i := x]) [(1 :: u8, True), (3, True), (1, False)]
        (replicate 4 False) ! unat j))"
  by (rule bitset_matches_reference) auto

text \<open>
  Two bitsets are equal under \<open>operator==\<close> exactly when their first \<open>N\<close> flags agree:
  the bits of the byte above \<open>N\<close>, which the converting constructor does not clear, are ignored.
\<close>

theorem bitset_eq_iff_flags:
  assumes "N \<le> 8"
  shows "bs_eq N a b \<longleftrightarrow> (\<forall>i. unat i < N \<longrightarrow> bs_get N a i = bs_get N b i)"
proof
  assume eq: "bs_eq N a b"
  show "\<forall>i. unat i < N \<longrightarrow> bs_get N a i = bs_get N b i"
  proof (intro allI impI)
    fix i :: u8
    assume i: "unat i < N"
    from eq have "bit (all_set_bits N AND b) (unat i) = bit (all_set_bits N AND a) (unat i)"
      by (simp add: bs_eq_def)
    with i assms have "bit a (unat i) = bit b (unat i)"
      by (simp add: bit_and_iff bit_all_set_bits)
    with i show "bs_get N a i = bs_get N b i" by (simp add: bs_get_Ret)
  qed
next
  assume same: "\<forall>i. unat i < N \<longrightarrow> bs_get N a i = bs_get N b i"
  have "bit a n = bit b n" if "n < N" for n
    using same [rule_format, of "of_nat n"] that assms
    by (simp add: unat_of_nat_u8 bs_get_Ret)
  then show "bs_eq N a b"
    unfolding bs_eq_def
    by (intro word_bit_eqI) (auto simp: bit_and_iff bit_all_set_bits assms)
qed

theorem bitset_eq_iff_flags_witness:
  "bs_eq 2 0xF1 0x01 \<longleftrightarrow> (\<forall>i. unat i < 2 \<longrightarrow> bs_get 2 0xF1 i = bs_get 2 0x01 i)"
  by (rule bitset_eq_iff_flags) simp

end
