(* ===== verification/Marked_Ptr.thy ===== *)
theory Marked_Ptr
  imports Bitset
begin

text \<open>
  \<open>marked_ptr<T, B>\<close> and \<open>atomic_marked_ptr<T, B>\<close> of \<open>rome/datastructure/marked_ptr.h\<close>: a
  64-bit pointer whose low \<open>B\<close> bits hold marks. The state of an object is its pointer as a
  word (the code's \<open>std::bit_cast<size_t>(ptr)\<close>); \<open>B\<close> is the first argument of the
  operations. Mark indices are the \<open>int\<close> arguments of the code, which the callee narrows to
  \<open>uint8_t\<close>.
\<close>

section \<open>The operations\<close>

definition mp_is_valid :: "nat \<Rightarrow> nat \<Rightarrow> bool" where
  "mp_is_valid B alignof_T \<longleftrightarrow> 2 ^ B \<le> alignof_T"

definition mp_with_mask :: "u64 \<Rightarrow> u8 \<Rightarrow> u64" where
  "mp_with_mask pointer bits = pointer OR ucast bits"

definition mp_cast :: "nat \<Rightarrow> u64 \<Rightarrow> u64" where
  "mp_cast B p = (let msk = NOT (ucast (all_set_bits B)) in p AND msk)"

definition mp_marks :: "nat \<Rightarrow> u64 \<Rightarrow> u8" where
  "mp_marks B p = (let msk = ucast (all_set_bits B) in ucast (p AND msk))"

definition mp_is_marked :: "nat \<Rightarrow> u64 \<Rightarrow> u32 \<Rightarrow> bool outcome" where
  "mp_is_marked B p i = bs_get B (mp_marks B p) (ucast i)"

definition mp_set_marked :: "nat \<Rightarrow> u64 \<Rightarrow> u32 \<Rightarrow> u64 outcome" where
  "mp_set_marked B p i =
     bindO (bs_set B (mp_marks B p) (ucast i) True)
       (\<lambda>new_bitset. Ret (mp_with_mask (mp_cast B p) new_bitset))"

definition mp_set_unmarked :: "nat \<Rightarrow> u64 \<Rightarrow> u32 \<Rightarrow> u64 outcome" where
  "mp_set_unmarked B p i =
     bindO (bs_set B (mp_marks B p) (ucast i) False)
       (\<lambda>new_bitset. Ret (mp_with_mask (mp_cast B p) new_bitset))"

definition mp_set_marks :: "nat \<Rightarrow> u64 \<Rightarrow> u8 \<Rightarrow> u64" where
  "mp_set_marks B p new_bitset = mp_with_mask (mp_cast B p) new_bitset"

definition mp_eq :: "u64 \<Rightarrow> u64 \<Rightarrow> bool" where
  "mp_eq p q \<longleftrightarrow> p = q"

definition mp_is_null :: "nat \<Rightarrow> u64 \<Rightarrow> bool" where
  "mp_is_null B p \<longleftrightarrow> mp_cast B p = 0"

text \<open>
  \<open>atomic_marked_ptr\<close>: one atomic word. \<open>compare_exchange\<close> returns whether it exchanged, the
  new content and the updated \<open>expected\<close>; a weak exchange may also fail spuriously.
\<close>

definition amp_store :: "u64 \<Rightarrow> u64 \<Rightarrow> u64" where
  "amp_store ptr x = x"

definition amp_load :: "u64 \<Rightarrow> u64" where
  "amp_load ptr = ptr"

definition amp_is_marked :: "nat \<Rightarrow> u64 \<Rightarrow> u32 \<Rightarrow> bool outcome" where
  "amp_is_marked B ptr i = mp_is_marked B (amp_load ptr) i"

definition amp_cas_strong :: "u64 \<Rightarrow> u64 \<Rightarrow> u64 \<Rightarrow> bool \<times> u64 \<times> u64" where
  "amp_cas_strong ptr expected val =
     (if ptr = expected then (True, val, expected) else (False, ptr, ptr))"

definition amp_cas_weak :: "bool \<Rightarrow> u64 \<Rightarrow> u64 \<Rightarrow> u64 \<Rightarrow> bool \<times> u64 \<times> u64" where
  "amp_cas_weak spurious ptr expected val =
     (if ptr = expected \<and> \<not> spurious then (True, val, expected) else (False, ptr, ptr))"

section \<open>Lemmas\<close>

lemma bit_ucast_all_set:
  "B \<le> 8 \<Longrightarrow> bit (ucast (all_set_bits B) :: u64) n \<longleftrightarrow> n < B"
  by (auto simp: bit_ucast_iff bit_all_set_bits)

lemma bit_mp_cast: "B \<le> 8 \<Longrightarrow> bit (mp_cast B p) n \<longleftrightarrow> bit p n \<and> B \<le> n"
  using bit_word_lt_len [of p n]
  by (auto simp: mp_cast_def Let_def bit_and_iff bit_not_iff bit_ucast_all_set)

lemma bit_mp_marks: "B \<le> 8 \<Longrightarrow> bit (mp_marks B p) n \<longleftrightarrow> bit p n \<and> n < B"
  by (auto simp: mp_marks_def Let_def bit_ucast_iff bit_and_iff bit_all_set_bits)

lemma bit_mp_with_mask: "bit (mp_with_mask p m) n \<longleftrightarrow> bit p n \<or> bit m n"
  using bit_word_lt_len [of m n]
  by (auto simp: mp_with_mask_def bit_or_iff bit_ucast_iff)

lemmas mp_bits = bit_mp_cast bit_mp_marks bit_mp_with_mask bit_put_bit

lemma mp_set_marked_Ret [rome_simps]:
  "unat (ucast i :: u8) < B \<Longrightarrow> mp_set_marked B p i =
     Ret (mp_with_mask (mp_cast B p) (put_bit (mp_marks B p) (unat (ucast i :: u8)) True))"
  by (simp add: mp_set_marked_def bs_set_Ret)

lemma mp_set_unmarked_Ret [rome_simps]:
  "unat (ucast i :: u8) < B \<Longrightarrow> mp_set_unmarked B p i =
     Ret (mp_with_mask (mp_cast B p) (put_bit (mp_marks B p) (unat (ucast i :: u8)) False))"
  by (simp add: mp_set_unmarked_def bs_set_Ret)

text \<open>Writing one mark through the byte: the pointer part stays, one flag changes.\<close>

definition mp_put :: "nat \<Rightarrow> u64 \<Rightarrow> nat \<Rightarrow> bool \<Rightarrow> u64" where
  "mp_put B p i x = mp_with_mask (mp_cast B p) (put_bit (mp_marks B p) i x)"

lemma bit_mp_put:
  "B \<le> 8 \<Longrightarrow> i < B \<Longrightarrow> bit (mp_put B p i x) n \<longleftrightarrow> (if n = i then x else bit p n)"
  by (auto simp: mp_put_def mp_bits)

lemma mp_cast_put: "B \<le> 8 \<Longrightarrow> i < B \<Longrightarrow> mp_cast B (mp_put B p i x) = mp_cast B p"
  by (rule word_bit_eqI) (auto simp: bit_mp_cast bit_mp_put)

lemma mp_marks_put:
  "B \<le> 8 \<Longrightarrow> i < B \<Longrightarrow> mp_marks B (mp_put B p i x) = put_bit (mp_marks B p) i x"
  by (rule word_bit_eqI) (auto simp: bit_mp_marks bit_mp_put bit_put_bit)

interpretation mp: flag_store "\<lambda>B p i. bit (mp_marks B p) i" mp_put 8
  by unfold_locales (auto simp: mp_marks_put bit_put_bit)

lemma mark_index: "unat i < 8 \<Longrightarrow> unat (ucast i :: u8) = unat i" for i :: u32
  by (simp add: unsigned_ucast_eq take_bit_nat_eq_self)

lemma mp_is_marked_Ret [rome_simps]:
  "B \<le> 8 \<Longrightarrow> unat i < B \<Longrightarrow> mp_is_marked B p i = Ret (bit (mp_marks B p) (unat i))"
  by (simp add: mp_is_marked_def bs_get_Ret mark_index)

lemma mp_set_put:
  assumes "B \<le> 8" "unat i < B"
  shows "mp_set_marked B p i = Ret (mp_put B p (unat i) True)"
    and "mp_set_unmarked B p i = Ret (mp_put B p (unat i) False)"
  using assms by (simp_all add: mp_set_marked_Ret mp_set_unmarked_Ret mark_index mp_put_def)

section \<open>Properties\<close>

text \<open>
  Setting or clearing mark \<open>i\<close> of a pointer fails no assertion for \<open>i < B\<close>, keeps the
  pointer that \<open>cast()\<close> reads, makes \<open>is_marked(i)\<close> true or false, and changes no other mark.
\<close>

theorem marked_ptr_set_get:
  assumes "B \<le> 8" and "unat i < B"
  shows "\<exists>q r. mp_set_marked B p i = Ret q \<and> mp_set_unmarked B p i = Ret r \<and>
    mp_cast B q = mp_cast B p \<and> mp_cast B r = mp_cast B p \<and>
    (\<forall>j. unat j < B \<longrightarrow>
      mp_is_marked B q j = (if j = i then Ret True else mp_is_marked B p j) \<and>
      mp_is_marked B r j = (if j = i then Ret False else mp_is_marked B p j))"
  using assms
  by (auto simp: mp_set_put mp_cast_put mp_is_marked_Ret mp.get_put mp.get_put_same
      dest: unsigned_word_eqI)

theorem marked_ptr_set_get_witness:
  "\<exists>q r. mp_set_marked 2 0x1002 0 = Ret q \<and> mp_set_unmarked 2 0x1002 0 = Ret r \<and>
    mp_cast 2 q = mp_cast 2 0x1002 \<and> mp_cast 2 r = mp_cast 2 0x1002 \<and>
    (\<forall>j. unat j < 2 \<longrightarrow>
      mp_is_marked 2 q j = (if j = 0 then Ret True else mp_is_marked 2 0x1002 j) \<and>
      mp_is_marked 2 r j = (if j = 0 then Ret False else mp_is_marked 2 0x1002 j))"
  by (rule marked_ptr_set_get) simp_all

text \<open>
  Pointer and marks pack and unpack without loss: a pointer aligned to \<open>2^B\<close> and a mark
  set below \<open>2^B\<close> are read back by \<open>cast\<close> and \<open>marks\<close>, and every marked pointer is the one
  built from its own \<open>cast\<close> and \<open>marks\<close>.
\<close>

theorem marked_ptr_pack_unpack:
  assumes "B \<le> 8" and "take_bit B a = 0" and "take_bit B m = m"
  shows "mp_cast B (mp_with_mask a m) = a \<and> mp_marks B (mp_with_mask a m) = m \<and>
    mp_with_mask (mp_cast B p) (mp_marks B p) = p"
proof -
  have a: "B \<le> n" if "bit a n" for n
    using assms(2) that by (metis bit_0_eq bit_take_bit_iff bot_apply bot_bool_def not_less)
  have m: "n < B" if "bit m n" for n
    using assms(3) that by (metis bit_take_bit_iff)
  have "mp_cast B (mp_with_mask a m) = a"
    by (rule word_bit_eqI) (use assms(1) in \<open>auto simp: mp_bits dest: a m\<close>)
  moreover have "mp_marks B (mp_with_mask a m) = m"
    by (rule word_bit_eqI) (use assms(1) in \<open>auto simp: mp_bits dest: a m\<close>)
  moreover have "mp_with_mask (mp_cast B p) (mp_marks B p) = p"
    by (rule word_bit_eqI) (use assms(1) in \<open>auto simp: mp_bits\<close>)
  ultimately show ?thesis by blast
qed

theorem marked_ptr_pack_unpack_witness:
  "mp_cast 3 (mp_with_mask 0x7F08 5) = 0x7F08 \<and> mp_marks 3 (mp_with_mask 0x7F08 5) = 5 \<and>
    mp_with_mask (mp_cast 3 0xAB) (mp_marks 3 0xAB) = 0xAB"
  by (rule marked_ptr_pack_unpack) (simp_all add: take_bit_eq_mod)

text \<open>
  \<open>set_marks\<close> installs the low \<open>B\<close> bits of its argument as the marks, but it ors the whole
  byte into the pointer: bits of the bitset above \<open>B\<close> (which the bitset's converting
  constructor and its comparison let through) end up in the pointer that \<open>cast\<close> reads.
\<close>

theorem marked_ptr_set_marks:
  assumes "B \<le> 8"
  shows "mp_marks B (mp_set_marks B p b) = take_bit B b \<and>
    mp_cast B (mp_set_marks B p b) = mp_cast B p OR ucast (b AND NOT (all_set_bits B))"
proof -
  have "mp_marks B (mp_set_marks B p b) = take_bit B b"
    by (rule word_bit_eqI) (use assms in \<open>auto simp: mp_set_marks_def mp_bits bit_take_bit_iff\<close>)
  moreover have "mp_cast B (mp_set_marks B p b)
      = mp_cast B p OR ucast (b AND NOT (all_set_bits B))"
    by (rule word_bit_eqI)
      (use assms in \<open>auto simp: mp_set_marks_def mp_bits bit_or_iff bit_ucast_iff bit_and_iff
         bit_not_iff bit_all_set_bits dest: bit_word_lt_len\<close>)
  ultimately show ?thesis by blast
qed

theorem marked_ptr_set_marks_witness:
  "mp_marks 2 (mp_set_marks 2 0x1000 0xFF) = take_bit 2 0xFF \<and>
    mp_cast 2 (mp_set_marks 2 0x1000 0xFF)
      = mp_cast 2 0x1000 OR ucast ((0xFF :: u8) AND NOT (all_set_bits 2))"
  by (rule marked_ptr_set_marks) simp

end
