(* ===== verification/Remote_Ptr.thy ===== *)
theory Remote_Ptr
  imports Rome_Prelude
begin

text \<open>
  \<open>remote_ptr<T>\<close> of \<open>rome/rdma/memory_pool/remote_ptr.h\<close> and \<open>remote_ptr_impl.h\<close>: a pointer
  to memory of another node, packed in one 64-bit word \<open>raw_\<close> with the 16-bit node id in the
  high bits and a 48-bit address in the low bits. The argument \<open>sz\<close> of the arithmetic is
  \<open>sizeof(T)\<close>.
\<close>

section \<open>The operations\<close>

definition kAddressBits :: nat where
  "kAddressBits = 8 * 8 - 2 * 8"

definition kAddressBitmask :: u64 where
  "kAddressBitmask = push_bit kAddressBits 1 - 1"

definition kIdBitmask :: u64 where
  "kIdBitmask = (-1) XOR kAddressBitmask"

definition rp_make :: "u16 \<Rightarrow> u64 \<Rightarrow> u64" where
  "rp_make i address = push_bit kAddressBits (ucast i) OR (address AND kAddressBitmask)"

text \<open>The constructor from \<open>(uint64_t id, T*)\<close> delegates and narrows the id to \<open>id_type\<close>.\<close>

definition rp_make_ptr :: "u64 \<Rightarrow> u64 \<Rightarrow> u64" where
  "rp_make_ptr i address = rp_make (ucast i) address"

definition rp_null :: u64 where
  "rp_null = 0"

definition rp_id :: "u64 \<Rightarrow> u64" where
  "rp_id raw = drop_bit kAddressBits (raw AND kIdBitmask)"

definition rp_address :: "u64 \<Rightarrow> u64" where
  "rp_address raw = raw AND kAddressBitmask"

definition rp_sub_assign :: "u64 \<Rightarrow> u64 \<Rightarrow> u64 \<Rightarrow> u64" where
  "rp_sub_assign sz raw s =
     (let address = (raw - sz * s) AND kAddressBitmask in (raw AND kIdBitmask) OR address)"

definition rp_add_assign :: "u64 \<Rightarrow> u64 \<Rightarrow> u64 \<Rightarrow> u64" where
  "rp_add_assign sz raw s =
     (let address = (raw + sz * s) AND kAddressBitmask in (raw AND kIdBitmask) OR address)"

definition rp_pre_inc :: "u64 \<Rightarrow> u64 \<Rightarrow> u64" where
  "rp_pre_inc sz raw = rp_add_assign sz raw 1"

text \<open>Post-increment: the returned pointer and the new content of the object.\<close>

definition rp_post_inc :: "u64 \<Rightarrow> u64 \<Rightarrow> u64 \<times> u64" where
  "rp_post_inc sz raw = (let prev = raw in (prev, rp_add_assign sz raw 1))"

definition rp_pointer_to :: "u64 \<Rightarrow> u64" where
  "rp_pointer_to r = rp_make_ptr (-1) r"

definition rp_is_null :: "u64 \<Rightarrow> bool" where
  "rp_is_null raw \<longleftrightarrow> raw = 0"

definition rp_eq :: "u64 \<Rightarrow> u64 \<Rightarrow> bool" where
  "rp_eq p1 p2 \<longleftrightarrow> p1 = p2"

definition rp_less :: "u64 \<Rightarrow> u64 \<Rightarrow> bool" where
  "rp_less p1 p2 \<longleftrightarrow> p1 < p2"

text \<open>
  The assignments (to a pointer and to \<open>remote_nullptr\<close>), the conversions to the raw word and to a pointer
  to another type, and the local pointer to the object.
\<close>

definition rp_assign :: "u64 \<Rightarrow> u64 \<Rightarrow> u64" where
  "rp_assign self p = p"

definition rp_assign_null :: "u64 \<Rightarrow> u64" where
  "rp_assign_null self = 0"

definition rp_uint64 :: "u64 \<Rightarrow> u64" where
  "rp_uint64 raw = raw"

definition rp_convert :: "u64 \<Rightarrow> u64" where
  "rp_convert raw = raw"

definition rp_to_address :: "u64 \<Rightarrow> u64" where
  "rp_to_address p = rp_address p"

definition rp_hash :: "(u64 \<Rightarrow> u64) \<Rightarrow> u64 \<Rightarrow> u64" where
  "rp_hash hash_uint64 p = hash_uint64 (rp_uint64 p)"

text \<open>
  The output: an output stream has a base, in which it prints integers and which \<open>std::hex\<close> and \<open>std::dec\<close>
  set. The formatter of the log has the bases in its format.
\<close>

definition digit :: "nat \<Rightarrow> char" where
  "digit d = (if d < 10 then char_of (48 + d) else char_of (87 + d))"

function digits :: "nat \<Rightarrow> nat \<Rightarrow> string" where
  "digits b n = (if b < 2 \<or> n < b then [digit n] else digits b (n div b) @ [digit (n mod b)])"
  by pat_completeness auto
termination by (relation "measure snd") (auto intro: div_less_dividend)

declare digits.simps [simp del]

record ostream =
  os_base :: nat
  os_text :: string

definition os_write :: "string \<Rightarrow> ostream \<Rightarrow> ostream" where
  "os_write t os = os\<lparr>os_text := os_text os @ t\<rparr>"

definition os_number :: "u64 \<Rightarrow> ostream \<Rightarrow> ostream" where
  "os_number n os = os_write (digits (os_base os) (unat n)) os"

definition rp_print :: "u64 \<Rightarrow> ostream \<Rightarrow> ostream" where
  "rp_print p os =
     os_write ''>'' (os_number (rp_address p) ((os_write '', address=0x'' (os_number (rp_id p) (os_write ''<id='' os)))\<lparr>os_base := 16\<rparr>))\<lparr>os_base := 10\<rparr>"

definition rp_format :: "u64 \<Rightarrow> string" where
  "rp_format p = ''(id='' @ digits 10 (unat (rp_id p)) @ '', address=0x'' @ digits 16 (unat (rp_address p)) @ '')''"

section \<open>Lemmas\<close>

lemma kAddressBits_48: "kAddressBits = 48"
  by (simp add: kAddressBits_def)

lemma kAddressBitmask_mask: "kAddressBitmask = mask 48"
  by (simp add: kAddressBitmask_def kAddressBits_48 mask_eq_exp_minus_1 push_bit_eq_mult)

lemma bit_kAddressBitmask: "bit kAddressBitmask n \<longleftrightarrow> n < 48"
  by (auto simp: kAddressBitmask_mask bit_mask_iff)

lemma bit_kIdBitmask: "bit kIdBitmask n \<longleftrightarrow> 48 \<le> n \<and> n < 64"
  by (auto simp: kIdBitmask_def bit_kAddressBitmask bit_not_iff)

lemmas rp_bits = bit_kAddressBitmask bit_kIdBitmask kAddressBits_48 bit_and_iff bit_or_iff
  bit_push_bit_iff bit_drop_bit_eq bit_ucast_iff

lemma bit_rp_make: "bit (rp_make i a) n \<longleftrightarrow> (if n < 48 then bit a n else n < 64 \<and> bit i (n - 48))"
  using bit_word_lt_len [of i "n - 48"]
  by (auto simp: rp_make_def rp_bits)

lemma bit_rp_id: "bit (rp_id r) n \<longleftrightarrow> bit r (n + 48)"
  using bit_word_lt_len [of r "n + 48"]
  by (auto simp: rp_id_def rp_bits add.commute)

lemma bit_rp_address: "bit (rp_address r) n \<longleftrightarrow> bit r n \<and> n < 48"
  by (simp add: rp_address_def rp_bits)

lemma rp_id_make: "rp_id (rp_make i a) = ucast i"
  by (rule word_bit_eqI) (auto simp: bit_rp_id bit_rp_make bit_ucast_iff dest: bit_word_lt_len)

lemma rp_address_make: "rp_address (rp_make i a) = a AND kAddressBitmask"
  by (rule word_bit_eqI) (simp add: bit_rp_address bit_rp_make rp_bits)

lemma rp_make_id_address: "rp_make (ucast (rp_id r)) (rp_address r) = r"
  by (rule word_bit_eqI) (auto simp: bit_rp_id bit_rp_address bit_rp_make bit_ucast_iff)

lemma rp_address_take_bit: "rp_address r = take_bit 48 r"
  by (rule word_bit_eqI) (auto simp: bit_rp_address bit_take_bit_iff)

lemma rp_add_assign_make:
  "rp_add_assign sz r s = rp_make (ucast (rp_id r)) (r + sz * s)"
  by (rule word_bit_eqI)
    (auto simp: rp_add_assign_def Let_def bit_rp_make rp_bits bit_rp_id)

lemma rp_sub_assign_make:
  "rp_sub_assign sz r s = rp_make (ucast (rp_id r)) (r - sz * s)"
  by (rule word_bit_eqI)
    (auto simp: rp_sub_assign_def Let_def bit_rp_make rp_bits bit_rp_id)

lemma ucast_ucast_rp_id: "ucast (ucast (rp_id r) :: u16) = rp_id r"
  by (rule word_bit_eqI) (auto simp: bit_ucast_iff bit_rp_id dest: bit_word_lt_len)

lemma rp_make_take_bit: "take_bit 48 a = take_bit 48 b \<Longrightarrow> rp_make i a = rp_make i b"
  by (simp add: rp_make_def kAddressBitmask_mask flip: take_bit_eq_mask)

lemma take_bit_rp_make: "take_bit 48 (rp_make i a) = take_bit 48 a"
  using rp_address_make [of i a]
  by (simp add: rp_address_take_bit kAddressBitmask_mask flip: take_bit_eq_mask)

lemma unat_rp_address_add:
  "unat (rp_address (rp_add_assign sz r s)) = (unat (rp_address r) + unat sz * unat s) mod 2 ^ 48"
proof -
  have "unat (rp_address (rp_add_assign sz r s)) = unat (take_bit 48 (r + sz * s))"
    by (simp add: rp_add_assign_make rp_address_take_bit take_bit_rp_make)
  also have "\<dots> = (unat r + unat sz * unat s) mod 2 ^ 64 mod 2 ^ 48"
    by (simp add: unsigned_take_bit_eq unat_word_ariths mod_add_right_eq)
      (simp add: take_bit_eq_mod)
  also have "\<dots> = (unat r mod 2 ^ 48 + unat sz * unat s) mod 2 ^ 48"
    by (simp add: mod_mod_cancel mod_add_left_eq)
  also have "unat r mod 2 ^ 48 = unat (rp_address r)"
    by (simp only: rp_address_take_bit unsigned_take_bit_eq) (simp add: take_bit_eq_mod)
  finally show ?thesis .
qed

lemma rp_id_add: "rp_id (rp_add_assign sz r s) = rp_id r"
  by (simp add: rp_add_assign_make rp_id_make ucast_ucast_rp_id)

lemma rp_sub_add: "rp_sub_assign sz (rp_add_assign sz r s) s = r"
proof -
  let ?d = "sz * s"
  let ?q = "rp_add_assign sz r s"
  have "take_bit 48 (?q - ?d) = take_bit 48 (take_bit 48 ?q - take_bit 48 ?d)"
    by (rule take_bit_word_diff)
  also have "\<dots> = take_bit 48 (take_bit 48 (r + ?d) - take_bit 48 ?d)"
    by (simp add: rp_add_assign_make take_bit_rp_make)
  also have "\<dots> = take_bit 48 (rp_address r)"
    by (simp add: rp_address_take_bit take_bit_word_diff [of 48 "r + sz * s" "sz * s", symmetric])
  finally have "rp_make (ucast (rp_id r)) (?q - ?d) = rp_make (ucast (rp_id r)) (rp_address r)"
    by (rule rp_make_take_bit)
  then show ?thesis
    by (simp add: rp_sub_assign_make rp_id_add rp_make_id_address)
qed

lemma rp_raw_split: "unat r = unat (rp_id r) * 2 ^ 48 + unat (rp_address r)"
proof -
  have "unat (rp_id r) = unat r div 2 ^ 48"
  proof -
    have "rp_id r = drop_bit 48 r"
      by (rule word_bit_eqI) (simp add: bit_rp_id bit_drop_bit_eq add.commute)
    moreover have "take_bit 64 (unat r) = unat r"
      by (rule take_bit_nat_eq_self) (use unsigned_less [where w = r and ?'a = nat] in simp)
    ultimately show ?thesis
      by (simp only:) (subst unsigned_drop_bit_eq, simp add: drop_bit_eq_div)
  qed
  moreover have "unat (rp_address r) = unat r mod 2 ^ 48"
    by (simp only: rp_address_take_bit unsigned_take_bit_eq) (simp add: take_bit_eq_mod)
  ultimately show ?thesis by (simp add: div_mult_mod_eq)
qed

lemma unat_rp_address_less: "unat (rp_address r) < 2 ^ 48"
  by (simp only: rp_address_take_bit unsigned_take_bit_eq) (simp add: take_bit_eq_mod)

section \<open>The text of a pointer\<close>

lemma digit_code: "d < 16 \<Longrightarrow> of_char (digit d) = (if d < 10 then 48 + d else 87 + d)"
  by (simp add: digit_def)

lemma digit_inj:
  assumes "d < 16" "e < 16" "digit d = digit e" shows "d = e"
proof -
  have "of_char (digit d) = (of_char (digit e) :: nat)" by (simp only: assms(3))
  then show ?thesis unfolding digit_code [OF assms(1)] digit_code [OF assms(2)] using assms(1,2) by (simp split: if_splits)
qed

lemma digit_range:
  assumes "d < 16" shows "digit d \<noteq> CHR '',''"
proof
  assume "digit d = CHR '',''"
  then have "of_char (digit d) = (44 :: nat)" by simp
  then show False using digit_code [OF assms] by (simp split: if_splits)
qed

lemma digits_inj:
  assumes b: "2 \<le> b" "b \<le> 16"
  shows "digits b n = digits b m \<Longrightarrow> n = m"
proof (induction n arbitrary: m rule: less_induct)
  case (less n)
  have ne: "digits b k \<noteq> []" for k by (simp add: digits.simps [of b k])
  show ?case
  proof (cases "n < b \<or> m < b")
    case True
    then have "n < b \<and> m < b" using less(2) ne ne [symmetric] b by (auto simp: digits.simps [of b n] digits.simps [of b m] split: if_splits)
    then show ?thesis using less(2) b digit_inj [of n m] by (simp add: digits.simps [of b n] digits.simps [of b m])
  next
    case False
    then have "digits b (n div b) = digits b (m div b)" "digit (n mod b) = digit (m mod b)"
      using less(2) b by (simp_all add: digits.simps [of b n] digits.simps [of b m])
    moreover have "n div b < n" using False b by (intro div_less_dividend) auto
    moreover have "n mod b < 16" "m mod b < 16"
      using mod_less_divisor [of b n] mod_less_divisor [of b m] b by linarith+
    ultimately have "n div b = m div b" "n mod b = m mod b"
      using less(1) digit_inj [of "n mod b" "m mod b"] by blast+
    then show ?thesis by (metis div_mult_mod_eq)
  qed
qed

lemma digits_no_comma: "2 \<le> b \<Longrightarrow> b \<le> 16 \<Longrightarrow> CHR '','' \<notin> set (digits b n)"
proof (induction b n rule: digits.induct)
  case (1 b n)
  have "n mod b < 16" using mod_less_divisor [of b n] 1(2,3) by linarith
  then have "digit (n mod b) \<noteq> CHR '',''" "n < b \<Longrightarrow> digit n \<noteq> CHR '',''" using digit_range 1(3) by auto
  then show ?case using 1 by (subst digits.simps) auto
qed

lemma append_sep_eq: "c \<notin> set xs \<Longrightarrow> c \<notin> set xs' \<Longrightarrow> xs @ c # ys = xs' @ c # ys' \<Longrightarrow> xs = xs' \<and> ys = ys'"
proof (induction xs arbitrary: xs')
  case Nil
  then show ?case by (cases xs') auto
next
  case (Cons x xs)
  then show ?case by (cases xs') auto
qed

lemma rp_eq_parts: "rp_id p = rp_id q \<Longrightarrow> rp_address p = rp_address q \<Longrightarrow> p = q"
  using rp_make_id_address [of p] rp_make_id_address [of q] by metis

lemma pointer_text_inj:
  assumes b: "2 \<le> b" "b \<le> 16"
    and e: "digits b (unat (rp_id p)) @ '', address=0x'' @ digits 16 (unat (rp_address p)) @ t =
      digits b (unat (rp_id q)) @ '', address=0x'' @ digits 16 (unat (rp_address q)) @ t"
  shows "p = q"
proof -
  have "digits b (unat (rp_id p)) @ CHR '','' # '' address=0x'' @ digits 16 (unat (rp_address p)) @ t =
      digits b (unat (rp_id q)) @ CHR '','' # '' address=0x'' @ digits 16 (unat (rp_address q)) @ t"
    using e by simp
  note parts = append_sep_eq [OF digits_no_comma [OF b] digits_no_comma [OF b] this]
  have "unat (rp_id p) = unat (rp_id q)" by (rule digits_inj [OF b parts [THEN conjunct1]])
  moreover have "digits 16 (unat (rp_address p)) = digits 16 (unat (rp_address q))"
    using parts [THEN conjunct2] by simp
  then have "unat (rp_address p) = unat (rp_address q)" by (rule digits_inj [rotated 2]) simp_all
  ultimately have "rp_id p = rp_id q" "rp_address p = rp_address q" by (simp_all only: word_unat_eq_iff)
  then show ?thesis by (rule rp_eq_parts)
qed

section \<open>Properties\<close>

text \<open>
  A remote pointer packs a node id and a 48-bit address without loss: both getters read
  back what the constructor was given (the address modulo \<open>2^48\<close>), and every raw word is the
  pointer built from its own id and address.
\<close>

theorem remote_ptr_pack_unpack:
  "rp_id (rp_make i a) = ucast i \<and> rp_address (rp_make i a) = take_bit 48 a \<and>
    rp_make (ucast (rp_id r)) (rp_address r) = r"
  using rp_make_id_address [of r]
  by (simp add: rp_id_make rp_address_take_bit take_bit_rp_make)

text \<open>
  Pointer arithmetic never leaves the node: \<open>+=\<close> keeps the id and moves the address by
  \<open>sizeof(T) * s\<close> modulo \<open>2^48\<close>, and \<open>-=\<close> undoes it exactly, wrap-around included.
\<close>

theorem remote_ptr_arithmetic:
  "rp_id (rp_add_assign sz r s) = rp_id r \<and>
    unat (rp_address (rp_add_assign sz r s)) = (unat (rp_address r) + unat sz * unat s) mod 2 ^ 48 \<and>
    rp_sub_assign sz (rp_add_assign sz r s) s = r"
  by (simp add: rp_id_add unat_rp_address_add rp_sub_add)

text \<open>
  The order of remote pointers is lexicographic: first by node id, then by address.
\<close>

theorem remote_ptr_less_lexicographic:
  "rp_less p q \<longleftrightarrow> rp_id p < rp_id q \<or> rp_id p = rp_id q \<and> rp_address p < rp_address q"
proof -
  have "rp_less p q \<longleftrightarrow> unat p < unat q"
    by (simp add: rp_less_def word_less_nat_alt)
  moreover have "rp_id p = rp_id q \<longleftrightarrow> unat (rp_id p) = unat (rp_id q)"
    by (simp add: word_eq_iff_unsigned)
  ultimately show ?thesis
    using rp_raw_split [of p] rp_raw_split [of q]
      unat_rp_address_less [of p] unat_rp_address_less [of q]
    by (auto simp: word_less_nat_alt)
qed

text \<open>
  The text of a remote pointer loses nothing: two pointers print alike, through the log or on a stream
  of any base up to 16, only if they are equal; their hashes agree exactly as the words do. A stream that was not in decimal
  prints the node id in its base, and every stream prints in decimal afterwards.
\<close>

theorem remote_ptr_text:
  "(rp_format p = rp_format q \<longleftrightarrow> rp_eq p q) \<and>
   (2 \<le> os_base os \<and> os_base os \<le> 16 \<longrightarrow> (os_text (rp_print p os) = os_text (rp_print q os) \<longleftrightarrow> rp_eq p q)) \<and>
   os_base (rp_print p os) = 10 \<and> (rp_eq p q \<longrightarrow> rp_hash h p = rp_hash h q) \<and>
   os_text (rp_print p \<lparr>os_base = 16, os_text = []\<rparr>) =
     ''<id='' @ digits 16 (unat (rp_id p)) @ '', address=0x'' @ digits 16 (unat (rp_address p)) @ ''>''"
proof -
  have "rp_format p = rp_format q \<longleftrightarrow> rp_eq p q"
    using pointer_text_inj [of 10 p "'')''" q] by (auto simp: rp_format_def rp_eq_def)
  moreover have "os_text (rp_print p os) = os_text (rp_print q os) \<longleftrightarrow> rp_eq p q" if "2 \<le> os_base os" "os_base os \<le> 16"
    using pointer_text_inj [OF that, of p "''>''" q] by (auto simp: rp_print_def os_write_def os_number_def rp_eq_def)
  ultimately show ?thesis
    by (simp add: rp_print_def os_write_def os_number_def rp_hash_def rp_eq_def)
qed

lemma remote_ptr_text_witness:
  "os_text (rp_print 5 \<lparr>os_base = 10, os_text = []\<rparr>) \<noteq> os_text (rp_print 6 \<lparr>os_base = 10, os_text = []\<rparr>)"
  using remote_ptr_text [of 5 6 "\<lparr>os_base = 10, os_text = []\<rparr>"] by (simp add: rp_eq_def)

end
