(* ===== verification/Rmalloc.thy ===== *)
theory Rmalloc
  imports Rome_Prelude
begin

text \<open>
  \<open>rdma_memory_resource\<close> and \<open>rdma_allocator\<close> of \<open>rome/rdma/rmalloc/rmalloc.h\<close>: a bump
  allocator over registered memory (shared by all threads through a compare-and-swap on the
  head) with per-thread free lists by size class. Addresses are 64-bit words, the null pointer is
  0. The registration of the memory (\<open>RdmaMemory\<close>) only contributes its bounds.
\<close>

section \<open>Size classes\<close>

definition LT :: "int \<Rightarrow> int list" where
  "LT n = replicate 16 n"

definition kLogTable :: "int list" where
  "kLogTable = [-1, 0, 1, 1, 2, 2, 2, 2, 3, 3, 3, 3, 3, 3, 3, 3] @
     LT 4 @ LT 5 @ LT 5 @ LT 6 @ LT 6 @ LT 6 @ LT 6 @ LT 7 @
     LT 7 @ LT 7 @ LT 7 @ LT 7 @ LT 7 @ LT 7 @ LT 7"

definition table_log :: "int \<Rightarrow> u64 \<Rightarrow> nat outcome" where
  "table_log base i =
     (if unat i < 256 \<and> 0 \<le> base + kLogTable ! unat i then Ret (nat (base + kLogTable ! unat i))
      else Fault Undefined)"

definition UpperLog2 :: "u64 \<Rightarrow> nat outcome" where
  "UpperLog2 x =
     bindO (let q = drop_bit 16 x in
            if q \<noteq> 0 then (let p = drop_bit 8 q in if p \<noteq> 0 then table_log 24 p else table_log 16 q)
            else (let p = drop_bit 8 x in if p \<noteq> 0 then table_log 8 p else table_log 0 x))
       (\<lambda>r. Ret (if push_bit r 1 < x then r + 1 else r))"

definition kMinSlabClass :: nat where "kMinSlabClass = 3"
definition kMaxSlabClass :: nat where "kMaxSlabClass = 20"
definition kNumSlabClasses :: nat where "kNumSlabClasses = kMaxSlabClass - kMinSlabClass + 1"
definition kMaxAlignment :: u64 where "kMaxAlignment = push_bit 8 1"

text \<open>\<open>std::max(kMinSlabClass, static_cast<uint8_t>(slabclass))\<close>\<close>

definition slab_class :: "u64 \<Rightarrow> nat outcome" where
  "slab_class bytes = bindO (UpperLog2 bytes) (\<lambda>s. Ret (max kMinSlabClass (s mod 256)))"

section \<open>State\<close>

record arena =
  ar_raw :: u64
  ar_head :: u64
  ar_mem :: "u64 \<Rightarrow> u8"

text \<open>The \<open>thread_local\<close> lists; they are static, so one thread has one for all arenas.\<close>

record tls =
  tl_alignments :: "u8 list"
  tl_freelists :: "(u64 \<times> u64) list list"

definition make_arena :: "u64 \<Rightarrow> u64 \<Rightarrow> (u64 \<Rightarrow> u8) \<Rightarrow> arena" where
  "make_arena raw bytes mem = \<lparr>ar_raw = raw, ar_head = raw + bytes, ar_mem = mem\<rparr>"

definition fresh_tls :: tls where
  "fresh_tls = \<lparr>tl_alignments = replicate kNumSlabClasses 0, tl_freelists = replicate kNumSlabClasses []\<rparr>"

definition memset0 :: "(u64 \<Rightarrow> u8) \<Rightarrow> u64 \<Rightarrow> nat \<Rightarrow> u64 \<Rightarrow> u8" where
  "memset0 mem p n = (\<lambda>a. if unat (a - p) < n then 0 else mem a)"

section \<open>Allocation\<close>

text \<open>The loop over the free list: the block found, the list without it, \<open>f == end()\<close> after the erase.\<close>

fun scan_freelist :: "u64 \<Rightarrow> (u64 \<times> u64) list \<Rightarrow> (u64 \<times> (u64 \<times> u64) list \<times> bool) option" where
  "scan_freelist alignment [] = None"
| "scan_freelist alignment ((al, p) # fs) =
     (if al \<ge> alignment then Some (p, fs, fs = [])
      else (case scan_freelist alignment fs of None \<Rightarrow> None
            | Some (q, fs', at_end) \<Rightarrow> Some (q, (al, p) # fs', at_end)))"

definition bump_target :: "u64 \<Rightarrow> u64 \<Rightarrow> u64 \<Rightarrow> u64" where
  "bump_target e bytes alignment = (e AND NOT (alignment - 1)) - bytes"

text \<open>The bump loop run alone: the first compare-and-swap succeeds.\<close>

definition bump :: "arena \<Rightarrow> u64 \<Rightarrow> u64 \<Rightarrow> arena \<times> u64" where
  "bump ar bytes alignment =
     (let d = bump_target (ar_head ar) bytes alignment
      in if d < ar_raw ar then (ar, 0) else (ar\<lparr>ar_head := d\<rparr>, d))"

definition do_allocate :: "bool \<Rightarrow> arena \<Rightarrow> tls \<Rightarrow> u64 \<Rightarrow> u64 \<Rightarrow> (arena \<times> tls \<times> u64) outcome" where
  "do_allocate debug ar th bytes0 alignment =
     (let bytes = (if alignment > bytes0 then alignment else bytes0) in
      bindO (slab_class bytes) (\<lambda>slabclass.
      let idx = slabclass - kMinSlabClass in
      assertO (idx < kNumSlabClasses) (
      assertO (alignment \<le> kMaxAlignment) (
      let fresh = (let (ar', d) = bump ar bytes alignment in Ret (ar', th, d)) in
      if ucast (tl_alignments th ! idx) AND alignment \<noteq> 0 then
        assertO (debug \<longrightarrow> tl_freelists th ! idx \<noteq> []) (
          case scan_freelist alignment (tl_freelists th ! idx) of
            None \<Rightarrow> fresh
          | Some (p, fs, at_end) \<Rightarrow>
              Ret (ar\<lparr>ar_mem := memset0 (ar_mem ar) p (2 ^ slabclass)\<rparr>,
                   th\<lparr>tl_freelists := (tl_freelists th)[idx := fs],
                      tl_alignments := (if at_end
                        then (tl_alignments th)[idx := ucast (ucast (tl_alignments th ! idx) AND NOT alignment)]
                        else tl_alignments th)\<rparr>, p))
      else fresh))))"

definition do_deallocate :: "tls \<Rightarrow> u64 \<Rightarrow> u64 \<Rightarrow> u64 \<Rightarrow> tls outcome" where
  "do_deallocate th p bytes alignment =
     bindO (slab_class bytes) (\<lambda>slabclass.
     let idx = slabclass - kMinSlabClass in
     if idx < kNumSlabClasses then
       Ret (th\<lparr>tl_alignments := (tl_alignments th)[idx := ucast (ucast (tl_alignments th ! idx) OR alignment)],
               tl_freelists := (tl_freelists th)[idx := tl_freelists th ! idx @ [(alignment, p)]]\<rparr>)
     else Fault Undefined)"

text \<open>\<open>rdma_allocator<T>\<close>: every request has alignment 64.\<close>

definition ra_allocate :: "bool \<Rightarrow> arena \<Rightarrow> tls \<Rightarrow> u64 \<Rightarrow> u64 \<Rightarrow> (arena \<times> tls \<times> u64) outcome" where
  "ra_allocate debug ar th sizeof_T n = do_allocate debug ar th (sizeof_T * n) 64"

definition ra_deallocate :: "tls \<Rightarrow> u64 \<Rightarrow> u64 \<Rightarrow> u64 \<Rightarrow> tls outcome" where
  "ra_deallocate th p sizeof_T n = do_deallocate th p (sizeof_T * n) 64"

lemma unat_pow2: "k < 64 \<Longrightarrow> unat (2 ^ k :: u64) = 2 ^ k"
  by transfer (simp add: nat_power_eq)

section \<open>The size class is the rounded-up logarithm\<close>

lemma scaled_log:
  assumes "2 ^ r \<le> m div 2 ^ k" "m div 2 ^ k < 2 ^ Suc r"
  shows "2 ^ (k + r) \<le> m \<and> m < (2::nat) ^ Suc (k + r)"
proof -
  have "2 ^ r * 2 ^ k \<le> m" using assms(1) by (simp add: less_eq_div_iff_mult_less_eq)
  moreover have "m < 2 ^ Suc r * 2 ^ k" using assms(2) by (simp add: div_less_iff_less_mult)
  ultimately show ?thesis by (simp add: power_add mult.commute)
qed

lemma nth_LT: "m < 16 * length ns \<Longrightarrow> concat (map LT ns) ! m = ns ! (m div 16)"
proof (induction ns arbitrary: m)
  case (Cons n ns)
  show ?case
  proof (cases "m < 16")
    case True
    then show ?thesis by (simp add: LT_def nth_append)
  next
    case False
    then have "m div 16 = Suc ((m - 16) div 16)" using le_div_geq [of 16 m] by simp
    then show ?thesis using False Cons(1) [of "m - 16"] Cons(2)
      by (simp add: LT_def nth_append)
  qed
qed simp

lemma kLogTable_blocks:
  "kLogTable = [-1, 0, 1, 1, 2, 2, 2, 2, 3, 3, 3, 3, 3, 3, 3, 3] @
    concat (map LT [4, 5, 5, 6, 6, 6, 6, 7, 7, 7, 7, 7, 7, 7, 7])"
  by (simp add: kLogTable_def del: append_Cons append_Nil)

definition log_ok :: "nat \<Rightarrow> int \<Rightarrow> bool" where
  "log_ok n t \<longleftrightarrow> 0 \<le> t \<and> 2 ^ nat t \<le> n \<and> n < 2 ^ Suc (nat t)"

lemma small_logs:
  "\<forall>q \<in> set [1..<16]. log_ok q ([-1, 0, 1, 1, 2, 2, 2, 2, 3, 3, 3, 3, 3, 3, 3, 3] ! q)"
  by code_simp

lemma block_logs:
  "\<forall>q \<in> set [1..<16]. 4 \<le> [4, 5, 5, 6, 6, 6, 6, 7, 7, 7, 7, 7, 7, 7, 7::int] ! (q - 1) \<and>
    log_ok q ([4, 5, 5, 6, 6, 6, 6, 7, 7, 7, 7, 7, 7, 7, 7] ! (q - 1) - 4)"
  by code_simp

lemma kLogTable_log:
  assumes n: "1 \<le> n" "n < 256"
  shows "0 \<le> kLogTable ! n \<and> 2 ^ nat (kLogTable ! n) \<le> n \<and> n < 2 ^ Suc (nat (kLogTable ! n))"
proof (cases "n < 16")
  case True
  define t :: "int list" where "t = [-1, 0, 1, 1, 2, 2, 2, 2, 3, 3, 3, 3, 3, 3, 3, 3]"
  have "n < length t" using True by (simp add: t_def)
  then have "kLogTable ! n = t ! n"
    unfolding kLogTable_blocks t_def [symmetric] by (simp only: nth_append if_True)
  with small_logs [folded t_def] n(1) True show ?thesis by (simp add: log_ok_def)
next
  case False
  define t :: "int list" where "t = [-1, 0, 1, 1, 2, 2, 2, 2, 3, 3, 3, 3, 3, 3, 3, 3]"
  define u :: "int list" where "u = [4, 5, 5, 6, 6, 6, 6, 7, 7, 7, 7, 7, 7, 7, 7]"
  define q where "q = n div 16"
  have q: "1 \<le> q" "q < 16" using n False by (auto simp: q_def)
  have len: "length t = 16" "length u = 15" by (simp_all add: t_def u_def)
  have "kLogTable ! n = concat (map LT u) ! (n - 16)"
    unfolding kLogTable_blocks t_def [symmetric] u_def [symmetric] using False len by (simp only: nth_append if_False)
  also have "\<dots> = u ! ((n - 16) div 16)" using n(2) False len by (intro nth_LT) simp
  also have "(n - 16) div 16 = q - 1" using False le_div_geq [of 16 n] by (simp add: q_def)
  finally have k: "kLogTable ! n = u ! (q - 1)" .
  have t: "4 \<le> kLogTable ! n" "log_ok q (kLogTable ! n - 4)"
    unfolding k using block_logs [folded u_def] q by simp_all
  define r where "r = nat (kLogTable ! n - 4)"
  have e: "nat (kLogTable ! n) = 4 + r" using t(1) by (simp add: r_def)
  have "2 ^ r \<le> n div 2 ^ 4" "n div 2 ^ 4 < 2 ^ Suc r" using t(2) by (simp_all add: log_ok_def r_def q_def)
  from scaled_log [OF this] show ?thesis using t(1) unfolding e by simp
qed

lemma table_log_ok:
  assumes "0 \<le> b" "i \<noteq> 0" "unat i < 256"
  shows "\<exists>r. table_log b i = Ret (nat b + r) \<and> 2 ^ r \<le> unat i \<and> unat i < 2 ^ Suc r"
proof -
  have "1 \<le> unat i" using assms(2) by (simp add: Suc_le_eq unat_gt_0)
  note t = kLogTable_log [OF this assms(3)]
  then show ?thesis using assms
    by (intro exI [of _ "nat (kLogTable ! unat i)"]) (simp add: table_log_def nat_add_distrib)
qed

lemma UpperLog2_floor:
  assumes "x \<noteq> 0" "unat x < 2 ^ 32"
  shows "\<exists>r. UpperLog2 x = Ret (if push_bit r 1 < x then r + 1 else r) \<and> 2 ^ r \<le> unat x \<and> unat x < 2 ^ Suc r"
proof -
  have u: "unat (drop_bit k x) = unat x div 2 ^ k" for k by (simp only: unat_drop_bit_eq drop_bit_eq_div [of k "unat x"])
  have u2: "unat (drop_bit 8 (drop_bit 16 x)) = unat x div 2 ^ 24" by (simp add: u)
  have z: "drop_bit k x = 0 \<longleftrightarrow> unat x < 2 ^ k" for k
    using u [of k] by (simp add: unat_eq_zero [symmetric] div_eq_0_iff)
  consider "unat x < 2 ^ 8" | "2 ^ 8 \<le> unat x" "unat x < 2 ^ 16" | "2 ^ 16 \<le> unat x" "unat x < 2 ^ 24"
    | "2 ^ 24 \<le> unat x" by linarith
  then show ?thesis
  proof cases
    case 1
    then have "drop_bit 16 x = 0" "drop_bit 8 x = 0" by (simp_all add: z)
    then show ?thesis using table_log_ok [of 0 x] 1 assms by (auto simp: UpperLog2_def)
  next
    case 2
    have e: "drop_bit 16 x = 0" "drop_bit 8 x \<noteq> 0" using 2 by (simp_all add: z)
    have "unat (drop_bit 8 x) < 256" using 2 by (simp add: u div_less_iff_less_mult)
    from table_log_ok [OF _ e(2) this, of 8] obtain r where
      "table_log 8 (drop_bit 8 x) = Ret (8 + r)" "2 ^ r \<le> unat x div 2 ^ 8" "unat x div 2 ^ 8 < 2 ^ Suc r"
      by (auto simp: u)
    then show ?thesis using e scaled_log [of r "unat x" 8]
      by (intro exI [of _ "8 + r"]) (simp add: UpperLog2_def)
  next
    case 3
    have e: "drop_bit 16 x \<noteq> 0" "drop_bit 8 (drop_bit 16 x) = 0"
      using 3 z [of 24] by (simp_all add: z)
    have "unat (drop_bit 16 x) < 256" using 3 by (simp add: u div_less_iff_less_mult)
    from table_log_ok [OF _ e(1) this, of 16] obtain r where
      "table_log 16 (drop_bit 16 x) = Ret (16 + r)" "2 ^ r \<le> unat x div 2 ^ 16" "unat x div 2 ^ 16 < 2 ^ Suc r"
      by (auto simp: u)
    then show ?thesis using e scaled_log [of r "unat x" 16]
      by (intro exI [of _ "16 + r"]) (simp add: UpperLog2_def)
  next
    case 4
    have e: "drop_bit 16 x \<noteq> 0" "drop_bit 8 (drop_bit 16 x) \<noteq> 0"
      using 4 z [of 24] by (simp_all add: z)
    have "unat (drop_bit 8 (drop_bit 16 x)) < 256" unfolding u2 using assms(2) by (simp add: div_less_iff_less_mult)
    from table_log_ok [OF _ e(2) this, of 24] obtain r where
      "table_log 24 (drop_bit 8 (drop_bit 16 x)) = Ret (24 + r)" "2 ^ r \<le> unat x div 2 ^ 24"
      "unat x div 2 ^ 24 < 2 ^ Suc r" unfolding u2 by auto
    then show ?thesis using e scaled_log [of r "unat x" 24]
      by (intro exI [of _ "24 + r"]) (simp add: UpperLog2_def)
  qed
qed

lemma push_bit_1_less:
  "unat (x::u64) < 2 ^ 32 \<Longrightarrow> 2 ^ r \<le> unat x \<Longrightarrow> push_bit r 1 < x \<longleftrightarrow> 2 ^ r < unat x"
proof -
  assume "unat x < 2 ^ 32" "2 ^ r \<le> unat x"
  then have "(2::nat) ^ r < 2 ^ 32" by linarith
  then have "r < 32" by (rule power_less_imp_less_exp [rotated]) simp
  then have "unat (push_bit r (1::u64)) = 2 ^ r" by (simp add: unat_pow2)
  then show ?thesis by (simp add: word_less_nat_alt)
qed

lemma UpperLog2_ceil:
  assumes "x \<noteq> 0" "unat x < 2 ^ 32"
  shows "\<exists>r. UpperLog2 x = Ret r \<and> unat x \<le> 2 ^ r \<and> (\<forall>r'. unat x \<le> 2 ^ r' \<longrightarrow> r \<le> r')"
proof -
  obtain r where r: "UpperLog2 x = Ret (if push_bit r 1 < x then r + 1 else r)" "2 ^ r \<le> unat x"
    "unat x < 2 ^ Suc r" using UpperLog2_floor [OF assms] by blast
  note lt = push_bit_1_less [OF assms(2) r(2)]
  show ?thesis
  proof (cases "2 ^ r < unat x")
    case True
    have "r < r'" if "unat x \<le> 2 ^ r'" for r'
    proof -
      have "(2::nat) ^ r < 2 ^ r'" using True that by linarith
      then show ?thesis by simp
    qed
    then show ?thesis using True lt r by (intro exI [of _ "r + 1"]) (auto simp: Suc_le_eq)
  next
    case False
    then have "unat x = 2 ^ r" using r(2) by simp
    then have "r \<le> r'" if "unat x \<le> 2 ^ r'" for r'
      using that by (metis one_less_numeral_iff power_le_imp_le_exp semiring_norm(76))
    moreover have "UpperLog2 x = Ret r" using False lt r(1) by simp
    ultimately show ?thesis using \<open>unat x = 2 ^ r\<close> by (intro exI [of _ r]) simp
  qed
qed

lemma slab_class_ok:
  assumes "bytes \<noteq> 0" "unat bytes \<le> 2 ^ 20"
  shows "\<exists>c. slab_class bytes = Ret c \<and> 3 \<le> c \<and> c \<le> 20 \<and> unat bytes \<le> 2 ^ c \<and>
    (c = 3 \<or> (\<forall>r. unat bytes \<le> 2 ^ r \<longrightarrow> c \<le> r))"
proof -
  have lt: "unat bytes < 2 ^ 32" by (rule le_less_trans [OF assms(2)]) simp
  obtain r where r: "UpperLog2 bytes = Ret r" "unat bytes \<le> 2 ^ r" "\<And>r'. unat bytes \<le> 2 ^ r' \<Longrightarrow> r \<le> r'"
    using UpperLog2_ceil [OF assms(1) lt] by blast
  have "r \<le> 20" using r(3) assms(2) by blast
  moreover have "unat bytes \<le> 2 ^ max 3 r" using r(2) by (rule order_trans) (simp add: max_def)
  ultimately show ?thesis using r
    by (intro exI [of _ "max 3 r"]) (auto simp: slab_class_def kMinSlabClass_def max_def)
qed

section \<open>The bump pointer\<close>

definition pow2_alignment :: "u64 \<Rightarrow> bool" where
  "pow2_alignment al \<longleftrightarrow> al \<in> set (map (\<lambda>k. push_bit k 1) [0..<9])"

lemma pow2_alignment_iff: "pow2_alignment al \<longleftrightarrow> (\<exists>k \<le> 8. al = push_bit k 1)"
proof -
  have "k < 9 \<longleftrightarrow> k \<le> 8" for k :: nat by auto
  then show ?thesis by (simp add: pow2_alignment_def image_iff Bex_def del: upt_rec_numeral)
qed

lemma and_not_mask: "e AND NOT (push_bit k 1 - 1) = push_bit k (drop_bit k e)" for e :: u64
proof -
  have "push_bit k 1 - 1 = (mask k :: u64)" by (simp add: mask_eq_decr_exp)
  moreover have "e AND NOT (mask k) = push_bit k (drop_bit k e)"
    by (rule bit_word_eqI) (auto simp: bit_simps)
  ultimately show ?thesis by simp
qed

lemma align_down: "unat (e AND NOT (push_bit k 1 - 1)) = unat e - unat e mod 2 ^ k" for e :: u64
proof -
  have "unat (take_bit k e) = unat e mod 2 ^ k" by (simp only: unsigned_take_bit_eq take_bit_eq_mod [of k "unat e"])
  moreover have "push_bit k (drop_bit k e) = e - take_bit k e"
    using bits_ident [of k e] by (metis add_diff_cancel_right')
  moreover have "take_bit k e \<le> e"
    by (simp add: word_le_nat_alt unsigned_take_bit_eq take_bit_nat_less_eq_self)
  ultimately show ?thesis unfolding and_not_mask by (simp add: unat_sub)
qed

lemma bump_target_unat:
  assumes "pow2_alignment al" "2 ^ 20 + 256 \<le> unat e" "unat b \<le> 2 ^ 20"
  shows "unat (bump_target e b al) + unat b + unat e mod unat al = unat e"
    "(unat (bump_target e b al) + unat b) mod unat al = 0"
proof -
  obtain k where k: "k \<le> 8" "al = push_bit k 1" using assms(1) by (auto simp: pow2_alignment_iff)
  have "(2::nat) ^ k \<le> 2 ^ 8" using k(1) by (intro power_increasing) auto
  then have k8: "(2::nat) ^ k \<le> 256" by simp
  have al: "unat al = 2 ^ k" using k by (simp add: unat_pow2)
  define e' where "e' = e AND NOT (al - 1)"
  have e': "unat e' = unat e - unat e mod 2 ^ k" unfolding e'_def k(2) by (rule align_down)
  have "unat e mod 2 ^ k < 2 ^ k" by simp
  then have m: "unat e mod 2 ^ k < 256" using k8 by linarith
  have le: "unat b \<le> unat e'" unfolding e' using assms(2,3) m by linarith
  then have d: "unat (bump_target e b al) = unat e' - unat b"
    by (simp add: bump_target_def e'_def [symmetric] unat_sub word_le_nat_alt)
  show "unat (bump_target e b al) + unat b + unat e mod unat al = unat e"
    using d le e' m assms(2) unfolding al by linarith
  have "unat (bump_target e b al) + unat b = unat e - unat e mod 2 ^ k" using d le e' by simp
  then show "(unat (bump_target e b al) + unat b) mod unat al = 0"
    by (simp add: al minus_mod_eq_mult_div)
qed

section \<open>Concurrent allocation\<close>

text \<open>
  The bump loop of several threads: each loads the head, computes its target and retries the
  compare-and-swap. \<open>sh_allocs\<close> is the history of blocks handed out, the last one first.
\<close>

datatype bump_pc = Idle | Trying u64 u64 u64  \<comment> \<open>bytes, alignment, the expected head\<close>

record shared =
  sh_head :: u64
  sh_allocs :: "(u64 \<times> u64) list"
  sh_pc :: "nat \<Rightarrow> bump_pc"

definition valid_request :: "u64 \<Rightarrow> u64 \<Rightarrow> bool" where
  "valid_request b al \<longleftrightarrow> pow2_alignment al \<and> al \<le> b \<and> unat b \<le> 2 ^ 20"

inductive bump_step :: "u64 \<Rightarrow> shared \<Rightarrow> shared \<Rightarrow> bool" for raw :: u64 where
  bump_load: "sh_pc s t = Idle \<Longrightarrow> valid_request b al \<Longrightarrow>
    bump_step raw s (s\<lparr>sh_pc := (sh_pc s)(t := Trying b al (sh_head s))\<rparr>)"
| bump_oom: "sh_pc s t = Trying b al e \<Longrightarrow> bump_target e b al < raw \<Longrightarrow>
    bump_step raw s (s\<lparr>sh_pc := (sh_pc s)(t := Idle)\<rparr>)"
| bump_cas_ok: "sh_pc s t = Trying b al e \<Longrightarrow> \<not> bump_target e b al < raw \<Longrightarrow> sh_head s = e \<Longrightarrow>
    bump_step raw s (s\<lparr>sh_head := bump_target e b al, sh_allocs := (bump_target e b al, b) # sh_allocs s,
      sh_pc := (sh_pc s)(t := Idle)\<rparr>)"
| bump_cas_fail: "sh_pc s t = Trying b al e \<Longrightarrow> \<not> bump_target e b al < raw \<Longrightarrow> sh_head s \<noteq> e \<Longrightarrow>
    bump_step raw s (s\<lparr>sh_pc := (sh_pc s)(t := Trying b al (sh_head s))\<rparr>)"

definition bump_init :: "u64 \<Rightarrow> shared" where
  "bump_init top_addr = \<lparr>sh_head = top_addr, sh_allocs = [], sh_pc = (\<lambda>_. Idle)\<rparr>"

text \<open>Blocks, newest first, lie one below the other between the head and the top of the arena.\<close>

fun stacked :: "nat \<Rightarrow> (u64 \<times> u64) list \<Rightarrow> nat \<Rightarrow> bool" where
  "stacked lo [] hi \<longleftrightarrow> lo \<le> hi"
| "stacked lo ((d, b) # bs) hi \<longleftrightarrow> lo = unat d \<and> (\<exists>lo'. unat d + unat b \<le> lo' \<and> stacked lo' bs hi)"

definition bump_inv :: "u64 \<Rightarrow> u64 \<Rightarrow> shared \<Rightarrow> bool" where
  "bump_inv raw top_addr s \<longleftrightarrow> raw \<le> sh_head s \<and> stacked (unat (sh_head s)) (sh_allocs s) (unat top_addr) \<and>
     (\<forall>t b al e. sh_pc s t = Trying b al e \<longrightarrow> valid_request b al \<and> raw \<le> e)"

lemma bump_init_inv: "raw \<le> top_addr \<Longrightarrow> bump_inv raw top_addr (bump_init top_addr)"
  by (simp add: bump_inv_def bump_init_def)

lemma bump_step_inv:
  assumes "bump_step raw s s'" "bump_inv raw top_addr s" "2 ^ 20 + 256 \<le> unat raw"
  shows "bump_inv raw top_addr s'"
  using assms
proof (cases rule: bump_step.cases)
  case (bump_cas_ok t b al e)
  have v: "valid_request b al" "raw \<le> e" using assms(2) bump_cas_ok(2) by (auto simp: bump_inv_def)
  have "unat (bump_target e b al) + unat b \<le> unat e"
    using bump_target_unat(1) [of al e b] v assms(3) by (simp add: valid_request_def word_le_nat_alt)
  then show ?thesis using assms(2) bump_cas_ok
    by (auto simp: bump_inv_def not_less split: if_splits)
qed (auto simp: bump_inv_def split: if_splits)

lemma bump_reachable_inv:
  assumes "(bump_step raw)\<^sup>*\<^sup>* (bump_init top_addr) s" "raw \<le> top_addr" "2 ^ 20 + 256 \<le> unat raw"
  shows "bump_inv raw top_addr s"
  using assms(1) by (induction rule: rtranclp_induct) (use assms bump_init_inv bump_step_inv in auto)

lemma stacked_bounds: "stacked lo bs hi \<Longrightarrow> lo \<le> hi"
  by (induction lo bs hi rule: stacked.induct) fastforce+

lemma stacked_above: "stacked lo bs hi \<Longrightarrow> (d, b) \<in> set bs \<Longrightarrow> lo \<le> unat d \<and> unat d + unat b \<le> hi"
proof (induction lo bs hi rule: stacked.induct)
  case (2 lo d' b' bs hi)
  then obtain lo' where lo': "unat d' + unat b' \<le> lo'" "stacked lo' bs hi" "lo = unat d'" by auto
  show ?case
  proof (cases "(d, b) = (d', b')")
    case True
    then show ?thesis using lo' stacked_bounds [OF lo'(2)] by simp
  next
    case False
    then show ?thesis using 2(1) [OF lo'(2)] 2(3) lo' by auto
  qed
qed simp

definition disjoint_blocks :: "u64 \<times> u64 \<Rightarrow> u64 \<times> u64 \<Rightarrow> bool" where
  "disjoint_blocks x y \<longleftrightarrow> unat (fst x) + unat (snd x) \<le> unat (fst y) \<or> unat (fst y) + unat (snd y) \<le> unat (fst x)"

lemma stacked_disjoint:
  "stacked lo bs hi \<Longrightarrow> i < j \<Longrightarrow> j < length bs \<Longrightarrow> disjoint_blocks (bs ! i) (bs ! j)"
proof (induction lo bs hi arbitrary: i j rule: stacked.induct)
  case (2 lo d b bs hi)
  then obtain lo' where lo': "unat d + unat b \<le> lo'" "stacked lo' bs hi" by auto
  obtain j' where j: "j = Suc j'" "j' < length bs" using 2(3,4) by (cases j) auto
  show ?case
  proof (cases i)
    case 0
    have "lo' \<le> unat (fst (bs ! j'))"
      using stacked_above [OF lo'(2), of "fst (bs ! j')" "snd (bs ! j')"] j(2) by simp
    then show ?thesis using 0 j lo' by (simp add: disjoint_blocks_def)
  next
    case (Suc i')
    then show ?thesis using 2(1) [OF lo'(2), of i' j'] 2(3) j by simp
  qed
qed simp

section \<open>Properties\<close>

text \<open>
  \<open>UpperLog2\<close> computes the rounded-up binary logarithm for every positive size below
  \<open>2^32\<close>: the least \<open>r\<close> with \<open>x \<le> 2^r\<close>, without an index outside its table.
\<close>

theorem upper_log2_ceiling:
  assumes "x \<noteq> 0" "unat x < 2 ^ 32"
  shows "\<exists>r. UpperLog2 x = Ret r \<and> unat x \<le> 2 ^ r \<and> (\<forall>r'. unat x \<le> 2 ^ r' \<longrightarrow> r \<le> r')"
  by (rule UpperLog2_ceil [OF assms])

lemma upper_log2_ceiling_witness: "\<exists>r. UpperLog2 100 = Ret r \<and> (100::nat) \<le> 2 ^ r \<and> r \<le> 7"
proof -
  obtain r where "UpperLog2 100 = Ret r" "unat (100::u64) \<le> 2 ^ r"
    "\<And>r'. unat (100::u64) \<le> 2 ^ r' \<Longrightarrow> r \<le> r'"
    using upper_log2_ceiling [of 100] by auto
  then show ?thesis using \<open>\<And>r'. unat (100::u64) \<le> 2 ^ r' \<Longrightarrow> r \<le> r'\<close> [of 7] by auto
qed

text \<open>
  C10. Under any interleaving of the threads' compare-and-swap loops the blocks handed out are
  pairwise disjoint and lie inside the arena, above its current head.
\<close>

theorem concurrent_blocks_disjoint:
  assumes "(bump_step raw)\<^sup>*\<^sup>* (bump_init top_addr) s" "raw \<le> top_addr" "2 ^ 20 + 256 \<le> unat raw"
    and "i < j" "j < length (sh_allocs s)"
  shows "disjoint_blocks (sh_allocs s ! i) (sh_allocs s ! j) \<and>
    (\<forall>(d, b) \<in> set (sh_allocs s). unat raw \<le> unat (sh_head s) \<and> unat (sh_head s) \<le> unat d \<and>
      unat d + unat b \<le> unat top_addr)"
proof -
  have i: "raw \<le> sh_head s" "stacked (unat (sh_head s)) (sh_allocs s) (unat top_addr)"
    using bump_reachable_inv [OF assms(1-3)] by (auto simp: bump_inv_def)
  then show ?thesis
    using stacked_disjoint [OF i(2) assms(4,5)] stacked_above [OF i(2)] by (auto simp: word_le_nat_alt)
qed

lemma concurrent_blocks_disjoint_witness:
  "\<exists>s. (bump_step 0x200000)\<^sup>*\<^sup>* (bump_init 0x400000) s \<and> length (sh_allocs s) = 2 \<and>
    disjoint_blocks (sh_allocs s ! 0) (sh_allocs s ! 1)"
proof -
  define s1 where "s1 = (bump_init 0x400000)\<lparr>sh_pc := (\<lambda>_. Idle)(0 := Trying 128 64 0x400000)\<rparr>"
  define s2 where "s2 = s1\<lparr>sh_pc := (sh_pc s1)(1 := Trying 100 64 0x400000)\<rparr>"
  define s3 where "s3 = s2\<lparr>sh_head := 0x3FFF80, sh_allocs := [(0x3FFF80, 128)], sh_pc := (sh_pc s2)(0 := Idle)\<rparr>"
  define s4 where "s4 = s3\<lparr>sh_pc := (sh_pc s3)(1 := Trying 100 64 0x3FFF80)\<rparr>"
  define s5 where "s5 = s4\<lparr>sh_head := 0x3FFF1C, sh_allocs := [(0x3FFF1C, 100), (0x3FFF80, 128)],
    sh_pc := (sh_pc s4)(1 := Idle)\<rparr>"
  have v: "valid_request 128 64" "valid_request 100 64"
    by (simp_all add: valid_request_def pow2_alignment_iff) (rule exI [of _ 6], simp)+
  have t: "bump_target 0x400000 128 64 = 0x3FFF80" "bump_target 0x400000 100 64 = 0x3FFF9C"
    "bump_target 0x3FFF80 100 64 = 0x3FFF1C" by (simp_all add: bump_target_def)
  have "bump_step 0x200000 (bump_init 0x400000) s1"
    using bump_load [of "bump_init 0x400000" 0 128 64] v by (simp add: s1_def bump_init_def)
  moreover have "bump_step 0x200000 s1 s2"
    using bump_load [of s1 1 100 64] v by (simp add: s2_def s1_def bump_init_def)
  moreover have "bump_step 0x200000 s2 s3"
    using bump_cas_ok [of s2 0 128 64 "0x400000" "0x200000"] t
    by (simp add: s3_def s2_def s1_def bump_init_def)
  moreover have "bump_step 0x200000 s3 s4"
    using bump_cas_fail [of s3 1 100 64 "0x400000" "0x200000"] t
    by (simp add: s4_def s3_def s2_def s1_def bump_init_def)
  moreover have "bump_step 0x200000 s4 s5"
    using bump_cas_ok [of s4 1 100 64 "0x3FFF80" "0x200000"] t
    by (simp add: s5_def s4_def s3_def s2_def s1_def bump_init_def)
  ultimately have r: "(bump_step 0x200000)\<^sup>*\<^sup>* (bump_init 0x400000) s5" by auto
  have "sh_allocs s5 = [(0x3FFF1C, 100), (0x3FFF80, 128)]" by (simp add: s5_def)
  then have "length (sh_allocs s5) = 2" by simp
  with concurrent_blocks_disjoint [OF r _ _ _ , of 0 1] r show ?thesis by auto
qed

text \<open>The classes of a request, and the allocation when the class has no reusable block.\<close>

lemma do_allocate_bump:
  assumes "b \<noteq> 0" "unat b \<le> 2 ^ 20" "al \<le> b" "al \<le> kMaxAlignment" "slab_class b = Ret c"
    and "ucast (tl_alignments th ! (c - 3)) AND al = 0"
  shows "do_allocate debug ar th b al = (let (ar', d) = bump ar b al in Ret (ar', th, d))"
proof -
  have "c \<le> 20" "3 \<le> c" using slab_class_ok [OF assms(1,2)] assms(5) by auto
  then have "c - 3 < kNumSlabClasses" by (simp add: kNumSlabClasses_def kMaxSlabClass_def kMinSlabClass_def)
  moreover have "\<not> b < al" using assms(3) by simp
  ultimately show ?thesis using assms by (simp add: do_allocate_def kMinSlabClass_def)
qed

lemma pow2_alignment_max: "pow2_alignment al \<Longrightarrow> al \<le> kMaxAlignment"
proof -
  assume "pow2_alignment al"
  then obtain k where k: "k \<le> 8" "al = 2 ^ k" by (auto simp: pow2_alignment_iff)
  have "(2::nat) ^ k \<le> 2 ^ 8" using k(1) by (intro power_increasing) auto
  then show ?thesis using k by (simp add: word_le_nat_alt unat_pow2 kMaxAlignment_def)
qed

text \<open>
  A new block lies below the old head and inside the arena, but it has the requested
  alignment only if the alignment divides the size: the code rounds the head down before it
  subtracts the size.
\<close>

theorem fresh_block_alignment:
  assumes "pow2_alignment al" "al \<le> b" "unat b \<le> 2 ^ 20" "2 ^ 20 + 256 \<le> unat (ar_raw ar)"
    and "ar_raw ar \<le> ar_head ar" and r: "do_allocate debug ar fresh_tls b al = Ret (ar', th, p)" "p \<noteq> 0"
  shows "ar_raw ar \<le> p \<and> ar_head ar' = p \<and> unat p + unat b \<le> unat (ar_head ar) \<and>
    (unat p mod unat al = 0 \<longleftrightarrow> unat b mod unat al = 0)"
proof -
  have al0: "al \<noteq> 0" using assms(1) by (auto simp: pow2_alignment_def)
  then have b0: "b \<noteq> 0" using assms(2) by auto
  obtain c where c: "slab_class b = Ret c" "3 \<le> c" "c \<le> 20" using slab_class_ok [OF b0 assms(3)] by blast
  have "tl_alignments fresh_tls ! (c - 3) = 0"
    using c by (simp add: fresh_tls_def kNumSlabClasses_def kMaxSlabClass_def kMinSlabClass_def del: replicate_Suc)
  then have "do_allocate debug ar fresh_tls b al = (let (ar', d) = bump ar b al in Ret (ar', fresh_tls, d))"
    by (intro do_allocate_bump [OF b0 assms(3,2) pow2_alignment_max [OF assms(1)] c(1)]) simp
  with r have d: "p = bump_target (ar_head ar) b al" "\<not> p < ar_raw ar" "ar' = ar\<lparr>ar_head := p\<rparr>"
    by (auto simp: bump_def Let_def split: if_splits)
  have "2 ^ 20 + 256 \<le> unat (ar_head ar)" using assms(4,5) by (simp add: word_le_nat_alt)
  note t = bump_target_unat [OF assms(1) this assms(3)]
  have "(unat p mod unat al = 0) = (unat b mod unat al = 0)"
    using t(2) unfolding d(1) mod_eq_0_iff_dvd by (metis dvd_add_right_iff dvd_add_left_iff)
  then show ?thesis using t(1) d by auto
qed

lemma fresh_block_alignment_witness:
  "\<exists>ar' th p. do_allocate True (make_arena 0x200000 0x200000 (\<lambda>_. 0)) fresh_tls 100 64 = Ret (ar', th, p) \<and>
    p \<noteq> 0 \<and> unat p mod 64 \<noteq> 0"
proof -
  let ?ar = "make_arena 0x200000 0x200000 (\<lambda>_. 0)"
  have p: "pow2_alignment 64" by (simp add: pow2_alignment_iff) (rule exI [of _ 6], simp)
  obtain c where c: "slab_class 100 = Ret c" "3 \<le> c" "c \<le> 20" using slab_class_ok [of 100] by auto
  have "tl_alignments fresh_tls ! (c - 3) = 0"
    using c by (simp add: fresh_tls_def kNumSlabClasses_def kMaxSlabClass_def kMinSlabClass_def del: replicate_Suc)
  then have "do_allocate True ?ar fresh_tls 100 64 = (let (ar', d) = bump ?ar 100 64 in Ret (ar', fresh_tls, d))"
    by (intro do_allocate_bump [OF _ _ _ pow2_alignment_max [OF p] c(1)]) simp_all
  then have r: "do_allocate True ?ar fresh_tls 100 64 = Ret (?ar\<lparr>ar_head := 0x3FFF9C\<rparr>, fresh_tls, 0x3FFF9C)"
    by (simp add: bump_def bump_target_def make_arena_def)
  have "(unat (0x3FFF9C::u64) mod unat (64::u64) = 0) = (unat (100::u64) mod unat (64::u64) = 0)"
    using fresh_block_alignment [OF p _ _ _ _ r] by (simp add: make_arena_def)
  with r show ?thesis by auto
qed

lemma alignment_bit:
  fixes A :: u8
  assumes "k < 8"
  shows "ucast (ucast (ucast A OR push_bit k 1 :: u64) :: u8) AND (push_bit k 1 :: u64) \<noteq> 0"
proof
  assume "ucast (ucast (ucast A OR push_bit k 1 :: u64) :: u8) AND (push_bit k 1 :: u64) = 0"
  then have "bit (ucast (ucast (ucast A OR push_bit k 1 :: u64) :: u8) AND (push_bit k 1 :: u64)) k = False"
    by simp
  then show False using assms by (simp add: bit_simps del: push_bit_of_1)
qed

definition tls_ok :: "tls \<Rightarrow> bool" where
  "tls_ok th \<longleftrightarrow> length (tl_alignments th) = kNumSlabClasses \<and> length (tl_freelists th) = kNumSlabClasses"

lemma do_deallocate_class:
  assumes "slab_class b = Ret c" "3 \<le> c" "c \<le> 20"
  shows "do_deallocate th p b al = Ret (th\<lparr>
    tl_alignments := (tl_alignments th)[c - 3 := ucast (ucast (tl_alignments th ! (c - 3)) OR al)],
    tl_freelists := (tl_freelists th)[c - 3 := tl_freelists th ! (c - 3) @ [(al, p)]]\<rparr>)"
  using assms by (simp add: do_deallocate_def Let_def kMinSlabClass_def kNumSlabClasses_def kMaxSlabClass_def)

text \<open>
  A freed block is handed out again to the next request of the same size and alignment, but
  it is cleared up to the full size of its class: when the size is no power of two, bytes above
  the block are zeroed, which belong to the block allocated before it.
\<close>

theorem reuse_clears_whole_class:
  assumes "pow2_alignment al" "al < 256" "al \<le> b" "unat b \<le> 2 ^ 20" "tls_ok th"
    and c: "slab_class b = Ret c" and free: "tl_freelists th ! (c - 3) = []"
    and d: "do_deallocate th p b al = Ret th1"
  shows "\<exists>th2 ar2. do_allocate debug ar th1 b al = Ret (ar2, th2, p) \<and>
    tl_freelists th2 ! (c - 3) = [] \<and> ar2 = ar\<lparr>ar_mem := memset0 (ar_mem ar) p (2 ^ c)\<rparr> \<and>
    (unat b < 2 ^ c \<longrightarrow> ar_mem ar2 (p + b) = 0)"
proof -
  obtain k where k: "k \<le> 8" "al = push_bit k 1" using assms(1) by (auto simp: pow2_alignment_iff)
  have "k \<noteq> 8" using assms(2) k(2) by auto
  then have k8: "k < 8" using k(1) by simp
  have al0: "al \<noteq> 0" using k assms(1) by (auto simp: pow2_alignment_def)
  then have b0: "b \<noteq> 0" using assms(3) by auto
  have c20: "3 \<le> c" "c \<le> 20" using slab_class_ok [OF b0 assms(4)] c by auto
  have idx: "c - 3 < kNumSlabClasses" "c - 3 < length (tl_alignments th)" "c - 3 < length (tl_freelists th)"
    using c20 assms(5) by (auto simp: tls_ok_def kNumSlabClasses_def kMaxSlabClass_def kMinSlabClass_def)
  have th1: "tl_alignments th1 ! (c - 3) = ucast (ucast (tl_alignments th ! (c - 3)) OR al)"
    "tl_freelists th1 ! (c - 3) = [(al, p)]" "length (tl_freelists th1) = length (tl_freelists th)"
    using d do_deallocate_class [OF c c20, of th p al] idx free by auto
  have bitset: "ucast (tl_alignments th1 ! (c - 3)) AND al \<noteq> 0"
    unfolding th1(1) k(2) by (rule alignment_bit [OF k8])
  have "\<not> b < al" using assms(3) by simp
  then have r: "do_allocate debug ar th1 b al = Ret (ar\<lparr>ar_mem := memset0 (ar_mem ar) p (2 ^ c)\<rparr>,
      th1\<lparr>tl_freelists := (tl_freelists th1)[c - 3 := []],
        tl_alignments := (tl_alignments th1)[c - 3 := ucast (ucast (tl_alignments th1 ! (c - 3)) AND NOT al)]\<rparr>, p)"
    using c idx(1) bitset th1(2) pow2_alignment_max [OF assms(1)]
    by (simp add: do_allocate_def Let_def kMinSlabClass_def)
  have "memset0 (ar_mem ar) p (2 ^ c) (p + b) = 0" if "unat b < 2 ^ c"
    using that by (simp add: memset0_def)
  then show ?thesis using r idx th1(3) by simp
qed

lemma reuse_clears_whole_class_witness:
  "\<exists>th1 th2 ar2. do_deallocate fresh_tls 0x3FFF9C 100 64 = Ret th1 \<and>
    do_allocate True (make_arena 0x200000 0x200000 (\<lambda>_. 1)) th1 100 64 = Ret (ar2, th2, 0x3FFF9C) \<and>
    ar_mem ar2 0x400000 = 0"
proof -
  have p: "pow2_alignment 64" by (simp add: pow2_alignment_iff) (rule exI [of _ 6], simp)
  obtain c where c: "slab_class 100 = Ret c" "3 \<le> c" "c \<le> 20" "unat (100::u64) \<le> 2 ^ c"
    using slab_class_ok [of 100] by auto
  have "(100::nat) \<noteq> 2 ^ c"
  proof
    assume "(100::nat) = 2 ^ c"
    then have "(2::nat) ^ 6 < 2 ^ c" "(2::nat) ^ c < 2 ^ 7" by simp_all
    then have "6 < c" "c < 7" by (simp_all only: power_strict_increasing_iff)
    then show False by simp
  qed
  then have lt: "unat (100::u64) < 2 ^ c" using c(4) by simp
  have f: "tl_freelists fresh_tls ! (c - 3) = []"
    using c by (simp add: fresh_tls_def kNumSlabClasses_def kMaxSlabClass_def kMinSlabClass_def del: replicate_Suc)
  have ok: "tls_ok fresh_tls" by (simp add: tls_ok_def fresh_tls_def)
  obtain th1 where d: "do_deallocate fresh_tls 0x3FFF9C 100 64 = Ret th1"
    using do_deallocate_class [OF c(1-3)] by blast
  have e: "(0x3FFF9C::u64) + 100 = 0x400000" by simp
  from reuse_clears_whole_class [OF p _ _ _ ok c(1) f d, of True "make_arena 0x200000 0x200000 (\<lambda>_. 1)"] lt d e
  show ?thesis by auto
qed

text \<open>
  A freed block that is smaller than its alignment is lost: \<open>do_allocate\<close> raises the size to
  the alignment before it chooses the class, \<open>do_deallocate\<close> does not, so the next request of the
  same size and alignment takes new memory from the head.
\<close>

theorem small_blocks_leak:
  assumes "pow2_alignment al" "b \<noteq> 0" "b < al" "tls_ok th"
    and "slab_class b = Ret c" "slab_class al = Ret c'" "c < c'"
    and "ucast (tl_alignments th ! (c' - 3)) AND al = 0"
  shows "\<exists>th1. do_deallocate th p b al = Ret th1 \<and> (al, p) \<in> set (tl_freelists th1 ! (c - 3)) \<and>
    do_allocate debug ar th1 b al = (let (ar', d) = bump ar al al in Ret (ar', th1, d))"
proof -
  obtain k where k: "k \<le> 8" "al = 2 ^ k" using assms(1) by (auto simp: pow2_alignment_iff)
  have "(2::nat) ^ k \<le> 2 ^ 8" using k(1) by (intro power_increasing) auto
  then have al: "unat al \<le> 2 ^ 20" using k by (simp add: unat_pow2)
  have al0: "al \<noteq> 0" using assms(3) by auto
  have bu: "unat b \<le> 2 ^ 20" using al assms(3) by (simp add: word_less_nat_alt)
  have c: "3 \<le> c" "c \<le> 20" using slab_class_ok [OF assms(2) bu] assms(5) by auto
  define th1 where "th1 = th\<lparr>
    tl_alignments := (tl_alignments th)[c - 3 := ucast (ucast (tl_alignments th ! (c - 3)) OR al)],
    tl_freelists := (tl_freelists th)[c - 3 := tl_freelists th ! (c - 3) @ [(al, p)]]\<rparr>"
  have d: "do_deallocate th p b al = Ret th1"
    unfolding th1_def by (rule do_deallocate_class [OF assms(5) c])
  have "c - 3 < length (tl_freelists th)"
    using c assms(4) by (auto simp: tls_ok_def kNumSlabClasses_def kMaxSlabClass_def kMinSlabClass_def)
  then have "(al, p) \<in> set (tl_freelists th1 ! (c - 3))" by (simp add: th1_def)
  moreover have "tl_alignments th1 ! (c' - 3) = tl_alignments th ! (c' - 3)"
    using assms(7) c by (simp add: th1_def)
  then have "do_allocate debug ar th1 al al = (let (ar', d) = bump ar al al in Ret (ar', th1, d))"
    using assms(8) by (intro do_allocate_bump [OF al0 al order_refl pow2_alignment_max [OF assms(1)] assms(6)]) simp
  moreover have "do_allocate debug ar th1 b al = do_allocate debug ar th1 al al"
    using assms(3) by (simp add: do_allocate_def)
  ultimately show ?thesis using d by auto
qed

lemma small_blocks_leak_witness:
  "\<exists>th1. ra_deallocate fresh_tls 0x3FFFC0 8 1 = Ret th1 \<and>
    ra_allocate True (make_arena 0x200000 0x1FFFC0 (\<lambda>_. 0)) th1 8 1 =
      Ret ((make_arena 0x200000 0x1FFFC0 (\<lambda>_. 0))\<lparr>ar_head := 0x3FFF80\<rparr>, th1, 0x3FFF80)"
proof -
  have p: "pow2_alignment 64" by (simp add: pow2_alignment_iff) (rule exI [of _ 6], simp)
  have cls: "slab_class 8 = Ret 3" "slab_class 64 = Ret 6" by code_simp+
  have z: "tl_alignments fresh_tls ! (6 - 3) = 0"
    by (simp add: fresh_tls_def kNumSlabClasses_def kMaxSlabClass_def kMinSlabClass_def del: replicate_Suc)
  have ok: "tls_ok fresh_tls" by (simp add: tls_ok_def fresh_tls_def)
  have "\<exists>th1. do_deallocate fresh_tls 0x3FFFC0 8 64 = Ret th1 \<and>
      (64, 0x3FFFC0) \<in> set (tl_freelists th1 ! (3 - 3)) \<and>
      do_allocate True (make_arena 0x200000 0x1FFFC0 (\<lambda>_. 0)) th1 8 64 =
        (let (ar', d) = bump (make_arena 0x200000 0x1FFFC0 (\<lambda>_. 0)) 64 64 in Ret (ar', th1, d))"
    using z by (intro small_blocks_leak [OF p _ _ ok cls]) simp_all
  then show ?thesis
    by (auto simp: ra_allocate_def ra_deallocate_def bump_def bump_target_def make_arena_def)
qed

end
