(* ===== verification/Memory_Pool.thy ===== *)
theory Memory_Pool
  imports Remote_Ptr Rmalloc
begin

text \<open>
  One-sided operations: \<open>MemoryPool\<close> of \<open>rome/rdma/memory_pool/memory_pool.h\<close> and
  \<open>memory_pool_impl.h\<close>, with its batches of work requests, and \<open>SyncRdmaAccessor\<close>. The local memory
  and the allocator are those of the remote allocator component; the memory of a peer is a function
  for each endpoint. What the adapter does with a work request, what \<open>ibv_post_send\<close> returns and the
  results of the calls of \<open>ibv_poll_cq\<close> are arguments; lemmas that rely on the adapter have its
  documented behaviour as a hypothesis. An object of type \<open>T\<close> is the list of its \<open>sizeof(T)\<close> bytes.
\<close>

section \<open>Work requests\<close>

type_synonym memory64 = "u64 \<Rightarrow> u8"

record sge =
  sge_addr :: u64
  sge_length :: u32
  sge_lkey :: u32

datatype opcode = WR_RDMA_WRITE | WR_RDMA_READ | WR_ATOMIC_CMP_AND_SWP

text \<open>The union \<open>wr\<close> of a request.\<close>

datatype wr_target = Wr_Rdma u64 u32 | Wr_Atomic u64 u32 u64 u64  \<comment> \<open>remote address, rkey; compare, swap\<close>

record send_wr =
  wr_id :: u64
  wr_sg_list :: "sge list"
  wr_opcode :: opcode
  wr_fence :: bool
  wr_signaled :: bool
  wr_target :: wr_target

definition zero_sge :: sge where
  "zero_sge = \<lparr>sge_addr = 0, sge_length = 0, sge_lkey = 0\<rparr>"

definition zero_wr :: send_wr where
  "zero_wr = \<lparr>wr_id = 0, wr_sg_list = [], wr_opcode = WR_RDMA_WRITE, wr_fence = False, wr_signaled = False,
     wr_target = Wr_Rdma 0 0\<rparr>"

text \<open>
  The adapter: its effect on the local memory and the memory of the peer, and the result of
  \<open>ibv_post_send\<close> for a chain of requests.
\<close>

record adapter =
  ad_exec :: "send_wr \<Rightarrow> memory64 \<Rightarrow> memory64 \<Rightarrow> memory64 \<times> memory64"
  ad_post :: "send_wr list \<Rightarrow> int"

text \<open>A call of \<open>ibv_poll_cq\<close>: no completion, \<open>EAGAIN\<close>, another error, a completion and its success.\<close>

datatype completion = Cq_Empty | Cq_Again | Cq_Error | Cq_Wc bool

section \<open>State\<close>

record conn_info =
  ci_conn :: nat
  ci_rkey :: u32
  ci_lkey :: u32

record peer =
  peer_id :: u16
  peer_address :: string
  peer_port :: u16

record pool =
  mp_self :: peer
  mp_prev :: u64
  mp_arena :: arena
  mp_tls :: tls
  mp_debug :: bool
  mp_lkey :: u32
  mp_conn_info :: "(u16 \<times> conn_info) list"
  mp_send_wr :: send_wr
  mp_rdma_per_read :: "int list"
  mp_remote :: "nat \<Rightarrow> memory64"

abbreviation local_mem :: "pool \<Rightarrow> memory64" where
  "local_mem p \<equiv> ar_mem (mp_arena p)"

definition set_local :: "memory64 \<Rightarrow> pool \<Rightarrow> pool" where
  "set_local m p = p\<lparr>mp_arena := (mp_arena p)\<lparr>ar_mem := m\<rparr>\<rparr>"

text \<open>\<open>unordered_map::at\<close> throws when the key is absent.\<close>

definition conn_info_at :: "pool \<Rightarrow> u64 \<Rightarrow> conn_info outcome" where
  "conn_info_at p i = (case map_of (mp_conn_info p) (ucast i) of None \<Rightarrow> Fault Assert_Fail | Some c \<Rightarrow> Ret c)"

definition store_block :: "memory64 \<Rightarrow> u64 \<Rightarrow> u8 list \<Rightarrow> memory64" where
  "store_block m a bs = (\<lambda>x. if unat (x - a) < length bs then bs ! unat (x - a) else m x)"

definition load_block :: "memory64 \<Rightarrow> u64 \<Rightarrow> nat \<Rightarrow> u8 list" where
  "load_block m a n = map (\<lambda>i. m (a + of_nat i)) [0..<n]"

text \<open>A 64-bit word in little-endian byte order.\<close>

definition bytes64 :: "u64 \<Rightarrow> u8 list" where
  "bytes64 v = map (\<lambda>i. ucast (drop_bit (8 * i) v)) [0..<8]"

definition word64 :: "u8 list \<Rightarrow> u64" where
  "word64 bs = foldr (\<lambda>b acc. push_bit 8 acc OR ucast b) bs 0"

abbreviation load64 :: "memory64 \<Rightarrow> u64 \<Rightarrow> u64" where
  "load64 m a \<equiv> word64 (load_block m a 8)"

section \<open>Allocation\<close>

definition Allocate :: "u64 \<Rightarrow> u64 \<Rightarrow> pool \<Rightarrow> (u64 \<times> pool) outcome" where
  "Allocate sizeof_T n p =
     bindO (ra_allocate (mp_debug p) (mp_arena p) (mp_tls p) sizeof_T n) (\<lambda>(ar, th, a).
       Ret (rp_make (peer_id (mp_self p)) a, p\<lparr>mp_arena := ar, mp_tls := th\<rparr>))"

definition Deallocate :: "u64 \<Rightarrow> u64 \<Rightarrow> u64 \<Rightarrow> pool \<Rightarrow> pool outcome" where
  "Deallocate sizeof_T rptr n p =
     assertO (rp_id rptr = ucast (peer_id (mp_self p)))
       (bindO (ra_deallocate (mp_tls p) (rp_address rptr) sizeof_T n) (\<lambda>th. Ret (p\<lparr>mp_tls := th\<rparr>)))"

definition or_allocate :: "u64 \<Rightarrow> u64 \<Rightarrow> pool \<Rightarrow> (u64 \<times> pool) outcome" where
  "or_allocate sizeof_T prealloc p = (if prealloc = rp_null then Allocate sizeof_T 1 p else Ret (prealloc, p))"

definition GetRemotePtr :: "u64 \<Rightarrow> pool \<Rightarrow> u64" where
  "GetRemotePtr a p = rp_make (peer_id (mp_self p)) a"

text \<open>The base of the region that \<open>Init\<close> registered.\<close>

definition GetBaseAddress :: "pool \<Rightarrow> u64" where
  "GetBaseAddress p = GetRemotePtr (ar_raw (mp_arena p)) p"

section \<open>Posting and polling\<close>

definition execute_wr :: "adapter \<Rightarrow> nat \<Rightarrow> send_wr \<Rightarrow> pool \<Rightarrow> pool" where
  "execute_wr ad conn wr p = (case ad_exec ad wr (local_mem p) (mp_remote p conn) of
     (l, r) \<Rightarrow> set_local l (p\<lparr>mp_remote := (mp_remote p)(conn := r)\<rparr>))"

definition post_send :: "adapter \<Rightarrow> nat \<Rightarrow> send_wr list \<Rightarrow> pool \<Rightarrow> pool outcome" where
  "post_send ad conn wrs p = assertO (ad_post ad wrs = 0) (Ret (fold (execute_wr ad conn) wrs p))"

text \<open>The wait for one completion; \<open>None\<close> when the polls end before it comes.\<close>

fun poll_retry :: "completion list \<Rightarrow> (bool \<times> completion list) option" where
  "poll_retry [] = None"
| "poll_retry (Cq_Empty # cs) = poll_retry cs"
| "poll_retry (Cq_Again # cs) = poll_retry cs"
| "poll_retry (Cq_Error # cs) = Some (False, cs)"
| "poll_retry (Cq_Wc ok # cs) = Some (ok, cs)"

text \<open>The wait of the reads, which does not retry on \<open>EAGAIN\<close>.\<close>

fun poll_once :: "completion list \<Rightarrow> (bool \<times> completion list) option" where
  "poll_once [] = None"
| "poll_once (Cq_Empty # cs) = poll_once cs"
| "poll_once (Cq_Again # cs) = Some (False, cs)"
| "poll_once (Cq_Error # cs) = Some (False, cs)"
| "poll_once (Cq_Wc ok # cs) = Some (ok, cs)"

lemma poll_retry_length: "poll_retry cs = Some (b, cs') \<Longrightarrow> length cs' < length cs"
  by (induction cs rule: poll_retry.induct) auto

text \<open>
  The wait with a kill switch: \<open>kills\<close> are the values of the switch that the loop and the test after it
  read. The result is whether the operation goes on; a bad completion is fatal unless the switch is on.
\<close>

fun poll_mortal :: "bool list \<Rightarrow> completion list \<Rightarrow> bool option" where
  "poll_mortal (k # ks) cs =
     (if k then (case ks of [] \<Rightarrow> None | k' # _ \<Rightarrow> Some k')
      else case cs of [] \<Rightarrow> None
        | Cq_Empty # cs' \<Rightarrow> poll_mortal ks cs'
        | Cq_Wc True # cs' \<Rightarrow> (case ks of [] \<Rightarrow> None | k' # _ \<Rightarrow> Some True)
        | _ # cs' \<Rightarrow> (case ks of [] \<Rightarrow> None | k' # _ \<Rightarrow> Some k'))"
| "poll_mortal [] cs = None"

section \<open>Reads\<close>

definition num_chunks :: "u64 \<Rightarrow> u64 \<Rightarrow> int" where
  "num_chunks bytes chunk =
     sint (ucast (if bytes mod chunk \<noteq> 0 then bytes div chunk + 1 else bytes div chunk) :: u32)"

definition chunk_length :: "u64 \<Rightarrow> u64 \<Rightarrow> nat \<Rightarrow> u32" where
  "chunk_length bytes chunk i =
     (if bytes mod chunk = 0 then ucast chunk
      else if int i = num_chunks bytes chunk - 1 then ucast (bytes mod chunk) else ucast chunk)"

definition read_request :: "u64 \<Rightarrow> u64 \<Rightarrow> u32 \<Rightarrow> u32 \<Rightarrow> u64 \<Rightarrow> u64 \<Rightarrow> u64 \<Rightarrow> nat \<Rightarrow> send_wr" where
  "read_request local remote lkey rkey offset bytes chunk i =
     (let chunk_offset = offset + of_nat i * chunk
      in \<lparr>wr_id = 0, wr_sg_list = [\<lparr>sge_addr = local + chunk_offset, sge_length = chunk_length bytes chunk i, sge_lkey = lkey\<rparr>],
          wr_opcode = WR_RDMA_READ, wr_fence = True, wr_signaled = (int i = num_chunks bytes chunk - 1),
          wr_target = Wr_Rdma (remote + chunk_offset) rkey\<rparr>)"

text \<open>
  \<open>ReadInternal\<close> leaves the field \<open>wr_id\<close> of its requests uninitialised; the model has 0 there. The
  memory after a read that the kill switch ends is the one that the adapter leaves when it is done.

  The two ways to wait: without a kill switch, or with the values read from it.\<close>

definition await_read :: "bool list option \<Rightarrow> completion list \<Rightarrow> bool option" where
  "await_read kill cs = (case kill of None \<Rightarrow> map_option fst (poll_once cs) | Some ks \<Rightarrow> poll_mortal ks cs)"

definition ReadInternal ::
  "adapter \<Rightarrow> completion list \<Rightarrow> u64 \<Rightarrow> u64 \<Rightarrow> u64 \<Rightarrow> u64 \<Rightarrow> u64 \<Rightarrow> bool list option \<Rightarrow> pool \<Rightarrow> pool run" where
  "ReadInternal ad cs rptr offset bytes chunk prealloc kill p =
     (if chunk = 0 then Some (Fault Undefined)
      else let n = num_chunks bytes chunk in
        bindR (Some (conn_info_at p (rp_id rptr))) (\<lambda>info.
        if n \<le> 0 then Some (Fault Undefined)
        else
          let wrs = map (read_request (rp_address prealloc) (rp_address rptr) (mp_lkey p) (ci_rkey info) offset bytes chunk) [0..<nat n]
          in bindR (Some (post_send ad (ci_conn info) wrs p)) (\<lambda>p1.
             case await_read kill cs of None \<Rightarrow> None
             | Some ok \<Rightarrow> Some (assertO ok (Ret (p1\<lparr>mp_rdma_per_read := mp_rdma_per_read p1 @ [n]\<rparr>))))))"

definition Read :: "adapter \<Rightarrow> completion list \<Rightarrow> u64 \<Rightarrow> u64 \<Rightarrow> u64 \<Rightarrow> bool list option \<Rightarrow> pool \<Rightarrow> (u64 \<times> pool) run" where
  "Read ad cs sizeof_T rptr prealloc kill p =
     bindR (Some (or_allocate sizeof_T prealloc p)) (\<lambda>(local, p1).
     bindR (ReadInternal ad cs rptr 0 sizeof_T sizeof_T local kill p1) (\<lambda>p2. Some (Ret (local, p2))))"

definition PartialRead :: "adapter \<Rightarrow> completion list \<Rightarrow> u64 \<Rightarrow> u64 \<Rightarrow> u64 \<Rightarrow> u64 \<Rightarrow> u64 \<Rightarrow> pool \<Rightarrow> (u64 \<times> pool) run" where
  "PartialRead ad cs sizeof_T rptr offset bytes prealloc p =
     bindR (Some (or_allocate sizeof_T prealloc p)) (\<lambda>(local, p1).
     bindR (ReadInternal ad cs rptr offset bytes sizeof_T local None p1) (\<lambda>p2. Some (Ret (local, p2))))"

section \<open>Writes\<close>

definition Write :: "adapter \<Rightarrow> completion list \<Rightarrow> u64 \<Rightarrow> u8 list \<Rightarrow> u64 \<Rightarrow> pool \<Rightarrow> pool run" where
  "Write ad cs rptr val prealloc p =
     (let sizeof_T = of_nat (length val) in
      bindR (Some (conn_info_at p (rp_id rptr))) (\<lambda>info.
      bindR (Some (if prealloc = rp_null
                   then bindO (ra_allocate (mp_debug p) (mp_arena p) (mp_tls p) sizeof_T 1) (\<lambda>(ar, th, a). Ret (a, p\<lparr>mp_arena := ar, mp_tls := th\<rparr>))
                   else Ret (rp_address prealloc, p))) (\<lambda>(local, p1).
      bindR (Some (assertO (local \<noteq> rp_address rptr) (if local = 0 then Fault Null_Deref else Ret ()))) (\<lambda>_.
      let p2 = set_local (store_block (memset0 (local_mem p1) local (length val)) local val) p1;
          wr = (mp_send_wr p2)\<lparr>wr_sg_list := [\<lparr>sge_addr = local, sge_length = of_nat (length val), sge_lkey = mp_lkey p2\<rparr>],
                 wr_opcode := WR_RDMA_WRITE, wr_fence := True, wr_signaled := True, wr_target := Wr_Rdma (rp_address rptr) (ci_rkey info)\<rparr>
      in bindR (Some (post_send ad (ci_conn info) [wr] (p2\<lparr>mp_send_wr := wr\<rparr>))) (\<lambda>p3.
         case poll_retry cs of None \<Rightarrow> None
         | Some (ok, _) \<Rightarrow>
             bindR (Some (if prealloc = rp_null
                          then bindO (ra_deallocate (mp_tls p3) local sizeof_T 1) (\<lambda>th. Ret (p3\<lparr>mp_tls := th\<rparr>)) else Ret p3)) (\<lambda>p4.
             Some (assertO ok (Ret p4))))))))"

section \<open>Atomic operations\<close>

definition cas_request :: "u64 \<Rightarrow> u32 \<Rightarrow> u64 \<Rightarrow> u32 \<Rightarrow> u64 \<Rightarrow> u64 \<Rightarrow> send_wr \<Rightarrow> send_wr" where
  "cas_request prev lkey remote rkey expected swap wr =
     wr\<lparr>wr_sg_list := [\<lparr>sge_addr = prev, sge_length = 8, sge_lkey = lkey\<rparr>], wr_opcode := WR_ATOMIC_CMP_AND_SWP,
        wr_fence := True, wr_signaled := True, wr_target := Wr_Atomic remote rkey expected swap\<rparr>"

text \<open>
  The loop of \<open>AtomicSwap\<close>. Between two attempts the other nodes may change the memory of the peer:
  \<open>others k\<close> is what they did before attempt \<open>k\<close>.
\<close>

definition interfere :: "(memory64 \<Rightarrow> memory64) \<Rightarrow> nat \<Rightarrow> pool \<Rightarrow> pool" where
  "interfere f conn p = p\<lparr>mp_remote := (mp_remote p)(conn := f (mp_remote p conn))\<rparr>"

function swap_loop ::
  "adapter \<Rightarrow> (nat \<Rightarrow> memory64 \<Rightarrow> memory64) \<Rightarrow> conn_info \<Rightarrow> u64 \<Rightarrow> u64 \<Rightarrow> completion list \<Rightarrow> nat \<Rightarrow> u64 \<Rightarrow> pool \<Rightarrow> (u64 \<times> pool) run" where
  "swap_loop ad others info remote swap cs k expected p =
     (let wr = cas_request (mp_prev p) (mp_lkey p) remote (ci_rkey info) expected swap (mp_send_wr p)
      in bindR (Some (post_send ad (ci_conn info) [wr] (interfere (others k) (ci_conn info) (p\<lparr>mp_send_wr := wr\<rparr>)))) (\<lambda>p1.
         case poll_retry cs of None \<Rightarrow> None
         | Some (ok, cs') \<Rightarrow>
             if \<not> ok then Some (Fault Assert_Fail)
             else let prev = load64 (local_mem p1) (mp_prev p1)
                  in if prev = expected then Some (Ret (prev, p1))
                     else swap_loop ad others info remote swap cs' (Suc k) prev p1))"
  by pat_completeness auto
termination
  by (relation "measure (\<lambda>(ad, others, info, remote, swap, cs, k, expected, p). length cs)") (auto dest: poll_retry_length)

declare swap_loop.simps [simp del]

definition AtomicSwap :: "adapter \<Rightarrow> (nat \<Rightarrow> memory64 \<Rightarrow> memory64) \<Rightarrow> completion list \<Rightarrow> u64 \<Rightarrow> u64 \<Rightarrow> u64 \<Rightarrow> pool \<Rightarrow> (u64 \<times> pool) run" where
  "AtomicSwap ad others cs rptr swap hint p =
     bindR (Some (conn_info_at p (rp_id rptr))) (\<lambda>info. swap_loop ad others info (rp_address rptr) swap cs 0 hint p)"

definition CompareAndSwap :: "adapter \<Rightarrow> completion list \<Rightarrow> u64 \<Rightarrow> u64 \<Rightarrow> u64 \<Rightarrow> pool \<Rightarrow> (u64 \<times> pool) run" where
  "CompareAndSwap ad cs rptr expected swap p =
     bindR (Some (conn_info_at p (rp_id rptr))) (\<lambda>info.
     let wr = cas_request (mp_prev p) (mp_lkey p) (rp_address rptr) (ci_rkey info) expected swap (mp_send_wr p)
     in bindR (Some (post_send ad (ci_conn info) [wr] (p\<lparr>mp_send_wr := wr\<rparr>))) (\<lambda>p1.
        case poll_retry cs of None \<Rightarrow> None
        | Some (ok, _) \<Rightarrow> Some (assertO ok (Ret (load64 (local_mem p1) (mp_prev p1), p1)))))"

section \<open>Batches\<close>

text \<open>
  A batch is an array of requests chained by their \<open>next\<close> fields, so the chain is the list; the last one is
  signaled. \<open>Add\<close> yields the index of the next free request, or a null pointer when the batch is full.
\<close>

record batch =
  db_conn_info :: conn_info
  db_size :: int
  db_capacity :: int
  db_wrs :: "send_wr list"
  db_mortal :: bool

definition DoorbellBatch :: "conn_info \<Rightarrow> int \<Rightarrow> batch outcome" where
  "DoorbellBatch info capacity =
     (if capacity \<le> 0 then Fault Undefined
      else Ret \<lparr>db_conn_info = info, db_size = 0, db_capacity = capacity,
                db_wrs = (replicate (nat capacity) zero_wr)[nat capacity - 1 := zero_wr\<lparr>wr_signaled := True\<rparr>],
                db_mortal = False\<rparr>)"

definition db_Add :: "nat \<Rightarrow> batch \<Rightarrow> nat option \<times> batch" where
  "db_Add num_sge b =
     (if db_size b = db_capacity b then (None, b)
      else let i = nat (db_size b)
           in (Some i, b\<lparr>db_wrs := (db_wrs b)[i := (db_wrs b ! i)\<lparr>wr_sg_list := replicate num_sge zero_sge\<rparr>],
                         db_size := db_size b + 1\<rparr>))"

definition SetKillSwitch :: "batch \<Rightarrow> batch" where
  "SetKillSwitch b = b\<lparr>db_mortal := True\<rparr>"

text \<open>A builder makes its batch for a peer; without a connection to the peer \<open>at\<close> throws.\<close>

definition DoorbellBatchBuilder :: "pool \<Rightarrow> u16 \<Rightarrow> int \<Rightarrow> batch outcome" where
  "DoorbellBatchBuilder p i num_ops = bindO (conn_info_at p (ucast i)) (\<lambda>info. DoorbellBatch info num_ops)"

definition AddKillSwitch :: "batch \<Rightarrow> batch" where
  "AddKillSwitch b = SetKillSwitch b"

text \<open>The request that the builder fills in, through the pointers of \<open>Add\<close>.\<close>

definition add_request :: "sge \<Rightarrow> opcode \<Rightarrow> bool \<Rightarrow> wr_target \<Rightarrow> batch \<Rightarrow> batch outcome" where
  "add_request sge opc fence target b =
     (case db_Add 1 b of
        (None, _) \<Rightarrow> Fault Null_Deref
      | (Some i, b1) \<Rightarrow>
          let wr = db_wrs b1 ! i
          in Ret (b1\<lparr>db_wrs := (db_wrs b1)[i := wr\<lparr>wr_sg_list := [sge], wr_opcode := opc, wr_fence := wr_fence wr \<or> fence,
                                                wr_target := target\<rparr>]\<rparr>))"

definition add_chunk :: "u64 \<Rightarrow> u64 \<Rightarrow> u64 \<Rightarrow> u64 \<Rightarrow> u64 \<Rightarrow> bool \<Rightarrow> nat \<Rightarrow> batch \<Rightarrow> batch outcome" where
  "add_chunk local remote offset bytes chunk fence i b =
     (let chunk_offset = offset + of_nat i * chunk
      in add_request \<lparr>sge_addr = local + chunk_offset, sge_length = chunk_length bytes chunk i, sge_lkey = ci_lkey (db_conn_info b)\<rparr>
           WR_RDMA_READ fence (Wr_Rdma (remote + chunk_offset) (ci_rkey (db_conn_info b))) b)"

fun add_chunks :: "u64 \<Rightarrow> u64 \<Rightarrow> u64 \<Rightarrow> u64 \<Rightarrow> u64 \<Rightarrow> bool \<Rightarrow> nat list \<Rightarrow> batch \<Rightarrow> batch outcome" where
  "add_chunks local remote offset bytes chunk fence [] b = Ret b"
| "add_chunks local remote offset bytes chunk fence (i # is) b =
     bindO (add_chunk local remote offset bytes chunk fence i b) (add_chunks local remote offset bytes chunk fence is)"

definition AddReadInternal :: "u64 \<Rightarrow> u64 \<Rightarrow> u64 \<Rightarrow> u64 \<Rightarrow> bool \<Rightarrow> u64 \<Rightarrow> batch \<Rightarrow> batch outcome" where
  "AddReadInternal rptr offset bytes chunk fence prealloc b =
     (if chunk = 0 then Fault Undefined
      else add_chunks (rp_address prealloc) (rp_address rptr) offset bytes chunk fence [0..<nat (num_chunks bytes chunk)] b)"

definition AddRead :: "u64 \<Rightarrow> u64 \<Rightarrow> bool \<Rightarrow> u64 \<Rightarrow> pool \<times> batch \<Rightarrow> (u64 \<times> pool \<times> batch) outcome" where
  "AddRead sizeof_T rptr fence prealloc = (\<lambda>(p, b).
     bindO (or_allocate sizeof_T prealloc p) (\<lambda>(local, p1).
     bindO (AddReadInternal rptr 0 sizeof_T sizeof_T fence local b) (\<lambda>b1. Ret (local, p1, b1))))"

definition AddPartialRead :: "u64 \<Rightarrow> u64 \<Rightarrow> u64 \<Rightarrow> u64 \<Rightarrow> bool \<Rightarrow> u64 \<Rightarrow> pool \<times> batch \<Rightarrow> (u64 \<times> pool \<times> batch) outcome" where
  "AddPartialRead sizeof_T rptr offset bytes fence prealloc = (\<lambda>(p, b).
     bindO (or_allocate sizeof_T prealloc p) (\<lambda>(local, p1).
     bindO (AddReadInternal rptr offset bytes bytes fence local b) (\<lambda>b1. Ret (local, p1, b1))))"

definition AddWriteBytes :: "u64 \<Rightarrow> u64 \<Rightarrow> int \<Rightarrow> bool \<Rightarrow> batch \<Rightarrow> batch outcome" where
  "AddWriteBytes rptr prealloc bytes fence b =
     add_request \<lparr>sge_addr = rp_address prealloc, sge_length = word_of_int bytes, sge_lkey = ci_lkey (db_conn_info b)\<rparr>
       WR_RDMA_WRITE fence (Wr_Rdma (rp_address rptr) (ci_rkey (db_conn_info b))) b"

text \<open>\<open>AddWrite\<close> of preallocated memory.\<close>

definition AddWrite :: "u64 \<Rightarrow> u64 \<Rightarrow> u64 \<Rightarrow> bool \<Rightarrow> batch \<Rightarrow> batch outcome" where
  "AddWrite sizeof_T rptr prealloc fence b =
     add_request \<lparr>sge_addr = rp_address prealloc, sge_length = ucast sizeof_T, sge_lkey = ci_lkey (db_conn_info b)\<rparr>
       WR_RDMA_WRITE fence (Wr_Rdma (rp_address rptr) (ci_rkey (db_conn_info b))) b"

text \<open>\<open>AddWrite\<close> of a value, which is copied to newly allocated memory.\<close>

definition AddWrite_value :: "u64 \<Rightarrow> u8 list \<Rightarrow> bool \<Rightarrow> pool \<times> batch \<Rightarrow> (pool \<times> batch) outcome" where
  "AddWrite_value rptr val fence = (\<lambda>(p, b).
     bindO (Allocate (of_nat (length val)) 1 p) (\<lambda>(local, p1).
     if rp_address local = 0 then Fault Null_Deref
     else let p2 = set_local (store_block (local_mem p1) (rp_address local) val) p1
          in bindO (AddWrite (of_nat (length val)) rptr local fence b) (\<lambda>b1. Ret (p2, b1))))"

definition remote_addr :: "send_wr \<Rightarrow> u64" where
  "remote_addr wr = (case wr_target wr of Wr_Rdma a k \<Rightarrow> a | Wr_Atomic a k c s \<Rightarrow> a)"

definition Build :: "batch \<Rightarrow> batch outcome" where
  "Build b = assertO (db_size b > 0) (assertO (db_size b = db_capacity b)
     (Ret (b\<lparr>db_wrs := map (\<lambda>wr. wr\<lparr>wr_id := remote_addr wr\<rparr>) (take (nat (db_size b)) (db_wrs b)) @ drop (nat (db_size b)) (db_wrs b)\<rparr>)))"

text \<open>
  \<open>Execute\<close>: a mortal batch is given up at the first poll without a completion, because the name
  \<open>kill\<close> in its loop is not the switch of the batch but the function of the C library, which is never
  null. The result tells whether the batch was seen to complete.
\<close>

fun poll_batch :: "bool \<Rightarrow> completion list \<Rightarrow> bool outcome option" where
  "poll_batch mortal [] = None"
| "poll_batch mortal (Cq_Empty # cs) = (if mortal then Some (Ret False) else poll_batch mortal cs)"
| "poll_batch mortal (Cq_Wc True # cs) = Some (Ret True)"
| "poll_batch mortal (c # cs) = Some (Fault Assert_Fail)"

definition Execute :: "adapter \<Rightarrow> completion list \<Rightarrow> batch \<Rightarrow> pool \<Rightarrow> (bool \<times> pool) run" where
  "Execute ad cs b p =
     bindR (Some (post_send ad (ci_conn (db_conn_info b)) (db_wrs b) p)) (\<lambda>p1.
     bindR (poll_batch (db_mortal b) cs) (\<lambda>completed. Some (Ret (completed, p1))))"

section \<open>SyncRdmaAccessor\<close>

text \<open>\<open>bad\<close> is whether \<open>ibv_post_send\<close> reports a request that it refused.\<close>

definition PostInternal :: "adapter \<Rightarrow> bool \<Rightarrow> completion list \<Rightarrow> nat \<Rightarrow> send_wr list \<Rightarrow> pool \<Rightarrow> (status \<times> pool) run" where
  "PostInternal ad bad cs conn wrs p =
     (if ad_post ad wrs \<noteq> 0 then Some (Ret (ErrorStatus kInternal ''ibv_post_send(): '', p))
      else let p1 = fold (execute_wr ad conn) wrs p
           in if bad then Some (Fault Assert_Fail)
              else case poll_retry cs of None \<Rightarrow> None
                | Some (ok, _) \<Rightarrow> Some (Ret (if ok then OkStatus else ErrorStatus kInternal ''ibv_poll_cq(): '', p1)))"

section \<open>Joining the other nodes\<close>

text \<open>
  \<open>Init\<close>. The connection manager (a value of type \<open>'m\<close>) and the channels over its connections are used
  through their operations: \<open>start\<close>, \<open>connect\<close> and \<open>get\<close> of the manager, \<open>send\<close> and \<open>deliver\<close> of the
  channel of a connection, whose message is the key and the address of a memory region. The memory
  resource gets a buffer at \<open>raw\<close> that is registered with \<open>rkey\<close> and \<open>lkey\<close>. \<open>None\<close> is a call that does
  not return.
\<close>

record 'm joining =
  jn_manager :: 'm
  jn_pool :: pool

record 'm manager_ops =
  op_start :: "peer \<Rightarrow> 'm \<Rightarrow> status \<times> 'm"
  op_connect :: "peer \<Rightarrow> 'm \<Rightarrow> (nat status_or \<times> 'm) option"
  op_get :: "u16 \<Rightarrow> 'm \<Rightarrow> (nat status_or \<times> 'm) option"
  op_send :: "nat \<Rightarrow> u32 \<times> u64 \<Rightarrow> 'm \<Rightarrow> (status \<times> 'm) option"
  op_deliver :: "nat \<Rightarrow> 'm \<Rightarrow> ((u32 \<times> u64) status_or \<times> 'm) option"

type_synonym 'm join_run = "(status \<times> 'm joining) run"

definition status_or_unavailable :: "'a status_or \<Rightarrow> bool" where
  "status_or_unavailable r = (case r of Inl (ErrorStatus kUnavailable m) \<Rightarrow> True | _ \<Rightarrow> False)"

partial_function (option) connect_retry ::
  "(peer \<Rightarrow> 'm \<Rightarrow> (nat status_or \<times> 'm) option) \<Rightarrow> peer \<Rightarrow> 'm \<Rightarrow> (nat status_or \<times> 'm) option" where
  "connect_retry connect q m = Option.bind (connect q m) (\<lambda>(r, m1).
     if status_or_unavailable r then connect_retry connect q m1 else Some (r, m1))"

partial_function (option) deliver_retry ::
  "(nat \<Rightarrow> 'm \<Rightarrow> ('b status_or \<times> 'm) option) \<Rightarrow> nat \<Rightarrow> 'm \<Rightarrow> ('b status_or \<times> 'm) option" where
  "deliver_retry deliver conn m = Option.bind (deliver conn m) (\<lambda>(r, m1).
     if status_or_unavailable r then deliver_retry deliver conn m1 else Some (r, m1))"

fun connect_peers :: "'m manager_ops \<Rightarrow> peer list \<Rightarrow> 'm joining \<Rightarrow> 'm join_run" where
  "connect_peers ops [] j = Some (Ret (OkStatus, j))"
| "connect_peers ops (q # qs) j = (case connect_retry (op_connect ops) q (jn_manager j) of
     None \<Rightarrow> None
   | Some (Inl e, m) \<Rightarrow> Some (Ret (e, j\<lparr>jn_manager := m\<rparr>))
   | Some (Inr conn, m) \<Rightarrow> connect_peers ops qs (j\<lparr>jn_manager := m\<rparr>))"

fun send_keys :: "'m manager_ops \<Rightarrow> u32 \<times> u64 \<Rightarrow> peer list \<Rightarrow> 'm joining \<Rightarrow> 'm join_run" where
  "send_keys ops rm_proto [] j = Some (Ret (OkStatus, j))"
| "send_keys ops rm_proto (q # qs) j = (case op_get ops (peer_id q) (jn_manager j) of
     None \<Rightarrow> None
   | Some (Inl e, m) \<Rightarrow> Some (Fault Assert_Fail)
   | Some (Inr conn, m) \<Rightarrow> (case op_send ops conn rm_proto m of
       None \<Rightarrow> None
     | Some (st, m1) \<Rightarrow> if \<not> status_ok st then Some (Ret (st, j\<lparr>jn_manager := m1\<rparr>))
                       else send_keys ops rm_proto qs (j\<lparr>jn_manager := m1\<rparr>)))"

fun receive_keys :: "'m manager_ops \<Rightarrow> peer list \<Rightarrow> 'm joining \<Rightarrow> 'm join_run" where
  "receive_keys ops [] j = Some (Ret (OkStatus, j))"
| "receive_keys ops (q # qs) j = (case op_get ops (peer_id q) (jn_manager j) of
     None \<Rightarrow> None
   | Some (Inl e, m) \<Rightarrow> Some (Fault Assert_Fail)
   | Some (Inr conn, m) \<Rightarrow> (case deliver_retry (op_deliver ops) conn m of
       None \<Rightarrow> None
     | Some (Inl e, m1) \<Rightarrow> Some (Ret (e, j\<lparr>jn_manager := m1\<rparr>))
     | Some (Inr (rkey, raddr), m1) \<Rightarrow>
         let p = jn_pool j;
             info = \<lparr>ci_conn = conn, ci_rkey = rkey, ci_lkey = mp_lkey p\<rparr>;
             p1 = (if map_of (mp_conn_info p) (peer_id q) = None then p\<lparr>mp_conn_info := mp_conn_info p @ [(peer_id q, info)]\<rparr> else p)
         in receive_keys ops qs (j\<lparr>jn_manager := m1, jn_pool := p1\<rparr>)))"

definition Init :: "'m manager_ops \<Rightarrow> u64 \<Rightarrow> u32 \<Rightarrow> u32 \<Rightarrow> memory64 \<Rightarrow> u32 \<Rightarrow> peer list \<Rightarrow> 'm joining \<Rightarrow> 'm join_run" where
  "Init ops raw rkey lkey mem capacity peers j =
     (case op_start ops (mp_self (jn_pool j)) (jn_manager j) of (status, m) \<Rightarrow>
        if \<not> status_ok status then Some (Ret (status, j\<lparr>jn_manager := m\<rparr>))
        else
          let p = (jn_pool j)\<lparr>mp_arena := make_arena raw (ucast capacity + 8) mem, mp_lkey := lkey\<rparr>
          in bindR (Some (ra_allocate (mp_debug p) (mp_arena p) (mp_tls p) 8 1)) (\<lambda>(ar, th, prev).
          bindR (connect_peers ops peers (j\<lparr>jn_manager := m, jn_pool := p\<lparr>mp_arena := ar, mp_tls := th, mp_prev := prev\<rparr>\<rparr>)) (\<lambda>(st, j1).
          if \<not> status_ok st then Some (Ret (st, j1))
          else bindR (send_keys ops (rkey, raw) peers j1) (\<lambda>(st, j2).
          if \<not> status_ok st then Some (Ret (st, j2))
          else receive_keys ops peers j2))))"

end
