(* ===== verification/Memory_Pool_Props.thy ===== *)
theory Memory_Pool_Props
  imports Memory_Pool
begin

text \<open>
  The memory pool over an adapter that behaves as the verbs library documents: chunked reads and writes
  copy exactly the bytes they are asked for, a batch does what the single operations do, and the
  atomic operations exchange the remote word at one instant, whatever other nodes do in between.
\<close>

section \<open>The adapter\<close>

definition copy_block :: "memory64 \<Rightarrow> u64 \<Rightarrow> memory64 \<Rightarrow> u64 \<Rightarrow> nat \<Rightarrow> memory64" where
  "copy_block src s dst d n = (\<lambda>x. if unat (x - d) < n then src (s + (x - d)) else dst x)"

text \<open>Documented behaviour of the three operations, for requests with the keys of the two regions.\<close>

definition reads_ok :: "adapter \<Rightarrow> u32 \<Rightarrow> u32 \<Rightarrow> bool" where
  "reads_ok ad lkey rkey \<longleftrightarrow> (\<forall>wr l r a n b. wr_opcode wr = WR_RDMA_READ \<longrightarrow>
     wr_sg_list wr = [\<lparr>sge_addr = a, sge_length = n, sge_lkey = lkey\<rparr>] \<longrightarrow> wr_target wr = Wr_Rdma b rkey \<longrightarrow>
     ad_exec ad wr l r = (copy_block r b l a (unat n), r))"

definition writes_ok :: "adapter \<Rightarrow> u32 \<Rightarrow> u32 \<Rightarrow> bool" where
  "writes_ok ad lkey rkey \<longleftrightarrow> (\<forall>wr l r a n b. wr_opcode wr = WR_RDMA_WRITE \<longrightarrow>
     wr_sg_list wr = [\<lparr>sge_addr = a, sge_length = n, sge_lkey = lkey\<rparr>] \<longrightarrow> wr_target wr = Wr_Rdma b rkey \<longrightarrow>
     ad_exec ad wr l r = (l, copy_block l a r b (unat n)))"

definition cas_ok :: "adapter \<Rightarrow> u32 \<Rightarrow> u32 \<Rightarrow> bool" where
  "cas_ok ad lkey rkey \<longleftrightarrow> (\<forall>wr l r a b expected swap. wr_opcode wr = WR_ATOMIC_CMP_AND_SWP \<longrightarrow>
     wr_sg_list wr = [\<lparr>sge_addr = a, sge_length = 8, sge_lkey = lkey\<rparr>] \<longrightarrow> wr_target wr = Wr_Atomic b rkey expected swap \<longrightarrow>
     ad_exec ad wr l r = (store_block l a (bytes64 (load64 r b)),
       if load64 r b = expected then store_block r b (bytes64 swap) else r))"

definition posts :: "adapter \<Rightarrow> bool" where
  "posts ad \<longleftrightarrow> (\<forall>wrs. ad_post ad wrs = 0)"

text \<open>An adapter of this kind.\<close>

definition simple_exec :: "send_wr \<Rightarrow> memory64 \<Rightarrow> memory64 \<Rightarrow> memory64 \<times> memory64" where
  "simple_exec wr l r =
     (case wr_sg_list wr of [] \<Rightarrow> (l, r)
      | g # gs \<Rightarrow>
        (case wr_target wr of
           Wr_Rdma b k \<Rightarrow>
             if wr_opcode wr = WR_RDMA_READ then (copy_block r b l (sge_addr g) (unat (sge_length g)), r)
             else (l, copy_block l (sge_addr g) r b (unat (sge_length g)))
         | Wr_Atomic b k expected swap \<Rightarrow>
             (store_block l (sge_addr g) (bytes64 (load64 r b)), if load64 r b = expected then store_block r b (bytes64 swap) else r)))"

definition simple_adapter :: adapter where
  "simple_adapter = \<lparr>ad_exec = simple_exec, ad_post = \<lambda>_. 0\<rparr>"

lemma simple_adapter_ok [simp]:
  "reads_ok simple_adapter lk rk" "writes_ok simple_adapter lk rk" "cas_ok simple_adapter lk rk" "posts simple_adapter"
  by (auto simp: reads_ok_def writes_ok_def cas_ok_def posts_def simple_adapter_def simple_exec_def)

section \<open>Blocks of memory\<close>

lemma unat64_less: "unat u < 2 ^ 64" for u :: u64
  using unsigned_less [of u] by simp

lemma unat_diff_of_nat:
  fixes u :: u64
  assumes "m < 2 ^ 64"
  shows "unat (u - of_nat m) = (if m \<le> unat u then unat u - m else unat u + 2 ^ 64 - m)"
proof -
  have m: "unat (of_nat m :: u64) = m" using assms by (simp add: unat_of_nat)
  show ?thesis using unat64_less [of u] by (simp add: unat_sub_if' m)
qed

lemma copy_block_append:
  assumes "m < 2 ^ 64" "m + n \<le> 2 ^ 64"
  shows "copy_block r (b + of_nat m) (copy_block r b l a m) (a + of_nat m) n = copy_block r b l a (m + n)"
proof
  fix x
  define u where "u = x - a"
  have x: "x - (a + of_nat m) = u - of_nat m" "b + of_nat m + (u - of_nat m) = b + u" by (simp_all add: u_def)
  show "copy_block r (b + of_nat m) (copy_block r b l a m) (a + of_nat m) n x = copy_block r b l a (m + n) x"
    using unat_diff_of_nat [OF assms(1), of u] assms(2) unat64_less [of u]
    unfolding copy_block_def x u_def [symmetric] by auto
qed

lemma load_store_block: "length bs \<le> 2 ^ 64 \<Longrightarrow> load_block (store_block m a bs) a (length bs) = bs"
  by (rule nth_equalityI) (auto simp: load_block_def store_block_def unat_of_nat)

lemma load_copy_block: "n < 2 ^ 64 \<Longrightarrow> load_block (copy_block r b l a n) a n = load_block r b n"
  by (rule nth_equalityI) (auto simp: load_block_def copy_block_def unat_of_nat)

lemma bit_word64_Cons:
  "bit (word64 (b # bs)) n \<longleftrightarrow> (if n < 8 then bit b n else n < 64 \<and> bit (word64 bs) (n - 8))"
  using bit_word_lt_len [of b n] by (auto simp: word64_def bit_or_iff bit_push_bit_iff bit_ucast_iff)

lemma word64_bytes64 [simp]: "word64 (bytes64 v) = v"
proof (rule word_bit_eqI)
  fix n assume "n < LENGTH(64)"
  then have n: "n < 64" by simp
  have e: "bytes64 v = [ucast v, ucast (drop_bit 8 v), ucast (drop_bit 16 v), ucast (drop_bit 24 v), ucast (drop_bit 32 v),
     ucast (drop_bit 40 v), ucast (drop_bit 48 v), ucast (drop_bit 56 v)]"
    by (simp add: bytes64_def upt_rec)
  have u: "bit (ucast (drop_bit k v) :: u8) m = (m < 8 \<and> bit v (k + m))" for k m
    by (auto simp: bit_ucast_iff bit_drop_bit_eq)
  show "bit (word64 (bytes64 v)) n = bit v n"
    using n unfolding e bit_word64_Cons u by (auto simp: bit_ucast_iff)
qed

lemma length_bytes64 [simp]: "length (bytes64 v) = 8"
  by (simp add: bytes64_def)

lemma load64_store [simp]: "load64 (store_block m a (bytes64 v)) a = v"
  using load_store_block [of "bytes64 v" m a] by simp

section \<open>Chunks\<close>

definition chunk_count :: "nat \<Rightarrow> nat \<Rightarrow> nat" where
  "chunk_count B c = (if B mod c = 0 then B div c else Suc (B div c))"

definition reads_bounded :: "u64 \<Rightarrow> u64 \<Rightarrow> bool" where
  "reads_bounded bytes chunk \<longleftrightarrow> 0 < bytes \<and> 0 < chunk \<and> unat chunk < 2 ^ 32 \<and> Suc (unat bytes div unat chunk) < 2 ^ 31"

lemma num_chunks_count:
  assumes "Suc (unat bytes div unat chunk) < 2 ^ 31"
  shows "num_chunks bytes chunk = int (chunk_count (unat bytes) (unat chunk))"
proof -
  define w where "w = (if bytes mod chunk \<noteq> 0 then bytes div chunk + 1 else bytes div chunk)"
  have z: "bytes mod chunk = 0 \<longleftrightarrow> unat bytes mod unat chunk = 0" by (simp add: unat_mod flip: unat_eq_zero)
  have "unat (bytes div chunk + 1) = Suc (unat bytes div unat chunk)"
    using assms by (subst unat_add_lem [THEN iffD1]) (simp_all add: unat_div)
  then have w: "unat w = chunk_count (unat bytes) (unat chunk)"
    using z by (simp add: w_def chunk_count_def unat_div)
  moreover have "unat w < 2 ^ 31" using assms w by (auto simp: chunk_count_def)
  moreover from this have "unat (ucast w :: u32) = unat w" by (simp add: unsigned_ucast_eq take_bit_eq_mod)
  then have "uint (ucast w :: u32) = int (unat w)" by (simp only: uint_nat)
  ultimately show ?thesis
    unfolding num_chunks_def w_def [symmetric]
    by (simp add: sint_uint signed_take_bit_int_eq_self)
qed

text \<open>The bytes that the first \<open>k\<close> chunks cover.\<close>

definition covered :: "nat \<Rightarrow> nat \<Rightarrow> nat \<Rightarrow> nat" where
  "covered B c k = (if k = chunk_count B c then B else k * c)"

lemma covered_Suc:
  assumes k: "k < chunk_count (unat bytes) (unat chunk)" and b: "reads_bounded bytes chunk"
  shows "covered (unat bytes) (unat chunk) k = k * unat chunk"
    "k * unat chunk + unat (chunk_length bytes chunk k) = covered (unat bytes) (unat chunk) (Suc k)"
    "covered (unat bytes) (unat chunk) (Suc k) \<le> unat bytes"
proof -
  define B c where "B = unat bytes" and "c = unat chunk"
  have "c \<noteq> 0" using b by (simp add: reads_bounded_def c_def word_gt_0 unat_eq_zero)
  then have c: "0 < c" "c < 2 ^ 32" using b by (auto simp: reads_bounded_def c_def)
  have n: "num_chunks bytes chunk = int (chunk_count B c)"
    using b num_chunks_count by (simp add: reads_bounded_def B_def c_def)
  show "covered (unat bytes) (unat chunk) k = k * unat chunk" using k by (simp add: covered_def)
  have len: "unat (chunk_length bytes chunk k) = (if B mod c = 0 then c else if Suc k = chunk_count B c then B mod c else c)"
  proof -
    have "unat (ucast chunk :: u32) = c" using c by (simp add: unsigned_ucast_eq take_bit_eq_mod c_def)
    moreover have "B mod c < 2 ^ 32" using c mod_less_divisor [of c B] by linarith
    then have "unat (ucast (bytes mod chunk) :: u32) = B mod c"
      by (simp add: unsigned_ucast_eq take_bit_eq_mod B_def c_def unat_mod)
    moreover have "bytes mod chunk = 0 \<longleftrightarrow> B mod c = 0" by (simp add: B_def c_def unat_mod flip: unat_eq_zero)
    ultimately show ?thesis by (auto simp: chunk_length_def n)
  qed
  have dm: "B = B div c * c + B mod c" by simp
  have le: "Suc k \<le> B div c \<Longrightarrow> Suc k * c \<le> B" using mult_le_mono1 [of "Suc k" "B div c" c] dm by linarith
  show "k * unat chunk + unat (chunk_length bytes chunk k) = covered (unat bytes) (unat chunk) (Suc k)"
  proof (cases "Suc k = chunk_count B c")
    case False
    then have "unat (chunk_length bytes chunk k) = c" using len by simp
    then show ?thesis using False unfolding covered_def B_def [symmetric] c_def [symmetric] by simp
  next
    case True
    have "k * c + unat (chunk_length bytes chunk k) = B"
    proof (cases "B mod c = 0")
      case z: True
      then have "Suc k = B div c" using True by (simp add: chunk_count_def)
      then have "Suc k * c = B" using dm z by simp
      then show ?thesis using len z by simp
    next
      case z: False
      then have "k = B div c" using True by (simp add: chunk_count_def)
      then show ?thesis using dm len z True by simp
    qed
    then show ?thesis using True unfolding covered_def B_def [symmetric] c_def [symmetric] by simp
  qed
  show "covered (unat bytes) (unat chunk) (Suc k) \<le> unat bytes"
    using k le unfolding covered_def B_def [symmetric] c_def [symmetric]
    by (auto simp: chunk_count_def split: if_splits)
qed

definition chunk_request :: "u32 \<Rightarrow> u32 \<Rightarrow> u64 \<Rightarrow> u64 \<Rightarrow> u64 \<Rightarrow> u64 \<Rightarrow> u64 \<Rightarrow> nat \<Rightarrow> send_wr \<Rightarrow> bool" where
  "chunk_request lkey rkey local remote offset bytes chunk i wr \<longleftrightarrow>
     wr_opcode wr = WR_RDMA_READ \<and>
     wr_sg_list wr = [\<lparr>sge_addr = local + (offset + of_nat i * chunk), sge_length = chunk_length bytes chunk i, sge_lkey = lkey\<rparr>] \<and>
     wr_target wr = Wr_Rdma (remote + (offset + of_nat i * chunk)) rkey"

lemma set_local_simps [simp]:
  "local_mem (set_local m p) = m" "mp_remote (set_local m p) = mp_remote p" "set_local m (set_local m' p) = set_local m p"
  "set_local (local_mem p) p = p"
  by (simp_all add: set_local_def)

lemma execute_read:
  assumes "reads_ok ad lkey rkey" "chunk_request lkey rkey L R offset bytes chunk i wr"
  shows "execute_wr ad conn wr p = set_local (copy_block (mp_remote p conn) (R + (offset + of_nat i * chunk)) (local_mem p)
    (L + (offset + of_nat i * chunk)) (unat (chunk_length bytes chunk i))) p"
  using assms by (simp add: reads_ok_def chunk_request_def execute_wr_def)

lemma fold_chunks:
  assumes ok: "reads_ok ad lkey rkey" and b: "reads_bounded bytes chunk"
  shows "length wrs \<le> chunk_count (unat bytes) (unat chunk) \<Longrightarrow>
    \<forall>i < length wrs. chunk_request lkey rkey L R offset bytes chunk i (wrs ! i) \<Longrightarrow>
    fold (execute_wr ad conn) wrs p = set_local (copy_block (mp_remote p conn) (R + offset) (local_mem p) (L + offset)
      (covered (unat bytes) (unat chunk) (length wrs))) p"
proof (induction wrs rule: rev_induct)
  case Nil
  have "chunk_count (unat bytes) (unat chunk) \<noteq> 0"
    using b by (auto simp: reads_bounded_def chunk_count_def word_gt_0 simp flip: unat_eq_zero)
  then have "covered (unat bytes) (unat chunk) 0 = 0" by (auto simp: covered_def)
  then show ?case by (simp add: copy_block_def)
next
  case (snoc wr wrs)
  define k where "k = length wrs"
  have k: "k < chunk_count (unat bytes) (unat chunk)" using snoc(2) by (simp add: k_def)
  have c: "chunk_request lkey rkey L R offset bytes chunk k wr" using snoc(3) by (auto simp: k_def nth_append)
  have "\<forall>i < length wrs. chunk_request lkey rkey L R offset bytes chunk i (wrs ! i)"
    using snoc(3) by (auto simp: nth_append split: if_splits)
  note IH = snoc(1) [OF _ this]
  note cov = covered_Suc [OF k b]
  have bound: "k * unat chunk < 2 ^ 64" "k * unat chunk + unat (chunk_length bytes chunk k) \<le> 2 ^ 64"
    using cov unat64_less [of bytes] by linarith+
  have off: "of_nat k * chunk = (of_nat (k * unat chunk) :: u64)" by simp
  show ?case
    using IH snoc(2) execute_read [OF ok c] copy_block_append [OF bound] cov
    by (simp add: k_def [symmetric] off add.assoc [symmetric] del: of_nat_mult)
qed

text \<open>
  C11. Reading \<open>bytes\<close> bytes at an offset of a remote object, in chunks of the size of the object, copies
  exactly these bytes from the peer to the same offset of the local object: no other local byte and no
  remote byte changes, whatever the number of empty polls, and the statistics get the number of chunks.
\<close>

theorem chunked_read_copies:
  assumes ad: "posts ad" "reads_ok ad (mp_lkey p) (ci_rkey info)" and b: "reads_bounded bytes chunk"
    and info: "map_of (mp_conn_info p) (ucast (rp_id rptr)) = Some info"
  shows "ReadInternal ad (replicate n Cq_Empty @ Cq_Wc True # cs) rptr offset bytes chunk prealloc None p =
    Some (Ret ((set_local (copy_block (mp_remote p (ci_conn info)) (rp_address rptr + offset) (local_mem p)
        (rp_address prealloc + offset) (unat bytes)) p)
      \<lparr>mp_rdma_per_read := mp_rdma_per_read p @ [int (chunk_count (unat bytes) (unat chunk))]\<rparr>))"
proof -
  define N where "N = chunk_count (unat bytes) (unat chunk)"
  have n: "num_chunks bytes chunk = int N" "chunk \<noteq> 0" "N \<noteq> 0"
    using b num_chunks_count by (auto simp: reads_bounded_def N_def chunk_count_def word_gt_0 simp flip: unat_eq_zero)
  define wrs where "wrs = map (read_request (rp_address prealloc) (rp_address rptr) (mp_lkey p) (ci_rkey info) offset bytes chunk) [0..<N]"
  have "fold (execute_wr ad (ci_conn info)) wrs p = set_local (copy_block (mp_remote p (ci_conn info)) (rp_address rptr + offset)
      (local_mem p) (rp_address prealloc + offset) (covered (unat bytes) (unat chunk) (length wrs))) p"
    by (rule fold_chunks [OF ad(2) b]) (auto simp: wrs_def N_def chunk_request_def read_request_def Let_def)
  moreover have "covered (unat bytes) (unat chunk) (length wrs) = unat bytes" by (simp add: wrs_def N_def covered_def)
  moreover have "poll_once (replicate n Cq_Empty @ Cq_Wc True # cs) = Some (True, cs)" by (induction n) simp_all
  ultimately show ?thesis
    using n ad(1) info
    by (simp add: ReadInternal_def Let_def conn_info_at_def posts_def post_send_def await_read_def wrs_def N_def [symmetric] set_local_def)
qed

lemma poll_retry_success [simp]: "poll_retry (replicate n Cq_Empty @ Cq_Wc ok # cs) = Some (ok, cs)"
  by (induction n) simp_all

definition demo_pool :: pool where
  "demo_pool = \<lparr>mp_self = \<lparr>peer_id = 1, peer_address = ''10.0.0.1'', peer_port = 0\<rparr>, mp_prev = 64,
     mp_arena = make_arena 0 4096 (\<lambda>_. 0), mp_tls = fresh_tls, mp_debug = False, mp_lkey = 5,
     mp_conn_info = [(2, \<lparr>ci_conn = 100, ci_rkey = 6, ci_lkey = 5\<rparr>)], mp_send_wr = zero_wr, mp_rdma_per_read = [],
     mp_remote = \<lambda>c a. ucast a\<rparr>"

lemma demo_info: "map_of (mp_conn_info demo_pool) (ucast (rp_id (rp_make 2 512))) = Some \<lparr>ci_conn = 100, ci_rkey = 6, ci_lkey = 5\<rparr>"
  by (simp add: demo_pool_def rp_id_make)

lemma chunked_read_copies_witness:
  "\<exists>p'. ReadInternal simple_adapter [Cq_Empty, Cq_Wc True] (rp_make 2 512) 3 100 8 (rp_make 1 1024) None demo_pool = Some (Ret p') \<and>
    mp_rdma_per_read p' = [13] \<and> local_mem p' 1027 = 3"
proof -
  have "reads_bounded 100 8" by (simp add: reads_bounded_def)
  from chunked_read_copies [OF _ _ this demo_info, of simple_adapter 1 "[]" 3 "rp_make 1 1024"]
  show ?thesis
    by (simp add: copy_block_def chunk_count_def rp_address_make kAddressBitmask_def kAddressBits_48 demo_pool_def set_local_def make_arena_def)
qed

section \<open>Round trip\<close>

lemma copy_store: "copy_block (store_block l a bs) a r b (length bs) = store_block r b bs"
  by (rule ext) (simp add: copy_block_def store_block_def)

text \<open>
  C19. A value that is written to a remote object and read back arrives unchanged; the write changes the
  bytes of the object only. Both calls return, whatever the number of empty polls.
\<close>

theorem write_read_roundtrip:
  assumes ad: "posts ad" "reads_ok ad (mp_lkey p) (ci_rkey info)" "writes_ok ad (mp_lkey p) (ci_rkey info)"
    and info: "map_of (mp_conn_info p) (ucast (rp_id rptr)) = Some info"
    and src: "rp_address src \<noteq> 0" "rp_address src \<noteq> rp_address rptr" and dst: "dst \<noteq> rp_null"
    and val: "0 < length val" "length val < 2 ^ 32"
  shows "\<exists>p1 p2. Write ad (replicate n Cq_Empty @ Cq_Wc True # cs) rptr val src p = Some (Ret p1) \<and>
    Read ad (replicate m Cq_Empty @ Cq_Wc True # cs') (of_nat (length val)) rptr dst None p1 = Some (Ret (dst, p2)) \<and>
    load_block (local_mem p2) (rp_address dst) (length val) = val \<and>
    mp_remote p2 = (mp_remote p)(ci_conn info := store_block (mp_remote p (ci_conn info)) (rp_address rptr) val)"
proof -
  have nn: "src \<noteq> rp_null" using src(1) by (auto simp: rp_null_def rp_address_def)
  have len: "unat (of_nat (length val) :: u32) = length val" "unat (of_nat (length val) :: u64) = length val"
    using val by (simp_all add: unat_of_nat)
  define l where "l = store_block (memset0 (local_mem p) (rp_address src) (length val)) (rp_address src) val"
  define r where "r = store_block (mp_remote p (ci_conn info)) (rp_address rptr) val"
  define wr where "wr = (mp_send_wr p)\<lparr>wr_sg_list := [\<lparr>sge_addr = rp_address src, sge_length = of_nat (length val), sge_lkey = mp_lkey p\<rparr>],
     wr_opcode := WR_RDMA_WRITE, wr_fence := True, wr_signaled := True, wr_target := Wr_Rdma (rp_address rptr) (ci_rkey info)\<rparr>"
  define p1 where "p1 = (set_local l p)\<lparr>mp_send_wr := wr, mp_remote := (mp_remote p)(ci_conn info := r)\<rparr>"
  have ex: "ad_exec ad wr l (mp_remote p (ci_conn info)) = (l, r)"
    using ad(3) len copy_store [of "memset0 (local_mem p) (rp_address src) (length val)" "rp_address src" val]
    by (simp add: writes_ok_def wr_def l_def r_def)
  have w: "Write ad (replicate n Cq_Empty @ Cq_Wc True # cs) rptr val src p = Some (Ret p1)"
    using info src nn ad(1) ex
    by (simp add: Write_def Let_def conn_info_at_def posts_def post_send_def execute_wr_def p1_def set_local_def wr_def l_def)
  have f: "mp_conn_info p1 = mp_conn_info p" "mp_lkey p1 = mp_lkey p" "mp_remote p1 (ci_conn info) = r"
    by (simp_all add: p1_def set_local_def)
  have b: "reads_bounded (of_nat (length val)) (of_nat (length val))"
    using val len by (simp add: reads_bounded_def word_gt_0 flip: unat_eq_zero)
  define p2 where "p2 = (set_local (copy_block r (rp_address rptr) (local_mem p1) (rp_address dst) (length val)) p1)
    \<lparr>mp_rdma_per_read := mp_rdma_per_read p1 @ [int (chunk_count (length val) (length val))]\<rparr>"
  have rd: "Read ad (replicate m Cq_Empty @ Cq_Wc True # cs') (of_nat (length val)) rptr dst None p1 = Some (Ret (dst, p2))"
  proof -
    have "posts ad" "reads_ok ad (mp_lkey p1) (ci_rkey info)" "map_of (mp_conn_info p1) (ucast (rp_id rptr)) = Some info"
      using ad info f by simp_all
    note R = chunked_read_copies [OF this(1,2) b this(3), where prealloc = dst and offset = 0]
    show ?thesis using R dst by (simp add: Read_def or_allocate_def p2_def f len)
  qed
  have "load_block (local_mem p2) (rp_address dst) (length val) = load_block r (rp_address rptr) (length val)"
    using val by (simp add: p2_def set_local_def load_copy_block)
  also have "\<dots> = val" using val by (simp add: r_def load_store_block)
  finally have "load_block (local_mem p2) (rp_address dst) (length val) = val" .
  moreover have "mp_remote p2 = (mp_remote p)(ci_conn info := r)" by (simp add: p2_def set_local_def p1_def)
  ultimately show ?thesis using w rd by (auto simp: r_def)
qed

lemma write_read_roundtrip_witness:
  "\<exists>p1 p2. Write simple_adapter [Cq_Empty, Cq_Wc True] (rp_make 2 512) [7, 8, 9] (rp_make 1 1024) demo_pool = Some (Ret p1) \<and>
    Read simple_adapter [Cq_Wc True] 3 (rp_make 2 512) (rp_make 1 2048) None p1 = Some (Ret (rp_make 1 2048, p2)) \<and>
    load_block (local_mem p2) 2048 3 = [7, 8, 9]"
proof -
  have a: "rp_address (rp_make i 512) = 512" "rp_address (rp_make i 1024) = 1024" "rp_address (rp_make i 2048) = 2048" for i
    by (simp_all add: rp_address_make kAddressBitmask_def kAddressBits_48)
  have "rp_make 1 2048 \<noteq> rp_null" using a(3) [of 1] by (auto simp: rp_null_def rp_address_def)
  from write_read_roundtrip [OF _ _ _ demo_info _ _ this, of simple_adapter "rp_make 1 1024" "[7, 8, 9]" 1 "[]" 0 "[]"] a
  show ?thesis by (auto simp: numeral_3_eq_3)
qed

section \<open>Atomic operations\<close>

lemma cas_attempt:
  assumes "posts ad" "cas_ok ad (mp_lkey p) rkey"
  shows "\<exists>p1. post_send ad conn [cas_request (mp_prev p) (mp_lkey p) remote rkey expected swap wr] p = Ret p1 \<and>
    mp_prev p1 = mp_prev p \<and> mp_lkey p1 = mp_lkey p \<and> load64 (local_mem p1) (mp_prev p) = load64 (mp_remote p conn) remote \<and>
    mp_remote p1 = (mp_remote p)(conn := if load64 (mp_remote p conn) remote = expected
      then store_block (mp_remote p conn) remote (bytes64 swap) else mp_remote p conn)"
  using assms by (auto simp: posts_def post_send_def execute_wr_def cas_ok_def cas_request_def set_local_def)

text \<open>The remote memory before an attempt, when the attempts before it changed nothing.\<close>

definition undisturbed :: "(nat \<Rightarrow> memory64 \<Rightarrow> memory64) \<Rightarrow> nat \<Rightarrow> nat \<Rightarrow> memory64 \<Rightarrow> memory64" where
  "undisturbed others k n r = fold others [k..<Suc n] r"

lemma undisturbed_Suc: "k \<le> n \<Longrightarrow> undisturbed others (Suc k) n (others k r) = undisturbed others k n r" if "Suc k \<le> n"
  using that by (simp add: undisturbed_def upt_conv_Cons [of k] del: upt_Suc)

lemma swap_loop_exchanges:
  "posts ad \<Longrightarrow> cas_ok ad (mp_lkey p) (ci_rkey info) \<Longrightarrow>
   swap_loop ad others info remote swap cs k expected p = Some (Ret (v, p')) \<Longrightarrow>
   \<exists>n \<ge> k. load64 (undisturbed others k n (mp_remote p (ci_conn info))) remote = v \<and>
     mp_remote p' = (mp_remote p)(ci_conn info :=
       store_block (undisturbed others k n (mp_remote p (ci_conn info))) remote (bytes64 swap))"
proof (induction ad others info remote swap cs k expected p rule: swap_loop.induct)
  case (1 ad others info remote swap cs k expected p)
  define wr where "wr = cas_request (mp_prev p) (mp_lkey p) remote (ci_rkey info) expected swap (mp_send_wr p)"
  define p0 where "p0 = interfere (others k) (ci_conn info) (p\<lparr>mp_send_wr := wr\<rparr>)"
  define r where "r = others k (mp_remote p (ci_conn info))"
  have p0: "mp_prev p0 = mp_prev p" "mp_lkey p0 = mp_lkey p" "mp_remote p0 (ci_conn info) = r"
    "mp_remote p0 = (mp_remote p)(ci_conn info := r)"
    by (simp_all add: p0_def interfere_def r_def)
  obtain p1 where p1: "post_send ad (ci_conn info) [wr] p0 = Ret p1" "mp_prev p1 = mp_prev p" "mp_lkey p1 = mp_lkey p"
    "load64 (local_mem p1) (mp_prev p) = load64 r remote"
    "mp_remote p1 = (mp_remote p)(ci_conn info := if load64 r remote = expected then store_block r remote (bytes64 swap) else r)"
    using cas_attempt [OF 1(2), of p0 "ci_rkey info" "ci_conn info" remote expected swap "mp_send_wr p"] 1(3)
    unfolding p0 wr_def [symmetric] by auto
  obtain ok cs' where poll: "poll_retry cs = Some (ok, cs')"
    using 1(4) p1(1) unfolding swap_loop.simps [of ad others info remote swap cs k expected p]
    by (auto simp: Let_def wr_def [symmetric] p0_def [symmetric] split: option.splits)
  have ok: ok
    using 1(4) p1(1) poll unfolding swap_loop.simps [of ad others info remote swap cs k expected p]
    by (auto simp: Let_def wr_def [symmetric] p0_def [symmetric] split: if_splits)
  show ?case
  proof (cases "load64 r remote = expected")
    case True
    then have "v = load64 r remote" "p' = p1"
      using 1(4) p1 poll ok unfolding swap_loop.simps [of ad others info remote swap cs k expected p]
      by (auto simp: Let_def wr_def [symmetric] p0_def [symmetric])
    then show ?thesis using p1(5) True by (intro exI [of _ k]) (simp add: undisturbed_def r_def)
  next
    case False
    have rest: "swap_loop ad others info remote swap cs' (Suc k) (load64 r remote) p1 = Some (Ret (v, p'))"
      using 1(4) p1 poll ok False unfolding swap_loop.simps [of ad others info remote swap cs k expected p]
      by (auto simp: Let_def wr_def [symmetric] p0_def [symmetric])
    obtain n where n: "Suc k \<le> n" "load64 (undisturbed others (Suc k) n r) remote = v"
      "mp_remote p' = (mp_remote p1)(ci_conn info := store_block (undisturbed others (Suc k) n r) remote (bytes64 swap))"
    proof -
      have "cas_ok ad (mp_lkey p1) (ci_rkey info)" "mp_remote p1 (ci_conn info) = r" using p1 False 1(3) by simp_all
      moreover have "\<not> \<not> ok" "load64 (local_mem p1) (mp_prev p1) \<noteq> expected"
        "swap_loop ad others info remote swap cs' (Suc k) (load64 (local_mem p1) (mp_prev p1)) p1 = Some (Ret (v, p'))"
        using ok p1 False rest by simp_all
      ultimately show ?thesis using 1(1) [OF wr_def poll refl _ refl _ 1(2), of p1] that by (metis (no_types))
    qed
    then show ?thesis using p1(5) False by (intro exI [of _ n]) (auto simp: undisturbed_Suc r_def)
  qed
qed

text \<open>
  C2. Whatever other nodes do to the remote memory between the attempts, an \<open>AtomicSwap\<close> that returns
  exchanged the word in one of its attempts: it returns the value that the word had at that instant, the
  word has the new value after it, and the failed attempts changed nothing.
\<close>

theorem atomic_swap_exchanges:
  assumes "posts ad" "cas_ok ad (mp_lkey p) (ci_rkey info)" "map_of (mp_conn_info p) (ucast (rp_id rptr)) = Some info"
    and "AtomicSwap ad others cs rptr swap hint p = Some (Ret (v, p'))"
  shows "\<exists>n. let r = undisturbed others 0 n (mp_remote p (ci_conn info))
    in load64 r (rp_address rptr) = v \<and>
       mp_remote p' = (mp_remote p)(ci_conn info := store_block r (rp_address rptr) (bytes64 swap))"
  using swap_loop_exchanges [OF assms(1,2), of others "rp_address rptr" swap cs 0 hint v p'] assms(3,4)
  by (auto simp: AtomicSwap_def conn_info_at_def Let_def)

lemma swap_loop_attempt:
  assumes "posts ad" "cas_ok ad (mp_lkey p) (ci_rkey info)" and r: "r = others k (mp_remote p (ci_conn info))"
  shows "\<exists>p1. mp_prev p1 = mp_prev p \<and> mp_lkey p1 = mp_lkey p \<and>
    mp_remote p1 = (mp_remote p)(ci_conn info := if load64 r remote = expected then store_block r remote (bytes64 swap) else r) \<and>
    swap_loop ad others info remote swap (replicate n Cq_Empty @ Cq_Wc True # cs) k expected p =
      (if load64 r remote = expected then Some (Ret (load64 r remote, p1)) else swap_loop ad others info remote swap cs (Suc k) (load64 r remote) p1)"
proof -
  define wr where "wr = cas_request (mp_prev p) (mp_lkey p) remote (ci_rkey info) expected swap (mp_send_wr p)"
  define p0 where "p0 = interfere (others k) (ci_conn info) (p\<lparr>mp_send_wr := wr\<rparr>)"
  have p0: "mp_prev p0 = mp_prev p" "mp_lkey p0 = mp_lkey p" "mp_remote p0 (ci_conn info) = r"
    "mp_remote p0 = (mp_remote p)(ci_conn info := r)"
    by (simp_all add: p0_def interfere_def r)
  obtain p1 where p1: "post_send ad (ci_conn info) [wr] p0 = Ret p1" "mp_prev p1 = mp_prev p" "mp_lkey p1 = mp_lkey p"
    "load64 (local_mem p1) (mp_prev p) = load64 r remote"
    "mp_remote p1 = (mp_remote p)(ci_conn info := if load64 r remote = expected then store_block r remote (bytes64 swap) else r)"
    using cas_attempt [OF assms(1), of p0 "ci_rkey info" "ci_conn info" remote expected swap "mp_send_wr p"] assms(2)
    unfolding p0 wr_def [symmetric] by auto
  show ?thesis
    using p1 unfolding swap_loop.simps [of ad others info remote swap "replicate n Cq_Empty @ Cq_Wc True # cs"]
    by (intro exI [of _ p1]) (simp add: Let_def wr_def [symmetric] p0_def [symmetric])
qed

lemma swap_returns:
  assumes "posts ad" "cas_ok ad (mp_lkey p) (ci_rkey info)" "map_of (mp_conn_info p) (ucast (rp_id rptr)) = Some info"
    and quiet: "\<And>k r. 0 < k \<Longrightarrow> load64 (others k r) (rp_address rptr) = load64 r (rp_address rptr)"
    and cs: "cs = replicate n Cq_Empty @ Cq_Wc True # replicate m Cq_Empty @ Cq_Wc True # cs'"
  shows "\<exists>p'. AtomicSwap ad others cs rptr swap hint p =
      Some (Ret (load64 (others 0 (mp_remote p (ci_conn info))) (rp_address rptr), p')) \<and>
    load64 (mp_remote p' (ci_conn info)) (rp_address rptr) = swap"
proof -
  define a where "a = rp_address rptr"
  define r0 where "r0 = others 0 (mp_remote p (ci_conn info))"
  obtain p1 where p1: "mp_lkey p1 = mp_lkey p"
    "mp_remote p1 = (mp_remote p)(ci_conn info := if load64 r0 a = hint then store_block r0 a (bytes64 swap) else r0)"
    "swap_loop ad others info a swap cs 0 hint p = (if load64 r0 a = hint then Some (Ret (load64 r0 a, p1))
       else swap_loop ad others info a swap (replicate m Cq_Empty @ Cq_Wc True # cs') (Suc 0) (load64 r0 a) p1)"
    using swap_loop_attempt [where others = others and k = 0, OF assms(1,2) r0_def] unfolding cs by metis
  have A: "AtomicSwap ad others cs rptr swap hint p = swap_loop ad others info a swap cs 0 hint p"
    using assms(3) by (simp add: AtomicSwap_def conn_info_at_def a_def)
  show ?thesis
  proof (cases "load64 r0 a = hint")
    case True
    then show ?thesis using p1 A by (simp add: r0_def [symmetric] a_def [symmetric])
  next
    case False
    have "cas_ok ad (mp_lkey p1) (ci_rkey info)" using assms(2) p1(1) by simp
    moreover have "others (Suc 0) r0 = others (Suc 0) (mp_remote p1 (ci_conn info))" using False p1(2) by simp
    ultimately obtain p2 where p2:
      "mp_remote p2 = (mp_remote p1)(ci_conn info := if load64 (others (Suc 0) r0) a = load64 r0 a
         then store_block (others (Suc 0) r0) a (bytes64 swap) else others (Suc 0) r0)"
      "swap_loop ad others info a swap (replicate m Cq_Empty @ Cq_Wc True # cs') (Suc 0) (load64 r0 a) p1 =
        (if load64 (others (Suc 0) r0) a = load64 r0 a then Some (Ret (load64 (others (Suc 0) r0) a, p2))
         else swap_loop ad others info a swap cs' (Suc (Suc 0)) (load64 (others (Suc 0) r0) a) p2)"
      using swap_loop_attempt [where others = others and k = "Suc 0" and p = p1, OF assms(1)] by blast
    have "load64 (others (Suc 0) r0) a = load64 r0 a" using quiet [of "Suc 0" r0] by (simp add: a_def)
    then show ?thesis using p2 p1(3) A False by (simp add: r0_def [symmetric] a_def [symmetric])
  qed
qed

text \<open>
  C34. When the other nodes leave the word alone after the first attempt has been posted, \<open>AtomicSwap\<close>
  returns the value of the word after at most two completions, whatever the hint was, and leaves the new
  value there.
\<close>

theorem atomic_swap_returns:
  assumes "posts ad" "cas_ok ad (mp_lkey p) (ci_rkey info)" "map_of (mp_conn_info p) (ucast (rp_id rptr)) = Some info"
    and "\<And>k r. 0 < k \<Longrightarrow> load64 (others k r) (rp_address rptr) = load64 r (rp_address rptr)"
  shows "\<exists>p'. AtomicSwap ad others (replicate n Cq_Empty @ Cq_Wc True # replicate m Cq_Empty @ Cq_Wc True # cs') rptr swap hint p =
      Some (Ret (load64 (others 0 (mp_remote p (ci_conn info))) (rp_address rptr), p')) \<and>
    load64 (mp_remote p' (ci_conn info)) (rp_address rptr) = swap"
  by (rule swap_returns [OF assms refl])

text \<open>
  \<open>CompareAndSwap\<close> returns the word that it found; it stores the new value exactly when that word was
  the expected one, and nothing else in the memory of any node changes but the local buffer.
\<close>

theorem compare_and_swap:
  assumes "posts ad" "cas_ok ad (mp_lkey p) (ci_rkey info)" "map_of (mp_conn_info p) (ucast (rp_id rptr)) = Some info"
  shows "\<exists>p'. CompareAndSwap ad (replicate n Cq_Empty @ Cq_Wc True # cs) rptr expected swap p =
      Some (Ret (load64 (mp_remote p (ci_conn info)) (rp_address rptr), p')) \<and>
    mp_remote p' = (if load64 (mp_remote p (ci_conn info)) (rp_address rptr) = expected
      then (mp_remote p)(ci_conn info := store_block (mp_remote p (ci_conn info)) (rp_address rptr) (bytes64 swap)) else mp_remote p)"
proof -
  define wr where "wr = cas_request (mp_prev p) (mp_lkey p) (rp_address rptr) (ci_rkey info) expected swap (mp_send_wr p)"
  obtain p1 where "post_send ad (ci_conn info) [wr] (p\<lparr>mp_send_wr := wr\<rparr>) = Ret p1" "mp_prev p1 = mp_prev p"
    "load64 (local_mem p1) (mp_prev p) = load64 (mp_remote p (ci_conn info)) (rp_address rptr)"
    "mp_remote p1 = (mp_remote p)(ci_conn info := if load64 (mp_remote p (ci_conn info)) (rp_address rptr) = expected
      then store_block (mp_remote p (ci_conn info)) (rp_address rptr) (bytes64 swap) else mp_remote p (ci_conn info))"
    using cas_attempt [OF assms(1), of "p\<lparr>mp_send_wr := wr\<rparr>" "ci_rkey info" "ci_conn info" "rp_address rptr" expected swap "mp_send_wr p"]
      assms(2) by (auto simp: wr_def)
  then show ?thesis using assms(3)
    by (simp add: CompareAndSwap_def conn_info_at_def Let_def wr_def [symmetric])
qed

text \<open>Another node adds one to the word before the first attempt.\<close>

definition noisy :: "nat \<Rightarrow> memory64 \<Rightarrow> memory64" where
  "noisy k r = (if k = 0 then store_block r 512 (bytes64 (load64 r 512 + 1)) else r)"

lemma demo_address [simp]: "rp_address (rp_make i 512) = 512"
  by (simp add: rp_address_make kAddressBitmask_def kAddressBits_48)

lemma demo_keys [simp]: "posts simple_adapter" "cas_ok simple_adapter (mp_lkey demo_pool) (ci_rkey \<lparr>ci_conn = 100, ci_rkey = 6, ci_lkey = 5\<rparr>)"
  by simp_all

lemma atomic_swap_returns_witness:
  "\<exists>v p'. AtomicSwap simple_adapter noisy [Cq_Empty, Cq_Wc True, Cq_Wc True] (rp_make 2 512) 77 0 demo_pool = Some (Ret (v, p')) \<and>
    load64 (mp_remote p' 100) 512 = 77"
  using atomic_swap_returns [OF demo_keys demo_info, of noisy 1 0 "[]" 77 0] by (auto simp: noisy_def)

lemma atomic_swap_exchanges_witness:
  "\<exists>v p' n. AtomicSwap simple_adapter noisy [Cq_Wc True, Cq_Wc True] (rp_make 2 512) 77 0 demo_pool = Some (Ret (v, p')) \<and>
     load64 (undisturbed noisy 0 n (mp_remote demo_pool 100)) 512 = v \<and> load64 (mp_remote p' 100) 512 = 77"
proof -
  obtain v p' where r: "AtomicSwap simple_adapter noisy [Cq_Wc True, Cq_Wc True] (rp_make 2 512) 77 0 demo_pool = Some (Ret (v, p'))"
    using swap_returns [OF demo_keys demo_info, of noisy "[Cq_Wc True, Cq_Wc True]" 0 0 "[]" 77 0] by (auto simp: noisy_def)
  from atomic_swap_exchanges [OF demo_keys demo_info this] r show ?thesis by (fastforce simp: Let_def)
qed

lemma compare_and_swap_witness:
  "\<exists>v p'. CompareAndSwap simple_adapter [Cq_Wc True] (rp_make 2 512) 3 4 demo_pool = Some (Ret (v, p'))"
  using compare_and_swap [OF demo_keys demo_info, of 0 "[]" 3 4] by auto

section \<open>Batches\<close>

definition batch_ok :: "batch \<Rightarrow> bool" where
  "batch_ok b \<longleftrightarrow> 0 \<le> db_size b \<and> db_size b \<le> db_capacity b \<and> length (db_wrs b) = nat (db_capacity b)"

lemma add_request_free:
  assumes "batch_ok b" "db_size b < db_capacity b"
  shows "\<exists>b' wr. add_request g opc fence tgt b = Ret b' \<and> b' = b\<lparr>db_wrs := (db_wrs b)[nat (db_size b) := wr], db_size := db_size b + 1\<rparr> \<and>
    wr_sg_list wr = [g] \<and> wr_opcode wr = opc \<and> wr_target wr = tgt \<and> wr_signaled wr = wr_signaled (db_wrs b ! nat (db_size b)) \<and> batch_ok b'"
proof -
  let ?w = "(db_wrs b ! nat (db_size b))\<lparr>wr_sg_list := [g], wr_opcode := opc,
     wr_fence := wr_fence (db_wrs b ! nat (db_size b)) \<or> fence, wr_target := tgt\<rparr>"
  show ?thesis using assms
  by (intro exI [of _ "b\<lparr>db_size := db_size b + 1, db_wrs := (db_wrs b)[nat (db_size b) := ?w]\<rparr>"] exI [of _ ?w] conjI)
    (auto simp: add_request_def db_Add_def batch_ok_def Let_def)
qed

lemma add_request_full: "db_size b = db_capacity b \<Longrightarrow> add_request g opc fence tgt b = Fault Null_Deref"
  by (simp add: add_request_def db_Add_def)

lemma add_chunks_full:
  "batch_ok b \<Longrightarrow> db_capacity b < db_size b + int (length is) \<Longrightarrow> add_chunks L R offset bytes chunk fence is b = Fault Null_Deref"
proof (induction "is" arbitrary: b)
  case (Cons i js)
  show ?case
  proof (cases "db_size b = db_capacity b")
    case True
    then show ?thesis by (simp add: add_chunk_def Let_def add_request_full)
  next
    case False
    then have "db_size b < db_capacity b" using Cons(2) by (simp add: batch_ok_def)
    from add_request_free [OF Cons(2) this] obtain b' where
      "add_chunk L R offset bytes chunk fence i b = Ret b'" "batch_ok b'" "db_size b' = db_size b + 1" "db_capacity b' = db_capacity b"
      unfolding add_chunk_def Let_def by fastforce
    then show ?thesis using Cons(1) [of b'] Cons(3) by simp
  qed
qed (simp add: batch_ok_def)

lemma add_chunks_fit:
  "batch_ok b \<Longrightarrow> db_size b + int (length is) \<le> db_capacity b \<Longrightarrow>
   \<exists>b'. add_chunks L R offset bytes chunk fence is b = Ret b' \<and> batch_ok b' \<and> db_size b' = db_size b + int (length is) \<and>
     db_capacity b' = db_capacity b \<and> db_conn_info b' = db_conn_info b \<and> db_mortal b' = db_mortal b \<and>
     (\<forall>j < nat (db_size b). db_wrs b' ! j = db_wrs b ! j) \<and>
     (\<forall>j < length is. chunk_request (ci_lkey (db_conn_info b)) (ci_rkey (db_conn_info b)) L R offset bytes chunk (is ! j)
        (db_wrs b' ! (nat (db_size b) + j)))"
proof (induction "is" arbitrary: b)
  case (Cons i js)
  then have "db_size b < db_capacity b" by simp
  from add_request_free [OF Cons(2) this] obtain b1 wr where b1:
    "add_chunk L R offset bytes chunk fence i b = Ret b1" "batch_ok b1"
    "b1 = b\<lparr>db_wrs := (db_wrs b)[nat (db_size b) := wr], db_size := db_size b + 1\<rparr>"
    "chunk_request (ci_lkey (db_conn_info b)) (ci_rkey (db_conn_info b)) L R offset bytes chunk i wr"
    unfolding add_chunk_def Let_def chunk_request_def by metis
  have sz: "0 \<le> db_size b" "nat (db_size b) < length (db_wrs b)" "nat (db_size b + 1) = Suc (nat (db_size b))"
    using Cons(2) \<open>db_size b < db_capacity b\<close> by (auto simp: batch_ok_def)
  have "db_size b1 + int (length js) \<le> db_capacity b1" using Cons(3) b1(3) by simp
  from Cons(1) [OF b1(2) this] obtain b' where b':
    "add_chunks L R offset bytes chunk fence js b1 = Ret b'" "batch_ok b'" "db_size b' = db_size b1 + int (length js)"
    "db_capacity b' = db_capacity b1" "db_conn_info b' = db_conn_info b1" "db_mortal b' = db_mortal b1"
    "\<forall>j < nat (db_size b1). db_wrs b' ! j = db_wrs b1 ! j"
    "\<forall>j < length js. chunk_request (ci_lkey (db_conn_info b1)) (ci_rkey (db_conn_info b1)) L R offset bytes chunk (js ! j)
        (db_wrs b' ! (nat (db_size b1) + j))" by blast
  have "chunk_request (ci_lkey (db_conn_info b)) (ci_rkey (db_conn_info b)) L R offset bytes chunk ((i # js) ! j)
      (db_wrs b' ! (nat (db_size b) + j))" if "j < length (i # js)" for j
  proof (cases j)
    case 0
    then show ?thesis using b'(7) b1(3,4) sz by simp
  next
    case (Suc m)
    then show ?thesis using b'(8) b1(3) sz that by simp
  qed
  moreover have "\<forall>j < nat (db_size b). db_wrs b' ! j = db_wrs b ! j" using b'(7) b1(3) sz by auto
  ultimately show ?case using b1 b' by (intro exI [of _ b']) simp
qed simp

definition build_read :: "u64 \<Rightarrow> u64 \<Rightarrow> u64 \<Rightarrow> u64 \<Rightarrow> bool \<Rightarrow> u64 \<Rightarrow> conn_info \<Rightarrow> int \<Rightarrow> batch outcome" where
  "build_read rptr offset bytes chunk fence prealloc info capacity =
     bindO (bindO (DoorbellBatch info capacity) (AddReadInternal rptr offset bytes chunk fence prealloc)) Build"

definition work_request_ids :: "send_wr list \<Rightarrow> send_wr list" where
  "work_request_ids wrs = map (\<lambda>wr. wr\<lparr>wr_id := remote_addr wr\<rparr>) wrs"

lemma execute_chunks:
  assumes "posts ad" "reads_ok ad (ci_lkey info) (ci_rkey info)" "reads_bounded bytes chunk"
    and K: "K = chunk_count (unat bytes) (unat chunk)" "length (db_wrs b) = K"
    and b: "db_conn_info b = info" "\<not> db_mortal b" "\<forall>j < K. chunk_request (ci_lkey info) (ci_rkey info) L R offset bytes chunk j (db_wrs b ! j)"
  shows "Execute ad (replicate n Cq_Empty @ Cq_Wc True # cs) (b\<lparr>db_wrs := work_request_ids (db_wrs b)\<rparr>) p =
    Some (Ret (True, set_local (copy_block (mp_remote p (ci_conn info)) (R + offset) (local_mem p) (L + offset) (unat bytes)) p))"
proof -
  have "fold (execute_wr ad (ci_conn info)) (work_request_ids (db_wrs b)) p =
      set_local (copy_block (mp_remote p (ci_conn info)) (R + offset) (local_mem p) (L + offset)
        (covered (unat bytes) (unat chunk) (length (work_request_ids (db_wrs b))))) p"
    by (rule fold_chunks [OF assms(2,3)]) (use b(3) K(2) in \<open>auto simp: work_request_ids_def K(1) chunk_request_def\<close>)
  moreover have "covered (unat bytes) (unat chunk) (length (work_request_ids (db_wrs b))) = unat bytes"
    using K by (simp add: work_request_ids_def covered_def)
  moreover have "poll_batch False (replicate n Cq_Empty @ Cq_Wc True # cs) = Some (Ret True)" by (induction n) simp_all
  ultimately show ?thesis using assms(1) b(1,2) by (simp add: Execute_def post_send_def posts_def)
qed

text \<open>
  C21. A batch for a chunked read can be built exactly when its capacity is the number of chunks: a smaller
  one is written through a null pointer, a larger one fails the assertion of \<open>Build\<close>. Executing the batch
  copies the same bytes as the read itself, and its requests have their remote addresses as ids.
\<close>

theorem batch_read_equivalent:
  assumes "posts ad" "reads_ok ad (ci_lkey info) (ci_rkey info)" and b: "reads_bounded bytes chunk" and pos: "0 < capacity"
    and N: "N = int (chunk_count (unat bytes) (unat chunk))"
  shows "(capacity < N \<longrightarrow> build_read rptr offset bytes chunk fence prealloc info capacity = Fault Null_Deref) \<and>
    (N < capacity \<longrightarrow> build_read rptr offset bytes chunk fence prealloc info capacity = Fault Assert_Fail) \<and>
    (capacity = N \<longrightarrow> (\<exists>b. build_read rptr offset bytes chunk fence prealloc info capacity = Ret b \<and>
       (\<forall>wr \<in> set (db_wrs b). wr_id wr = remote_addr wr) \<and>
       Execute ad (replicate n Cq_Empty @ Cq_Wc True # cs) b p =
         Some (Ret (True, set_local (copy_block (mp_remote p (ci_conn info)) (rp_address rptr + offset) (local_mem p)
           (rp_address prealloc + offset) (unat bytes)) p))))"
proof -
  define L R K where "L = rp_address prealloc" and "R = rp_address rptr" and "K = chunk_count (unat bytes) (unat chunk)"
  define b0 where "b0 = \<lparr>db_conn_info = info, db_size = 0, db_capacity = capacity,
                db_wrs = (replicate (nat capacity) zero_wr)[nat capacity - 1 := zero_wr\<lparr>wr_signaled := True\<rparr>], db_mortal = False\<rparr>"
  have b0: "batch_ok b0" "db_size b0 = 0" "db_capacity b0 = capacity" "db_conn_info b0 = info" "\<not> db_mortal b0"
    using pos by (simp_all add: b0_def batch_ok_def)
  have "chunk \<noteq> 0" "num_chunks bytes chunk = int K"
    using b num_chunks_count by (auto simp: reads_bounded_def K_def)
  then have R: "build_read rptr offset bytes chunk fence prealloc info capacity =
      bindO (add_chunks L R offset bytes chunk fence [0..<K] b0) Build"
    using pos by (simp add: build_read_def DoorbellBatch_def AddReadInternal_def b0_def L_def R_def)
  show ?thesis
  proof (cases "capacity < N")
    case True
    then show ?thesis using R add_chunks_full [OF b0(1), of "[0..<K]"] b0 N by (simp add: K_def)
  next
    case False
    then have "db_size b0 + int (length [0..<K]) \<le> db_capacity b0" using b0 N by (simp add: K_def)
    from add_chunks_fit [OF b0(1) this, of L R offset bytes chunk fence] obtain b1 where b1:
      "add_chunks L R offset bytes chunk fence [0..<K] b0 = Ret b1" "batch_ok b1" "db_size b1 = int K" "db_capacity b1 = capacity"
      "db_conn_info b1 = info" "\<not> db_mortal b1"
      "\<forall>j < K. chunk_request (ci_lkey info) (ci_rkey info) L R offset bytes chunk j (db_wrs b1 ! j)"
      using b0 by auto
    show ?thesis
    proof (cases "N < capacity")
      case True
      then show ?thesis using R b1 N by (auto simp: Build_def K_def assertO_def)
    next
      case eq: False
      then have c: "capacity = int K" using False N by (simp add: K_def)
      have len: "length (db_wrs b1) = K" using b1(2,4) c by (simp add: batch_ok_def)
      have "build_read rptr offset bytes chunk fence prealloc info capacity = Ret (b1\<lparr>db_wrs := work_request_ids (db_wrs b1)\<rparr>)"
        using R b1 c pos len by (simp add: Build_def work_request_ids_def)
      moreover note execute_chunks [OF assms(1,2) b K_def len b1(5-7), of n cs p]
      moreover have "\<forall>wr \<in> set (work_request_ids (db_wrs b1)). wr_id wr = remote_addr wr" by (auto simp: work_request_ids_def remote_addr_def)
      ultimately show ?thesis using c N eq by (simp add: K_def L_def R_def)
    qed
  qed
qed

lemma batch_read_equivalent_witness:
  "build_read (rp_make 2 512) 0 20 8 False (rp_make 1 1024) \<lparr>ci_conn = 100, ci_rkey = 6, ci_lkey = 5\<rparr> 2 = Fault Null_Deref \<and>
   build_read (rp_make 2 512) 0 20 8 False (rp_make 1 1024) \<lparr>ci_conn = 100, ci_rkey = 6, ci_lkey = 5\<rparr> 4 = Fault Assert_Fail \<and>
   (\<exists>b p'. build_read (rp_make 2 512) 0 20 8 False (rp_make 1 1024) \<lparr>ci_conn = 100, ci_rkey = 6, ci_lkey = 5\<rparr> 3 = Ret b \<and>
      Execute simple_adapter [Cq_Wc True] b demo_pool = Some (Ret (True, p')))"
proof -
  have b: "reads_bounded 20 8" "int (chunk_count (unat (20::u64)) (unat (8::u64))) = 3" by (simp_all add: reads_bounded_def chunk_count_def)
  note T = batch_read_equivalent [OF _ _ b(1) _ b(2) [symmetric], of simple_adapter "\<lparr>ci_conn = 100, ci_rkey = 6, ci_lkey = 5\<rparr>"
      _ "rp_make 2 512" 0 False "rp_make 1 1024" 0 "[]" demo_pool]
  show ?thesis using T [of 2] T [of 3] T [of 4] by auto
qed

end
