(* ===== verification/Pool_Join.thy ===== *)
theory Pool_Join
  imports Memory_Pool
begin

text \<open>
  How a memory pool joins its peers, over any manager and channels that meet a contract: the locale of
  the contract and, inside it, what \<open>MemoryPool::Init\<close> does. \<open>C\<close> has the connections that are made so
  far, \<open>D\<close> the peers whose key was delivered, \<open>L\<close> what was sent to each peer, and \<open>key\<close> the region that a peer
  announces.
\<close>

section \<open>The contract\<close>

locale join_network =
  fixes ops :: "'m manager_ops" and valid_peer :: "peer \<Rightarrow> bool" and key :: "u16 \<Rightarrow> u32 \<times> u64" and ready :: "'m \<Rightarrow> bool"
    and inv :: "(u16 \<Rightarrow> nat option) \<Rightarrow> u16 set \<Rightarrow> (u16 \<Rightarrow> (u32 \<times> u64) list) \<Rightarrow> 'm \<Rightarrow> bool"
  assumes start: "ready m \<Longrightarrow> \<exists>m'. op_start ops self m = (OkStatus, m') \<and> inv Map.empty {} (\<lambda>_. []) m'"
    and connect: "inv C D L m \<Longrightarrow> valid_peer q \<Longrightarrow> C (peer_id q) = None \<Longrightarrow>
      \<exists>c m'. connect_retry (op_connect ops) q m = Some (Inr c, m') \<and> c \<notin> ran C \<and> inv (C(peer_id q \<mapsto> c)) D L m'"
    and get: "inv C D L m \<Longrightarrow> C i = Some c \<Longrightarrow> \<exists>m'. op_get ops i m = Some (Inr c, m') \<and> inv C D L m'"
    and send: "inv C D L m \<Longrightarrow> C i = Some c \<Longrightarrow> \<exists>m'. op_send ops c msg m = Some (OkStatus, m') \<and> inv C D (L(i := L i @ [msg])) m'"
    and deliver: "inv C D L m \<Longrightarrow> C i = Some c \<Longrightarrow> i \<notin> D \<Longrightarrow>
      \<exists>m'. deliver_retry (op_deliver ops) c m = Some (Inr (key i), m') \<and> inv C (insert i D) L m'"
begin

lemma connect_peers_ok:
  "inv C D L (jn_manager j) \<Longrightarrow> distinct (map peer_id qs) \<Longrightarrow> \<forall>q \<in> set qs. valid_peer q \<and> C (peer_id q) = None \<Longrightarrow> inj_on C (dom C) \<Longrightarrow>
   \<exists>C' m'. connect_peers ops qs j = Some (Ret (OkStatus, j\<lparr>jn_manager := m'\<rparr>)) \<and> inv C' D L m' \<and>
     dom C' = dom C \<union> peer_id ` set qs \<and> inj_on C' (dom C')"
proof (induction qs arbitrary: C j)
  case Nil
  then show ?case by (auto intro!: exI [of _ C] exI [of _ "jn_manager j"])
next
  case (Cons q qs)
  obtain c m' where c: "connect_retry (op_connect ops) q (jn_manager j) = Some (Inr c, m')" "c \<notin> ran C" "inv (C(peer_id q \<mapsto> c)) D L m'"
    using connect [OF Cons(2), of q] Cons(4) by auto
  let ?C = "C(peer_id q \<mapsto> c)"
  have ne: "peer_id q' \<noteq> peer_id q" if "q' \<in> set qs" for q' using Cons(3) that by (metis distinct.simps(2) image_eqI list.map(2) set_map)
  have "inj_on ?C (dom ?C)" using Cons(5) c(2) by (auto simp: inj_on_def ran_def dom_def)
  moreover have "\<forall>q' \<in> set qs. valid_peer q' \<and> ?C (peer_id q') = None" using ne Cons(4) by simp
  moreover have "inv ?C D L (jn_manager (j\<lparr>jn_manager := m'\<rparr>))" "distinct (map peer_id qs)" using c(3) Cons(3) by simp_all
  ultimately obtain C' m'' where "connect_peers ops qs (j\<lparr>jn_manager := m'\<rparr>) = Some (Ret (OkStatus, j\<lparr>jn_manager := m'\<rparr>\<lparr>jn_manager := m''\<rparr>))"
    "inv C' D L m''" "dom C' = dom ?C \<union> peer_id ` set qs" "inj_on C' (dom C')"
    using Cons(1) [of ?C "j\<lparr>jn_manager := m'\<rparr>"] by blast
  then show ?case using c(1) by (intro exI [of _ C'] exI [of _ m'']) simp
qed

lemma send_keys_ok:
  "inv C D L (jn_manager j) \<Longrightarrow> distinct (map peer_id qs) \<Longrightarrow> peer_id ` set qs \<subseteq> dom C \<Longrightarrow>
   \<exists>m'. send_keys ops msg qs j = Some (Ret (OkStatus, j\<lparr>jn_manager := m'\<rparr>)) \<and>
     inv C D (\<lambda>i. if i \<in> peer_id ` set qs then L i @ [msg] else L i) m'"
proof (induction qs arbitrary: L j)
  case (Cons q qs)
  obtain c where c: "C (peer_id q) = Some c" using Cons(4) by auto
  obtain m1 where m1: "op_get ops (peer_id q) (jn_manager j) = Some (Inr c, m1)" "inv C D L m1" using get [OF Cons(2) c] by blast
  obtain m2 where m2: "op_send ops c msg m1 = Some (OkStatus, m2)" "inv C D (L(peer_id q := L (peer_id q) @ [msg])) m2"
    using send [OF m1(2) c] by blast
  let ?L = "L(peer_id q := L (peer_id q) @ [msg])"
  have "inv C D ?L (jn_manager (j\<lparr>jn_manager := m2\<rparr>))" "distinct (map peer_id qs)" "peer_id ` set qs \<subseteq> dom C"
    using m2(2) Cons(3,4) by simp_all
  from Cons(1) [OF this] obtain m' where
    "send_keys ops msg qs (j\<lparr>jn_manager := m2\<rparr>) = Some (Ret (OkStatus, j\<lparr>jn_manager := m2\<rparr>\<lparr>jn_manager := m'\<rparr>))"
    "inv C D (\<lambda>i. if i \<in> peer_id ` set qs then ?L i @ [msg] else ?L i) m'" by blast
  moreover have "(\<lambda>i. if i \<in> peer_id ` set qs then ?L i @ [msg] else ?L i) = (\<lambda>i. if i \<in> peer_id ` set (q # qs) then L i @ [msg] else L i)"
    using Cons(3) by (auto simp: fun_eq_iff)
  ultimately show ?case using m1(1) m2(1) by auto
qed (auto intro!: exI [of _ "jn_manager j" for j])

definition infos :: "(u16 \<Rightarrow> nat option) \<Rightarrow> u32 \<Rightarrow> peer list \<Rightarrow> (u16 \<times> conn_info) list" where
  "infos C lkey qs = map (\<lambda>q. (peer_id q, \<lparr>ci_conn = the (C (peer_id q)), ci_rkey = fst (key (peer_id q)), ci_lkey = lkey\<rparr>)) qs"

lemma receive_keys_ok:
  "inv C D L (jn_manager j) \<Longrightarrow> distinct (map peer_id qs) \<Longrightarrow> peer_id ` set qs \<subseteq> dom C - D \<Longrightarrow>
   \<forall>q \<in> set qs. map_of (mp_conn_info (jn_pool j)) (peer_id q) = None \<Longrightarrow>
   \<exists>m'. receive_keys ops qs j = Some (Ret (OkStatus, \<lparr>jn_manager = m',
       jn_pool = (jn_pool j)\<lparr>mp_conn_info := mp_conn_info (jn_pool j) @ infos C (mp_lkey (jn_pool j)) qs\<rparr>\<rparr>)) \<and>
     inv C (D \<union> peer_id ` set qs) L m'"
proof (induction qs arbitrary: D j)
  case Nil
  then show ?case by (cases j) (auto simp: infos_def)
next
  case (Cons q qs)
  obtain c where c: "C (peer_id q) = Some c" "peer_id q \<notin> D" using Cons(4) by auto
  obtain m1 where m1: "op_get ops (peer_id q) (jn_manager j) = Some (Inr c, m1)" "inv C D L m1" using get [OF Cons(2) c(1)] by blast
  obtain m2 where m2: "deliver_retry (op_deliver ops) c m1 = Some (Inr (key (peer_id q)), m2)" "inv C (insert (peer_id q) D) L m2"
    using deliver [OF m1(2) c] by blast
  have ne: "peer_id q' \<noteq> peer_id q" if "q' \<in> set qs" for q' using Cons(3) that by (metis distinct.simps(2) image_eqI list.map(2) set_map)
  obtain rkey raddr where k: "key (peer_id q) = (rkey, raddr)" by force
  let ?p = "(jn_pool j)\<lparr>mp_conn_info := mp_conn_info (jn_pool j) @ [(peer_id q, \<lparr>ci_conn = c, ci_rkey = rkey, ci_lkey = mp_lkey (jn_pool j)\<rparr>)]\<rparr>"
  let ?j = "j\<lparr>jn_manager := m2, jn_pool := ?p\<rparr>"
  have "\<forall>q' \<in> set qs. map_of (mp_conn_info (jn_pool ?j)) (peer_id q') = None"
    using ne Cons(5) by (simp add: map_add_def)
  moreover have "peer_id ` set qs \<subseteq> dom C - insert (peer_id q) D" using ne Cons(4) by (auto simp: image_subset_iff)
  ultimately obtain m' where m': "receive_keys ops qs ?j = Some (Ret (OkStatus, \<lparr>jn_manager = m',
       jn_pool = ?p\<lparr>mp_conn_info := mp_conn_info ?p @ infos C (mp_lkey ?p) qs\<rparr>\<rparr>))" "inv C (insert (peer_id q) D \<union> peer_id ` set qs) L m'"
    using Cons(1) [of "insert (peer_id q) D" ?j] m2(2) Cons(3) by auto
  moreover have "receive_keys ops (q # qs) j = receive_keys ops qs ?j" using m1(1) m2(1) k Cons(5) by (simp add: Let_def)
  ultimately show ?case using c(1) k by (auto simp: infos_def)
qed

lemma Init_ok:
  assumes "ready (jn_manager j)" "distinct (map peer_id peers)" "\<forall>q \<in> set peers. valid_peer q"
    and p: "p = (jn_pool j)\<lparr>mp_arena := make_arena raw (ucast capacity + 8) mem, mp_lkey := lkey\<rparr>"
    and al: "ra_allocate (mp_debug p) (mp_arena p) (mp_tls p) 8 1 = Ret (ar, th, prev)"
    and fresh: "mp_conn_info (jn_pool j) = []"
  shows "\<exists>C m'. Init ops raw rkey lkey mem capacity peers j = Some (Ret (OkStatus, \<lparr>jn_manager = m',
       jn_pool = p\<lparr>mp_arena := ar, mp_tls := th, mp_prev := prev, mp_conn_info := infos C lkey peers\<rparr>\<rparr>)) \<and>
     dom C = peer_id ` set peers \<and> inj_on C (dom C) \<and>
     inv C (peer_id ` set peers) (\<lambda>i. if i \<in> peer_id ` set peers then [(rkey, raw)] else []) m'"
proof -
  obtain m where m: "op_start ops (mp_self (jn_pool j)) (jn_manager j) = (OkStatus, m)" "inv Map.empty {} (\<lambda>_. []) m"
    using start [OF assms(1)] by blast
  let ?p = "p\<lparr>mp_arena := ar, mp_tls := th, mp_prev := prev\<rparr>"
  let ?j = "j\<lparr>jn_manager := m, jn_pool := ?p\<rparr>"
  obtain C m1 where 1: "connect_peers ops peers ?j = Some (Ret (OkStatus, ?j\<lparr>jn_manager := m1\<rparr>))" "inv C {} (\<lambda>_. []) m1"
    "dom C = peer_id ` set peers" "inj_on C (dom C)"
    using connect_peers_ok [of Map.empty "{}" "\<lambda>_. []" ?j peers] m(2) assms(2,3) by auto
  let ?L = "\<lambda>i. if i \<in> peer_id ` set peers then [] @ [(rkey, raw)] else []"
  obtain m2 where 2: "send_keys ops (rkey, raw) peers (?j\<lparr>jn_manager := m1\<rparr>) = Some (Ret (OkStatus, ?j\<lparr>jn_manager := m2\<rparr>))" "inv C {} ?L m2"
    using send_keys_ok [of C "{}" "\<lambda>_. []" "?j\<lparr>jn_manager := m1\<rparr>" peers "(rkey, raw)"] 1 assms(2) by auto
  have f: "mp_conn_info ?p = []" "mp_lkey ?p = lkey" using fresh p by simp_all
  obtain m3 where 3: "receive_keys ops peers (?j\<lparr>jn_manager := m2\<rparr>) = Some (Ret (OkStatus, \<lparr>jn_manager = m3,
      jn_pool = ?p\<lparr>mp_conn_info := infos C lkey peers\<rparr>\<rparr>))" "inv C (peer_id ` set peers) ?L m3"
    using receive_keys_ok [of C "{}" ?L "?j\<lparr>jn_manager := m2\<rparr>" peers] 1(3) 2(2) assms(2) f by auto
  have "Init ops raw rkey lkey mem capacity peers j = receive_keys ops peers (?j\<lparr>jn_manager := m2\<rparr>)"
    using m(1) al 1(1) 2(1) by (simp add: Init_def p [symmetric])
  moreover have "inv C (peer_id ` set peers) (\<lambda>i. if i \<in> peer_id ` set peers then [(rkey, raw)] else []) m3" using 3(2) by (simp cong: if_cong)
  ultimately show ?thesis using 1(3,4) 3(1) by (intro exI [of _ C] exI [of _ m3]) simp
qed

end

end
