(* ===== verification/Connection_Manager.thy ===== *)
theory Connection_Manager
  imports Rome_Prelude
begin

text \<open>
  \<open>ConnectionManager\<close> of \<open>rome/rdma/connection_manager/\<close>: the table of established connections, its
  lock, the handlers that the broker calls and the outgoing connection protocol. The calls into the
  RDMA libraries are recorded in a trace; what they return is a function of the calls made so far.
  An endpoint (\<open>rdma_cm_id *\<close>) is a natural number. The thread that runs an operation sees in \<open>mu_\<close>
  what the other threads leave there: the attempts on the lock are a list of the values read, and an
  operation whose list ends while it still spins has no result (\<open>None\<close>). The
  debugging assertions are compiled in.
\<close>

section \<open>Calls into the libraries\<close>

type_synonym cm_id = nat

datatype cm_event_type =
    TIMEWAIT_EXIT | CONNECT_REQUEST | ESTABLISHED | DISCONNECTED | DEVICE_REMOVAL
  | ADDR_ERROR | ROUTE_ERROR | UNREACHABLE | ADDR_RESOLVED | REJECTED | CONNECT_ERROR | OTHER_EVENT

record cm_event =
  ev_event :: cm_event_type
  ev_id :: cm_id
  ev_private_data :: "u32 option"

text \<open>A call of \<open>rdma_get_cm_event\<close>: \<open>EAGAIN\<close>, another error, or an event.\<close>

datatype poll = Poll_Again | Poll_Error | Poll_Event cm_event

record qp_init_attr =
  qi_max_send_wr :: int
  qi_max_recv_wr :: int
  qi_max_send_sge :: int
  qi_max_recv_sge :: int
  qi_max_inline_data :: int
  qi_sq_sig_all :: int

datatype qp_state = QPS_INIT | QPS_RTR | QPS_RTS
datatype qp_access = ACCESS_LOCAL_WRITE | ACCESS_REMOTE_READ | ACCESS_REMOTE_WRITE | ACCESS_REMOTE_ATOMIC
datatype qp_mask =
    QP_STATE | QP_PKEY_INDEX | QP_PORT | QP_ACCESS_FLAGS | QP_AV | QP_PATH_MTU | QP_DEST_QPN | QP_RQ_PSN
  | QP_MAX_DEST_RD_ATOMIC | QP_MIN_RNR_TIMER | QP_SQ_PSN | QP_TIMEOUT | QP_RETRY_CNT | QP_RNR_RETRY
  | QP_MAX_QP_RD_ATOMIC

record qp_attr =
  qa_state :: "qp_state option"
  qa_access_flags :: "qp_access list"
  qa_max_dest_rd_atomic :: int
  qa_path_mtu :: int
  qa_min_rnr_timer :: int
  qa_rq_psn :: int
  qa_sq_psn :: int
  qa_timeout :: int
  qa_retry_cnt :: int
  qa_rnr_retry :: int
  qa_max_rd_atomic :: int
  qa_port_num :: int
  qa_ah_port_num :: int
  qa_dlid :: int
  qa_dest_qp :: "cm_id option"

record conn_param =
  cp_private_data :: u32
  cp_rnr_retry_count :: int
  cp_retry_count :: int
  cp_responder_resources :: int
  cp_initiator_depth :: int

datatype descriptor = Channel_Fd cm_id | Recv_Cq_Fd cm_id | Send_Cq_Fd cm_id
datatype open_flag = O_NONBLOCK | O_SYNC

datatype cm_call =
    Rdma_Getaddrinfo string string string | Rdma_Freeaddrinfo
  | Rdma_Create_Ep qp_init_attr | Rdma_Destroy_Ep cm_id
  | Rdma_Create_Qp cm_id qp_init_attr
  | Rdma_Create_Event_Channel | Rdma_Destroy_Event_Channel cm_id | Rdma_Migrate_Id cm_id
  | Rdma_Connect cm_id conn_param | Rdma_Accept cm_id "conn_param option" | Rdma_Reject cm_id | Rdma_Disconnect cm_id
  | Rdma_Ack_Cm_Event cm_event
  | Ibv_Modify_Qp cm_id qp_attr "qp_mask list" | Ibv_Query_Port cm_id int
  | Fcntl_Getfl descriptor | Fcntl_Setfl descriptor int open_flag
  | Free_Context cm_id | Sleep_For u32 | Broker_Stop

text \<open>The name of a call in the message of \<open>RDMA_CM_CHECK\<close>.\<close>

fun call_name :: "cm_call \<Rightarrow> string" where
  "call_name (Rdma_Migrate_Id i) = ''rdma_migrate_id''"
| "call_name (Rdma_Connect i p) = ''rdma_connect''"
| "call_name (Rdma_Ack_Cm_Event e) = ''rdma_ack_cm_event''"
| "call_name (Rdma_Disconnect i) = ''rdma_disconnect''"
| "call_name (Ibv_Modify_Qp i a m) = ''ibv_modify_qp''"
| "call_name (Ibv_Query_Port i p) = ''ibv_query_port''"
| "call_name (Fcntl_Setfl d v f) = ''fcntl''"
| "call_name _ = ''''"

text \<open>
  The environment: what a call returns after the calls of the trace (for a call that returns a
  pointer, 0 stands for a pointer that is not null), the error texts, the endpoint that
  \<open>rdma_create_ep\<close> makes, whether an endpoint has a queue pair, and the local id of the port.
\<close>

record cm_env =
  env_ret :: "cm_call list \<Rightarrow> cm_call \<Rightarrow> int"
  env_strerror :: "cm_call list \<Rightarrow> string"
  env_errno :: "cm_call list \<Rightarrow> nat"
  env_gai_strerror :: "int \<Rightarrow> string"
  env_event_str :: "cm_event_type \<Rightarrow> string"
  env_new_id :: "cm_call list \<Rightarrow> cm_id"
  env_has_qp :: "cm_id \<Rightarrow> bool"
  env_lid :: int

section \<open>The state\<close>

text \<open>A connection; its channel is the endpoint that the channel wraps.\<close>

record connection =
  cn_terminated :: bool
  cn_src_id :: u32
  cn_dst_id :: u32
  cn_channel :: cm_id

definition Connection :: "u32 \<Rightarrow> u32 \<Rightarrow> cm_id \<Rightarrow> connection" where
  "Connection src dst channel = \<lparr>cn_terminated = False, cn_src_id = src, cn_dst_id = dst, cn_channel = channel\<rparr>"

definition cn_id :: "connection \<Rightarrow> cm_id" where
  "cn_id c = cn_channel c"

definition cn_Terminate :: "connection \<Rightarrow> connection" where
  "cn_Terminate c = c\<lparr>cn_terminated := True\<rparr>"

record cm =
  cm_accepting :: bool
  cm_my_id :: u32
  cm_broker :: "string option"
  cm_mu :: int
  cm_requested :: "u32 list"
  cm_established :: "(u32 \<times> connection) list"
  cm_backoff_us :: u32
  cm_loopback_id :: "cm_id option"
  cm_context :: "cm_id \<rightharpoonup> u32"
  cm_trace :: "cm_call list"

definition kCapacity :: int where "kCapacity = 2 ^ 12"
definition kMaxRecvBytes :: int where "kMaxRecvBytes = 64"
definition kMaxWr :: int where "kMaxWr = kCapacity div kMaxRecvBytes"
definition kMaxSge :: int where "kMaxSge = 1"
definition kMaxInlineData :: int where "kMaxInlineData = 0"
definition kUnlocked :: int where "kUnlocked = - 1"
definition kMinBackoffUs :: u32 where "kMinBackoffUs = 100"
definition kMaxBackoffUs :: u32 where "kMaxBackoffUs = 5000000"
definition LOOPBACK_PORT_NUM :: int where "LOOPBACK_PORT_NUM = 0"

definition ConnectionManager :: "u32 \<Rightarrow> cm" where
  "ConnectionManager my_id = \<lparr>cm_accepting = False, cm_my_id = my_id, cm_broker = None, cm_mu = - 1,
     cm_requested = [], cm_established = [], cm_backoff_us = 0, cm_loopback_id = None,
     cm_context = Map.empty, cm_trace = []\<rparr>"

definition Shutdown :: "cm \<Rightarrow> cm" where
  "Shutdown s = s\<lparr>cm_accepting := False\<rparr>"

text \<open>\<open>created\<close> is what \<open>RdmaBroker::Create\<close> returns: the address of the broker or no broker.\<close>

definition Start :: "string option \<Rightarrow> cm \<Rightarrow> cm \<times> status" where
  "Start created s =
     (if cm_accepting s then (s, ErrorStatus kInternal ''Cannot start broker twice'')
      else let s1 = s\<lparr>cm_accepting := True, cm_broker := created\<rparr>
           in if created = None then (s1, ErrorStatus kInternal ''Failed to create broker'') else (s1, OkStatus))"

section \<open>The lock\<close>

text \<open>
  \<open>Acquire\<close>: each attempt reads the value of \<open>mu_\<close> and whether the weak exchange failed spuriously.
  The loop ends with the lock, or gives up when it reads the id of this node; the attempts that are
  left belong to what follows.
\<close>

type_synonym attempts = "(int \<times> bool) list"

fun Acquire :: "u32 \<Rightarrow> attempts \<Rightarrow> cm \<Rightarrow> (bool \<times> attempts \<times> cm) option" where
  "Acquire peer [] s = None"
| "Acquire peer ((m, spurious) # ms) s =
     (if m = kUnlocked \<and> \<not> spurious then Some (True, ms, s\<lparr>cm_mu := sint peer\<rparr>)
      else if word_of_int m = cm_my_id s then Some (False, ms, s)
      else Acquire peer ms s)"

definition Release :: "cm \<Rightarrow> cm" where
  "Release s = s\<lparr>cm_mu := kUnlocked\<rparr>"

lemma Acquire_length: "Acquire peer ms s = Some (b, ms', s') \<Longrightarrow> length ms' < length ms"
  by (induction peer ms s rule: Acquire.induct) (auto split: if_splits)

definition GetNumConnections :: "attempts \<Rightarrow> cm \<Rightarrow> (int \<times> cm) option" where
  "GetNumConnections ms s = (case Acquire (cm_my_id s) ms s of None \<Rightarrow> None
     | Some (_, _, s1) \<Rightarrow> Some (int (length (cm_established s1)), Release s1))"

function GetConnection :: "u32 \<Rightarrow> attempts \<Rightarrow> cm \<Rightarrow> (connection status_or \<times> cm) option" where
  "GetConnection peer ms s = (case Acquire (cm_my_id s) ms s of None \<Rightarrow> None
     | Some (False, ms1, s1) \<Rightarrow> GetConnection peer ms1 s1
     | Some (True, ms1, s1) \<Rightarrow>
         (case map_of (cm_established s1) peer of
            Some conn \<Rightarrow> Some (Inr conn, Release s1)
          | None \<Rightarrow> Some (Inl (ErrorStatus kNotFound (''Connection not found: '' @ decimal (unat peer))), Release s1)))"
  by pat_completeness auto
termination
  by (relation "measure (\<lambda>(peer, ms, s). length ms)") (auto dest: Acquire_length)

declare GetConnection.simps [simp del]

section \<open>Calls\<close>

text \<open>The value of an operation that ends: the state after it and its result.\<close>

type_synonym 'a cm_run = "(cm \<times> 'a) run"

definition invoke :: "cm_env \<Rightarrow> cm_call \<Rightarrow> cm \<Rightarrow> int \<times> cm" where
  "invoke e c s = (env_ret e (cm_trace s) c, s\<lparr>cm_trace := cm_trace s @ [c]\<rparr>)"

definition tell :: "cm_call \<Rightarrow> cm \<Rightarrow> cm" where
  "tell c s = s\<lparr>cm_trace := cm_trace s @ [c]\<rparr>"

definition finish :: "cm \<Rightarrow> 'a \<Rightarrow> 'a cm_run" where
  "finish s r = Some (Ret (s, r))"

definition fail_with :: "status_code \<Rightarrow> string \<Rightarrow> cm \<Rightarrow> 'a status_or cm_run" where
  "fail_with c m s = finish s (Inl (ErrorStatus c m))"

definition RDMA_CM_CHECK :: "cm_env \<Rightarrow> cm_call \<Rightarrow> cm \<Rightarrow> (cm \<Rightarrow> 'a status_or cm_run) \<Rightarrow> 'a status_or cm_run" where
  "RDMA_CM_CHECK e c s k = (case invoke e c s of (ret, s1) \<Rightarrow>
     if ret = 0 then k s1 else fail_with kInternal (call_name c @ ''(): '' @ env_strerror e (cm_trace s1)) s1)"

definition RDMA_CM_ASSERT :: "cm_env \<Rightarrow> cm_call \<Rightarrow> cm \<Rightarrow> (cm \<Rightarrow> 'a cm_run) \<Rightarrow> 'a cm_run" where
  "RDMA_CM_ASSERT e c s k = (case invoke e c s of (ret, s1) \<Rightarrow> if ret = 0 then k s1 else Some (Fault Assert_Fail))"

text \<open>\<open>fcntl(fd, F_SETFL, fcntl(fd, F_GETFL) | flag)\<close>, checked.\<close>

definition add_flag :: "cm_env \<Rightarrow> descriptor \<Rightarrow> open_flag \<Rightarrow> cm \<Rightarrow> (cm \<Rightarrow> 'a status_or cm_run) \<Rightarrow> 'a status_or cm_run" where
  "add_flag e fd flag s k = (case invoke e (Fcntl_Getfl fd) s of (old, s1) \<Rightarrow> RDMA_CM_CHECK e (Fcntl_Setfl fd old flag) s1 k)"

definition DefaultQpInitAttr :: qp_init_attr where
  "DefaultQpInitAttr = \<lparr>qi_max_send_wr = kMaxWr, qi_max_recv_wr = kMaxWr, qi_max_send_sge = kMaxSge,
     qi_max_recv_sge = kMaxSge, qi_max_inline_data = kMaxInlineData, qi_sq_sig_all = 0\<rparr>"

definition DefaultQpAttr :: qp_attr where
  "DefaultQpAttr = \<lparr>qa_state = None,
     qa_access_flags = [ACCESS_LOCAL_WRITE, ACCESS_REMOTE_READ, ACCESS_REMOTE_WRITE, ACCESS_REMOTE_ATOMIC],
     qa_max_dest_rd_atomic = 8, qa_path_mtu = 4096, qa_min_rnr_timer = 12, qa_rq_psn = 0, qa_sq_psn = 0,
     qa_timeout = 12, qa_retry_cnt = 7, qa_rnr_retry = 1, qa_max_rd_atomic = 8,
     qa_port_num = 0, qa_ah_port_num = 0, qa_dlid = 0, qa_dest_qp = None\<rparr>"

text \<open>\<open>emplace\<close> on an \<open>unordered_map\<close>: an existing entry stays and the result is \<open>false\<close>.\<close>

definition emplace :: "u32 \<Rightarrow> connection \<Rightarrow> cm \<Rightarrow> bool \<times> cm" where
  "emplace peer conn s =
     (if map_of (cm_established s) peer = None
      then (True, s\<lparr>cm_established := cm_established s @ [(peer, conn)]\<rparr>) else (False, s))"

definition erase :: "u32 \<Rightarrow> cm \<Rightarrow> cm" where
  "erase peer s = s\<lparr>cm_established := filter (\<lambda>(p, _). p \<noteq> peer) (cm_established s)\<rparr>"

section \<open>The handlers of the broker\<close>

definition context_param :: "u32 \<Rightarrow> conn_param" where
  "context_param node = \<lparr>cp_private_data = node, cp_rnr_retry_count = 1, cp_retry_count = 7,
     cp_responder_resources = 8, cp_initiator_depth = 8\<rparr>"

definition accept_connection :: "cm_env \<Rightarrow> u32 \<Rightarrow> cm_id option \<Rightarrow> cm_event \<Rightarrow> cm \<Rightarrow> unit cm_run" where
  "accept_connection e peer idp event s =
     (case idp of None \<Rightarrow> Some (Fault Null_Deref)
      | Some i \<Rightarrow>
          let s1 = s\<lparr>cm_context := (cm_context s)(i \<mapsto> peer)\<rparr>;
              (inserted, s2) = emplace peer (Connection (cm_my_id s1) peer i) s1
          in if \<not> inserted then Some (Fault Assert_Fail)
             else RDMA_CM_ASSERT e (Rdma_Accept i (if peer = cm_my_id s2 then None else Some (context_param peer))) s2 (\<lambda>s3.
               let s4 = tell (Rdma_Ack_Cm_Event event) s3
               in finish (if peer \<noteq> cm_my_id s4 then Release s4 else s4) ()))"

definition reject_request :: "cm_id \<Rightarrow> cm_event \<Rightarrow> cm \<Rightarrow> cm" where
  "reject_request i event s = tell (Rdma_Ack_Cm_Event event) (tell (Rdma_Destroy_Ep i) (tell (Rdma_Reject (ev_id event)) s))"

definition OnConnectRequest :: "cm_env \<Rightarrow> cm_id \<Rightarrow> cm_event \<Rightarrow> attempts \<Rightarrow> cm \<Rightarrow> unit cm_run" where
  "OnConnectRequest e i event ms s =
     (if \<not> cm_accepting s then finish s ()
      else case ev_private_data event of None \<Rightarrow> Some (Fault Null_Deref)
      | Some peer \<Rightarrow>
          if peer \<noteq> cm_my_id s then
            (case Acquire peer ms s of None \<Rightarrow> None
             | Some (False, _, s1) \<Rightarrow> finish (reject_request i event s1) ()
             | Some (True, _, s1) \<Rightarrow>
                 if map_of (cm_established s1) peer \<noteq> None \<or> peer \<in> set (cm_requested s1) then
                   finish (Release (reject_request i event s1)) ()
                 else if env_has_qp e i then Some (Fault Assert_Fail)
                 else RDMA_CM_ASSERT e (Rdma_Create_Qp i DefaultQpInitAttr) s1 (accept_connection e peer (Some i) event))
          else accept_connection e peer (cm_loopback_id s) event s)"

definition OnEstablished :: "cm_id \<Rightarrow> cm_event \<Rightarrow> cm \<Rightarrow> cm" where
  "OnEstablished i event s = tell (Rdma_Ack_Cm_Event event) s"

definition OnDisconnect :: "cm_id \<Rightarrow> attempts \<Rightarrow> cm \<Rightarrow> unit cm_run" where
  "OnDisconnect i ms s =
     (let s1 = tell (Rdma_Disconnect i) s
      in case cm_context s1 i of None \<Rightarrow> Some (Fault Null_Deref)
      | Some peer \<Rightarrow>
          (case Acquire peer ms s1 of None \<Rightarrow> None
           | Some (_, _, s2) \<Rightarrow>
               let s3 = (case map_of (cm_established s2) peer of None \<Rightarrow> s2
                         | Some conn \<Rightarrow> if cn_id conn = i then erase peer s2 else s2);
                   s4 = Release s3
               in finish (tell (Rdma_Destroy_Event_Channel i) (tell (Rdma_Destroy_Ep i) s4)) ()))"

section \<open>Outgoing connections\<close>

text \<open>The new entry of the table is returned after the lock is released.\<close>

definition add_connection :: "u32 \<Rightarrow> cm_id \<Rightarrow> cm \<Rightarrow> connection status_or cm_run" where
  "add_connection peer i s =
     (case emplace peer (Connection (cm_my_id s) peer i) s of (inserted, s1) \<Rightarrow>
        if \<not> inserted then Some (Fault Assert_Fail)
        else case map_of (cm_established s1) peer of
          Some conn \<Rightarrow> finish (Release s1) (Inr conn) | None \<Rightarrow> Some (Fault Null_Deref))"

definition loopback_init :: qp_attr where
  "loopback_init = DefaultQpAttr\<lparr>qa_state := Some QPS_INIT, qa_port_num := LOOPBACK_PORT_NUM\<rparr>"

definition loopback_rtr :: "cm_env \<Rightarrow> cm_id \<Rightarrow> qp_attr" where
  "loopback_rtr e i = loopback_init\<lparr>qa_dlid := env_lid e, qa_state := Some QPS_RTR, qa_dest_qp := Some i,
     qa_ah_port_num := LOOPBACK_PORT_NUM\<rparr>"

definition loopback_rts :: "cm_env \<Rightarrow> cm_id \<Rightarrow> qp_attr" where
  "loopback_rts e i = (loopback_rtr e i)\<lparr>qa_state := Some QPS_RTS\<rparr>"

definition ConnectLoopback :: "cm_env \<Rightarrow> cm_id \<Rightarrow> cm \<Rightarrow> connection status_or cm_run" where
  "ConnectLoopback e i s =
     (if \<not> env_has_qp e i then Some (Fault Assert_Fail)
      else
        RDMA_CM_CHECK e (Ibv_Modify_Qp i loopback_init [QP_STATE, QP_PKEY_INDEX, QP_PORT, QP_ACCESS_FLAGS]) s (\<lambda>s1.
        RDMA_CM_CHECK e (Ibv_Query_Port i LOOPBACK_PORT_NUM) s1 (\<lambda>s2.
        RDMA_CM_CHECK e (Ibv_Modify_Qp i (loopback_rtr e i)
          [QP_STATE, QP_AV, QP_PATH_MTU, QP_DEST_QPN, QP_RQ_PSN, QP_MAX_DEST_RD_ATOMIC, QP_MIN_RNR_TIMER]) s2 (\<lambda>s3.
        RDMA_CM_CHECK e (Ibv_Modify_Qp i (loopback_rts e i)
          [QP_STATE, QP_SQ_PSN, QP_TIMEOUT, QP_RETRY_CNT, QP_RNR_RETRY, QP_MAX_QP_RD_ATOMIC]) s3 (\<lambda>s4.
        add_flag e (Recv_Cq_Fd i) O_NONBLOCK s4 (\<lambda>s5.
        add_flag e (Send_Cq_Fd i) O_NONBLOCK s5 (\<lambda>s6.
        add_connection (cm_my_id s6) i s6)))))))"

text \<open>
  The wait for the next event: it is retried while the channel has none; on another error the event
  that is read next was never written.
\<close>

fun next_event :: "poll list \<Rightarrow> (cm_event \<times> poll list) run" where
  "next_event [] = None"
| "next_event (Poll_Again # ps) = next_event ps"
| "next_event (Poll_Error # ps) = Some (Fault Undefined)"
| "next_event (Poll_Event ev # ps) = Some (Ret (ev, ps))"

lemma next_event_length: "next_event ps = Some (Ret (ev, ps')) \<Longrightarrow> length ps' < length ps"
  by (induction ps rule: next_event.induct) auto

text \<open>A connection that was established meanwhile: this endpoint is given up.\<close>

definition already_connected :: "cm_env \<Rightarrow> u32 \<Rightarrow> cm_id \<Rightarrow> connection \<Rightarrow> poll list \<Rightarrow> cm \<Rightarrow> connection status_or cm_run" where
  "already_connected e peer i conn polls s =
     RDMA_CM_CHECK e (Rdma_Disconnect i) (Release s) (\<lambda>s1.
     bindR (next_event polls) (\<lambda>(event, _).
     RDMA_CM_CHECK e (Rdma_Ack_Cm_Event event) s1 (\<lambda>s2.
     finish (tell (Rdma_Destroy_Event_Channel i) (tell (Rdma_Destroy_Ep i) s2)) (Inr conn))))"

definition connected :: "cm_env \<Rightarrow> u32 \<Rightarrow> cm_id \<Rightarrow> cm \<Rightarrow> connection status_or cm_run" where
  "connected e peer i s =
     add_flag e (Channel_Fd i) O_SYNC s (\<lambda>s1.
     add_flag e (Recv_Cq_Fd i) O_NONBLOCK s1 (\<lambda>s2.
     add_flag e (Send_Cq_Fd i) O_NONBLOCK s2 (\<lambda>s3.
     add_connection peer i s3)))"

definition next_backoff :: "cm \<Rightarrow> u32" where
  "next_backoff s = (if cm_backoff_us s > 0 then min ((cm_backoff_us s + 100 * cm_my_id s) * 2) kMaxBackoffUs else kMinBackoffUs)"

definition refused :: "cm_env \<Rightarrow> cm_id \<Rightarrow> cm_event_type \<Rightarrow> cm \<Rightarrow> connection status_or cm_run" where
  "refused e i kind s =
     (let s1 = Release (s\<lparr>cm_backoff_us := next_backoff s\<rparr>);
          s2 = tell (Rdma_Destroy_Event_Channel i) (tell (Rdma_Destroy_Ep i) s1)
      in if kind = REJECTED then
           fail_with kUnavailable ''Connection request rejected'' (tell (Sleep_For (cm_backoff_us s2)) s2)
         else fail_with kInternal (''Got unexpected event: '' @ env_event_str e kind) s2)"

function handle_events :: "cm_env \<Rightarrow> u32 \<Rightarrow> cm_id \<Rightarrow> poll list \<Rightarrow> cm \<Rightarrow> connection status_or cm_run" where
  "handle_events e peer i polls s = (case next_event polls of
       None \<Rightarrow> None
     | Some (Fault x) \<Rightarrow> Some (Fault x)
     | Some (Ret (event, ps)) \<Rightarrow>
         if ev_event event = ESTABLISHED then
           RDMA_CM_CHECK e (Rdma_Ack_Cm_Event event) s (\<lambda>s1.
             case map_of (cm_established s1) peer of
               Some conn \<Rightarrow> if peer \<noteq> cm_my_id s1 then already_connected e peer i conn ps s1 else connected e peer i s1
             | None \<Rightarrow> connected e peer i s1)
         else if ev_event event = ADDR_RESOLVED then
           RDMA_CM_CHECK e (Rdma_Ack_Cm_Event event) s (handle_events e peer i ps)
         else RDMA_CM_CHECK e (Rdma_Ack_Cm_Event event) s (refused e i (ev_event event)))"
  by pat_completeness auto
termination
  by (relation "measure (\<lambda>(e, peer, i, polls, s). length polls)") (auto dest: next_event_length)

declare handle_events.simps [simp del]

text \<open>\<open>htons\<close> on a little-endian machine.\<close>

definition htons :: "u16 \<Rightarrow> u16" where
  "htons p = (push_bit 8 p) OR (drop_bit 8 p)"

definition conn_request :: "u32 \<Rightarrow> conn_param" where
  "conn_request my_id = \<lparr>cp_private_data = my_id, cp_rnr_retry_count = 1, cp_retry_count = 7,
     cp_responder_resources = 8, cp_initiator_depth = 8\<rparr>"

definition connect_endpoint :: "cm_env \<Rightarrow> u32 \<Rightarrow> cm_id \<Rightarrow> poll list \<Rightarrow> cm \<Rightarrow> connection status_or cm_run" where
  "connect_endpoint e peer i polls s =
     (if peer = cm_my_id s then ConnectLoopback e i s
      else case invoke e Rdma_Create_Event_Channel s of (null, s1) \<Rightarrow>
        if null \<noteq> 0 then Some (Fault Null_Deref)
        else
          add_flag e (Channel_Fd i) O_NONBLOCK s1 (\<lambda>s2.
          RDMA_CM_CHECK e (Rdma_Migrate_Id i) s2 (\<lambda>s3.
          RDMA_CM_CHECK e (Rdma_Connect i (conn_request (cm_my_id s3))) s3 (\<lambda>s4.
          handle_events e peer i polls s4))))"

definition Connect :: "cm_env \<Rightarrow> u32 \<Rightarrow> string \<Rightarrow> u16 \<Rightarrow> attempts \<Rightarrow> poll list \<Rightarrow> cm \<Rightarrow> connection status_or cm_run" where
  "Connect e peer server port ms polls s =
     (case Acquire (cm_my_id s) ms s of None \<Rightarrow> None
      | Some (False, _, s1) \<Rightarrow> fail_with kUnavailable ''Lock acquisition failed'' s1
      | Some (True, _, s1) \<Rightarrow>
          (case map_of (cm_established s1) peer of Some conn \<Rightarrow> finish (Release s1) (Inr conn)
           | None \<Rightarrow>
             (case cm_broker s1 of None \<Rightarrow> Some (Fault Null_Deref)
              | Some src_addr \<Rightarrow>
                (case invoke e (Rdma_Getaddrinfo server (decimal (unat (htons port))) src_addr) s1 of (gai_ret, s2) \<Rightarrow>
                   if gai_ret \<noteq> 0 then fail_with kInternal (''rdma_getaddrinfo(): '' @ env_gai_strerror e gai_ret) s2
                   else case invoke e (Rdma_Create_Ep DefaultQpInitAttr) s2 of (err, s3) \<Rightarrow>
                     let i = env_new_id e (cm_trace s2); s4 = tell Rdma_Freeaddrinfo s3
                     in if err \<noteq> 0 then fail_with kInternal (''rdma_create_ep(): '' @ env_strerror e (cm_trace s4) @ '' ('' @ decimal (env_errno e (cm_trace s4)) @ '')'') (Release s4)
                        else connect_endpoint e peer i polls s4))))"

section \<open>The destructor\<close>

text \<open>
  \<open>drained\<close> gives the events that are left on the channel of an endpoint when it is shut down; the
  loop acknowledges them and ends with the first poll that yields none.
\<close>

fun drain_events :: "cm_env \<Rightarrow> cm_event list \<Rightarrow> cm \<Rightarrow> unit cm_run" where
  "drain_events e [] s = finish s ()"
| "drain_events e (ev # evs) s = RDMA_CM_ASSERT e (Rdma_Ack_Cm_Event ev) s (drain_events e evs)"

definition cleanup :: "cm_env \<Rightarrow> (cm_id \<Rightarrow> cm_event list) \<Rightarrow> u32 \<times> connection \<Rightarrow> cm \<Rightarrow> unit cm_run" where
  "cleanup e drained it s =
     (let i = cn_id (snd it); remote = fst it \<noteq> cm_my_id s
      in bindR (if remote then drain_events e (drained i) (tell (Rdma_Disconnect i) s) else finish s ()) (\<lambda>(s1, _).
         let s2 = tell (Rdma_Destroy_Ep i) s1
         in finish (if remote \<and> cm_context s1 i \<noteq> None then tell (Free_Context i) s2
                    else if remote then tell (Rdma_Destroy_Event_Channel i) s2 else s2) ()))"

fun cleanup_all :: "cm_env \<Rightarrow> (cm_id \<Rightarrow> cm_event list) \<Rightarrow> (u32 \<times> connection) list \<Rightarrow> cm \<Rightarrow> unit cm_run" where
  "cleanup_all e drained [] s = finish s ()"
| "cleanup_all e drained (it # its) s = bindR (cleanup e drained it s) (\<lambda>(s1, _). cleanup_all e drained its s1)"

definition destroy_manager :: "cm_env \<Rightarrow> (cm_id \<Rightarrow> cm_event list) \<Rightarrow> attempts \<Rightarrow> cm \<Rightarrow> unit cm_run" where
  "destroy_manager e drained ms s =
     (case Acquire (cm_my_id s) ms s of None \<Rightarrow> None
      | Some (_, _, s1) \<Rightarrow>
          let s2 = Shutdown s1; s3 = (if cm_broker s2 = None then s2 else tell Broker_Stop s2)
          in bindR (cleanup_all e drained (cm_established s3) s3) (\<lambda>(s4, _). finish (Release s4) ()))"

end
