(* ===== verification/Connection_Manager_Props.thy ===== *)
theory Connection_Manager_Props
  imports Connection_Manager
begin

text \<open>
  The table and the lock of the connection manager: what each operation does to them, the invariant
  of every sequence of operations of one thread, the mutual exclusion of the lock between threads,
  and the cases where the lock is kept or given away.
\<close>

section \<open>Effects of the operations\<close>

text \<open>Two states that differ in the calls made only.\<close>

definition frame :: "cm \<Rightarrow> cm \<Rightarrow> bool" where
  "frame s s' \<longleftrightarrow> s'\<lparr>cm_trace := []\<rparr> = s\<lparr>cm_trace := []\<rparr>"

lemma frame_fields:
  "frame s s' \<Longrightarrow> cm_my_id s' = cm_my_id s \<and> cm_mu s' = cm_mu s \<and> cm_established s' = cm_established s \<and>
     cm_requested s' = cm_requested s \<and> cm_loopback_id s' = cm_loopback_id s \<and> cm_broker s' = cm_broker s \<and>
     cm_context s' = cm_context s \<and> cm_backoff_us s' = cm_backoff_us s \<and> cm_accepting s' = cm_accepting s"
  by (cases s; cases s') (simp add: frame_def)

lemma frame_refl [simp]: "frame s s"
  by (simp add: frame_def)

lemma frame_trans: "frame s s1 \<Longrightarrow> frame s1 s' \<Longrightarrow> frame s s'"
  by (simp add: frame_def)

lemma frame_tell [simp]: "frame s (tell c s1) \<longleftrightarrow> frame s s1"
  by (cases s1) (simp add: frame_def tell_def)

lemma frame_invoke: "invoke e c s = (r, s1) \<Longrightarrow> frame s s1"
  by (auto simp: invoke_def frame_def)

text \<open>
  What an outgoing connection may do: on success the lock is free and the connection is in the table,
  where it was or as the new last entry; on an error the table is the same.
\<close>

definition same_config :: "cm \<Rightarrow> cm \<Rightarrow> bool" where
  "same_config s s' \<longleftrightarrow> cm_my_id s' = cm_my_id s \<and> cm_requested s' = cm_requested s \<and>
     cm_loopback_id s' = cm_loopback_id s \<and> cm_broker s' = cm_broker s \<and> cm_context s' = cm_context s"

definition grow :: "u32 \<Rightarrow> cm \<Rightarrow> cm \<Rightarrow> connection status_or \<Rightarrow> bool" where
  "grow peer s s' r \<longleftrightarrow> same_config s s' \<and>
     (case r of
        Inl _ \<Rightarrow> cm_established s' = cm_established s \<and> cm_mu s' \<in> {cm_mu s, kUnlocked}
      | Inr conn \<Rightarrow> cm_mu s' = kUnlocked \<and>
          ((map_of (cm_established s) peer = Some conn \<and> cm_established s' = cm_established s) \<or>
           (map_of (cm_established s) peer = None \<and> cm_established s' = cm_established s @ [(peer, conn)] \<and>
            (\<exists>i. conn = Connection (cm_my_id s) peer i))))"

lemma grow_frame: "frame s s1 \<Longrightarrow> grow peer s1 s' r \<Longrightarrow> grow peer s s' r"
  using frame_fields [of s s1] by (auto simp: grow_def same_config_def split: sum.splits)

lemma grow_Release: "grow peer (Release s) s' r \<Longrightarrow> grow peer s s' r"
  by (auto simp: grow_def same_config_def Release_def split: sum.splits)

lemma grow_fail: "fail_with c m s = Some (Ret (s', r)) \<Longrightarrow> grow peer s s' r"
  by (auto simp: fail_with_def finish_def grow_def same_config_def)

lemma grow_check:
  assumes "RDMA_CM_CHECK e c s k = Some (Ret (s', r))"
    "\<And>s1. frame s s1 \<Longrightarrow> k s1 = Some (Ret (s', r)) \<Longrightarrow> grow peer s1 s' r"
  shows "grow peer s s' r"
proof -
  obtain ret s1 where i: "invoke e c s = (ret, s1)" by force
  note f = frame_invoke [OF this]
  have "grow peer s1 s' r"
    using assms(1) i assms(2) [OF f] by (auto simp: RDMA_CM_CHECK_def split: if_splits intro: grow_fail)
  then show ?thesis by (rule grow_frame [OF f])
qed

lemma grow_add_flag:
  assumes "add_flag e fd fl s k = Some (Ret (s', r))"
    "\<And>s1. frame s s1 \<Longrightarrow> k s1 = Some (Ret (s', r)) \<Longrightarrow> grow peer s1 s' r"
  shows "grow peer s s' r"
proof -
  obtain old s1 where i: "invoke e (Fcntl_Getfl fd) s = (old, s1)" by force
  note f = frame_invoke [OF this]
  have "RDMA_CM_CHECK e (Fcntl_Setfl fd old fl) s1 k = Some (Ret (s', r))" using assms(1) i by (simp add: add_flag_def)
  then have "grow peer s1 s' r" by (rule grow_check) (blast intro: assms(2) frame_trans [OF f])
  then show ?thesis by (rule grow_frame [OF f])
qed

lemma grow_finish: "finish (Release s) (Inr conn) = Some (Ret (s', r)) \<Longrightarrow>
    map_of (cm_established s) peer = Some conn \<Longrightarrow> grow peer s s' r"
  by (auto simp: finish_def grow_def same_config_def Release_def)

lemma grow_add_connection: "add_connection peer i s = Some (Ret (s', r)) \<Longrightarrow> grow peer s s' r"
  by (auto simp: add_connection_def emplace_def finish_def grow_def same_config_def Release_def
      split: if_splits option.splits)

lemmas grow_intros = grow_check grow_add_flag grow_add_connection

lemma grow_loopback: "ConnectLoopback e i s = Some (Ret (s', r)) \<Longrightarrow> cm_my_id s = peer \<Longrightarrow> grow peer s s' r"
  by (auto simp: ConnectLoopback_def dest!: frame_fields split: if_splits elim!: grow_intros)

lemma grow_connected: "connected e peer i s = Some (Ret (s', r)) \<Longrightarrow> grow peer s s' r"
  by (auto simp: connected_def elim!: grow_intros)

lemma grow_already:
  assumes "already_connected e peer i conn polls s = Some (Ret (s', r))" "map_of (cm_established s) peer = Some conn"
  shows "grow peer s s' r"
proof (rule grow_Release, rule grow_check [OF assms(1) [unfolded already_connected_def]])
  fix s1
  assume f: "frame (Release s) s1" and "bindR (next_event polls) (\<lambda>(event, _). RDMA_CM_CHECK e (Rdma_Ack_Cm_Event event) s1
      (\<lambda>s2. finish (tell (Rdma_Destroy_Event_Channel i) (tell (Rdma_Destroy_Ep i) s2)) (Inr conn))) = Some (Ret (s', r))"
  then obtain event where
    "RDMA_CM_CHECK e (Rdma_Ack_Cm_Event event) s1
      (\<lambda>s2. finish (tell (Rdma_Destroy_Event_Channel i) (tell (Rdma_Destroy_Ep i) s2)) (Inr conn)) = Some (Ret (s', r))"
    by (auto simp: outcome_inv)
  then show "grow peer s1 s' r"
  proof (rule grow_check)
    fix s2
    assume g: "frame s1 s2" "finish (tell (Rdma_Destroy_Event_Channel i) (tell (Rdma_Destroy_Ep i) s2)) (Inr conn) = Some (Ret (s', r))"
    then show "grow peer s2 s' r"
      using frame_fields [OF frame_trans [OF f g(1)]] assms(2)
      by (auto simp: finish_def grow_def same_config_def Release_def tell_def)
  qed
qed

lemma grow_refused: "refused e i kind s = Some (Ret (s', r)) \<Longrightarrow> grow peer s s' r"
  by (auto simp: refused_def Let_def fail_with_def finish_def grow_def same_config_def Release_def tell_def split: if_splits)

lemma grow_events: "handle_events e peer i polls s = Some (Ret (s', r)) \<Longrightarrow> grow peer s s' r"
proof (induction e peer i polls s rule: handle_events.induct)
  case (1 e peer i polls s)
  note def = handle_events.simps [of e peer i polls s]
  obtain ev ps where ev: "next_event polls = Some (Ret (ev, ps))"
    using 1(2) def by (auto split: option.splits outcome.splits)
  show ?case
  proof (cases "ev_event ev = ESTABLISHED")
    case True
    then have "RDMA_CM_CHECK e (Rdma_Ack_Cm_Event ev) s (\<lambda>s1.
             case map_of (cm_established s1) peer of
               Some conn \<Rightarrow> if peer \<noteq> cm_my_id s1 then already_connected e peer i conn ps s1 else connected e peer i s1
             | None \<Rightarrow> connected e peer i s1) = Some (Ret (s', r))"
      using 1(2) def ev by simp
    then show ?thesis
      by (rule grow_check) (auto split: option.splits if_splits intro: grow_already grow_connected)
  next
    case False
    show ?thesis
    proof (cases "ev_event ev = ADDR_RESOLVED")
      case True
      then have "RDMA_CM_CHECK e (Rdma_Ack_Cm_Event ev) s (handle_events e peer i ps) = Some (Ret (s', r))"
        using 1(2) def ev by simp
      then show ?thesis by (rule grow_check) (rule 1(1) [OF ev refl refl False True])
    next
      case nr: False
      then have "RDMA_CM_CHECK e (Rdma_Ack_Cm_Event ev) s (refused e i (ev_event ev)) = Some (Ret (s', r))"
        using 1(2) def ev False by simp
      then show ?thesis by (rule grow_check) (rule grow_refused)
    qed
  qed
qed

lemma grow_endpoint: "connect_endpoint e peer i polls s = Some (Ret (s', r)) \<Longrightarrow> grow peer s s' r"
proof (cases "peer = cm_my_id s")
  case True
  assume "connect_endpoint e peer i polls s = Some (Ret (s', r))"
  then show ?thesis using True by (auto simp: connect_endpoint_def intro: grow_loopback)
next
  case False
  assume c: "connect_endpoint e peer i polls s = Some (Ret (s', r))"
  obtain null s1 where i: "invoke e Rdma_Create_Event_Channel s = (null, s1)" by force
  have "grow peer s1 s' r"
    using c False i by (auto simp: connect_endpoint_def split: if_splits elim!: grow_intros intro: grow_events)
  then show ?thesis by (rule grow_frame [OF frame_invoke [OF i]])
qed

lemma Acquire_result:
  "Acquire peer ms s = Some (b, ms', s1) \<Longrightarrow> s1 = (if b then s\<lparr>cm_mu := sint peer\<rparr> else s)"
  by (induction peer ms s rule: Acquire.induct) (auto split: if_splits)

lemma Connect_effect:
  assumes "Connect e peer server port ms polls s = Some (Ret (s', r))"
  shows "grow peer (s\<lparr>cm_mu := sint (cm_my_id s)\<rparr>) s' r \<or> (s' = s \<and> r = Inl (ErrorStatus kUnavailable ''Lock acquisition failed''))"
proof -
  obtain b ms1 s1 where a: "Acquire (cm_my_id s) ms s = Some (b, ms1, s1)"
    using assms by (auto simp: Connect_def split: option.splits)
  show ?thesis
  proof (cases b)
    case False
    then show ?thesis using assms a Acquire_result [OF a] by (simp add: Connect_def fail_with_def finish_def)
  next
    case b: True
    have s1: "s1 = s\<lparr>cm_mu := sint (cm_my_id s)\<rparr>" using Acquire_result [OF a] b by simp
    have "grow peer s1 s' r"
    proof (cases "map_of (cm_established s1) peer")
      case (Some conn)
      then show ?thesis using assms a b by (auto simp: Connect_def intro: grow_finish)
    next
      case None
      then obtain src where src: "cm_broker s1 = Some src" using assms a b by (auto simp: Connect_def split: option.splits)
      obtain gai s2 where g: "invoke e (Rdma_Getaddrinfo server (decimal (unat (htons port))) src) s1 = (gai, s2)" by force
      obtain err s3 where c: "invoke e (Rdma_Create_Ep DefaultQpInitAttr) s2 = (err, s3)" by force
      have f: "frame s1 s2" "frame s1 (tell Rdma_Freeaddrinfo s3)"
        using frame_invoke [OF g] frame_invoke [OF c] by (auto intro: frame_trans)
      show ?thesis
      proof (cases "gai = 0")
        case False
        then show ?thesis using assms a b None src g
          by (auto simp: Connect_def intro: grow_frame [OF f(1)] grow_fail)
      next
        case True
        then show ?thesis using assms a b None src g c
          by (auto simp: Connect_def Let_def split: if_splits intro!: grow_frame [OF f(2)] intro: grow_endpoint grow_Release grow_fail)
      qed
    qed
    then show ?thesis using s1 by simp
  qed
qed

lemma accept_effect:
  assumes "accept_connection e peer (Some i) event s = Some (Ret (s', u))" "peer \<noteq> cm_my_id s" "map_of (cm_established s) peer = None"
  shows "cm_my_id s' = cm_my_id s \<and> cm_requested s' = cm_requested s \<and> cm_loopback_id s' = cm_loopback_id s \<and> cm_mu s' = kUnlocked \<and>
    cm_established s' = cm_established s @ [(peer, Connection (cm_my_id s) peer i)]"
  using assms
  by (auto simp: accept_connection_def emplace_def Let_def RDMA_CM_ASSERT_def invoke_def finish_def tell_def Release_def split: if_splits)

lemma OnConnectRequest_effect:
  assumes "OnConnectRequest e i event ms s = Some (Ret (s', u))" "cm_loopback_id s = None"
  shows "cm_my_id s' = cm_my_id s \<and> cm_requested s' = cm_requested s \<and> cm_loopback_id s' = cm_loopback_id s \<and>
    cm_mu s' \<in> {cm_mu s, kUnlocked} \<and>
    (cm_established s' = cm_established s \<or>
     (\<exists>peer. ev_private_data event = Some peer \<and> map_of (cm_established s) peer = None \<and>
        cm_established s' = cm_established s @ [(peer, Connection (cm_my_id s) peer i)]))"
proof (cases "cm_accepting s")
  case False
  then show ?thesis using assms by (auto simp: OnConnectRequest_def finish_def)
next
  case True
  obtain peer where p: "ev_private_data event = Some peer" "peer \<noteq> cm_my_id s"
    using assms True by (auto simp: OnConnectRequest_def accept_connection_def split: option.splits if_splits)
  obtain b ms1 s1 where a: "Acquire peer ms s = Some (b, ms1, s1)"
    using assms True p by (auto simp: OnConnectRequest_def split: option.splits)
  note s1 = Acquire_result [OF a]
  show ?thesis
  proof (cases "b \<and> map_of (cm_established s) peer = None \<and> peer \<notin> set (cm_requested s)")
    case False
    then show ?thesis using assms True p a s1
      by (cases b) (auto simp: OnConnectRequest_def finish_def reject_request_def tell_def Release_def)
  next
    case new: True
    then obtain s2 where "frame s1 s2" "accept_connection e peer (Some i) event s2 = Some (Ret (s', u))"
      using assms True p a s1
      by (auto simp: OnConnectRequest_def RDMA_CM_ASSERT_def split: if_splits prod.splits dest: frame_invoke)
    then show ?thesis using accept_effect [of e peer i event s2 s' u] frame_fields [of s1 s2] s1 new p by auto
  qed
qed

lemma OnDisconnect_effect:
  assumes "OnDisconnect i ms s = Some (Ret (s', u))"
  shows "cm_my_id s' = cm_my_id s \<and> cm_requested s' = cm_requested s \<and> cm_loopback_id s' = cm_loopback_id s \<and>
    cm_mu s' = kUnlocked \<and> cm_established s' = filter (\<lambda>(p, c). \<not> (cm_context s i = Some p \<and>
      (\<exists>d. map_of (cm_established s) p = Some d \<and> cn_id d = i))) (cm_established s)"
proof -
  obtain peer where p: "cm_context s i = Some peer"
    using assms by (auto simp: OnDisconnect_def Let_def tell_def split: option.splits)
  obtain b ms1 s1 where a: "Acquire peer ms (tell (Rdma_Disconnect i) s) = Some (b, ms1, s1)"
    using assms p by (auto simp: OnDisconnect_def Let_def tell_def split: option.splits)
  have f: "cm_established s1 = cm_established s" "cm_my_id s1 = cm_my_id s" "cm_requested s1 = cm_requested s"
    "cm_loopback_id s1 = cm_loopback_id s"
    using Acquire_result [OF a] by (auto simp: tell_def)
  show ?thesis
  proof (cases "\<exists>d. map_of (cm_established s) peer = Some d \<and> cn_id d = i")
    case True
    then show ?thesis using assms p a f
      by (auto simp: OnDisconnect_def Let_def tell_def finish_def Release_def erase_def intro!: filter_cong)
  next
    case False
    then show ?thesis using assms p a f
      by (auto simp: OnDisconnect_def Let_def tell_def finish_def Release_def split: option.splits if_splits)
  qed
qed

section \<open>Runs of one thread\<close>

text \<open>An operation that no other thread disturbs reads its own lock word at every attempt.\<close>

definition alone :: "attempts \<Rightarrow> cm \<Rightarrow> bool" where
  "alone ms s \<longleftrightarrow> (\<forall>(m, sp) \<in> set ms. m = cm_mu s)"

inductive cm_step :: "cm_env \<Rightarrow> cm \<Rightarrow> cm \<Rightarrow> bool" for e where
  start: "Start b s = (s', st) \<Longrightarrow> cm_step e s s'"
| shutdown: "cm_step e s (Shutdown s)"
| connect: "alone ms s \<Longrightarrow> Connect e peer server port ms polls s = Some (Ret (s', r)) \<Longrightarrow> cm_step e s s'"
| request: "alone ms s \<Longrightarrow> OnConnectRequest e i event ms s = Some (Ret (s', u)) \<Longrightarrow> cm_step e s s'"
| established: "cm_step e s (OnEstablished i event s)"
| disconnect: "alone ms s \<Longrightarrow> OnDisconnect i ms s = Some (Ret (s', u)) \<Longrightarrow> cm_step e s s'"
| get: "alone ms s \<Longrightarrow> GetConnection peer ms s = Some (r, s') \<Longrightarrow> cm_step e s s'"
| count: "alone ms s \<Longrightarrow> GetNumConnections ms s = Some (n, s') \<Longrightarrow> cm_step e s s'"

definition cm_inv :: "u32 \<Rightarrow> cm \<Rightarrow> bool" where
  "cm_inv my s \<longleftrightarrow> cm_my_id s = my \<and> cm_requested s = [] \<and> cm_loopback_id s = None \<and> cm_mu s \<in> {kUnlocked, sint my} \<and>
     distinct (map fst (cm_established s)) \<and> (\<forall>(p, c) \<in> set (cm_established s). cn_src_id c = my \<and> cn_dst_id c = p)"

lemma GetConnection_effect: "GetConnection peer ms s = Some (r, s') \<Longrightarrow> s' = s\<lparr>cm_mu := kUnlocked\<rparr> \<and>
    r = (case map_of (cm_established s) peer of Some c \<Rightarrow> Inr c
         | None \<Rightarrow> Inl (ErrorStatus kNotFound (''Connection not found: '' @ decimal (unat peer))))"
proof (induction peer ms s rule: GetConnection.induct)
  case (1 peer ms s)
  obtain b ms1 s1 where a: "Acquire (cm_my_id s) ms s = Some (b, ms1, s1)"
    using 1(2) by (subst (asm) GetConnection.simps) (auto split: option.splits)
  note s1 = Acquire_result [OF a]
  show ?case
  proof (cases b)
    case True
    then show ?thesis using 1(2) a s1
      by (subst (asm) GetConnection.simps) (auto simp: Release_def split: option.splits)
  next
    case False
    then have g: "GetConnection peer ms1 s1 = Some (r, s')" using 1(2) a by (subst (asm) GetConnection.simps) simp
    show ?thesis using 1(1) [OF a refl _ refl g] False s1 by simp
  qed
qed

lemma cm_inv_grow: "cm_inv my s \<Longrightarrow> grow peer (s\<lparr>cm_mu := sint my\<rparr>) s' r \<Longrightarrow> cm_inv my s'"
  by (auto simp: cm_inv_def grow_def same_config_def Connection_def map_of_eq_None_iff split: sum.splits)

lemma cm_inv_step: "cm_step e s s' \<Longrightarrow> cm_inv my s \<Longrightarrow> cm_inv my s'"
proof (induction rule: cm_step.induct)
  case (connect ms s peer server port polls s' r)
  then have "cm_my_id s = my" by (simp add: cm_inv_def)
  then show ?case using connect Connect_effect [OF connect(2)] cm_inv_grow by auto
next
  case (request ms s i event s' u)
  then have "cm_loopback_id s = None" by (simp add: cm_inv_def)
  from OnConnectRequest_effect [OF request(2) this] request(3) show ?case
    by (auto simp: cm_inv_def Connection_def map_of_eq_None_iff)
next
  case (disconnect ms s i s' u)
  from OnDisconnect_effect [OF disconnect(2)] disconnect(3) show ?case
    by (auto simp: cm_inv_def distinct_map_filter)
next
  case (get ms s peer r s')
  then show ?case using GetConnection_effect [OF get(2)] by (auto simp: cm_inv_def)
next
  case (count ms s n s')
  then obtain b ms1 s1 where a: "Acquire (cm_my_id s) ms s = Some (b, ms1, s1)" "s' = Release s1"
    by (auto simp: GetNumConnections_def split: option.splits)
  then have "s' = s\<lparr>cm_mu := kUnlocked\<rparr>" using Acquire_result [OF a(1)] by (cases b) (auto simp: Release_def)
  then show ?case using count(3) by (simp add: cm_inv_def)
qed (auto simp: cm_inv_def Start_def Shutdown_def OnEstablished_def tell_def Let_def split: if_splits)

lemma cm_inv_reachable:
  assumes "(cm_step e)\<^sup>*\<^sup>* (ConnectionManager my) s"
  shows "cm_inv my s"
  using assms
proof (induction rule: rtranclp_induct)
  case base
  show ?case by (simp add: cm_inv_def ConnectionManager_def kUnlocked_def)
next
  case (step s s')
  then show ?case by (blast intro: cm_inv_step)
qed

section \<open>Threads on the lock\<close>

text \<open>
  The operations that take the lock. Three of them look at the result of \<open>Acquire\<close>; the others go on
  and release the lock even when they gave up.
\<close>

datatype lock_user = Connecting | Getting | Requesting u32 | Counting | Disconnecting u32 | Destroying

fun lock_id :: "u32 \<Rightarrow> lock_user \<Rightarrow> u32" where
  "lock_id my (Requesting p) = p"
| "lock_id my (Disconnecting p) = p"
| "lock_id my u = my"

fun checked :: "lock_user \<Rightarrow> bool" where
  "checked Connecting = True"
| "checked Getting = True"
| "checked (Requesting p) = True"
| "checked u = False"

datatype phase = Idle | Spinning lock_user | Inside lock_user

fun after_give_up :: "lock_user \<Rightarrow> phase" where
  "after_give_up Getting = Spinning Getting"
| "after_give_up u = (if checked u then Idle else Inside u)"

inductive lock_step :: "lock_user set \<Rightarrow> cm \<times> (nat \<Rightarrow> phase) \<Rightarrow> cm \<times> (nat \<Rightarrow> phase) \<Rightarrow> bool" for U where
  enter: "ph t = Idle \<Longrightarrow> u \<in> U \<Longrightarrow> lock_step U (s, ph) (s, ph(t := Spinning u))"
| acquired: "ph t = Spinning u \<Longrightarrow> Acquire (lock_id (cm_my_id s) u) [(cm_mu s, sp)] s = Some (True, ms, s') \<Longrightarrow>
    lock_step U (s, ph) (s', ph(t := Inside u))"
| gave_up: "ph t = Spinning u \<Longrightarrow> Acquire (lock_id (cm_my_id s) u) [(cm_mu s, sp)] s = Some (False, ms, s') \<Longrightarrow>
    lock_step U (s, ph) (s', ph(t := after_give_up u))"
| leave: "ph t = Inside u \<Longrightarrow> lock_step U (s, ph) (Release s, ph(t := Idle))"

definition inside :: "(nat \<Rightarrow> phase) \<Rightarrow> nat set" where
  "inside ph = {t. \<exists>u. ph t = Inside u}"

definition lock_inv :: "lock_user set \<Rightarrow> u32 \<Rightarrow> cm \<times> (nat \<Rightarrow> phase) \<Rightarrow> bool" where
  "lock_inv U my = (\<lambda>(s, ph). cm_my_id s = my \<and> (\<forall>t u. ph t \<in> {Spinning u, Inside u} \<longrightarrow> u \<in> U) \<and>
     (if cm_mu s = kUnlocked then inside ph = {} else \<exists>t. inside ph = {t}))"

lemma sint_unlocked [simp]: "sint x = kUnlocked \<longleftrightarrow> x = - 1" for x :: u32
proof -
  have "sint (- 1 :: u32) = kUnlocked" by (simp add: kUnlocked_def)
  then show ?thesis by (metis signed_word_eqI)
qed

lemma Acquire_once:
  "Acquire p [(m, sp)] s = Some (True, ms, s') \<longleftrightarrow> m = kUnlocked \<and> \<not> sp \<and> ms = [] \<and> s' = s\<lparr>cm_mu := sint p\<rparr>"
  "Acquire p [(m, sp)] s = Some (False, ms, s') \<longleftrightarrow> \<not> (m = kUnlocked \<and> \<not> sp) \<and> word_of_int m = cm_my_id s \<and> ms = [] \<and> s' = s"
  by auto

lemma lock_inv_step:
  assumes "lock_step U c c'" "lock_inv U my c" "\<forall>u \<in> U. checked u \<and> lock_id my u \<noteq> - 1"
  shows "lock_inv U my c'"
  using assms
proof (induction rule: lock_step.induct)
  case (enter ph t u s)
  then have "inside (ph(t := Spinning u)) = inside ph" by (auto simp: inside_def)
  with enter show ?case by (auto simp: lock_inv_def split: if_splits)
next
  case (acquired ph t u s sp ms s')
  note a = acquired(2) [unfolded Acquire_once]
  from acquired have u: "u \<in> U" "cm_mu s = kUnlocked" "s' = s\<lparr>cm_mu := sint (lock_id my u)\<rparr>" "inside ph = {}"
    using a by (auto simp: lock_inv_def)
  then have "inside (ph(t := Inside u)) = {t}" by (auto simp: inside_def)
  with acquired u show ?case by (auto simp: lock_inv_def)
next
  case (gave_up ph t u s sp ms s')
  note a = gave_up(2) [unfolded Acquire_once]
  from gave_up have u: "u \<in> U" "s' = s" using a by (auto simp: lock_inv_def)
  then have "after_give_up u \<in> {Idle, Spinning u}" using gave_up(4) u(1) by (cases u) auto
  then have "inside (ph(t := after_give_up u)) = inside ph" using gave_up(1) by (auto simp: inside_def)
  with gave_up u \<open>after_give_up u \<in> {Idle, Spinning u}\<close> show ?case
    by (auto simp: lock_inv_def split: if_splits)
next
  case (leave ph t u s)
  then have "t \<in> inside ph" "\<exists>t. inside ph = {t}" by (auto simp: lock_inv_def inside_def split: if_splits)
  then have "inside ph = {t}" by auto
  moreover have "inside (ph(t := Idle)) = inside ph - {t}" by (auto simp: inside_def)
  ultimately have "inside (ph(t := Idle)) = {}" by simp
  with leave show ?case by (auto simp: lock_inv_def Release_def split: if_splits)
qed

section \<open>Properties\<close>


text \<open>The environment of the witnesses: every call succeeds.\<close>

definition calm :: cm_env where
  "calm = \<lparr>env_ret = \<lambda>_ _. 0, env_strerror = \<lambda>_. [], env_errno = \<lambda>_. 0, env_gai_strerror = \<lambda>_. [],
     env_event_str = \<lambda>_. [], env_new_id = \<lambda>tr. 100 + length tr, env_has_qp = \<lambda>_. True, env_lid = 7\<rparr>"

definition started :: cm where
  "started = fst (Start (Some ''10.0.0.1'') (ConnectionManager 1))"

definition two_polls :: "poll list" where
  "two_polls = [Poll_Again, Poll_Event \<lparr>ev_event = ADDR_RESOLVED, ev_id = 101, ev_private_data = None\<rparr>,
     Poll_Event \<lparr>ev_event = ESTABLISHED, ev_id = 101, ev_private_data = None\<rparr>]"

definition after_connect :: cm where
  "after_connect = (case Connect calm 2 ''10.0.0.2'' 18515 [(kUnlocked, True), (kUnlocked, False)] two_polls started of
     Some (Ret (s, _)) \<Rightarrow> s | _ \<Rightarrow> started)"

lemma started_connects:
  "Connect calm 2 ''10.0.0.2'' 18515 [(kUnlocked, True), (kUnlocked, False)] two_polls started =
    Some (Ret (after_connect, Inr (Connection 1 2 101)))"
  by (simp add: after_connect_def Connect_def started_def Start_def ConnectionManager_def kUnlocked_def invoke_def calm_def
      tell_def connect_endpoint_def add_flag_def RDMA_CM_CHECK_def handle_events.simps two_polls_def connected_def
      add_connection_def emplace_def finish_def Connection_def Release_def Let_def)


text \<open>
  When \<open>Connect\<close> succeeds for a peer, the connection it returns is in the table and the lock is
  free; \<open>GetConnection\<close> and any later \<open>Connect\<close> to the same peer return this connection, whatever the
  libraries answer, without a call into them and without a change of the state.
\<close>

theorem connect_then_get:
  assumes "Connect e peer server port ms polls s = Some (Ret (s', Inr conn))"
  shows "map_of (cm_established s') peer = Some conn \<and> cm_mu s' = kUnlocked \<and>
    GetConnection peer [(kUnlocked, False)] s' = Some (Inr conn, s') \<and>
    Connect e' peer server' port' [(kUnlocked, False)] polls' s' = Some (Ret (s', Inr conn))"
proof -
  have g: "grow peer (s\<lparr>cm_mu := sint (cm_my_id s)\<rparr>) s' (Inr conn)" using Connect_effect [OF assms] by simp
  then have m: "map_of (cm_established s') peer = Some conn" "cm_mu s' = kUnlocked"
    by (auto simp: grow_def map_add_def)
  moreover have "Release (s'\<lparr>cm_mu := sint (cm_my_id s')\<rparr>) = s'" using m(2) by (cases s') (simp add: Release_def)
  ultimately show ?thesis by (simp add: GetConnection.simps Connect_def finish_def)
qed

lemma connect_then_get_witness:
  "GetConnection 2 [(kUnlocked, False)] after_connect = Some (Inr (Connection 1 2 101), after_connect)"
  using connect_then_get [OF started_connects] by simp

text \<open>
  C20. An early return of \<open>Connect\<close> keeps the lock: when the address cannot be resolved, \<open>Connect\<close>
  reports the error with the lock still held by this node. From then on every \<open>Connect\<close> is refused,
  \<open>GetConnection\<close> never returns, and every connection request of a peer is rejected, for ever, as
  long as no operation releases a lock that it does not hold.
\<close>

theorem connect_failure_keeps_lock:
  assumes "cm_my_id s \<noteq> - 1" "cm_broker s = Some src" "map_of (cm_established s) peer = None"
    and gai: "env_ret e (cm_trace s) (Rdma_Getaddrinfo server (decimal (unat (htons port))) src) \<noteq> 0"
  shows "\<exists>s' m. Connect e peer server port [(kUnlocked, False)] polls s = Some (Ret (s', Inl (ErrorStatus kInternal m))) \<and>
    cm_mu s' = sint (cm_my_id s) \<and>
    (\<forall>ms p. alone ms s' \<longrightarrow> GetConnection p ms s' = None) \<and>
    (\<forall>ms e' p server' port' polls'. alone ms s' \<and> ms \<noteq> [] \<longrightarrow>
       (\<exists>m. Connect e' p server' port' ms polls' s' = Some (Ret (s', Inl (ErrorStatus kUnavailable m))))) \<and>
    (\<forall>ms e' event p i. alone ms s' \<and> ms \<noteq> [] \<and> cm_accepting s' \<and> ev_private_data event = Some p \<and> p \<noteq> cm_my_id s \<longrightarrow>
       OnConnectRequest e' i event ms s' = Some (Ret (reject_request i event s', ())))"
proof -
  define s' where "s' = s\<lparr>cm_mu := sint (cm_my_id s), cm_trace := cm_trace s @ [Rdma_Getaddrinfo server (decimal (unat (htons port))) src]\<rparr>"
  have give_up: "Acquire q ((m, sp) # ms) s' = Some (False, ms, s')" if "m = cm_mu s'" for q m sp ms
    using that assms(1) by (simp add: s'_def)
  have get: "alone ms s' \<Longrightarrow> GetConnection p ms s' = None" for ms p
  proof (induction ms)
    case (Cons a ms)
    then have "fst a = cm_mu s'" "alone ms s'" by (auto simp: alone_def)
    then show ?case using Cons.IH give_up [of "fst a" _ "snd a" ms]
      by (cases a, subst GetConnection.simps) (simp del: Acquire.simps)
  qed (simp add: GetConnection.simps)
  have "\<exists>m. Connect e peer server port [(kUnlocked, False)] polls s = Some (Ret (s', Inl (ErrorStatus kInternal m)))"
    using assms by (simp add: Connect_def invoke_def fail_with_def finish_def s'_def)
  moreover have "Acquire q ms s' = Some (False, tl ms, s')" if "alone ms s'" "ms \<noteq> []" for q ms
    using that give_up by (cases ms) (auto simp: alone_def simp del: Acquire.simps)
  moreover have "cm_mu s' = sint (cm_my_id s)" "cm_my_id s' = cm_my_id s" by (simp_all add: s'_def)
  ultimately show ?thesis using get
    by (intro exI [of _ s']) (auto simp: Connect_def fail_with_def OnConnectRequest_def finish_def)
qed

definition no_route :: cm_env where
  "no_route = calm\<lparr>env_ret := \<lambda>tr c. case c of Rdma_Getaddrinfo n p a \<Rightarrow> - 2 | _ \<Rightarrow> 0\<rparr>"

lemma connect_failure_keeps_lock_witness:
  "\<exists>s' m. Connect no_route 2 ''host'' 1 [(kUnlocked, False)] [] started = Some (Ret (s', Inl (ErrorStatus kInternal m))) \<and>
    cm_mu s' = 1 \<and> GetConnection 3 (replicate 1000 (cm_mu s', False)) s' = None"
proof -
  have "env_ret no_route (cm_trace started) (Rdma_Getaddrinfo ''host'' (decimal (unat (htons 1))) ''10.0.0.1'') \<noteq> 0"
    by (simp add: no_route_def)
  from connect_failure_keeps_lock [OF _ _ _ this, where peer = 2 and polls = "[]"]
  obtain s' m where s': "Connect no_route 2 ''host'' 1 [(kUnlocked, False)] [] started = Some (Ret (s', Inl (ErrorStatus kInternal m)))"
    "cm_mu s' = 1" "\<forall>ms p. alone ms s' \<longrightarrow> GetConnection p ms s' = None"
    by (auto simp: started_def Start_def ConnectionManager_def Let_def)
  moreover have "alone (replicate 1000 (cm_mu s', False)) s'"
    by (auto simp: alone_def in_set_replicate)
  ultimately show ?thesis by blast
qed


lemma enter_lock:
  assumes "ph t = Idle" "u \<in> U" "cm_mu s = kUnlocked" "cm_my_id s = my"
  shows "(lock_step U)\<^sup>*\<^sup>* (s, ph) (s\<lparr>cm_mu := sint (lock_id my u)\<rparr>, ph(t := Inside u))"
proof -
  have "lock_step U (s, ph(t := Spinning u)) (s\<lparr>cm_mu := sint (lock_id my u)\<rparr>, (ph(t := Spinning u))(t := Inside u))"
    by (rule lock_step.acquired [where sp = False]) (use assms in \<open>simp_all add: Acquire_once\<close>)
  then show ?thesis using lock_step.enter [of ph t u U s] assms(1,2) by auto
qed




end
