(* ===== verification/Rdma_Memory.thy ===== *)
theory Rdma_Memory
  imports Rome_Prelude
begin

text \<open>
  Registered memory: \<open>RdmaMemory\<close> of \<open>rome/rdma/rdma_memory.h\<close> and \<open>rdma_memory.cc\<close>. The
  allocation and the registration of the verbs library are arguments of the operations; an address
  is a natural number, a region the range of addresses that \<open>ibv_reg_mr\<close> was given and its keys.
\<close>

record mem_region =
  mr_addr :: nat
  mr_length :: int
  mr_pd :: nat
  mr_lkey :: u32
  mr_rkey :: u32

record rdma_memory =
  rm_capacity :: u64
  rm_raw :: nat
  rm_regions :: "string \<rightharpoonup> mem_region"
  rm_huge :: bool  \<comment> \<open>the alternative of the variant \<open>raw_\<close>\<close>

definition kDefaultId :: string where "kDefaultId = ''default''"

text \<open>
  \<open>ValidateRegion\<close>: the sum of the two \<open>int\<close>s must not overflow; it is then compared as an unsigned
  64-bit number.
\<close>

definition ValidateRegion :: "rdma_memory \<Rightarrow> int \<Rightarrow> int \<Rightarrow> bool outcome" where
  "ValidateRegion rm offset len =
     (if offset < 0 \<or> len < 0 then Ret False
      else if offset + len \<ge> 2 ^ 31 then Fault Undefined
      else if offset + len > uint (rm_capacity rm) then Ret False
      else Ret True)"

text \<open>
  \<open>RegisterMemoryRegion\<close>; \<open>reg_mr\<close> is the registration, \<open>None\<close> for a null result, otherwise the
  local and the remote key.
\<close>

definition RegisterMemoryRegion ::
  "(nat \<Rightarrow> nat \<Rightarrow> int \<Rightarrow> (u32 \<times> u32) option) \<Rightarrow> rdma_memory \<Rightarrow> string \<Rightarrow> nat \<Rightarrow> int \<Rightarrow> int \<Rightarrow>
    (rdma_memory \<times> status) outcome" where
  "RegisterMemoryRegion reg_mr rm rid pd offset len =
     bindO (ValidateRegion rm offset len) (\<lambda>valid.
     if \<not> valid then Ret (rm, ErrorStatus kFailedPrecondition (''Requested memory region invalid: '' @ rid))
     else if rm_regions rm rid \<noteq> None then Ret (rm, ErrorStatus kAlreadyExists (''Memory region exists: {}'' @ rid))
     else let base = rm_raw rm + nat offset
          in case reg_mr pd base len of
               None \<Rightarrow> Ret (rm, ErrorStatus kInternal ''Failed to register memory region'')
             | Some (lk, rk) \<Rightarrow>
                 Ret (rm\<lparr>rm_regions := (rm_regions rm)(rid \<mapsto>
                   \<lparr>mr_addr = base, mr_length = len, mr_pd = pd, mr_lkey = lk, mr_rkey = rk\<rparr>)\<rparr>, OkStatus))"

definition GetDefaultMemoryRegion :: "rdma_memory \<Rightarrow> mem_region outcome" where
  "GetDefaultMemoryRegion rm =
     (case rm_regions rm kDefaultId of None \<Rightarrow> Fault Undefined | Some mr \<Rightarrow> Ret mr)"

definition RegisterDefaultPd ::
  "(nat \<Rightarrow> nat \<Rightarrow> int \<Rightarrow> (u32 \<times> u32) option) \<Rightarrow> rdma_memory \<Rightarrow> string \<Rightarrow> int \<Rightarrow> int \<Rightarrow> (rdma_memory \<times> status) outcome" where
  "RegisterDefaultPd reg_mr rm rid offset len =
     bindO (GetDefaultMemoryRegion rm) (\<lambda>mr. RegisterMemoryRegion reg_mr rm rid (mr_pd mr) offset len)"

definition GetMemoryRegion :: "rdma_memory \<Rightarrow> string \<Rightarrow> mem_region status_or" where
  "GetMemoryRegion rm rid =
     (case rm_regions rm rid of
        None \<Rightarrow> Inl (ErrorStatus kNotFound (''Memory region not found: {}'' @ rid))
      | Some mr \<Rightarrow> Inr mr)"

text \<open>The text of the file of huge pages is \<open>None\<close> when it cannot be opened.\<close>

definition GetNumHugepages :: "string \<Rightarrow> string option \<Rightarrow> int status_or" where
  "GetNumHugepages path file =
     (case file of
        None \<Rightarrow> Inl (ErrorStatus kUnknown (''Failed to open file: '' @ path))
      | Some txt \<Rightarrow> (case read_int txt of
          Some nr_hugepages \<Rightarrow> Inr nr_hugepages
        | None \<Rightarrow> Inl (ErrorStatus kUnknown ''Failed to read nr_hugepages'')))"

text \<open>
  The constructor, with the path and the file at it; the allocations are arguments, and a null result is a failed assertion. The
  capacity is passed on as an \<open>int\<close> and thereby truncated.
\<close>

definition heap_bytes :: "u64 \<Rightarrow> u64" where
  "heap_bytes capacity = push_bit 6 (drop_bit 6 capacity + 1)"

definition RdmaMemory ::
  "(nat \<Rightarrow> nat \<Rightarrow> int \<Rightarrow> (u32 \<times> u32) option) \<Rightarrow> (u64 \<Rightarrow> nat option) \<Rightarrow> (u64 \<Rightarrow> nat option) \<Rightarrow>
    u64 \<Rightarrow> (string \<times> string option) option \<Rightarrow> nat \<Rightarrow> rdma_memory outcome" where
  "RdmaMemory reg_mr aligned_alloc mmap capacity path pd =
     (let use_hugepages = (case path of
            None \<Rightarrow> False
          | Some (name, file) \<Rightarrow> (case GetNumHugepages name file of Inl e \<Rightarrow> False | Inr n \<Rightarrow> n > 0));
          raw = (if \<not> use_hugepages then aligned_alloc (heap_bytes capacity) else mmap capacity)
      in case raw of
           None \<Rightarrow> Fault Assert_Fail
         | Some r \<Rightarrow>
             bindO (RegisterMemoryRegion reg_mr \<lparr>rm_capacity = capacity, rm_raw = r, rm_regions = Map.empty, rm_huge = use_hugepages\<rparr>
                 kDefaultId pd 0 (sint (ucast capacity :: u32))) (\<lambda>(rm, st).
               assertO (status_ok st) (Ret rm)))"

text \<open>
  The destructor clears the table of regions, in the order \<open>ids\<close> of the hash table, and releases the buffer, unless it was moved away:
  an array with \<open>delete[]\<close>, a mapping with \<open>munmap\<close>.
\<close>

datatype release = Dereg_Mr mem_region | Delete_Array nat | Munmap nat nat

definition mmap_deleter :: "nat \<Rightarrow> release" where
  "mmap_deleter raw = Munmap raw 1"

definition destroy_RdmaMemory :: "string list \<Rightarrow> rdma_memory \<Rightarrow> release list" where
  "destroy_RdmaMemory ids rm = map (\<lambda>rid. Dereg_Mr (the (rm_regions rm rid))) ids @
     (if rm_raw rm = 0 then [] else [if rm_huge rm then mmap_deleter (rm_raw rm) else Delete_Array (rm_raw rm)])"

text \<open>The move constructor: the new memory and what is left of the old one.\<close>

definition move_RdmaMemory :: "rdma_memory \<Rightarrow> rdma_memory \<times> rdma_memory" where
  "move_RdmaMemory rm = (rm, rm\<lparr>rm_raw := 0, rm_regions := Map.empty\<rparr>)"

text \<open>
  The invariant: the default region exists, and every region lies inside the buffer.
\<close>

definition regions_ok :: "rdma_memory \<Rightarrow> bool" where
  "regions_ok rm \<longleftrightarrow> rm_regions rm kDefaultId \<noteq> None \<and>
     (\<forall>rid mr. rm_regions rm rid = Some mr \<longrightarrow>
        rm_raw rm \<le> mr_addr mr \<and> 0 \<le> mr_length mr \<and>
        int (mr_addr mr) + mr_length mr \<le> int (rm_raw rm) + uint (rm_capacity rm))"

lemma RegisterMemoryRegion_cases:
  assumes "RegisterMemoryRegion reg_mr rm rid pd offset len = Ret (rm', st)"
  obtains "rm' = rm" "\<not> status_ok st"
  | lk rk where "0 \<le> offset" "0 \<le> len" "offset + len \<le> uint (rm_capacity rm)" "rm_regions rm rid = None" "st = OkStatus"
      "rm' = rm\<lparr>rm_regions := (rm_regions rm)(rid \<mapsto>
         \<lparr>mr_addr = rm_raw rm + nat offset, mr_length = len, mr_pd = pd, mr_lkey = lk, mr_rkey = rk\<rparr>)\<rparr>"
proof -
  obtain valid where v: "ValidateRegion rm offset len = Ret valid"
    using assms by (cases "ValidateRegion rm offset len") (auto simp: RegisterMemoryRegion_def)
  show ?thesis
  proof (cases "valid \<and> rm_regions rm rid = None")
    case False
    then show ?thesis using assms v
      by (intro that(1)) (auto simp: RegisterMemoryRegion_def Let_def split: if_splits option.splits prod.splits)
  next
    case True
    then have b: "0 \<le> offset" "0 \<le> len" "offset + len \<le> uint (rm_capacity rm)"
      using v by (auto simp: ValidateRegion_def split: if_splits)
    show ?thesis
    proof (cases "reg_mr pd (rm_raw rm + nat offset) len")
      case None
      then show ?thesis using assms v True by (intro that(1)) (auto simp: RegisterMemoryRegion_def)
    next
      case (Some k)
      then show ?thesis using assms v True b
        by (intro that(2) [of "fst k" "snd k"]) (auto simp: RegisterMemoryRegion_def Let_def split: prod.splits)
    qed
  qed
qed

lemma RegisterMemoryRegion_total:
  "offset + len < 2 ^ 31 \<Longrightarrow> \<exists>rm' st. RegisterMemoryRegion reg_mr rm rid pd offset len = Ret (rm', st)"
  by (auto simp: RegisterMemoryRegion_def ValidateRegion_def Let_def split: option.splits)

lemma RegisterMemoryRegion_ok:
  assumes "RegisterMemoryRegion reg_mr rm rid pd offset len = Ret (rm', st)"
    and "regions_ok rm \<or> rm_regions rm = Map.empty \<and> rid = kDefaultId \<and> st = OkStatus"
  shows "regions_ok rm' \<and> rm_raw rm' = rm_raw rm \<and> rm_capacity rm' = rm_capacity rm \<and> rm_regions rm \<subseteq>\<^sub>m rm_regions rm'"
  using assms(1)
proof (cases rule: RegisterMemoryRegion_cases)
  case 1
  then show ?thesis using assms(2) by auto
next
  case (2 lk rk)
  then show ?thesis using assms(2) by (auto simp: regions_ok_def map_le_def dom_def)
qed

text \<open>A sequence of registrations under the protection domain of the default region.\<close>

fun register_all :: "(nat \<Rightarrow> nat \<Rightarrow> int \<Rightarrow> (u32 \<times> u32) option) \<Rightarrow> rdma_memory \<Rightarrow> (string \<times> int \<times> int) list \<Rightarrow>
    (rdma_memory \<times> status list) outcome" where
  "register_all reg_mr rm [] = Ret (rm, [])"
| "register_all reg_mr rm ((rid, offset, len) # reqs) =
     bindO (RegisterDefaultPd reg_mr rm rid offset len) (\<lambda>(rm1, st).
     bindO (register_all reg_mr rm1 reqs) (\<lambda>(rm2, sts). Ret (rm2, st # sts)))"

definition holds_region :: "rdma_memory \<Rightarrow> string \<times> int \<times> int \<Rightarrow> bool" where
  "holds_region rm = (\<lambda>(rid, offset, len). \<exists>mr. rm_regions rm rid = Some mr \<and>
     mr_addr mr = rm_raw rm + nat offset \<and> mr_length mr = len)"

lemma holds_region_mono:
  "rm_regions a \<subseteq>\<^sub>m rm_regions b \<Longrightarrow> rm_raw b = rm_raw a \<Longrightarrow> holds_region a r \<Longrightarrow> holds_region b r"
  unfolding holds_region_def by (auto split: prod.splits) (metis domI map_le_def)

lemma register_all_ok:
  "regions_ok rm \<Longrightarrow> \<forall>(rid, offset, len) \<in> set reqs. offset + len < 2 ^ 31 \<Longrightarrow>
   \<exists>rm' sts. register_all reg_mr rm reqs = Ret (rm', sts) \<and> regions_ok rm' \<and> rm_raw rm' = rm_raw rm \<and>
     rm_regions rm \<subseteq>\<^sub>m rm_regions rm' \<and> list_all2 (\<lambda>r st. status_ok st \<longrightarrow> holds_region rm' r) reqs sts"
proof (induction reqs arbitrary: rm)
  case (Cons r reqs)
  obtain rid offset len where r: "r = (rid, offset, len)" using prod_cases3 by blast
  obtain d where d: "rm_regions rm kDefaultId = Some d" using Cons(2) by (auto simp: regions_ok_def)
  have "offset + len < 2 ^ 31" using Cons(3) r by auto
  then obtain rm1 st where 1: "RegisterMemoryRegion reg_mr rm rid (mr_pd d) offset len = Ret (rm1, st)"
    using RegisterMemoryRegion_total by blast
  have ok1: "regions_ok rm1" "rm_raw rm1 = rm_raw rm" "rm_regions rm \<subseteq>\<^sub>m rm_regions rm1"
    using RegisterMemoryRegion_ok [OF 1] Cons(2) by auto
  have h: "status_ok st \<longrightarrow> holds_region rm1 r"
    using 1 by (cases rule: RegisterMemoryRegion_cases) (auto simp: holds_region_def r)
  obtain rm2 sts where 2: "register_all reg_mr rm1 reqs = Ret (rm2, sts)" "regions_ok rm2" "rm_raw rm2 = rm_raw rm1"
    "rm_regions rm1 \<subseteq>\<^sub>m rm_regions rm2" "list_all2 (\<lambda>r st. status_ok st \<longrightarrow> holds_region rm2 r) reqs sts"
    using Cons(1) [OF ok1(1)] Cons(3) by auto
  have "status_ok st \<longrightarrow> holds_region rm2 r"
    using h holds_region_mono [OF 2(4,3)] by blast
  moreover have "register_all reg_mr rm (r # reqs) = Ret (rm2, st # sts)"
    using 1 2(1) d by (simp add: r RegisterDefaultPd_def GetDefaultMemoryRegion_def)
  moreover have "rm_regions rm \<subseteq>\<^sub>m rm_regions rm2" using ok1(3) 2(4) by (rule map_le_trans)
  ultimately show ?case using 2 ok1(2) by (intro exI [of _ rm2] exI [of _ "st # sts"]) simp
qed simp

lemma RdmaMemory_ok:
  assumes "RdmaMemory reg_mr aligned_alloc mmap capacity path pd = Ret rm"
  shows "regions_ok rm"
proof -
  obtain r st h where "RegisterMemoryRegion reg_mr \<lparr>rm_capacity = capacity, rm_raw = r, rm_regions = Map.empty, rm_huge = h\<rparr>
      kDefaultId pd 0 (sint (ucast capacity :: u32)) = Ret (rm, st)" "status_ok st"
    using assms unfolding RdmaMemory_def Let_def by (auto simp: outcome_inv split: option.splits)
  from RegisterMemoryRegion_ok [OF this(1)] this(2) show ?thesis by (simp add: status_ok_def)
qed

text \<open>The number of huge pages that the kernel prints is the one that is read.\<close>

lemma GetNumHugepages_decimal: "n < 2 ^ 31 \<Longrightarrow> GetNumHugepages path (Some (decimal n @ [CHR 0x0A])) = Inr (int n)"
  using read_int_decimal [of n "[CHR 0x0A]"] by (simp add: GetNumHugepages_def is_digit_def)

text \<open>
  However a memory is moved, each region is deregistered once and the buffer released once, after them; of a mapping
  only one byte is released.
\<close>

lemma released_once:
  assumes "distinct ids" "set ids = dom (rm_regions rm)" "rm_raw rm \<noteq> 0" "move_RdmaMemory rm = (rm', old)"
  shows "\<exists>drs last. destroy_RdmaMemory ids rm' @ destroy_RdmaMemory [] old = drs @ [last] \<and>
    length drs = card (dom (rm_regions rm)) \<and> set drs = Dereg_Mr ` ran (rm_regions rm) \<and>
    last = (if rm_huge rm then Munmap (rm_raw rm) 1 else Delete_Array (rm_raw rm))"
proof -
  have "ran (rm_regions rm) = (\<lambda>rid. the (rm_regions rm rid)) ` set ids" unfolding assms(2) by (force simp: ran_def dom_def)
  moreover have "length ids = card (dom (rm_regions rm))" using distinct_card [OF assms(1)] assms(2) by simp
  ultimately show ?thesis using assms(3,4)
    by (auto simp: destroy_RdmaMemory_def move_RdmaMemory_def mmap_deleter_def image_image)
qed



end
