(* ===== verification/Messenger.thy ===== *)
theory Messenger
  imports Rdma_Memory
begin

text \<open>
  The two-sided messenger (\<open>twosided_messenger.h\<close>, \<open>twosided_messenger_impl.h\<close>) and the channel
  over it (\<open>rdma_channel.h\<close>). The verbs library is not part of the code: the results of its calls
  are arguments of the operations, the requests it was handed are kept in a log, and what a
  reliable connection does with them is a hypothesis of the lemmas that need it. The template
  parameters \<open>kCapacity\<close> and \<open>kRecvMaxBytes\<close> are the arguments \<open>cap\<close> and \<open>mx\<close>; the memory of the
  node is a function from addresses to bytes. Of the messages that the code completes with a text of
  the system (\<open>strerror\<close>, \<open>ibv_wc_status_str\<close>) the model keeps the fixed part.
\<close>

type_synonym memory = "nat \<Rightarrow> u8"

definition write_bytes :: "memory \<Rightarrow> nat \<Rightarrow> u8 list \<Rightarrow> memory" where
  "write_bytes mem a bs = (\<lambda>i. if a \<le> i \<and> i < a + length bs then bs ! (i - a) else mem i)"

definition read_bytes :: "memory \<Rightarrow> nat \<Rightarrow> nat \<Rightarrow> u8 list" where
  "read_bytes mem a n = map mem [a..<a + n]"

lemma read_write_bytes [simp]: "read_bytes (write_bytes mem a bs) a (length bs) = bs"
  by (rule nth_equalityI) (simp_all add: read_bytes_def write_bytes_def)

section \<open>TwoSidedRdmaMessenger\<close>

text \<open>A send request as it is posted: its id, the scatter element and the bytes at that address.\<close>

record send_request =
  sr_id :: u32
  sr_addr :: nat
  sr_length :: nat
  sr_lkey :: u32
  sr_bytes :: "u8 list"

record messenger =
  tm_rm :: rdma_memory
  tm_send_mr :: mem_region
  tm_send_capacity :: nat
  tm_send_base :: nat
  tm_send_next :: nat
  tm_send_total :: u32
  tm_recv_mr :: mem_region
  tm_recv_capacity :: nat
  tm_recv_base :: nat
  tm_recv_next :: nat
  tm_recv_total :: u32
  tm_mem :: memory
  tm_posted :: "(nat \<times> nat) list"    \<comment> \<open>the buffers given to \<open>rdma_post_recv\<close>\<close>
  tm_sent :: "send_request list"     \<comment> \<open>the requests given to \<open>ibv_post_send\<close>\<close>

text \<open>
  \<open>PrepareRecvBuffer\<close>. The result of the \<open>k\<close>-th \<open>rdma_post_recv\<close> is \<open>post k\<close>. The division in the
  assertion is undefined when no message fits the buffer; after it \<open>0 < mx \<le> recv_capacity_\<close>, so the
  loop ends and the unsigned difference does not wrap.
\<close>

function post_loop :: "(nat \<Rightarrow> int) \<Rightarrow> nat \<Rightarrow> nat \<Rightarrow> nat \<Rightarrow> (nat \<times> nat) list \<Rightarrow> (nat \<times> nat) list outcome" where
  "post_loop post mx lst cur acc =
     (if mx = 0 \<or> lst < cur then Ret acc
      else assertO (post (length acc) = 0) (post_loop post mx lst (cur + mx) (acc @ [(cur, mx)])))"
  by auto
termination by (relation "measure (\<lambda>(_, mx, lst, cur, _). lst + 1 - cur)") auto

declare post_loop.simps [simp del]

definition PrepareRecvBuffer :: "(nat \<Rightarrow> int) \<Rightarrow> nat \<Rightarrow> messenger \<Rightarrow> messenger outcome" where
  "PrepareRecvBuffer post mx m =
     (if mx = 0 \<or> tm_recv_capacity m div mx = 0 then Fault Undefined
      else assertO (unat (tm_recv_total m) mod (tm_recv_capacity m div mx) = 0)
        (bindO (post_loop post mx (tm_recv_base m + (tm_recv_capacity m - mx)) (tm_recv_base m) (tm_posted m)) (\<lambda>acc.
          Ret (m\<lparr>tm_posted := acc, tm_recv_next := tm_recv_base m\<rparr>))))"

definition TwoSidedRdmaMessenger ::
  "(nat \<Rightarrow> nat \<Rightarrow> int \<Rightarrow> (u32 \<times> u32) option) \<Rightarrow> (u64 \<Rightarrow> nat option) \<Rightarrow> (nat \<Rightarrow> int) \<Rightarrow> nat \<Rightarrow> nat \<Rightarrow> nat \<Rightarrow> memory \<Rightarrow>
    messenger outcome" where
  "TwoSidedRdmaMessenger reg_mr aligned_alloc post cap mx pd mem =
     bindO (RdmaMemory reg_mr aligned_alloc (\<lambda>_. None) (of_nat cap) None pd) (\<lambda>rm0.
     bindO (RegisterDefaultPd reg_mr rm0 ''send'' 0 (int (cap div 2))) (\<lambda>(rm1, st1).
     assertO (status_ok st1) (
     bindO (RegisterDefaultPd reg_mr rm1 ''recv'' (int (cap div 2)) (int (cap div 2))) (\<lambda>(rm2, st2).
     assertO (status_ok st2) (
     bindO (VALUE_OR_DIE (GetMemoryRegion rm2 ''send'')) (\<lambda>smr.
     bindO (VALUE_OR_DIE (GetMemoryRegion rm2 ''recv'')) (\<lambda>rmr.
       PrepareRecvBuffer post mx
         \<lparr>tm_rm = rm2, tm_send_mr = smr, tm_send_capacity = cap div 2, tm_send_base = mr_addr smr,
          tm_send_next = mr_addr smr, tm_send_total = 0, tm_recv_mr = rmr, tm_recv_capacity = cap div 2,
          tm_recv_base = mr_addr rmr, tm_recv_next = mr_addr rmr, tm_recv_total = 0,
          tm_mem = mem, tm_posted = [], tm_sent = []\<rparr>)))))))"

text \<open>
  \<open>SendMessage\<close>: \<open>post_send\<close> is the result of \<open>ibv_post_send\<close>, \<open>polls\<close> the results of the calls of
  \<open>rdma_get_send_comp\<close>; a completion that never comes is a call that does not return.
\<close>

datatype send_poll = Poll_Again | Poll_Failed | Poll_Comp bool

fun await_send :: "send_poll list \<Rightarrow> send_poll option" where
  "await_send [] = None"
| "await_send (Poll_Again # ps) = await_send ps"
| "await_send (p # ps) = Some p"

definition SendMessage :: "nat \<Rightarrow> int \<Rightarrow> send_poll list \<Rightarrow> u8 list \<Rightarrow> messenger \<Rightarrow> (status \<times> messenger) run" where
  "SendMessage mx post_send polls msg m =
     (if \<not> length msg < mx then Some (Ret (ErrorStatus kResourceExhausted
        (''Message too large: expected<='' @ decimal mx @ '', actual='' @ decimal (length msg)), m))
      else
        let tail = tm_send_next m + length msg;
            limit = tm_send_base m + tm_send_capacity m;
            nxt = (if tail > limit then tm_send_base m else tm_send_next m);
            mem = write_bytes (tm_mem m) nxt msg;
            wr = \<lparr>sr_id = tm_send_total m, sr_addr = nxt, sr_length = length msg, sr_lkey = mr_lkey (tm_send_mr m),
                  sr_bytes = read_bytes mem nxt (length msg)\<rparr>;
            m1 = m\<lparr>tm_send_next := nxt, tm_mem := mem, tm_send_total := tm_send_total m + 1\<rparr>
        in if post_send \<noteq> 0 then Some (Ret (ErrorStatus kInternal ''ibv_post_send()'', m1))
           else let m2 = m1\<lparr>tm_sent := tm_sent m1 @ [wr]\<rparr>
                in case await_send polls of
                     None \<Rightarrow> None
                   | Some (Poll_Comp ok) \<Rightarrow>
                       if \<not> ok then Some (Ret (ErrorStatus kInternal ''rdma_get_send_comp()'', m2))
                       else Some (Ret (OkStatus, m2\<lparr>tm_send_next := tm_send_next m2 + length msg\<rparr>))
                   | Some p \<Rightarrow> Some (Ret (ErrorStatus kInternal ''rdma_get_send_comp'', m2)))"

text \<open>
  \<open>TryDeliverMessage\<close>: the result of \<open>rdma_get_recv_comp\<close> is an argument, for a successful completion
  with its byte length.
\<close>

datatype recv_poll = Recv_Failed | Recv_Again | Recv_Flush | Recv_Success nat | Recv_Other

definition TryDeliverMessage :: "(nat \<Rightarrow> int) \<Rightarrow> nat \<Rightarrow> recv_poll \<Rightarrow> messenger \<Rightarrow> (u8 list status_or \<times> messenger) outcome" where
  "TryDeliverMessage post mx p m =
     (case p of
        Recv_Failed \<Rightarrow> Ret (Inl (ErrorStatus kInternal ''rdma_get_recv_comp''), m)
      | Recv_Again \<Rightarrow> Ret (Inl (ErrorStatus kUnavailable ''Retry''), m)
      | Recv_Flush \<Rightarrow> Ret (Inl (ErrorStatus kAborted ''QP in error state''), m)
      | Recv_Success byte_len \<Rightarrow>
          let msg = read_bytes (tm_mem m) (tm_recv_next m) byte_len;
              m1 = m\<lparr>tm_recv_total := tm_recv_total m + 1, tm_recv_next := tm_recv_next m + mx\<rparr>
          in bindO (if tm_recv_next m1 > tm_recv_base m1 + (tm_recv_capacity m1 - mx)
                    then PrepareRecvBuffer post mx m1 else Ret m1)
               (\<lambda>m2. Ret (Inr msg, m2))
      | Recv_Other \<Rightarrow> Ret (Inl (ErrorStatus kInternal ''rdma_get_recv_comp()''), m))"

section \<open>RdmaChannel\<close>

text \<open>
  The channel serialises protocol buffers onto the messenger; the encoding and the parser, which
  leaves a partly filled message when it fails, are arguments.
\<close>

definition ch_Send :: "('p \<Rightarrow> u8 list) \<Rightarrow> nat \<Rightarrow> int \<Rightarrow> send_poll list \<Rightarrow> 'p \<Rightarrow> messenger \<Rightarrow> (status \<times> messenger) run" where
  "ch_Send serialize mx post_send polls proto m = SendMessage mx post_send polls (serialize proto) m"

definition ch_TryDeliver :: "(u8 list \<Rightarrow> 'p) \<Rightarrow> (nat \<Rightarrow> int) \<Rightarrow> nat \<Rightarrow> recv_poll \<Rightarrow> messenger \<Rightarrow>
    ('p status_or \<times> messenger) outcome" where
  "ch_TryDeliver parse post mx p m =
     bindO (TryDeliverMessage post mx p m) (\<lambda>(msg_or, m1).
       case msg_or of Inr msg \<Rightarrow> Ret (Inr (parse msg), m1) | Inl e \<Rightarrow> Ret (Inl e, m1))"

definition is_unavailable :: "'a status_or \<Rightarrow> bool" where
  "is_unavailable r = (case r of Inl (ErrorStatus c msg) \<Rightarrow> c = kUnavailable | _ \<Rightarrow> False)"

text \<open>\<open>Deliver\<close> polls until something else than \<open>kUnavailable\<close> comes; \<open>None\<close> if it never does.\<close>

fun ch_Deliver :: "(u8 list \<Rightarrow> 'p) \<Rightarrow> (nat \<Rightarrow> int) \<Rightarrow> nat \<Rightarrow> recv_poll list \<Rightarrow> messenger \<Rightarrow> ('p status_or \<times> messenger) run" where
  "ch_Deliver parse post mx [] m = None"
| "ch_Deliver parse post mx (p # ps) m =
     bindR (Some (ch_TryDeliver parse post mx p m)) (\<lambda>(r, m1).
       if is_unavailable r then ch_Deliver parse post mx ps m1 else Some (Ret (r, m1)))"

section \<open>The ring of posted receives\<close>

text \<open>
  What a reliable connection does with the receives: the \<open>k\<close>-th message fills the \<open>k\<close>-th posted
  buffer, if it fits, and is there when its completion is polled. \<open>nic posted k mem\<close> is the
  memory at that poll.
\<close>

type_synonym nic = "(nat \<times> nat) list \<Rightarrow> nat \<Rightarrow> memory \<Rightarrow> memory"

definition rc_receive :: "nic \<Rightarrow> u8 list list \<Rightarrow> bool" where
  "rc_receive nic msgs \<longleftrightarrow> (\<forall>posted k mem. k < length posted \<and> k < length msgs \<and> length (msgs ! k) \<le> snd (posted ! k) \<longrightarrow>
     read_bytes (nic posted k mem) (fst (posted ! k)) (length (msgs ! k)) = msgs ! k)"

text \<open>Polls of the receiver: \<open>True\<close> when the next message has arrived, \<open>False\<close> when nothing has.\<close>

fun receive_run :: "(nat \<Rightarrow> int) \<Rightarrow> nat \<Rightarrow> nic \<Rightarrow> u8 list list \<Rightarrow> nat \<Rightarrow> bool list \<Rightarrow> messenger \<Rightarrow>
    (u8 list status_or list \<times> messenger) outcome" where
  "receive_run post mx nic msgs k [] m = Ret ([], m)"
| "receive_run post mx nic msgs k (False # es) m =
     bindO (TryDeliverMessage post mx Recv_Again m) (\<lambda>(r, m1).
     bindO (receive_run post mx nic msgs k es m1) (\<lambda>(rs, m2). Ret (r # rs, m2)))"
| "receive_run post mx nic msgs k (True # es) m =
     bindO (TryDeliverMessage post mx (Recv_Success (length (msgs ! k))) (m\<lparr>tm_mem := nic (tm_posted m) k (tm_mem m)\<rparr>)) (\<lambda>(r, m1).
     bindO (receive_run post mx nic msgs (Suc k) es m1) (\<lambda>(rs, m2). Ret (r # rs, m2)))"

definition slots :: "nat \<Rightarrow> messenger \<Rightarrow> nat" where
  "slots mx m = tm_recv_capacity m div mx"

definition ring :: "nat \<Rightarrow> messenger \<Rightarrow> (nat \<times> nat) list" where
  "ring mx m = map (\<lambda>i. (tm_recv_base m + i * mx, mx)) [0..<slots mx m]"

text \<open>After \<open>K\<close> deliveries: the rounds posted so far, and where the next message will be.\<close>

definition recv_inv :: "nat \<Rightarrow> nat \<Rightarrow> messenger \<Rightarrow> bool" where
  "recv_inv mx K m \<longleftrightarrow> 0 < mx \<and> 0 < slots mx m \<and> unat (tm_recv_total m) = K mod 2 ^ 32 \<and>
     tm_recv_next m = tm_recv_base m + (K mod slots mx m) * mx \<and>
     tm_posted m = concat (replicate (Suc (K div slots mx m)) (ring mx m))"

lemma post_loop_ring:
  fixes b n j :: nat
  assumes post: "\<And>k. post k = 0" and r: "r < mx"
  shows "post_loop post mx (b + n * mx + r) (b + j * mx) acc = Ret (acc @ map (\<lambda>i. (b + i * mx, mx)) [j..<Suc n])"
proof (induction "Suc n - j" arbitrary: j acc)
  case 0
  then have "Suc n * mx \<le> j * mx" by (intro mult_le_mono1) simp
  with 0 r show ?case by (subst post_loop.simps) simp
next
  case (Suc d)
  then have le: "j * mx \<le> n * mx" "j < Suc n" "d = Suc n - Suc j" by auto
  have e: "b + j * mx + mx = b + Suc j * mx" by simp
  have "post_loop post mx (b + n * mx + r) (b + j * mx) acc =
      post_loop post mx (b + n * mx + r) (b + Suc j * mx) (acc @ [(b + j * mx, mx)])"
  proof -
    have "\<not> b + n * mx + r < b + j * mx" "mx \<noteq> 0" using le(1) r by linarith+
    then show ?thesis unfolding e [symmetric] by (subst post_loop.simps) (simp only: post assertO_simps if_False simp_thms refl)
  qed
  also have "\<dots> = Ret ((acc @ [(b + j * mx, mx)]) @ map (\<lambda>i. (b + i * mx, mx)) [Suc j..<Suc n])"
    by (rule Suc(1) [OF le(3)])
  finally show ?case using le(2) by (simp add: upt_conv_Cons del: upt_Suc)
qed

lemma Prepare_ok:
  assumes "\<And>k. post k = 0" "0 < mx" "0 < slots mx m" "unat (tm_recv_total m) mod slots mx m = 0"
  shows "PrepareRecvBuffer post mx m = Ret (m\<lparr>tm_posted := tm_posted m @ ring mx m, tm_recv_next := tm_recv_base m\<rparr>)"
proof -
  define S c where "S = slots mx m" and "c = tm_recv_capacity m"
  define r where "r = c mod mx"
  have c: "c = S * mx + r" "r < mx" using assms(2) by (simp_all add: S_def c_def r_def slots_def)
  have S: "0 < S" "c div mx = S" using assms(3) by (simp_all add: S_def c_def slots_def)
  have "c - mx = (S - 1) * mx + r" using c S by (cases S) simp_all
  then have lst: "post_loop post mx (b + (c - mx)) b acc = Ret (acc @ map (\<lambda>i. (b + i * mx, mx)) [0..<S])" for b acc
    using post_loop_ring [where post = post and b = b and n = "S - 1" and j = 0 and acc = acc, OF assms(1) c(2)] S(1) by (simp add: add.assoc)
  show ?thesis using assms(2,4) S lst [of "tm_recv_base m" "tm_posted m"]
    by (simp add: PrepareRecvBuffer_def c_def [symmetric] S_def [symmetric] ring_def)
qed

lemma nth_rounds:
  "k < n * length xs \<Longrightarrow> concat (replicate n xs) ! k = xs ! (k mod length xs)"
proof (induction n arbitrary: k)
  case (Suc n)
  show ?case
  proof (cases "k < length xs")
    case True
    then show ?thesis by (simp add: nth_append)
  next
    case False
    then have "concat (replicate n xs) ! (k - length xs) = xs ! ((k - length xs) mod length xs)"
      using Suc by (intro Suc(1)) simp
    also have "(k - length xs) mod length xs = k mod length xs" using False by (simp add: le_mod_geq)
    finally show ?thesis using False by (simp add: nth_append)
  qed
qed simp

lemma length_rounds: "length (concat (replicate n xs)) = n * length xs"
  by (induction n) simp_all

lemma replicate_snoc: "concat (replicate n xs) @ xs = concat (replicate (Suc n) xs)"
  by (induction n) simp_all

lemma recv_inv_slot:
  assumes "recv_inv mx K m"
  shows "K < length (tm_posted m) \<and> tm_posted m ! K = (tm_recv_next m, mx)"
proof -
  define S where "S = slots mx m"
  have S: "0 < S" "length (ring mx m) = S" using assms by (simp_all add: recv_inv_def S_def ring_def)
  have p: "tm_posted m = concat (replicate (Suc (K div S)) (ring mx m))" "tm_recv_next m = tm_recv_base m + (K mod S) * mx"
    using assms by (simp_all add: recv_inv_def S_def)
  have lt: "K < Suc (K div S) * S" using dividend_less_div_times [OF S(1), of K] by simp
  have "K mod S < S" using S(1) by simp
  then have "ring mx m ! (K mod S) = (tm_recv_base m + (K mod S) * mx, mx)"
    by (simp add: ring_def S_def [symmetric])
  with lt p S show ?thesis by (simp only: length_rounds nth_rounds)
qed

text \<open>The last slot of a buffer of \<open>c\<close> bytes, which may have a rest, is the one behind which no message fits.\<close>

lemma last_slot:
  fixes c mx j :: nat
  assumes "0 < mx" "0 < c div mx" "j < c div mx"
  shows "Suc j * mx > c - mx \<longleftrightarrow> Suc j = c div mx"
proof -
  define S r where "S = c div mx" and "r = c mod mx"
  have c: "c = S * mx + r" "r < mx" using assms(1) by (simp_all add: S_def r_def)
  have S: "0 < S" "j < S" using assms by (simp_all add: S_def)
  then have cm: "c - mx = (S - 1) * mx + r" using c(1) by (cases S) simp_all
  show ?thesis
  proof (cases "Suc j = S")
    case True
    then have "Suc j * mx = (S - 1) * mx + mx" using S by (cases S) simp_all
    then show ?thesis using True cm c(2) by (simp add: S_def)
  next
    case False
    then have "Suc j \<le> S - 1" using S by linarith
    then have "Suc j * mx \<le> (S - 1) * mx" by (rule mult_le_mono1)
    then show ?thesis using False cm by (simp add: S_def)
  qed
qed

lemma deliver_step:
  assumes post: "\<And>k. post k = 0" and i: "recv_inv mx K m" and len: "length msg \<le> mx"
    and tot: "slots mx m dvd 2 ^ 32 \<or> Suc K < 2 ^ 32"
    and mem: "read_bytes (tm_mem m) (tm_recv_next m) (length msg) = msg"
  shows "\<exists>m'. TryDeliverMessage post mx (Recv_Success (length msg)) m = Ret (Inr msg, m') \<and> recv_inv mx (Suc K) m' \<and> slots mx m' = slots mx m"
proof -
  define S where "S = slots mx m"
  define m1 where "m1 = m\<lparr>tm_recv_total := tm_recv_total m + 1, tm_recv_next := tm_recv_next m + mx\<rparr>"
  have S: "0 < S" "0 < mx" and p: "tm_posted m = concat (replicate (Suc (K div S)) (ring mx m))"
    "tm_recv_next m = tm_recv_base m + (K mod S) * mx" "unat (tm_recv_total m) = K mod 2 ^ 32"
    using i by (simp_all add: recv_inv_def S_def)
  have fields: "slots mx m1 = S" "ring mx m1 = ring mx m" "tm_recv_base m1 = tm_recv_base m" "tm_posted m1 = tm_posted m"
    "tm_recv_capacity m1 = tm_recv_capacity m" "tm_recv_next m1 = tm_recv_base m + Suc (K mod S) * mx"
    by (simp_all add: m1_def slots_def S_def ring_def p(2))
  have tot1: "unat (tm_recv_total m1) = Suc K mod 2 ^ 32"
    using p(3) by (simp add: m1_def unat_word_ariths mod_Suc_eq mod_simps)
  have lim: "Suc (K mod S) * mx > tm_recv_capacity m - mx \<longleftrightarrow> Suc (K mod S) = S"
    using last_slot [of mx "tm_recv_capacity m" "K mod S"] S by (simp add: S_def slots_def)
  have cond: "(tm_recv_next m1 > tm_recv_base m1 + (tm_recv_capacity m1 - mx)) = (Suc (K mod S) = S)"
    unfolding fields lim [symmetric] by simp
  have run: "TryDeliverMessage post mx (Recv_Success (length msg)) m =
      bindO (if Suc (K mod S) = S then PrepareRecvBuffer post mx m1 else Ret m1) (\<lambda>m2. Ret (Inr msg, m2))"
    unfolding TryDeliverMessage_def Let_def recv_poll.case mem m1_def [symmetric] cond ..
  show ?thesis
  proof (cases "Suc (K mod S) = S")
    case False
    then have "Suc K mod S = Suc (K mod S)" "Suc K div S = K div S" by (simp_all add: mod_Suc div_Suc)
    then have "recv_inv mx (Suc K) m1" using S fields p(1) tot1 by (simp add: recv_inv_def)
    moreover have "TryDeliverMessage post mx (Recv_Success (length msg)) m = Ret (Inr msg, m1)"
      using False by (simp add: run)
    ultimately show ?thesis using fields by (simp add: S_def)
  next
    case True
    then have sk: "Suc K mod S = 0" "Suc K div S = Suc (K div S)" using S by (simp_all add: mod_Suc div_Suc)
    define m2 where "m2 = m1\<lparr>tm_posted := tm_posted m1 @ ring mx m1, tm_recv_next := tm_recv_base m1\<rparr>"
    have "unat (tm_recv_total m1) mod S = 0"
    proof (cases "S dvd 2 ^ 32")
      case True
      then show ?thesis using sk(1) unfolding tot1 by (metis mod_mod_cancel)
    next
      case False
      then show ?thesis using sk(1) tot unfolding tot1 S_def by simp
    qed
    then have "PrepareRecvBuffer post mx m1 = Ret m2"
      unfolding m2_def using S fields by (intro Prepare_ok [OF post]) simp_all
    then have "TryDeliverMessage post mx (Recv_Success (length msg)) m = Ret (Inr msg, m2)"
      using True by (simp add: run)
    moreover have "slots mx m2 = S" "ring mx m2 = ring mx m" using fields by (simp_all add: m2_def slots_def ring_def)
    moreover have "tm_posted m2 = concat (replicate (Suc (Suc K div S)) (ring mx m))"
      using fields p(1) sk(2) by (simp add: m2_def replicate_snoc del: replicate_Suc concat.simps)
    ultimately show ?thesis using S tot1 sk by (auto simp: recv_inv_def m2_def S_def)
  qed
qed

fun rights :: "('e + 'a) list \<Rightarrow> 'a list" where
  "rights [] = []"
| "rights (Inl e # rs) = rights rs"
| "rights (Inr x # rs) = x # rights rs"

lemma receive_run_ok:
  assumes post: "\<And>k. post k = 0" and nic: "rc_receive nic msgs" and len: "\<And>msg. msg \<in> set msgs \<Longrightarrow> length msg \<le> mx"
  shows "recv_inv mx k m \<Longrightarrow> k + count_list es True \<le> length msgs \<Longrightarrow>
    slots mx m dvd 2 ^ 32 \<or> k + count_list es True < 2 ^ 32 \<Longrightarrow>
    \<exists>rs m'. receive_run post mx nic msgs k es m = Ret (rs, m') \<and> recv_inv mx (k + count_list es True) m' \<and>
      rights rs = take (count_list es True) (drop k msgs) \<and> length rs = length es \<and>
      (\<forall>e. Inl e \<in> set rs \<longrightarrow> e = ErrorStatus kUnavailable ''Retry'')"
proof (induction es arbitrary: k m)
  case (Cons b es)
  show ?case
  proof (cases b)
    case False
    then obtain rs m' where "receive_run post mx nic msgs k es m = Ret (rs, m')" "recv_inv mx (k + count_list es True) m'"
      "rights rs = take (count_list es True) (drop k msgs)" "length rs = length es"
      "\<forall>e. Inl e \<in> set rs \<longrightarrow> e = ErrorStatus kUnavailable ''Retry''"
      using Cons(1) [of k m] Cons(2-4) by auto
    then show ?thesis using False by (auto simp: TryDeliverMessage_def)
  next
    case True
    define m0 where "m0 = m\<lparr>tm_mem := nic (tm_posted m) k (tm_mem m)\<rparr>"
    have i0: "recv_inv mx k m0" "slots mx m0 = slots mx m" "tm_recv_next m0 = tm_recv_next m"
      using Cons(2) by (simp_all add: m0_def recv_inv_def slots_def ring_def)
    have k: "k < length msgs" using Cons(3) True by simp
    then have lk: "length (msgs ! k) \<le> mx" by (intro len) simp
    have "read_bytes (tm_mem m0) (tm_recv_next m0) (length (msgs ! k)) = msgs ! k"
      using recv_inv_slot [OF Cons(2)] k lk nic [unfolded rc_receive_def, rule_format, of k "tm_posted m" "tm_mem m"]
      by (simp add: m0_def)
    then obtain m1 where m1: "TryDeliverMessage post mx (Recv_Success (length (msgs ! k))) m0 = Ret (Inr (msgs ! k), m1)"
      "recv_inv mx (Suc k) m1" "slots mx m1 = slots mx m0"
      using deliver_step [where post = post, OF post i0(1) lk] Cons(4) True i0(2) by auto
    obtain rs m' where rs: "receive_run post mx nic msgs (Suc k) es m1 = Ret (rs, m')" "recv_inv mx (Suc k + count_list es True) m'"
      "rights rs = take (count_list es True) (drop (Suc k) msgs)" "length rs = length es"
      "\<forall>e. Inl e \<in> set rs \<longrightarrow> e = ErrorStatus kUnavailable ''Retry''"
      using Cons(1) [OF m1(2)] Cons(3,4) True m1(3) i0(2) by auto
    have "drop k msgs = msgs ! k # drop (Suc k) msgs" using k by (simp add: Cons_nth_drop_Suc)
    then show ?thesis using True m1(1) rs by (intro exI [of _ "Inr (msgs ! k) # rs"] exI [of _ m']) (simp add: m0_def)
  qed
qed simp

section \<open>Sending\<close>

definition send_inv :: "messenger \<Rightarrow> bool" where
  "send_inv m \<longleftrightarrow> tm_send_base m \<le> tm_send_next m \<and> tm_send_next m \<le> tm_send_base m + tm_send_capacity m \<and>
     (\<forall>r \<in> set (tm_sent m). tm_send_base m \<le> sr_addr r \<and> sr_addr r + sr_length r \<le> tm_send_base m + tm_send_capacity m \<and>
       sr_length r = length (sr_bytes r) \<and> sr_lkey r = mr_lkey (tm_send_mr m))"

text \<open>A sequence of sends, each with the results of its calls of the verbs library.\<close>

fun send_run :: "nat \<Rightarrow> (u8 list \<times> int \<times> send_poll list) list \<Rightarrow> messenger \<Rightarrow> (status list \<times> messenger) run" where
  "send_run mx [] m = Some (Ret ([], m))"
| "send_run mx ((msg, post_send, polls) # xs) m =
     bindR (SendMessage mx post_send polls msg m) (\<lambda>(st, m1).
     bindR (send_run mx xs m1) (\<lambda>(sts, m2). Some (Ret (st # sts, m2))))"

definition posted_msgs :: "nat \<Rightarrow> (u8 list \<times> int \<times> send_poll list) list \<Rightarrow> u8 list list" where
  "posted_msgs mx xs = map fst (filter (\<lambda>(msg, post_send, polls). length msg < mx \<and> post_send = 0) xs)"

definition send_ok :: "nat \<Rightarrow> u8 list \<times> int \<times> send_poll list \<Rightarrow> bool" where
  "send_ok mx = (\<lambda>(msg, post_send, polls). length msg < mx \<and> post_send = 0 \<and> await_send polls = Some (Poll_Comp True))"

lemma SendMessage_ok:
  assumes i: "send_inv m" and mx: "mx \<le> tm_send_capacity m" and w: "await_send polls \<noteq> None"
  shows "\<exists>st m'. SendMessage mx post_send polls msg m = Some (Ret (st, m')) \<and> send_inv m' \<and>
    tm_send_base m' = tm_send_base m \<and> tm_send_capacity m' = tm_send_capacity m \<and> tm_send_mr m' = tm_send_mr m \<and>
    map sr_bytes (tm_sent m') = map sr_bytes (tm_sent m) @ posted_msgs mx [(msg, post_send, polls)] \<and>
    (status_ok st \<longleftrightarrow> send_ok mx (msg, post_send, polls))"
proof (cases "length msg < mx")
  case False
  then show ?thesis using i by (simp add: SendMessage_def posted_msgs_def send_ok_def)
next
  case len: True
  define nxt where "nxt = (if tm_send_next m + length msg > tm_send_base m + tm_send_capacity m then tm_send_base m else tm_send_next m)"
  have nxt: "tm_send_base m \<le> nxt" "nxt + length msg \<le> tm_send_base m + tm_send_capacity m"
    using i mx len by (auto simp: nxt_def send_inv_def)
  obtain p where p: "await_send polls = Some p" using w by blast
  have "p \<noteq> Poll_Again" using p by (induction polls rule: await_send.induct) auto
  then show ?thesis
    using i nxt len p
    by (cases p) (auto simp: SendMessage_def Let_def nxt_def [symmetric] send_inv_def posted_msgs_def send_ok_def)
qed

lemma send_run_ok:
  "send_inv m \<Longrightarrow> mx \<le> tm_send_capacity m \<Longrightarrow> \<forall>(msg, post_send, polls) \<in> set xs. await_send polls \<noteq> None \<Longrightarrow>
   \<exists>sts m'. send_run mx xs m = Some (Ret (sts, m')) \<and> send_inv m' \<and>
     map sr_bytes (tm_sent m') = map sr_bytes (tm_sent m) @ posted_msgs mx xs \<and> map status_ok sts = map (send_ok mx) xs"
proof (induction xs arbitrary: m)
  case Nil
  then show ?case by (simp add: posted_msgs_def)
next
  case (Cons x xs)
  obtain msg post_send polls where x: "x = (msg, post_send, polls)" using prod_cases3 by blast
  have "await_send polls \<noteq> None" using Cons(4) x by simp
  then obtain st m1 where 1: "SendMessage mx post_send polls msg m = Some (Ret (st, m1))" "send_inv m1"
    "tm_send_capacity m1 = tm_send_capacity m"
    "map sr_bytes (tm_sent m1) = map sr_bytes (tm_sent m) @ posted_msgs mx [x]" "status_ok st \<longleftrightarrow> send_ok mx x"
    using SendMessage_ok [OF Cons(2,3)] x by blast
  obtain sts m2 where 2: "send_run mx xs m1 = Some (Ret (sts, m2))" "send_inv m2"
    "map sr_bytes (tm_sent m2) = map sr_bytes (tm_sent m1) @ posted_msgs mx xs" "map status_ok sts = map (send_ok mx) xs"
    using Cons(1) [OF 1(2)] Cons(3,4) 1(3) by auto
  have "posted_msgs mx (x # xs) = posted_msgs mx [x] @ posted_msgs mx xs" by (simp add: posted_msgs_def)
  then show ?case using 1 2 x by simp
qed

section \<open>Properties\<close>

lemma TwoSidedRdmaMessenger_fresh:
  assumes post: "\<And>k. post k = 0" and r: "TwoSidedRdmaMessenger reg_mr aligned_alloc post cap mx pd mem = Ret m"
  shows "recv_inv mx 0 m \<and> send_inv m \<and> tm_send_capacity m = cap div 2 \<and> slots mx m = (cap div 2) div mx \<and> tm_sent m = [] \<and>
    tm_send_base m = mr_addr (tm_send_mr m)"
proof -
  obtain m0 where m0: "PrepareRecvBuffer post mx m0 = Ret m" "tm_recv_capacity m0 = cap div 2" "tm_recv_total m0 = 0"
    "tm_posted m0 = []" "tm_sent m0 = []" "tm_send_capacity m0 = cap div 2" "tm_send_next m0 = tm_send_base m0"
    "tm_send_base m0 = mr_addr (tm_send_mr m0)"
    using r unfolding TwoSidedRdmaMessenger_def by (auto simp: outcome_inv)
  have "0 < mx" "0 < slots mx m0" using m0(1) by (auto simp: PrepareRecvBuffer_def slots_def split: if_splits)
  with Prepare_ok [OF post this] m0 have "m = m0\<lparr>tm_posted := ring mx m0, tm_recv_next := tm_recv_base m0\<rparr>" by simp
  moreover have "slots mx m = slots mx m0" "ring mx m = ring mx m0" using calculation by (simp_all add: slots_def ring_def)
  ultimately show ?thesis using m0 \<open>0 < mx\<close> \<open>0 < slots mx m0\<close>
    by (simp add: recv_inv_def send_inv_def slots_def)
qed

text \<open>
  On a fresh messenger whose message limit fits the send buffer, any sequence of sends returns
  once its completions arrive: a message is handed to the queue pair unchanged, in order, from
  inside the send buffer if and only if it is shorter than the limit and the post succeeds, and its
  status says so, and whether it was completed.
\<close>

theorem messenger_send:
  assumes "\<And>k. post k = 0" "TwoSidedRdmaMessenger reg_mr aligned_alloc post cap mx pd mem = Ret m" "mx \<le> cap div 2"
    and "\<forall>(msg, post_send, polls) \<in> set xs. await_send polls \<noteq> None"
  shows "\<exists>sts m'. send_run mx xs m = Some (Ret (sts, m')) \<and> map status_ok sts = map (send_ok mx) xs \<and>
    map sr_bytes (tm_sent m') = posted_msgs mx xs \<and> send_inv m'"
  using send_run_ok [OF _ _ assms(4), of m mx] TwoSidedRdmaMessenger_fresh [OF assms(1,2)] assms(3) by fastforce

lemma fresh_example:
  "\<exists>m. TwoSidedRdmaMessenger (\<lambda>_ _ _. Some (1, 2)) (\<lambda>_. Some 4096) (\<lambda>_. 0) 64 8 0 (\<lambda>_. 0) = Ret m"
  by (simp add: TwoSidedRdmaMessenger_def RdmaMemory_def RegisterDefaultPd_def RegisterMemoryRegion_def
    ValidateRegion_def GetDefaultMemoryRegion_def GetMemoryRegion_def VALUE_OR_DIE_def kDefaultId_def Let_def Prepare_ok slots_def)

lemma messenger_send_witness:
  "\<exists>m sts m'. TwoSidedRdmaMessenger (\<lambda>_ _ _. Some (1, 2)) (\<lambda>_. Some 4096) (\<lambda>_. 0) 64 8 0 (\<lambda>_. 0) = Ret m \<and>
    send_run 8 [([1, 2, 3], 0, [Poll_Again, Poll_Comp True]), (replicate 9 0, 0, [Poll_Comp True])] m = Some (Ret (sts, m')) \<and>
    map status_ok sts = [True, False] \<and> map sr_bytes (tm_sent m') = [[1, 2, 3]]"
proof -
  obtain m where m: "TwoSidedRdmaMessenger (\<lambda>_ _ _. Some (1, 2)) (\<lambda>_. Some 4096) (\<lambda>_. 0) 64 8 0 (\<lambda>_. 0) = Ret m"
    using fresh_example by blast
  from messenger_send [OF _ m, of "[([1, 2, 3], 0, [Poll_Again, Poll_Comp True]), (replicate 9 0, 0, [Poll_Comp True])]"] m
  show ?thesis by (auto simp: send_ok_def posted_msgs_def)
qed

text \<open>
  C4. End to end: whatever a fresh messenger has posted for sending, a fresh receiver with the same
  limit delivers, over a reliable connection, as the same messages in the same order, at whatever
  polls they arrive, with \<open>kUnavailable\<close> at the polls in between. A receive is always posted for the
  next message, and the assertion in \<open>PrepareRecvBuffer\<close> never fails, provided the number of slots
  divides \<open>2^32\<close> or fewer than \<open>2^32\<close> messages are received.
\<close>

theorem messenger_end_to_end:
  assumes "\<And>k. post k = 0" "TwoSidedRdmaMessenger reg_s alloc_s post cap mx pd_s mem_s = Ret snd_m"
    and "TwoSidedRdmaMessenger reg_r alloc_r post cap mx pd_r mem_r = Ret rcv_m" "mx \<le> cap div 2"
    and "\<forall>(msg, post_send, polls) \<in> set xs. await_send polls \<noteq> None"
    and "rc_receive nic (posted_msgs mx xs)" "count_list es True \<le> length (posted_msgs mx xs)"
    and "(cap div 2) div mx dvd 2 ^ 32 \<or> count_list es True < 2 ^ 32"
  shows "\<exists>sts s rs r. send_run mx xs snd_m = Some (Ret (sts, s)) \<and>
    receive_run post mx nic (map sr_bytes (tm_sent s)) 0 es rcv_m = Ret (rs, r) \<and>
    rights rs = take (count_list es True) (posted_msgs mx xs) \<and> length rs = length es \<and>
    (\<forall>e. Inl e \<in> set rs \<longrightarrow> e = ErrorStatus kUnavailable ''Retry'') \<and>
    count_list es True < length (tm_posted r)"
proof -
  obtain sts s where s: "send_run mx xs snd_m = Some (Ret (sts, s))" "map sr_bytes (tm_sent s) = posted_msgs mx xs"
    using send_run_ok [OF _ _ assms(5), of snd_m mx] TwoSidedRdmaMessenger_fresh [OF assms(1,2)] assms(4) by fastforce
  have len: "length msg \<le> mx" if "msg \<in> set (posted_msgs mx xs)" for msg
    using that by (auto simp: posted_msgs_def)
  note f = TwoSidedRdmaMessenger_fresh [OF assms(1,3)]
  obtain rs r where r: "receive_run post mx nic (posted_msgs mx xs) 0 es rcv_m = Ret (rs, r)" "recv_inv mx (count_list es True) r"
    "rights rs = take (count_list es True) (posted_msgs mx xs)" "length rs = length es"
    "\<forall>e. Inl e \<in> set rs \<longrightarrow> e = ErrorStatus kUnavailable ''Retry''"
    using receive_run_ok [where post = post and nic = nic and msgs = "posted_msgs mx xs" and mx = mx and k = 0 and es = es and m = rcv_m,
      OF assms(1,6) len] f assms(7,8) by auto
  show ?thesis using s r recv_inv_slot [OF r(2)] by auto
qed

lemma messenger_end_to_end_witness:
  "\<exists>m sts s rs r. TwoSidedRdmaMessenger (\<lambda>_ _ _. Some (1, 2)) (\<lambda>_. Some 4096) (\<lambda>_. 0) 64 8 0 (\<lambda>_. 0) = Ret m \<and>
    send_run 8 [([1, 2, 3], 0, [Poll_Comp True]), ([4], 0, [Poll_Comp True])] m = Some (Ret (sts, s)) \<and>
    receive_run (\<lambda>_. 0) 8 (\<lambda>posted k mem. write_bytes mem (fst (posted ! k)) ([[1, 2, 3], [4]] ! k))
      (map sr_bytes (tm_sent s)) 0 [True, False, True] m = Ret (rs, r) \<and> rights rs = [[1, 2, 3], [4]]"
proof -
  obtain m where m: "TwoSidedRdmaMessenger (\<lambda>_ _ _. Some (1, 2)) (\<lambda>_. Some 4096) (\<lambda>_. 0) 64 8 0 (\<lambda>_. 0) = Ret m"
    using fresh_example by blast
  have "rc_receive (\<lambda>posted k mem. write_bytes mem (fst (posted ! k)) ([[1, 2, 3], [4]] ! k)) [[1, 2, 3], [4]]"
    by (simp add: rc_receive_def)
  then show ?thesis
    using messenger_end_to_end [OF _ m m, of "[([1, 2, 3], 0, [Poll_Comp True]), ([4], 0, [Poll_Comp True])]"
      "\<lambda>posted k mem. write_bytes mem (fst (posted ! k)) ([[1, 2, 3], [4]] ! k)" "[True, False, True]"] m
    by (auto simp: posted_msgs_def)
qed

end
