(* ===== verification/Pool_Network.thy ===== *)
theory Pool_Network
  imports Pool_Join Connection_Manager_Props Messenger
begin

text \<open>
  The memory pool on its own connection manager and messengers: the operations that
  \<open>MemoryPool::Init\<close> calls, with every connection that the manager makes owning the channel of its endpoint, while the
  broker answers the requests of other nodes in between; and what \<open>Init\<close> reaches when the peers join too.
\<close>

section \<open>Channels of connections\<close>

definition kMemoryPoolMessengerCapacity :: nat where "kMemoryPoolMessengerCapacity = 2 ^ 12"
definition kMemoryPoolMessageSize :: nat where "kMemoryPoolMessageSize = 2 ^ 8"

text \<open>The channel of an endpoint, the node at its other end and the number of messages taken from it.\<close>

record channel_state =
  ct_peer :: u32
  ct_msgr :: messenger
  ct_taken :: nat

record network =
  nw_cm :: cm
  nw_channels :: "cm_id \<rightharpoonup> channel_state"
  nw_time :: nat

text \<open>
  What the outside answers. The operations are counted, and at each count the requests that the broker finds
  before it, the attempts on the lock, the events of the endpoint, the results of a send, and whether the next
  message has arrived are given; what a node sends is a list of messages.
\<close>

record answers =
  an_env :: cm_env
  an_address :: "string option"
  an_requests :: "nat \<Rightarrow> (cm_id \<times> cm_event \<times> attempts) list"
  an_attempts :: "nat \<Rightarrow> attempts"
  an_polls :: "nat \<Rightarrow> poll list"
  an_reg :: "cm_id \<Rightarrow> nat \<Rightarrow> nat \<Rightarrow> int \<Rightarrow> (u32 \<times> u32) option"
  an_alloc :: "cm_id \<Rightarrow> u64 \<Rightarrow> nat option"
  an_post :: "nat \<Rightarrow> int"
  an_comps :: "nat \<Rightarrow> send_poll list"
  an_arrives :: "nat \<Rightarrow> bool"
  an_inbox :: "u32 \<Rightarrow> u8 list list"
  an_nic :: "u32 \<Rightarrow> nic"
  an_serialize :: "u32 \<times> u64 \<Rightarrow> u8 list"
  an_parse :: "u8 list \<Rightarrow> u32 \<times> u64"

text \<open>A connection of the table that is new gets its channel, whose constructor posts the receives.\<close>

definition attach :: "answers \<Rightarrow> u32 \<times> connection \<Rightarrow> (cm_id \<rightharpoonup> channel_state) \<Rightarrow> (cm_id \<rightharpoonup> channel_state) option" where
  "attach a it chs = (let i = cn_channel (snd it) in
     if chs i \<noteq> None then Some chs
     else case TwoSidedRdmaMessenger (an_reg a i) (an_alloc a i) (\<lambda>_. 0) kMemoryPoolMessengerCapacity kMemoryPoolMessageSize 0 (\<lambda>_. 0) of
       Fault x \<Rightarrow> None
     | Ret m \<Rightarrow> Some (chs(i \<mapsto> \<lparr>ct_peer = fst it, ct_msgr = m, ct_taken = 0\<rparr>)))"

fun attach_all :: "answers \<Rightarrow> (u32 \<times> connection) list \<Rightarrow> (cm_id \<rightharpoonup> channel_state) \<Rightarrow> (cm_id \<rightharpoonup> channel_state) option" where
  "attach_all a [] chs = Some chs"
| "attach_all a (it # its) chs = Option.bind (attach a it chs) (attach_all a its)"

text \<open>The manager's operations as steps of the network, without a result when one faults or does not return.\<close>

definition returns :: "answers \<Rightarrow> 'b cm_run \<Rightarrow> network \<Rightarrow> ('b \<times> network) option" where
  "returns a r nw = (case r of
       Some (Ret (s, b)) \<Rightarrow> map_option (\<lambda>chs. (b, nw\<lparr>nw_cm := s, nw_channels := chs\<rparr>)) (attach_all a (cm_established s) (nw_channels nw))
     | _ \<Rightarrow> None)"

fun serve :: "answers \<Rightarrow> (cm_id \<times> cm_event \<times> attempts) list \<Rightarrow> network \<Rightarrow> network option" where
  "serve a [] nw = Some nw"
| "serve a ((i, event, ms) # rs) nw =
     Option.bind (returns a (OnConnectRequest (an_env a) i event ms (nw_cm nw)) nw) (\<lambda>(_, nw1). serve a rs nw1)"

text \<open>Before an operation the broker serves the requests that have come.\<close>

definition turn :: "answers \<Rightarrow> network \<Rightarrow> (nat \<Rightarrow> network \<Rightarrow> ('b \<times> network) option) \<Rightarrow> ('b \<times> network) option" where
  "turn a nw f = Option.bind (serve a (an_requests a (nw_time nw)) nw) (\<lambda>nw1.
     f (nw_time nw) (nw1\<lparr>nw_time := nw_time nw + 1\<rparr>))"

definition net_start :: "answers \<Rightarrow> peer \<Rightarrow> network \<Rightarrow> status \<times> network" where
  "net_start a self nw = (case Start (an_address a) (nw_cm nw) of (s, st) \<Rightarrow> (st, nw\<lparr>nw_cm := s\<rparr>))"

definition net_connect :: "answers \<Rightarrow> peer \<Rightarrow> network \<Rightarrow> (nat status_or \<times> network) option" where
  "net_connect a q nw = turn a nw (\<lambda>t nw1.
     map_option (\<lambda>(r, nw2). (map_sum id cn_channel r, nw2))
       (returns a (Connect (an_env a) (ucast (peer_id q)) (peer_address q) (peer_port q) (an_attempts a t) (an_polls a t) (nw_cm nw1)) nw1))"

definition net_get :: "answers \<Rightarrow> u16 \<Rightarrow> network \<Rightarrow> (nat status_or \<times> network) option" where
  "net_get a i nw = turn a nw (\<lambda>t nw1.
     map_option (\<lambda>(r, s). (map_sum id cn_channel r, nw1\<lparr>nw_cm := s\<rparr>)) (GetConnection (ucast i) (an_attempts a t) (nw_cm nw1)))"

definition net_send :: "answers \<Rightarrow> nat \<Rightarrow> u32 \<times> u64 \<Rightarrow> network \<Rightarrow> (status \<times> network) option" where
  "net_send a c msg nw = turn a nw (\<lambda>t nw1. case nw_channels nw1 c of
       None \<Rightarrow> None
     | Some ch \<Rightarrow> (case ch_Send (an_serialize a) kMemoryPoolMessageSize (an_post a t) (an_comps a t) msg (ct_msgr ch) of
           Some (Ret (st, m)) \<Rightarrow> Some (st, nw1\<lparr>nw_channels := (nw_channels nw1)(c \<mapsto> ch\<lparr>ct_msgr := m\<rparr>)\<rparr>)
         | _ \<Rightarrow> None))"

text \<open>
  A poll of the receive queue: the adapter has put the messages that arrived into the buffers that were posted for
  them, and completes the first of them that was not taken yet.
\<close>

definition net_deliver :: "answers \<Rightarrow> nat \<Rightarrow> network \<Rightarrow> ((u32 \<times> u64) status_or \<times> network) option" where
  "net_deliver a c nw = turn a nw (\<lambda>t nw1. case nw_channels nw1 c of
       None \<Rightarrow> None
     | Some ch \<Rightarrow>
         let m = ct_msgr ch; k = ct_taken ch; inbox = an_inbox a (ct_peer ch);
             arrived = an_arrives a t \<and> k < length inbox
         in case ch_TryDeliver (an_parse a) (\<lambda>_. 0) kMemoryPoolMessageSize
             (if arrived then Recv_Success (length (inbox ! k)) else Recv_Again)
             (if arrived then m\<lparr>tm_mem := an_nic a (ct_peer ch) (tm_posted m) k (tm_mem m)\<rparr> else m) of
           Fault x \<Rightarrow> None
         | Ret (r, m1) \<Rightarrow> Some (r, nw1\<lparr>nw_channels := (nw_channels nw1)(c \<mapsto> ch\<lparr>ct_msgr := m1, ct_taken := if arrived then Suc k else k\<rparr>)\<rparr>))"

definition net_ops :: "answers \<Rightarrow> network manager_ops" where
  "net_ops a = \<lparr>op_start = net_start a, op_connect = net_connect a, op_get = net_get a, op_send = net_send a, op_deliver = net_deliver a\<rparr>"

section \<open>What the outside has to do\<close>

text \<open>
  The lock becomes free during every attempt, and again and again before it is seen with the id of this node; an
  endpoint is in the end established or rejected, and again and again established; the calls succeed; endpoints
  that are made have a queue pair and those of requests have none, and all are different; the connections are
  reliable, every send completes, and the first message of each peer is its key.
\<close>

fun verdict :: "poll list \<Rightarrow> cm_event_type option" where
  "verdict [] = None"
| "verdict (poll.Poll_Again # ps) = verdict ps"
| "verdict (Poll_Error # ps) = None"
| "verdict (Poll_Event ev # ps) = (if ev_event ev = ADDR_RESOLVED then verdict ps else Some (ev_event ev))"

definition frees :: "attempts \<Rightarrow> bool" where
  "frees ms \<longleftrightarrow> (kUnlocked, False) \<in> set ms"

definition grants :: "u32 \<Rightarrow> attempts \<Rightarrow> bool" where
  "grants my ms \<longleftrightarrow> (\<exists>pre post. ms = pre @ (kUnlocked, False) # post \<and> (\<forall>(m, spurious) \<in> set pre. word_of_int m \<noteq> my))"

definition request_ids :: "answers \<Rightarrow> nat \<Rightarrow> cm_id list" where
  "request_ids a n = concat (map (\<lambda>t. map fst (an_requests a t)) [0..<n])"

definition manager_lives :: "answers \<Rightarrow> u32 \<Rightarrow> bool" where
  "manager_lives a my \<longleftrightarrow> my \<noteq> - 1 \<and> an_address a \<noteq> None \<and> (\<forall>tr c. env_ret (an_env a) tr c = 0) \<and>
     (\<forall>t. frees (an_attempts a t) \<and> verdict (an_polls a t) \<in> {Some ESTABLISHED, Some REJECTED}) \<and>
     (\<forall>t. \<exists>u \<ge> t. grants my (an_attempts a u) \<and> verdict (an_polls a u) = Some ESTABLISHED) \<and>
     (\<forall>t. \<forall>(i, event, ms) \<in> set (an_requests a t). frees ms \<and> \<not> env_has_qp (an_env a) i \<and>
        (\<exists>peer. ev_private_data event = Some peer \<and> peer \<noteq> my)) \<and>
     (\<forall>n. distinct (request_ids a n)) \<and>
     (\<forall>tr. env_has_qp (an_env a) (env_new_id (an_env a) tr)) \<and>
     (\<forall>tr tr'. length tr \<noteq> length tr' \<longrightarrow> env_new_id (an_env a) tr \<noteq> env_new_id (an_env a) tr')"

definition channels_live :: "answers \<Rightarrow> (u16 \<Rightarrow> u32 \<times> u64) \<Rightarrow> bool" where
  "channels_live a key \<longleftrightarrow>
     (\<forall>i. \<exists>m. TwoSidedRdmaMessenger (an_reg a i) (an_alloc a i) (\<lambda>_. 0) kMemoryPoolMessengerCapacity kMemoryPoolMessageSize 0 (\<lambda>_. 0) = Ret m) \<and>
     (\<forall>t. an_post a t = 0 \<and> await_send (an_comps a t) = Some (Poll_Comp True)) \<and> (\<forall>t. \<exists>u \<ge> t. an_arrives a u) \<and>
     (\<forall>k. an_parse a (an_serialize a k) = k \<and> length (an_serialize a k) < kMemoryPoolMessageSize) \<and>
     (\<forall>p. rc_receive (an_nic a p) (an_inbox a p)) \<and> (\<forall>i. \<exists>msgs. an_inbox a (ucast i) = an_serialize a (key i) # msgs)"

section \<open>The manager when its calls succeed\<close>

text \<open>One state continues another with new entries of the table.\<close>

definition extends :: "cm \<Rightarrow> (u32 \<times> connection) list \<Rightarrow> cm \<Rightarrow> bool" where
  "extends s new s' \<longleftrightarrow> cm_my_id s' = cm_my_id s \<and> cm_requested s' = cm_requested s \<and> cm_loopback_id s' = cm_loopback_id s \<and>
     cm_broker s' = cm_broker s \<and> cm_established s' = cm_established s @ new \<and> length (cm_trace s) \<le> length (cm_trace s')"

lemma extends_refl [simp]: "extends s [] s"
  by (simp add: extends_def)

lemma extends_tellI: "extends s new s' \<Longrightarrow> extends s new (tell c s')"
  by (auto simp: extends_def tell_def)

lemma extends_Release: "extends s new s' \<Longrightarrow> extends s new (Release s')"
  by (auto simp: extends_def Release_def)

lemma extends_mu: "extends s new s' \<Longrightarrow> extends s new (s'\<lparr>cm_mu := v\<rparr>)"
  by (auto simp: extends_def)

lemma extends_trans: "extends s xs s1 \<Longrightarrow> extends s1 ys s2 \<Longrightarrow> extends s (xs @ ys) s2"
  by (auto simp: extends_def)

lemma calm_check: "(\<And>tr c. env_ret e tr c = 0) \<Longrightarrow> RDMA_CM_CHECK e c s k = k (tell c s)"
  by (simp add: RDMA_CM_CHECK_def invoke_def tell_def)

lemma calm_assert: "(\<And>tr c. env_ret e tr c = 0) \<Longrightarrow> RDMA_CM_ASSERT e c s k = k (tell c s)"
  by (simp add: RDMA_CM_ASSERT_def invoke_def tell_def)

lemma calm_flag: "(\<And>tr c. env_ret e tr c = 0) \<Longrightarrow> add_flag e fd flag s k = k (tell (Fcntl_Setfl fd 0 flag) (tell (Fcntl_Getfl fd) s))"
  by (simp add: add_flag_def calm_check) (simp add: invoke_def tell_def)

lemmas calm = calm_check calm_assert calm_flag

lemma frees_Acquire: "frees ms \<Longrightarrow> \<exists>b ms'. Acquire peer ms s = Some (b, ms', if b then s\<lparr>cm_mu := sint peer\<rparr> else s) \<and>
    (\<not> b \<longrightarrow> cm_my_id s \<noteq> - 1 \<longrightarrow> frees ms')"
proof (induction peer ms s rule: Acquire.induct)
  case (2 peer m spurious ms s)
  show ?case
  proof (cases "(m = kUnlocked \<and> \<not> spurious) \<or> word_of_int m = cm_my_id s")
    case True
    then show ?thesis using 2(2) by (cases "m = kUnlocked \<and> \<not> spurious") (auto simp: frees_def kUnlocked_def)
  next
    case False
    then have "frees ms" using 2(2) by (auto simp: frees_def)
    with 2(1) False show ?thesis by auto
  qed
qed (simp add: frees_def)

lemma grants_Acquire: "grants (cm_my_id s) ms \<Longrightarrow> \<exists>ms'. Acquire peer ms s = Some (True, ms', s\<lparr>cm_mu := sint peer\<rparr>)"
proof -
  assume "grants (cm_my_id s) ms"
  then obtain pre post where "ms = pre @ (kUnlocked, False) # post" "\<forall>(m, spurious) \<in> set pre. word_of_int m \<noteq> cm_my_id s"
    by (auto simp: grants_def)
  then show ?thesis by (induction pre arbitrary: ms) auto
qed

lemma get_calm:
  "frees ms \<Longrightarrow> cm_my_id s \<noteq> - 1 \<Longrightarrow> map_of (cm_established s) peer = Some conn \<Longrightarrow>
   \<exists>s'. GetConnection peer ms s = Some (Inr conn, s') \<and> extends s [] s'"
proof (induction peer ms s rule: GetConnection.induct)
  case (1 peer ms s)
  obtain b ms' where a: "Acquire (cm_my_id s) ms s = Some (b, ms', if b then s\<lparr>cm_mu := sint (cm_my_id s)\<rparr> else s)" "\<not> b \<longrightarrow> frees ms'"
    using frees_Acquire [OF 1(2)] 1(3) by blast
  show ?case
  proof (cases b)
    case True
    then show ?thesis using a 1(4) by (subst GetConnection.simps) (simp add: extends_Release extends_mu)
  next
    case False
    then show ?thesis using a 1 by (subst GetConnection.simps) simp
  qed
qed

lemma request_calm:
  assumes e: "\<And>tr c. env_ret e tr c = 0" and "frees ms" "\<not> env_has_qp e i" "ev_private_data event = Some peer" "peer \<noteq> cm_my_id s"
    "cm_requested s = []"
  shows "\<exists>s' new. OnConnectRequest e i event ms s = Some (Ret (s', ())) \<and> extends s new s' \<and>
    (new = [] \<or> (map_of (cm_established s) peer = None \<and> new = [(peer, Connection (cm_my_id s) peer i)]))"
proof (cases "cm_accepting s")
  case False
  then show ?thesis by (intro exI [of _ s] exI [of _ "[]"]) (simp add: OnConnectRequest_def finish_def)
next
  case True
  obtain b ms' where a: "Acquire peer ms s = Some (b, ms', if b then s\<lparr>cm_mu := sint peer\<rparr> else s)" using frees_Acquire [OF assms(2)] by blast
  show ?thesis
  proof (cases "b \<and> map_of (cm_established s) peer = None")
    case True
    then show ?thesis using \<open>cm_accepting s\<close> a assms
      by (simp add: OnConnectRequest_def calm accept_connection_def emplace_def tell_def finish_def Release_def extends_def)
  next
    case False
    then show ?thesis using \<open>cm_accepting s\<close> a assms
      by (cases b) (auto simp: OnConnectRequest_def reject_request_def tell_def finish_def Release_def extends_def)
  qed
qed

lemma add_connection_calm: "map_of (cm_established s) peer = None \<Longrightarrow>
    \<exists>s'. add_connection peer i s = Some (Ret (s', Inr (Connection (cm_my_id s) peer i))) \<and>
      extends s [(peer, Connection (cm_my_id s) peer i)] s'"
  by (simp add: add_connection_def emplace_def finish_def extends_def Release_def map_add_def)

lemma tell_fields [simp]:
  "cm_my_id (tell c s) = cm_my_id s" "cm_established (tell c s) = cm_established s" "length (cm_trace (tell c s)) = Suc (length (cm_trace s))"
  by (simp_all add: tell_def)

lemma extends_drop_tell: "extends (tell c s) new s' \<Longrightarrow> extends s new s'"
  by (simp add: extends_def tell_def)

lemma connected_calm:
  assumes "\<And>tr c. env_ret e tr c = 0" "map_of (cm_established s) peer = None"
  shows "\<exists>s'. connected e peer i s = Some (Ret (s', Inr (Connection (cm_my_id s) peer i))) \<and> extends s [(peer, Connection (cm_my_id s) peer i)] s'"
  unfolding connected_def calm [OF assms(1)]
  using add_connection_calm [of "tell (Fcntl_Setfl (Send_Cq_Fd i) 0 O_NONBLOCK) (tell (Fcntl_Getfl (Send_Cq_Fd i))
    (tell (Fcntl_Setfl (Recv_Cq_Fd i) 0 O_NONBLOCK) (tell (Fcntl_Getfl (Recv_Cq_Fd i)) (tell (Fcntl_Setfl (Channel_Fd i) 0 O_SYNC)
    (tell (Fcntl_Getfl (Channel_Fd i)) s)))))" peer i] assms(2) by (auto dest!: extends_drop_tell)

lemma loopback_calm:
  assumes "\<And>tr c. env_ret e tr c = 0" "map_of (cm_established s) (cm_my_id s) = None" "env_has_qp e i"
  shows "\<exists>s'. ConnectLoopback e i s = Some (Ret (s', Inr (Connection (cm_my_id s) (cm_my_id s) i))) \<and>
    extends s [(cm_my_id s, Connection (cm_my_id s) (cm_my_id s) i)] s'"
proof -
  define s1 where "s1 = tell (Fcntl_Setfl (Send_Cq_Fd i) 0 O_NONBLOCK) (tell (Fcntl_Getfl (Send_Cq_Fd i))
    (tell (Fcntl_Setfl (Recv_Cq_Fd i) 0 O_NONBLOCK) (tell (Fcntl_Getfl (Recv_Cq_Fd i)) (tell (Ibv_Modify_Qp i (loopback_rts e i)
      [QP_STATE, QP_SQ_PSN, QP_TIMEOUT, QP_RETRY_CNT, QP_RNR_RETRY, QP_MAX_QP_RD_ATOMIC])
    (tell (Ibv_Modify_Qp i (loopback_rtr e i)
          [QP_STATE, QP_AV, QP_PATH_MTU, QP_DEST_QPN, QP_RQ_PSN, QP_MAX_DEST_RD_ATOMIC, QP_MIN_RNR_TIMER])
    (tell (Ibv_Query_Port i LOOPBACK_PORT_NUM) (tell (Ibv_Modify_Qp i loopback_init [QP_STATE, QP_PKEY_INDEX, QP_PORT, QP_ACCESS_FLAGS]) s)))))))"
  have s1: "cm_my_id s1 = cm_my_id s" "cm_established s1 = cm_established s" by (simp_all add: s1_def)
  have "ConnectLoopback e i s = add_connection (cm_my_id s1) i s1"
    using assms(3) by (simp add: ConnectLoopback_def calm [OF assms(1)] s1_def)
  moreover have "extends s [] s1" unfolding s1_def by (intro extends_tellI extends_refl)
  moreover obtain s' where "add_connection (cm_my_id s1) i s1 = Some (Ret (s', Inr (Connection (cm_my_id s) (cm_my_id s) i)))"
    "extends s1 [(cm_my_id s, Connection (cm_my_id s) (cm_my_id s) i)] s'"
    using add_connection_calm [of s1 "cm_my_id s1" i] assms(2) unfolding s1 by blast
  ultimately show ?thesis using extends_trans [of s "[]" s1 _ s'] by auto
qed

lemma events_calm:
  assumes e: "\<And>tr c. env_ret e tr c = 0"
  shows "verdict polls \<in> {Some ESTABLISHED, Some REJECTED} \<Longrightarrow> map_of (cm_established s) peer = None \<Longrightarrow>
    \<exists>s' r. handle_events e peer i polls s = Some (Ret (s', r)) \<and>
      (if verdict polls = Some ESTABLISHED
       then r = Inr (Connection (cm_my_id s) peer i) \<and> extends s [(peer, Connection (cm_my_id s) peer i)] s'
       else (\<exists>msg. r = Inl (ErrorStatus kUnavailable msg)) \<and> extends s [] s')"
proof (induction polls arbitrary: s rule: verdict.induct)
  case (2 ps)
  have "handle_events e peer i (poll.Poll_Again # ps) s = handle_events e peer i ps s"
    by (subst (1 2) handle_events.simps) simp
  with 2 show ?case by simp
next
  case (4 ev ps)
  consider "ev_event ev = ADDR_RESOLVED" | "ev_event ev = ESTABLISHED" | "ev_event ev = REJECTED"
    using 4(2) by (auto split: if_splits)
  then show ?case
  proof cases
    case 1
    then have "handle_events e peer i (Poll_Event ev # ps) s = handle_events e peer i ps (tell (Rdma_Ack_Cm_Event ev) s)"
      by (subst handle_events.simps) (simp add: calm e)
    moreover obtain s' r where "handle_events e peer i ps (tell (Rdma_Ack_Cm_Event ev) s) = Some (Ret (s', r))"
      "if verdict ps = Some ESTABLISHED
       then r = Inr (Connection (cm_my_id s) peer i) \<and> extends (tell (Rdma_Ack_Cm_Event ev) s) [(peer, Connection (cm_my_id s) peer i)] s'
       else (\<exists>msg. r = Inl (ErrorStatus kUnavailable msg)) \<and> extends (tell (Rdma_Ack_Cm_Event ev) s) [] s'"
      using 4(1) [OF 1, of "tell (Rdma_Ack_Cm_Event ev) s"] 4(2,3) 1 by auto
    ultimately show ?thesis using 1 by (auto split: if_splits dest!: extends_drop_tell)
  next
    case 2
    then have "handle_events e peer i (Poll_Event ev # ps) s = connected e peer i (tell (Rdma_Ack_Cm_Event ev) s)"
      using 4(3) by (subst handle_events.simps) (simp add: calm e)
    then show ?thesis using connected_calm [OF e, of "tell (Rdma_Ack_Cm_Event ev) s" peer i] 4(3) 2 by (auto dest!: extends_drop_tell)
  next
    case 3
    then show ?thesis
      by (subst handle_events.simps) (auto simp: calm e refused_def Let_def fail_with_def finish_def intro!: extends_tellI extends_Release, simp add: extends_def tell_def)
  qed
qed simp_all

text \<open>An attempt to connect: refused for now, a connection that is there, or a new one on a new endpoint.\<close>

definition connects :: "cm_env \<Rightarrow> u32 \<Rightarrow> cm \<Rightarrow> cm \<Rightarrow> connection status_or \<Rightarrow> bool" where
  "connects e peer s s' r \<longleftrightarrow>
     ((\<exists>msg. r = Inl (ErrorStatus kUnavailable msg)) \<and> extends s [] s') \<or>
     (\<exists>conn. r = Inr conn \<and> map_of (cm_established s) peer = Some conn \<and> extends s [] s') \<or>
     (map_of (cm_established s) peer = None \<and> (\<exists>tr. length (cm_trace s) \<le> length tr \<and> length tr < length (cm_trace s') \<and>
        r = Inr (Connection (cm_my_id s) peer (env_new_id e tr)) \<and>
        extends s [(peer, Connection (cm_my_id s) peer (env_new_id e tr))] s'))"

lemma endpoint_calm:
  assumes e: "\<And>tr c. env_ret e tr c = 0" and q: "env_has_qp e i" and v: "verdict polls \<in> {Some ESTABLISHED, Some REJECTED}"
    and n: "map_of (cm_established s) peer = None"
  shows "\<exists>s' r. connect_endpoint e peer i polls s = Some (Ret (s', r)) \<and>
    ((r = Inr (Connection (cm_my_id s) peer i) \<and> extends s [(peer, Connection (cm_my_id s) peer i)] s') \<or>
     (verdict polls \<noteq> Some ESTABLISHED \<and> (\<exists>msg. r = Inl (ErrorStatus kUnavailable msg)) \<and> extends s [] s'))"
proof (cases "peer = cm_my_id s")
  case True
  then show ?thesis using loopback_calm [OF e _ q, of s] n by (auto simp: connect_endpoint_def)
next
  case False
  define s1 where "s1 = tell (Rdma_Connect i (conn_request (cm_my_id s))) (tell (Rdma_Migrate_Id i)
    (tell (Fcntl_Setfl (Channel_Fd i) 0 O_NONBLOCK) (tell (Fcntl_Getfl (Channel_Fd i)) (tell Rdma_Create_Event_Channel s))))"
  have "connect_endpoint e peer i polls s = handle_events e peer i polls s1"
    using False by (simp add: connect_endpoint_def calm e invoke_def tell_def [symmetric] s1_def)
  moreover have "extends s [] s1" unfolding s1_def by (intro extends_tellI extends_refl)
  moreover have "map_of (cm_established s1) peer = None" "cm_my_id s1 = cm_my_id s" using n by (simp_all add: s1_def)
  ultimately show ?thesis using events_calm [OF e v, of s1 peer i] extends_trans [of s "[]" s1]
    by (fastforce split: if_splits)
qed

lemma connect_calm:
  assumes e: "\<And>tr c. env_ret e tr c = 0" and q: "\<And>tr. env_has_qp e (env_new_id e tr)"
    and v: "verdict polls \<in> {Some ESTABLISHED, Some REJECTED}" and f: "frees ms" and b: "cm_broker s = Some src"
  shows "\<exists>s' r. Connect e peer server port ms polls s = Some (Ret (s', r)) \<and> connects e peer s s' r \<and>
    (grants (cm_my_id s) ms \<longrightarrow> verdict polls = Some ESTABLISHED \<longrightarrow> \<not> isl r)"
proof -
  obtain b ms' where a: "Acquire (cm_my_id s) ms s = Some (b, ms', if b then s\<lparr>cm_mu := sint (cm_my_id s)\<rparr> else s)"
    using frees_Acquire [OF f] by blast
  let ?s1 = "s\<lparr>cm_mu := sint (cm_my_id s)\<rparr>"
  consider "\<not> b" | conn where "b" "map_of (cm_established s) peer = Some conn" | "b" "map_of (cm_established s) peer = None" by fastforce
  then show ?thesis
  proof cases
    case 1
    then show ?thesis using a grants_Acquire [of s ms "cm_my_id s"] by (auto simp: Connect_def fail_with_def finish_def connects_def)
  next
    case 2
    then show ?thesis using a by (simp add: Connect_def finish_def connects_def extends_Release extends_mu)
  next
    case 3
    define s2 where "s2 = tell (Rdma_Getaddrinfo server (decimal (unat (htons port))) src) ?s1"
    define s4 where "s4 = tell Rdma_Freeaddrinfo (tell (Rdma_Create_Ep DefaultQpInitAttr) s2)"
    define i where "i = env_new_id e (cm_trace s2)"
    have c: "Connect e peer server port ms polls s = connect_endpoint e peer i polls s4"
      using 3 a b by (simp add: Connect_def invoke_def e Let_def tell_def [symmetric] s4_def s2_def i_def) (simp add: tell_def)
    have s4: "extends s [] s4" "length (cm_trace s) \<le> length (cm_trace s2)" "length (cm_trace s2) < length (cm_trace s4)" "cm_my_id s4 = cm_my_id s"
      "cm_established s4 = cm_established s"
      by (auto simp: s4_def s2_def intro!: extends_tellI extends_mu)
    obtain s' r where r: "connect_endpoint e peer i polls s4 = Some (Ret (s', r))"
      "(r = Inr (Connection (cm_my_id s) peer i) \<and> extends s4 [(peer, Connection (cm_my_id s) peer i)] s') \<or>
       (verdict polls \<noteq> Some ESTABLISHED \<and> (\<exists>msg. r = Inl (ErrorStatus kUnavailable msg)) \<and> extends s4 [] s')"
      using endpoint_calm [OF e q v, of s4 peer "cm_trace s2"] 3(2) s4(4,5) unfolding i_def by auto
    have "length (cm_trace s4) \<le> length (cm_trace s')" using r(2) by (auto simp: extends_def)
    then have "connects e peer s s' r" using r(2) s4 3(2) extends_trans [OF s4(1)] unfolding connects_def i_def by fastforce
    then show ?thesis using c r by auto
  qed
qed

end
