(* ===== verification/Pool_Network_Props.thy ===== *)
theory Pool_Network_Props
  imports Pool_Network
begin

text \<open>
  The network of \<open>Pool_Network\<close> meets the contract of \<open>Pool_Join\<close> when the outside does its part, and so
  \<open>MemoryPool::Init\<close> joins every peer.
\<close>

section \<open>The invariant of the network\<close>

text \<open>A channel has sent the messages of \<open>L\<close> and given out those of the peers in \<open>D\<close>.\<close>

definition chan_ok :: "answers \<Rightarrow> u16 set \<Rightarrow> (u16 \<Rightarrow> (u32 \<times> u64) list) \<Rightarrow> channel_state \<Rightarrow> bool" where
  "chan_ok a D L ch \<longleftrightarrow> send_inv (ct_msgr ch) \<and> kMemoryPoolMessageSize \<le> tm_send_capacity (ct_msgr ch) \<and>
     recv_inv kMemoryPoolMessageSize (ct_taken ch) (ct_msgr ch) \<and> slots kMemoryPoolMessageSize (ct_msgr ch) = 8 \<and>
     (\<forall>i. ucast i = ct_peer ch \<longrightarrow> map sr_bytes (tm_sent (ct_msgr ch)) = map (an_serialize a) (L i) \<and>
       ct_taken ch = (if i \<in> D then 1 else 0))"

text \<open>Every channel of the table has an endpoint of its own, from a request of \<open>used\<close> or made by this node.\<close>

definition own_endpoint :: "answers \<Rightarrow> cm_id set \<Rightarrow> cm \<Rightarrow> cm_id \<Rightarrow> bool" where
  "own_endpoint a used s x \<longleftrightarrow> (\<not> env_has_qp (an_env a) x \<and> x \<in> used) \<or>
     (\<exists>tr. x = env_new_id (an_env a) tr \<and> length tr < length (cm_trace s))"

definition channels_of :: "(u32 \<times> connection) list \<Rightarrow> cm_id list" where
  "channels_of est = map (\<lambda>it. cn_channel (snd it)) est"

definition table_ok :: "answers \<Rightarrow> u32 \<Rightarrow> cm_id set \<Rightarrow> cm \<Rightarrow> bool" where
  "table_ok a my used s \<longleftrightarrow> cm_my_id s = my \<and> cm_requested s = [] \<and> cm_broker s \<noteq> None \<and>
     distinct (map fst (cm_established s)) \<and> distinct (channels_of (cm_established s)) \<and>
     (\<forall>x \<in> set (channels_of (cm_established s)). own_endpoint a used s x)"

definition net_inv :: "answers \<Rightarrow> u32 \<Rightarrow> (u16 \<Rightarrow> u32 \<times> u64) \<Rightarrow> cm_id set \<Rightarrow>
    (u16 \<Rightarrow> nat option) \<Rightarrow> u16 set \<Rightarrow> (u16 \<Rightarrow> (u32 \<times> u64) list) \<Rightarrow> network \<Rightarrow> bool" where
  "net_inv a my key used C D L nw \<longleftrightarrow> manager_lives a my \<and> channels_live a key \<and> table_ok a my used (nw_cm nw) \<and>
     dom (nw_channels nw) = set (channels_of (cm_established (nw_cm nw))) \<and>
     (\<forall>(p, conn) \<in> set (cm_established (nw_cm nw)). \<exists>ch. nw_channels nw (cn_channel conn) = Some ch \<and> ct_peer ch = p \<and> chan_ok a D L ch) \<and>
     (\<forall>i c. C i = Some c \<longrightarrow> (\<exists>conn. map_of (cm_established (nw_cm nw)) (ucast i) = Some conn \<and> cn_channel conn = c)) \<and>
     (\<forall>i. L i \<noteq> [] \<or> i \<in> D \<longrightarrow> i \<in> dom C)"

lemma net_inv_simps:
  assumes "net_inv a my key used C D L nw"
  shows "manager_lives a my" "channels_live a key" "table_ok a my used (nw_cm nw)"
    "\<And>i c. C i = Some c \<Longrightarrow> \<exists>conn ch. map_of (cm_established (nw_cm nw)) (ucast i) = Some conn \<and> cn_channel conn = c \<and>
       nw_channels nw c = Some ch \<and> ct_peer ch = ucast i \<and> chan_ok a D L ch"
proof -
  show "\<exists>conn ch. map_of (cm_established (nw_cm nw)) (ucast i) = Some conn \<and> cn_channel conn = c \<and>
       nw_channels nw c = Some ch \<and> ct_peer ch = ucast i \<and> chan_ok a D L ch" if c: "C i = Some c" for i c
  proof -
    obtain conn where conn: "map_of (cm_established (nw_cm nw)) (ucast i) = Some conn" "cn_channel conn = c"
      using assms c unfolding net_inv_def by blast
    then have "(ucast i, conn) \<in> set (cm_established (nw_cm nw))" by (auto dest: map_of_SomeD)
    then show ?thesis using conn assms unfolding net_inv_def by fastforce
  qed
qed (use assms in \<open>simp_all add: net_inv_def\<close>)

lemma manager_lives_simps:
  assumes "manager_lives a my"
  shows "my \<noteq> - 1" "an_address a \<noteq> None" "\<And>tr c. env_ret (an_env a) tr c = 0" "\<And>t. frees (an_attempts a t)"
    "\<And>t. verdict (an_polls a t) \<in> {Some ESTABLISHED, Some REJECTED}"
    "\<And>t. \<exists>u \<ge> t. grants my (an_attempts a u) \<and> verdict (an_polls a u) = Some ESTABLISHED"
    "\<And>t i event ms. (i, event, ms) \<in> set (an_requests a t) \<Longrightarrow> frees ms \<and> \<not> env_has_qp (an_env a) i \<and>
        (\<exists>peer. ev_private_data event = Some peer \<and> peer \<noteq> my)"
    "\<And>n. distinct (request_ids a n)" "\<And>tr. env_has_qp (an_env a) (env_new_id (an_env a) tr)"
    "\<And>tr tr'. length tr \<noteq> length tr' \<Longrightarrow> env_new_id (an_env a) tr \<noteq> env_new_id (an_env a) tr'"
  using assms unfolding manager_lives_def by blast+

lemma channels_live_simps:
  assumes "channels_live a key"
  shows "\<exists>m. TwoSidedRdmaMessenger (an_reg a x) (an_alloc a x) (\<lambda>_. 0) kMemoryPoolMessengerCapacity kMemoryPoolMessageSize 0 (\<lambda>_. 0) = Ret m"
    "an_post a t = 0" "await_send (an_comps a t) = Some (Poll_Comp True)" "\<exists>u \<ge> t. an_arrives a u"
    "an_parse a (an_serialize a k) = k" "length (an_serialize a k) < kMemoryPoolMessageSize"
    "rc_receive (an_nic a p) (an_inbox a p)" "\<exists>msgs. an_inbox a (ucast i) = an_serialize a (key i) # msgs"
  using assms unfolding channels_live_def by blast+

section \<open>The steps keep it\<close>

lemma attach_all_done: "\<forall>x \<in> set (channels_of est). chs x \<noteq> None \<Longrightarrow> attach_all a est chs = Some chs"
  by (induction est) (auto simp: channels_of_def attach_def)

lemma attach_all_append: "attach_all a (xs @ ys) chs = Option.bind (attach_all a xs chs) (attach_all a ys)"
  by (induction xs arbitrary: chs) (auto split: Option.bind_split)

lemma fresh_channel:
  assumes "channels_live a key"
  shows "\<exists>m. TwoSidedRdmaMessenger (an_reg a i) (an_alloc a i) (\<lambda>_. 0) kMemoryPoolMessengerCapacity kMemoryPoolMessageSize 0 (\<lambda>_. 0) = Ret m \<and>
    ((\<forall>i. ucast i = p \<longrightarrow> L i = [] \<and> i \<notin> D) \<longrightarrow> chan_ok a D L \<lparr>ct_peer = p, ct_msgr = m, ct_taken = 0\<rparr>)"
proof -
  obtain m where m: "TwoSidedRdmaMessenger (an_reg a i) (an_alloc a i) (\<lambda>_. 0) kMemoryPoolMessengerCapacity kMemoryPoolMessageSize 0 (\<lambda>_. 0) = Ret m"
    using channels_live_simps(1) [OF assms] by blast
  from TwoSidedRdmaMessenger_fresh [OF _ m] m show ?thesis
    by (auto simp: chan_ok_def kMemoryPoolMessengerCapacity_def kMemoryPoolMessageSize_def)
qed

lemma returns_same:
  assumes i: "net_inv a my key used C D L nw" and x: "extends (nw_cm nw) [] s'" and u: "used \<subseteq> used'"
  shows "\<exists>nw'. returns a (Some (Ret (s', b))) nw = Some (b, nw') \<and> net_inv a my key used' C D L nw' \<and> nw_cm nw' = s' \<and> nw_time nw' = nw_time nw"
proof -
  have "attach_all a (cm_established s') (nw_channels nw) = Some (nw_channels nw)"
    using i x by (intro attach_all_done) (auto simp: net_inv_def extends_def)
  moreover have "own_endpoint a used (nw_cm nw) y \<Longrightarrow> own_endpoint a used' s' y" for y
    using x u by (auto simp: own_endpoint_def extends_def)
  then have "table_ok a my used' s'" using i x by (auto simp: net_inv_def table_ok_def extends_def)
  ultimately show ?thesis using i x by (simp add: returns_def net_inv_def extends_def)
qed

lemma returns_new:
  assumes i: "net_inv a my key used C D L nw" and x: "extends (nw_cm nw) [(p, conn)] s'" and u: "used \<subseteq> used'"
    and p: "map_of (cm_established (nw_cm nw)) p = None"
    and c: "own_endpoint a used' s' (cn_channel conn)" "cn_channel conn \<notin> set (channels_of (cm_established (nw_cm nw)))"
  shows "\<exists>nw'. returns a (Some (Ret (s', b))) nw = Some (b, nw') \<and> net_inv a my key used' C D L nw' \<and> nw_cm nw' = s' \<and> nw_time nw' = nw_time nw"
proof -
  let ?x = "cn_channel conn"
  have none: "nw_channels nw ?x = None" using i c(2) by (auto simp: net_inv_def)
  obtain m where m: "TwoSidedRdmaMessenger (an_reg a ?x) (an_alloc a ?x) (\<lambda>_. 0) kMemoryPoolMessengerCapacity kMemoryPoolMessageSize 0 (\<lambda>_. 0) = Ret m"
    "(\<forall>i. ucast i = p \<longrightarrow> L i = [] \<and> i \<notin> D) \<longrightarrow> chan_ok a D L \<lparr>ct_peer = p, ct_msgr = m, ct_taken = 0\<rparr>"
    using fresh_channel [OF net_inv_simps(2) [OF i]] by blast
  have ok: "chan_ok a D L \<lparr>ct_peer = p, ct_msgr = m, ct_taken = 0\<rparr>"
    using m(2) i p by (force simp: net_inv_def)
  let ?chs = "(nw_channels nw)(?x \<mapsto> \<lparr>ct_peer = p, ct_msgr = m, ct_taken = 0\<rparr>)"
  have est: "cm_established s' = cm_established (nw_cm nw) @ [(p, conn)]" using x by (simp add: extends_def)
  have "attach_all a (cm_established (nw_cm nw)) (nw_channels nw) = Some (nw_channels nw)"
    using i by (intro attach_all_done) (auto simp: net_inv_def)
  then have "attach_all a (cm_established s') (nw_channels nw) = Some ?chs"
    using none m(1) by (simp add: est attach_all_append attach_def)
  moreover have "own_endpoint a used (nw_cm nw) y \<Longrightarrow> own_endpoint a used' s' y" for y
    using x u by (auto simp: own_endpoint_def extends_def)
  then have "table_ok a my used' s'" using i x c p by (auto simp: net_inv_def table_ok_def extends_def channels_of_def map_of_eq_None_iff)
  moreover have "map_of (cm_established s') q = Some conn'" if "map_of (cm_established (nw_cm nw)) q = Some conn'" for q conn'
    using that p by (auto simp: est map_add_def)
  then have "C i = Some d \<Longrightarrow> \<exists>conn. map_of (cm_established s') (ucast i) = Some conn \<and> cn_channel conn = d" for i d
    using i unfolding net_inv_def by blast
  moreover have "\<exists>ch. ?chs (cn_channel conn') = Some ch \<and> ct_peer ch = q \<and> chan_ok a D L ch" if "(q, conn') \<in> set (cm_established s')" for q conn'
  proof (cases "(q, conn') = (p, conn)")
    case True
    then show ?thesis using ok by simp
  next
    case False
    then have q: "(q, conn') \<in> set (cm_established (nw_cm nw))" using that est by auto
    then have "cn_channel conn' \<noteq> ?x" using c(2) by (force simp: channels_of_def)
    then show ?thesis using q i by (auto simp: net_inv_def)
  qed
  moreover have "dom ?chs = set (channels_of (cm_established s'))" using i by (auto simp: net_inv_def est channels_of_def)
  moreover have "manager_lives a my \<and> channels_live a key \<and> (\<forall>i. L i \<noteq> [] \<or> i \<in> D \<longrightarrow> i \<in> dom C)" using i by (simp add: net_inv_def)
  ultimately have "net_inv a my key used' C D L (nw\<lparr>nw_cm := s', nw_channels := ?chs\<rparr>)"
    unfolding net_inv_def by (simp del: dom_fun_upd fun_upd_apply) blast
  then show ?thesis using \<open>attach_all a (cm_established s') (nw_channels nw) = Some ?chs\<close> by (simp add: returns_def)
qed

text \<open>The requests that come before an operation are served, and the invariant is kept.\<close>

lemma net_inv_time [simp]: "net_inv a my key used C D L (nw\<lparr>nw_time := t\<rparr>) = net_inv a my key used C D L nw"
  by (simp add: net_inv_def)

lemma serve_ok:
  "net_inv a my key used C D L nw \<Longrightarrow> distinct (map fst rs) \<Longrightarrow> fst ` set rs \<inter> used = {} \<Longrightarrow>
   \<forall>(i, event, ms) \<in> set rs. frees ms \<and> \<not> env_has_qp (an_env a) i \<and> (\<exists>peer. ev_private_data event = Some peer \<and> peer \<noteq> my) \<Longrightarrow>
   \<exists>nw'. serve a rs nw = Some nw' \<and> net_inv a my key (used \<union> fst ` set rs) C D L nw' \<and> nw_time nw' = nw_time nw"
proof (induction rs arbitrary: used nw)
  case (Cons r rs)
  obtain i event ms where r: "r = (i, event, ms)" by (cases r)
  obtain peer where p: "frees ms" "\<not> env_has_qp (an_env a) i" "ev_private_data event = Some peer" "peer \<noteq> my" using Cons(5) r by auto
  note live = manager_lives_simps [OF net_inv_simps(1) [OF Cons(2)]]
  have t: "cm_my_id (nw_cm nw) = my" "cm_requested (nw_cm nw) = []" using net_inv_simps(3) [OF Cons(2)] by (simp_all add: table_ok_def)
  obtain s' new where s': "OnConnectRequest (an_env a) i event ms (nw_cm nw) = Some (Ret (s', ()))" "extends (nw_cm nw) new s'"
    "new = [] \<or> (map_of (cm_established (nw_cm nw)) peer = None \<and> new = [(peer, Connection my peer i)])"
    using request_calm [OF live(3) p(1-3), of "nw_cm nw"] p(4) t by auto
  have "\<exists>nw1. returns a (Some (Ret (s', ()))) nw = Some ((), nw1) \<and> net_inv a my key (insert i used) C D L nw1 \<and> nw_cm nw1 = s' \<and> nw_time nw1 = nw_time nw"
  proof (cases "new = []")
    case True
    then show ?thesis using returns_same [OF Cons(2), of s' "insert i used" "()"] s'(2) by blast
  next
    case False
    have "i \<notin> set (channels_of (cm_established (nw_cm nw)))"
      using net_inv_simps(3) [OF Cons(2)] p(2) live(9) Cons(4) r by (auto simp: table_ok_def own_endpoint_def)
    moreover have "own_endpoint a (insert i used) s' i" using p(2) by (simp add: own_endpoint_def)
    ultimately show ?thesis using returns_new [OF Cons(2), of peer "Connection my peer i" s' "insert i used" "()"] s' False
      by (auto simp: Connection_def)
  qed
  then obtain nw1 where 1: "returns a (Some (Ret (s', ()))) nw = Some ((), nw1)" "net_inv a my key (insert i used) C D L nw1" "nw_time nw1 = nw_time nw"
    by blast
  obtain nw' where 2: "serve a rs nw1 = Some nw'" "net_inv a my key (insert i used \<union> fst ` set rs) C D L nw'" "nw_time nw' = nw_time nw1"
    using Cons(1) [OF 1(2)] Cons(3-5) r by auto
  show ?case using s'(1) 1 2 r by (auto simp: insert_commute)
qed simp

definition net_state :: "answers \<Rightarrow> u32 \<Rightarrow> (u16 \<Rightarrow> u32 \<times> u64) \<Rightarrow>
    (u16 \<Rightarrow> nat option) \<Rightarrow> u16 set \<Rightarrow> (u16 \<Rightarrow> (u32 \<times> u64) list) \<Rightarrow> network \<Rightarrow> bool" where
  "net_state a my key C D L nw \<longleftrightarrow> net_inv a my key (set (request_ids a (nw_time nw))) C D L nw"

lemma turn_ok:
  assumes "net_state a my key C D L nw"
  shows "\<exists>nw1. (\<forall>f. turn a nw f = f (nw_time nw) nw1) \<and> nw_time nw1 = Suc (nw_time nw) \<and> net_state a my key C D L nw1"
proof -
  let ?t = "nw_time nw" and ?rs = "an_requests a (nw_time nw)"
  note live = manager_lives_simps [OF net_inv_simps(1) [OF assms [unfolded net_state_def]]]
  have ids: "request_ids a (Suc ?t) = request_ids a ?t @ map fst ?rs" by (simp add: request_ids_def)
  have d: "distinct (map fst ?rs)" "fst ` set ?rs \<inter> set (request_ids a ?t) = {}" using live(8) [of "Suc ?t"] unfolding ids by auto
  obtain nw' where "serve a ?rs nw = Some nw'" "net_inv a my key (set (request_ids a ?t) \<union> fst ` set ?rs) C D L nw'"
    using serve_ok [OF assms [unfolded net_state_def] d] live(7) by blast
  then show ?thesis by (intro exI [of _ "nw'\<lparr>nw_time := Suc ?t\<rparr>"]) (simp add: turn_def net_state_def ids)
qed

lemma widen_inj: "(ucast i :: u32) = ucast j \<longleftrightarrow> i = j" for i j :: u16
proof -
  have "(ucast (ucast w :: u32) :: u16) = w" for w :: u16 by (rule ucast_up_ucast_id) (simp add: is_up)
  then show ?thesis by metis
qed

lemma channel_owner:
  assumes "distinct (channels_of est)" "(p, conn) \<in> set est" "(q, conn') \<in> set est" "cn_channel conn = cn_channel conn'"
  shows "p = q"
proof -
  have "inj_on (\<lambda>it. cn_channel (snd it)) (set est)" using assms(1) by (simp add: channels_of_def distinct_map)
  from inj_onD [OF this _ assms(2,3)] assms(4) show ?thesis by simp
qed

lemma own_connection:
  assumes i: "net_inv a my key used C D L nw" and "map_of (cm_established (nw_cm nw)) (ucast i) = Some conn" "C i = None"
  shows "net_inv a my key used (C(i \<mapsto> cn_channel conn)) D L nw" "cn_channel conn \<notin> ran C"
proof -
  show "net_inv a my key used (C(i \<mapsto> cn_channel conn)) D L nw" using assms unfolding net_inv_def by auto
  show "cn_channel conn \<notin> ran C"
  proof
    assume "cn_channel conn \<in> ran C"
    then obtain j where j: "C j = Some (cn_channel conn)" by (auto simp: ran_def)
    then obtain conn' where "map_of (cm_established (nw_cm nw)) (ucast j) = Some conn'" "cn_channel conn' = cn_channel conn"
      using net_inv_simps(4) [OF i j] by blast
    then have "(ucast j :: u32) = ucast i"
      using channel_owner [of "cm_established (nw_cm nw)" "ucast j" conn' "ucast i" conn] net_inv_simps(3) [OF i] assms(2)
      by (auto simp: table_ok_def dest!: map_of_SomeD)
    then have "j = i" by (simp add: widen_inj)
    then show False using j assms(3) by simp
  qed
qed

section \<open>The operations meet the contract\<close>

lemma net_start_ok:
  assumes "manager_lives a my" "channels_live a key" "nw_cm nw = ConnectionManager my" "nw_channels nw = Map.empty" "nw_time nw = 0"
  shows "\<exists>nw'. net_start a self nw = (OkStatus, nw') \<and> net_state a my key Map.empty {} (\<lambda>_. []) nw'"
  using assms manager_lives_simps(2) [OF assms(1)]
  by (auto simp: net_start_def Start_def ConnectionManager_def net_state_def net_inv_def table_ok_def channels_of_def Let_def)

lemma connect_step:
  assumes st: "net_state a my key C D L nw" and n: "C (peer_id q) = None"
  shows "\<exists>r nw'. net_connect a q nw = Some (r, nw') \<and> nw_time nw' = Suc (nw_time nw) \<and> net_state a my key C D L nw' \<and>
    (case r of Inl err \<Rightarrow> \<exists>msg. err = ErrorStatus kUnavailable msg
       | Inr c \<Rightarrow> c \<notin> ran C \<and> net_state a my key (C(peer_id q \<mapsto> c)) D L nw') \<and>
    (grants my (an_attempts a (nw_time nw)) \<and> verdict (an_polls a (nw_time nw)) = Some ESTABLISHED \<longrightarrow> \<not> isl r)"
proof -
  let ?t = "nw_time nw" and ?p = "ucast (peer_id q) :: u32"
  obtain nw1 where 1: "\<And>f :: nat \<Rightarrow> network \<Rightarrow> (nat status_or \<times> network) option. turn a nw f = f ?t nw1"
    "nw_time nw1 = Suc ?t" "net_state a my key C D L nw1"
    using turn_ok [OF st] by blast
  let ?U = "set (request_ids a (nw_time nw1))"
  have i: "net_inv a my key ?U C D L nw1" using 1(3) by (simp add: net_state_def)
  note live = manager_lives_simps [OF net_inv_simps(1) [OF i]]
  obtain src where src: "cm_broker (nw_cm nw1) = Some src" "cm_my_id (nw_cm nw1) = my" using net_inv_simps(3) [OF i] by (auto simp: table_ok_def)
  obtain s' r where r: "Connect (an_env a) ?p (peer_address q) (peer_port q) (an_attempts a ?t) (an_polls a ?t) (nw_cm nw1) = Some (Ret (s', r))"
    "connects (an_env a) ?p (nw_cm nw1) s' r" "grants my (an_attempts a ?t) \<longrightarrow> verdict (an_polls a ?t) = Some ESTABLISHED \<longrightarrow> \<not> isl r"
    using connect_calm [where peer = ?p and server = "peer_address q" and port = "peer_port q", OF live(3,9) live(5) [of ?t] live(4) [of ?t] src(1)] src(2) by blast
  have "\<exists>nw'. returns a (Some (Ret (s', r))) nw1 = Some (r, nw') \<and> net_inv a my key ?U C D L nw' \<and> nw_cm nw' = s' \<and> nw_time nw' = nw_time nw1 \<and>
    (\<forall>conn. r = Inr conn \<longrightarrow> map_of (cm_established s') ?p = Some conn)"
    using r(2) unfolding connects_def
  proof (elim disjE conjE exE)
    fix msg assume "r = Inl (ErrorStatus kUnavailable msg)" "extends (nw_cm nw1) [] s'"
    then show ?thesis using returns_same [OF i, where s' = s' and used' = ?U and b = r] by auto
  next
    fix conn assume "r = Inr conn" "map_of (cm_established (nw_cm nw1)) ?p = Some conn" "extends (nw_cm nw1) [] s'"
    then show ?thesis using returns_same [OF i, where s' = s' and used' = ?U and b = r] by (auto simp: extends_def)
  next
    fix tr assume *: "map_of (cm_established (nw_cm nw1)) ?p = None" "length (cm_trace (nw_cm nw1)) \<le> length tr" "length tr < length (cm_trace s')"
      "r = Inr (Connection (cm_my_id (nw_cm nw1)) ?p (env_new_id (an_env a) tr))"
      "extends (nw_cm nw1) [(?p, Connection (cm_my_id (nw_cm nw1)) ?p (env_new_id (an_env a) tr))] s'"
    have "env_new_id (an_env a) tr \<notin> set (channels_of (cm_established (nw_cm nw1)))"
    proof
      assume "env_new_id (an_env a) tr \<in> set (channels_of (cm_established (nw_cm nw1)))"
      then have "own_endpoint a ?U (nw_cm nw1) (env_new_id (an_env a) tr)" using net_inv_simps(3) [OF i] by (simp add: table_ok_def)
      then obtain tr' where "env_new_id (an_env a) tr = env_new_id (an_env a) tr'" "length tr' < length (cm_trace (nw_cm nw1))"
        using live(9) by (auto simp: own_endpoint_def)
      with live(10) [of tr tr'] *(2) show False by simp
    qed
    moreover have "own_endpoint a ?U s' (env_new_id (an_env a) tr)" using *(3) by (auto simp: own_endpoint_def)
    ultimately have "\<exists>nw'. returns a (Some (Ret (s', r))) nw1 = Some (r, nw') \<and> net_inv a my key ?U C D L nw' \<and> nw_cm nw' = s' \<and> nw_time nw' = nw_time nw1"
      using returns_new [OF i *(5) order_refl *(1), where b = r] by (simp add: Connection_def)
    then show ?thesis using * by (auto simp: extends_def map_add_def)
  qed
  then obtain nw' where n': "returns a (Some (Ret (s', r))) nw1 = Some (r, nw')" "net_inv a my key ?U C D L nw'" "nw_cm nw' = s'" "nw_time nw' = nw_time nw1"
    "\<And>conn. r = Inr conn \<Longrightarrow> map_of (cm_established s') ?p = Some conn" by blast
  have "net_connect a q nw = Some (map_sum id cn_channel r, nw')" using 1(1) r(1) n'(1) by (simp add: net_connect_def)
  moreover have "net_state a my key C D L nw'" using n'(2,4) by (simp add: net_state_def)
  moreover have "cn_channel conn \<notin> ran C \<and> net_state a my key (C(peer_id q \<mapsto> cn_channel conn)) D L nw'" if "r = Inr conn" for conn
    using own_connection [OF n'(2) _ n] n'(3,4,5) that by (simp add: net_state_def)
  moreover have "\<exists>msg. err = ErrorStatus kUnavailable msg" if "r = Inl err" for err using r(2) that by (auto simp: connects_def)
  ultimately show ?thesis using r(3) n'(4) 1(2) by (cases r) (auto intro!: exI [of _ nw'])
qed

lemma net_connect_ok:
  assumes "net_state a my key C D L nw" "C (peer_id q) = None"
  shows "\<exists>c nw'. connect_retry (net_connect a) q nw = Some (Inr c, nw') \<and> c \<notin> ran C \<and> net_state a my key (C(peer_id q \<mapsto> c)) D L nw'"
proof -
  obtain u where u: "nw_time nw \<le> u" "grants my (an_attempts a u) \<and> verdict (an_polls a u) = Some ESTABLISHED"
    using manager_lives_simps(6) [OF net_inv_simps(1) [OF assms(1) [unfolded net_state_def]]] by blast
  from assms(1) u(1) show ?thesis
  proof (induction "u - nw_time nw" arbitrary: nw rule: less_induct)
    case less
    obtain r nw' where r: "net_connect a q nw = Some (r, nw')" "nw_time nw' = Suc (nw_time nw)" "net_state a my key C D L nw'"
      "case r of Inl err \<Rightarrow> \<exists>msg. err = ErrorStatus kUnavailable msg
         | Inr c \<Rightarrow> c \<notin> ran C \<and> net_state a my key (C(peer_id q \<mapsto> c)) D L nw'"
      "grants my (an_attempts a (nw_time nw)) \<and> verdict (an_polls a (nw_time nw)) = Some ESTABLISHED \<longrightarrow> \<not> isl r"
      using connect_step [OF less(2) assms(2)] by blast
    show ?case
    proof (cases r)
      case (Inr c)
      then show ?thesis using r by (subst connect_retry.simps) (simp add: status_or_unavailable_def)
    next
      case (Inl err)
      then have "nw_time nw \<noteq> u" using r(5) u(2) by auto
      then have "u - nw_time nw' < u - nw_time nw" "nw_time nw' \<le> u" using less(3) r(2) by simp_all
      from less(1) [OF this(1) r(3) this(2)] r Inl show ?thesis
        by (subst connect_retry.simps) (auto simp: status_or_unavailable_def)
    qed
  qed
qed

lemma net_get_ok:
  assumes st: "net_state a my key C D L nw" and c: "C i = Some c"
  shows "\<exists>nw'. net_get a i nw = Some (Inr c, nw') \<and> net_state a my key C D L nw'"
proof -
  obtain nw1 where 1: "\<And>f :: nat \<Rightarrow> network \<Rightarrow> (nat status_or \<times> network) option. turn a nw f = f (nw_time nw) nw1"
    "net_state a my key C D L nw1" using turn_ok [OF st] by blast
  let ?U = "set (request_ids a (nw_time nw1))"
  have i: "net_inv a my key ?U C D L nw1" using 1(2) by (simp add: net_state_def)
  note live = manager_lives_simps [OF net_inv_simps(1) [OF i]]
  obtain conn where conn: "map_of (cm_established (nw_cm nw1)) (ucast i) = Some conn" "cn_channel conn = c" using net_inv_simps(4) [OF i c] by blast
  have my: "cm_my_id (nw_cm nw1) = my" using net_inv_simps(3) [OF i] by (simp add: table_ok_def)
  obtain s' where s': "GetConnection (ucast i) (an_attempts a (nw_time nw)) (nw_cm nw1) = Some (Inr conn, s')" "extends (nw_cm nw1) [] s'"
    using get_calm [OF live(4) _ conn(1), of "nw_time nw"] live(1) my by auto
  have "own_endpoint a ?U (nw_cm nw1) y \<Longrightarrow> own_endpoint a ?U s' y" for y using s'(2) by (auto simp: own_endpoint_def extends_def)
  then have "net_inv a my key ?U C D L (nw1\<lparr>nw_cm := s'\<rparr>)" using i s'(2) by (auto simp: net_inv_def table_ok_def extends_def)
  then show ?thesis using 1(1) s'(1) conn(2) by (simp add: net_get_def net_state_def)
qed

text \<open>A step on the channel of one peer.\<close>

lemma channel_update:
  assumes i: "net_inv a my key used C D L nw" and c: "C i = Some c" and ch: "ct_peer ch' = ucast i" "chan_ok a D' L' ch'"
    and same: "\<And>j. j \<noteq> i \<Longrightarrow> L' j = L j \<and> (j \<in> D' \<longleftrightarrow> j \<in> D)"
  shows "net_inv a my key used C D' L' (nw\<lparr>nw_channels := (nw_channels nw)(c \<mapsto> ch')\<rparr>)"
proof -
  let ?est = "cm_established (nw_cm nw)"
  obtain conn ch where conn: "map_of ?est (ucast i) = Some conn" "cn_channel conn = c" "nw_channels nw c = Some ch" using net_inv_simps(4) [OF i c] by blast
  have "\<exists>ch. ((nw_channels nw)(c \<mapsto> ch')) (cn_channel conn') = Some ch \<and> ct_peer ch = q \<and> chan_ok a D' L' ch" if e: "(q, conn') \<in> set ?est" for q conn'
  proof (cases "cn_channel conn' = c")
    case True
    then have "q = ucast i"
      using channel_owner [OF _ e, of "ucast i" conn] net_inv_simps(3) [OF i] conn by (auto simp: table_ok_def dest: map_of_SomeD)
    then show ?thesis using True ch by simp
  next
    case False
    have "map_of ?est q = Some conn'" using e net_inv_simps(3) [OF i] by (auto simp: table_ok_def)
    then have q: "q \<noteq> ucast i" using False conn(1,2) by auto
    obtain ch2 where "nw_channels nw (cn_channel conn') = Some ch2" "ct_peer ch2 = q" "chan_ok a D L ch2" using i e unfolding net_inv_def by blast
    moreover have "j \<noteq> i" if "ucast j = q" for j using that q by auto
    then have "chan_ok a D' L' ch2" using \<open>chan_ok a D L ch2\<close> \<open>ct_peer ch2 = q\<close> same by (auto simp: chan_ok_def)
    ultimately show ?thesis using False by simp
  qed
  moreover have "dom ((nw_channels nw)(c \<mapsto> ch')) = set (channels_of ?est)" using i conn(3) by (auto simp: net_inv_def)
  moreover have "\<forall>j. L' j \<noteq> [] \<or> j \<in> D' \<longrightarrow> j \<in> dom C"
  proof (intro allI impI)
    fix j assume "L' j \<noteq> [] \<or> j \<in> D'"
    then show "j \<in> dom C" using i c same [of j] by (cases "j = i") (auto simp: net_inv_def)
  qed
  ultimately show ?thesis using i unfolding net_inv_def by (simp del: dom_fun_upd fun_upd_apply) blast
qed

lemma SendMessage_receives:
  "SendMessage mx err polls msg m = Some (Ret (st, m')) \<Longrightarrow> recv_inv mx K m' = recv_inv mx K m \<and> slots mx m' = slots mx m"
  by (auto simp: SendMessage_def Let_def recv_inv_def slots_def ring_def split: if_splits option.splits send_poll.splits)

lemma TryDeliver_sends:
  "TryDeliverMessage post mx p m = Ret (r, m') \<Longrightarrow> send_inv m' = send_inv m \<and> tm_send_capacity m' = tm_send_capacity m \<and> tm_sent m' = tm_sent m"
  by (auto simp: TryDeliverMessage_def PrepareRecvBuffer_def Let_def send_inv_def outcome_inv split: recv_poll.splits if_splits)

lemma net_send_ok:
  assumes st: "net_state a my key C D L nw" and c: "C i = Some c"
  shows "\<exists>nw'. net_send a c msg nw = Some (OkStatus, nw') \<and> net_state a my key C D (L(i := L i @ [msg])) nw'"
proof -
  let ?t = "nw_time nw" and ?L = "L(i := L i @ [msg])"
  obtain nw1 where 1: "\<And>f :: nat \<Rightarrow> network \<Rightarrow> (status \<times> network) option. turn a nw f = f ?t nw1"
    "net_state a my key C D L nw1" using turn_ok [OF st] by blast
  let ?U = "set (request_ids a (nw_time nw1))"
  have i: "net_inv a my key ?U C D L nw1" using 1(2) by (simp add: net_state_def)
  obtain ch where ch: "nw_channels nw1 c = Some ch" "ct_peer ch = ucast i" "chan_ok a D L ch" using net_inv_simps(4) [OF i c] by blast
  have o: "an_post a ?t = 0" "await_send (an_comps a ?t) = Some (Poll_Comp True)" "length (an_serialize a msg) < kMemoryPoolMessageSize"
    using channels_live_simps [OF net_inv_simps(2) [OF i]] by blast+
  obtain status m' where m': "SendMessage kMemoryPoolMessageSize (an_post a ?t) (an_comps a ?t) (an_serialize a msg) (ct_msgr ch) = Some (Ret (status, m'))"
    "send_inv m'" "tm_send_capacity m' = tm_send_capacity (ct_msgr ch)"
    "map sr_bytes (tm_sent m') = map sr_bytes (tm_sent (ct_msgr ch)) @ [an_serialize a msg]" "status_ok status"
  proof -
    have "send_inv (ct_msgr ch)" "kMemoryPoolMessageSize \<le> tm_send_capacity (ct_msgr ch)" "await_send (an_comps a ?t) \<noteq> None"
      using ch(3) o(2) by (simp_all add: chan_ok_def)
    from SendMessage_ok [OF this, of "an_post a ?t" "an_serialize a msg"] that show thesis
      using o by (simp add: posted_msgs_def send_ok_def) blast
  qed
  have "chan_ok a D ?L (ch\<lparr>ct_msgr := m'\<rparr>)"
    using ch(2,3) m'(2-4) SendMessage_receives [OF m'(1), of "ct_taken ch"] by (cases "i \<in> D") (auto simp: chan_ok_def widen_inj)
  from channel_update [OF i c _ this] ch(2)
  have "net_inv a my key ?U C D ?L (nw1\<lparr>nw_channels := (nw_channels nw1)(c \<mapsto> ch\<lparr>ct_msgr := m'\<rparr>)\<rparr>)" by simp
  then show ?thesis using 1(1) ch(1) m'(1,5)
    by (simp add: net_send_def ch_Send_def net_state_def status_ok_def)
qed

lemma deliver_poll:
  assumes st: "net_state a my key C D L nw" and c: "C i = Some c" "i \<notin> D"
  shows "\<exists>nw'. nw_time nw' = Suc (nw_time nw) \<and>
    (if an_arrives a (nw_time nw)
     then net_deliver a c nw = Some (Inr (key i), nw') \<and> net_state a my key C (insert i D) L nw'
     else net_deliver a c nw = Some (Inl (ErrorStatus kUnavailable ''Retry''), nw') \<and> net_state a my key C D L nw')"
proof -
  let ?t = "nw_time nw"
  obtain nw1 where 1: "\<And>f :: nat \<Rightarrow> network \<Rightarrow> ((u32 \<times> u64) status_or \<times> network) option. turn a nw f = f ?t nw1"
    "nw_time nw1 = Suc ?t" "net_state a my key C D L nw1" using turn_ok [OF st] by blast
  let ?U = "set (request_ids a (nw_time nw1))"
  have i: "net_inv a my key ?U C D L nw1" using 1(3) by (simp add: net_state_def)
  obtain ch where ch: "nw_channels nw1 c = Some ch" "ct_peer ch = ucast i" "chan_ok a D L ch" using net_inv_simps(4) [OF i c(1)] by blast
  let ?m = "ct_msgr ch" and ?box = "an_inbox a (ct_peer ch)" and ?sz = kMemoryPoolMessageSize
  obtain msgs where box: "?box = an_serialize a (key i) # msgs" using channels_live_simps(8) [OF net_inv_simps(2) [OF i], of i] unfolding ch(2) by blast
  have k: "ct_taken ch = 0" "recv_inv ?sz 0 ?m" "slots ?sz ?m = 8" using ch(2,3) c(2) by (auto simp: chan_ok_def)
  show ?thesis
  proof (cases "an_arrives a ?t")
    case False
    then have "net_deliver a c nw = Some (Inl (ErrorStatus kUnavailable ''Retry''), nw1)"
      using 1(1) ch(1) k(1) by (cases ch; cases nw1) (auto simp: net_deliver_def ch_TryDeliver_def TryDeliverMessage_def Let_def)
    then show ?thesis using False 1(2,3) by auto
  next
    case True
    let ?msg = "an_serialize a (key i)"
    let ?got = "?m\<lparr>tm_mem := an_nic a (ct_peer ch) (tm_posted ?m) 0 (tm_mem ?m)\<rparr>"
    have o: "length ?msg \<le> ?sz" "an_parse a ?msg = key i" "rc_receive (an_nic a (ct_peer ch)) ?box"
      using channels_live_simps [OF net_inv_simps(2) [OF i]] by (simp_all add: less_imp_le)
    have f: "recv_inv ?sz 0 ?got" "slots ?sz ?got = 8" using k(2,3) by (simp_all add: recv_inv_def slots_def ring_def)
    have "read_bytes (tm_mem ?got) (tm_recv_next ?got) (length ?msg) = ?msg"
    proof -
      have "0 < length (tm_posted ?m)" "tm_posted ?m ! 0 = (tm_recv_next ?m, ?sz)" using recv_inv_slot [OF k(2)] by simp_all
      moreover have "?box ! 0 = ?msg" "0 < length ?box" using box by simp_all
      ultimately show ?thesis using o(1,3) unfolding rc_receive_def by fastforce
    qed
    then obtain m' where m': "TryDeliverMessage (\<lambda>_. 0) ?sz (Recv_Success (length ?msg)) ?got = Ret (Inr ?msg, m')" "recv_inv ?sz 1 m'" "slots ?sz m' = 8"
      using deliver_step [where post = "\<lambda>_. 0", OF _ f(1) o(1)] f(2) by auto
    let ?ch = "ch\<lparr>ct_msgr := m', ct_taken := 1\<rparr>"
    have "send_inv ?m" using ch(3) by (simp add: chan_ok_def)
    then have "send_inv ?got" by (auto simp: send_inv_def)
    then have "send_inv m'" "tm_send_capacity m' = tm_send_capacity ?m" "tm_sent m' = tm_sent ?m" using TryDeliver_sends [OF m'(1)] by simp_all
    then have "chan_ok a (insert i D) L ?ch"
      using ch(2,3) m'(2,3) by (simp add: chan_ok_def widen_inj)
    from channel_update [OF i c(1) _ this] ch(2)
    have "net_inv a my key ?U C (insert i D) L (nw1\<lparr>nw_channels := (nw_channels nw1)(c \<mapsto> ?ch)\<rparr>)" by simp
    moreover have "net_deliver a c nw = Some (Inr (key i), nw1\<lparr>nw_channels := (nw_channels nw1)(c \<mapsto> ?ch)\<rparr>)"
      using True 1(1) ch(1) k(1) box m'(1) o(2) by (simp add: net_deliver_def ch_TryDeliver_def)
    ultimately show ?thesis using True 1(2) by (auto simp: net_state_def)
  qed
qed

lemma net_deliver_ok:
  assumes "net_state a my key C D L nw" "C i = Some c" "i \<notin> D"
  shows "\<exists>nw'. deliver_retry (net_deliver a) c nw = Some (Inr (key i), nw') \<and> net_state a my key C (insert i D) L nw'"
proof -
  obtain u where u: "nw_time nw \<le> u" "an_arrives a u"
    using channels_live_simps(4) [OF net_inv_simps(2) [OF assms(1) [unfolded net_state_def]]] by blast
  from assms(1) u(1) show ?thesis
  proof (induction "u - nw_time nw" arbitrary: nw rule: less_induct)
    case less
    obtain nw' where n': "nw_time nw' = Suc (nw_time nw)"
      "if an_arrives a (nw_time nw)
       then net_deliver a c nw = Some (Inr (key i), nw') \<and> net_state a my key C (insert i D) L nw'
       else net_deliver a c nw = Some (Inl (ErrorStatus kUnavailable ''Retry''), nw') \<and> net_state a my key C D L nw'"
      using deliver_poll [OF less(2) assms(2,3)] by blast
    show ?case
    proof (cases "an_arrives a (nw_time nw)")
      case True
      then show ?thesis using n' by (subst deliver_retry.simps) (simp add: status_or_unavailable_def)
    next
      case False
      then have "nw_time nw \<noteq> u" using u(2) by auto
      then have "u - nw_time nw' < u - nw_time nw" "nw_time nw' \<le> u" using less(3) n'(1) by simp_all
      from less(1) [OF this(1) _ this(2)] n'(2) False show ?thesis
        by (subst deliver_retry.simps) (auto simp: status_or_unavailable_def)
    qed
  qed
qed

text \<open>The contract holds for every behaviour of the outside that does its part.\<close>

definition net_ready :: "answers \<Rightarrow> u32 \<Rightarrow> (u16 \<Rightarrow> u32 \<times> u64) \<Rightarrow> network \<Rightarrow> bool" where
  "net_ready a my key nw \<longleftrightarrow> manager_lives a my \<and> channels_live a key \<and>
     nw = \<lparr>nw_cm = ConnectionManager my, nw_channels = Map.empty, nw_time = 0\<rparr>"

interpretation pool_net: join_network "net_ops a" "\<lambda>_. True" key "net_ready a my key" "net_state a my key" for a my key
proof (unfold_locales, goal_cases)
  case (1 m self)
  then show ?case using net_start_ok [of a my key m self] by (auto simp: net_ready_def net_ops_def)
next
  case (2 C D L m q)
  then show ?case using net_connect_ok [of a my key C D L m q] by (simp add: net_ops_def)
next
  case (3 C D L m i c)
  then show ?case using net_get_ok [of a my key C D L m i c] by (simp add: net_ops_def)
next
  case (4 C D L m i c msg)
  then show ?case using net_send_ok [of a my key C D L m i c msg] by (simp add: net_ops_def)
next
  case (5 C D L m i c)
  then show ?case using net_deliver_ok [of a my key C D L m i c] by (simp add: net_ops_def)
qed

section \<open>Properties\<close>


text \<open>An example: node 2 asks for a connection first, every other attempt to connect is refused, and the lock is busy now and then.\<close>

definition example_key :: "u16 \<Rightarrow> u32 \<times> u64" where
  "example_key i = (ucast i, ucast i * 4096)"

definition example_bytes :: "u32 \<times> u64 \<Rightarrow> u8 list" where
  "example_bytes k = map of_bool (map (bit (fst k)) [0..<32] @ map (bit (snd k)) [0..<64])"

definition example_value :: "u8 list \<Rightarrow> u32 \<times> u64" where
  "example_value bs = (horner_sum of_bool 2 (map (\<lambda>b. b = 1) (take 32 bs)), horner_sum of_bool 2 (map (\<lambda>b. b = 1) (drop 32 bs)))"

lemma example_value_bytes: "example_value (example_bytes k) = k"
proof -
  have "take_bit 32 (fst k) = fst k" "take_bit 64 (snd k) = snd k" by (simp_all add: take_bit_word_eq_self)
  then show ?thesis by (simp add: example_value_def example_bytes_def comp_def horner_sum_bit_eq_take_bit of_bool_eq_1_iff del: upt_rec_numeral)
qed

lemma example_bytes_length: "length (example_bytes k) = 96"
  by (simp add: example_bytes_def del: upt_rec_numeral)

definition example_inbox :: "u32 \<Rightarrow> u8 list list" where
  "example_inbox p = [example_bytes (example_key (ucast p))]"

definition example_net :: answers where
  "example_net = \<lparr>an_env = calm\<lparr>env_new_id := \<lambda>tr. 2 * length tr, env_has_qp := even\<rparr>, an_address = Some ''10.0.0.1'',
     an_requests = \<lambda>t. if t = 0 then [(1, \<lparr>ev_event = CONNECT_REQUEST, ev_id = 1, ev_private_data = Some 2\<rparr>, [(3, False), (- 1, False)])] else [],
     an_attempts = \<lambda>t. [(2, False), (- 1, True), (- 1, False)],
     an_polls = \<lambda>t. [poll.Poll_Again, Poll_Event \<lparr>ev_event = if even t then ESTABLISHED else REJECTED, ev_id = 0, ev_private_data = None\<rparr>],
     an_reg = \<lambda>_ _ _ _. Some (1, 2), an_alloc = \<lambda>_ _. Some 4096, an_post = \<lambda>_. 0, an_comps = \<lambda>_. [Poll_Comp True], an_arrives = even,
     an_inbox = example_inbox, an_nic = \<lambda>p posted k mem. write_bytes mem (fst (posted ! k)) (example_inbox p ! k),
     an_serialize = example_bytes, an_parse = example_value\<rparr>"

lemma example_lives: "manager_lives example_net 1"
proof -
  have "request_ids example_net n = (if n = 0 then [] else [1])" for n
    by (induction n) (auto simp: request_ids_def example_net_def)
  moreover have "grants 1 [(2, False), (- 1, True), (- 1, False)]"
    unfolding grants_def by (rule exI [of _ "[(2, False), (- 1, True)]"], rule exI [of _ "[]"]) (simp add: kUnlocked_def)
  then have "\<exists>u \<ge> t. grants 1 (an_attempts example_net u) \<and> verdict (an_polls example_net u) = Some ESTABLISHED" for t
    by (intro exI [of _ "2 * t"]) (simp add: example_net_def)
  ultimately show ?thesis
    by (auto simp: manager_lives_def example_net_def calm_def frees_def kUnlocked_def)
qed

lemma example_channels: "channels_live example_net example_key"
proof -
  have "\<exists>m. TwoSidedRdmaMessenger (\<lambda>_ _ _. Some (1, 2)) (\<lambda>_. Some 4096) (\<lambda>_. 0) kMemoryPoolMessengerCapacity kMemoryPoolMessageSize 0 (\<lambda>_. 0) = Ret m"
    by (simp add: TwoSidedRdmaMessenger_def RdmaMemory_def RegisterDefaultPd_def RegisterMemoryRegion_def
      ValidateRegion_def GetDefaultMemoryRegion_def GetMemoryRegion_def VALUE_OR_DIE_def kDefaultId_def Let_def Prepare_ok slots_def
      kMemoryPoolMessengerCapacity_def kMemoryPoolMessageSize_def)
  moreover have "length (example_bytes k) < kMemoryPoolMessageSize" for k
    by (simp add: example_bytes_length kMemoryPoolMessageSize_def)
  moreover have "rc_receive (\<lambda>posted k mem. write_bytes mem (fst (posted ! k)) (example_inbox p ! k)) (example_inbox p)" for p
    by (simp add: rc_receive_def)
  moreover have "(ucast (ucast i :: u32) :: u16) = i" for i by (rule ucast_up_ucast_id) (simp add: is_up)
  then have "example_inbox (ucast i) = example_bytes (example_key i) # []" for i by (simp add: example_inbox_def)
  moreover have "\<exists>u \<ge> t. even u" for t :: nat by (rule exI [of _ "2 * t"]) simp
  ultimately show ?thesis by (simp add: channels_live_def example_net_def example_value_bytes)
qed

definition example_pool :: pool where
  "example_pool = \<lparr>mp_self = \<lparr>peer_id = 1, peer_address = ''10.0.0.1'', peer_port = 18018\<rparr>, mp_prev = 0,
     mp_arena = make_arena 0 0 (\<lambda>_. 0), mp_tls = fresh_tls, mp_debug = True, mp_lkey = 0,
     mp_conn_info = [], mp_send_wr = zero_wr, mp_rdma_per_read = [], mp_remote = \<lambda>c x. ucast x\<rparr>"

lemma example_prev: "\<exists>ar th prev. ra_allocate True (make_arena 0x200000 0x10008 (\<lambda>_. 0)) fresh_tls 8 1 = Ret (ar, th, prev)"
proof -
  have p: "pow2_alignment 64" by (simp add: pow2_alignment_iff) (rule exI [of _ 6], simp)
  have c: "slab_class 64 = Ret 6" by code_simp
  have z: "ucast (tl_alignments fresh_tls ! (6 - 3)) AND (64 :: u64) = 0"
    by (simp add: fresh_tls_def kNumSlabClasses_def kMaxSlabClass_def kMinSlabClass_def del: replicate_Suc)
  have "do_allocate True (make_arena 0x200000 0x10008 (\<lambda>_. 0)) fresh_tls 64 64 =
      (let (ar', d) = bump (make_arena 0x200000 0x10008 (\<lambda>_. 0)) 64 64 in Ret (ar', fresh_tls, d))"
    by (rule do_allocate_bump [OF _ _ _ pow2_alignment_max [OF p] c z]) simp_all
  moreover have "do_allocate True ar fresh_tls 8 64 = do_allocate True ar fresh_tls 64 64" for ar by (simp add: do_allocate_def)
  ultimately show ?thesis by (auto simp: ra_allocate_def split: prod.splits)
qed


end
