(* ===== verification/Coroutine.thy ===== *)
theory Coroutine
  imports Rome_Prelude "HOL-Library.Multiset"
begin

text \<open>
  \<open>RoundRobinScheduler\<close> of \<open>rome/util/coroutine.h\<close>: a circular doubly linked list of wrappers in an
  explicit memory. A coroutine is a value of a type \<open>'c\<close>; its handle's \<open>done()\<close> and \<open>resume()\<close> are
  arguments: \<open>resume\<close> yields the suspended coroutine and the tasks it scheduled on this scheduler
  while it ran. \<open>handle.destroy()\<close>, which the destructor of a wrapper calls, is recorded in
  \<open>rr_destroyed\<close>.
\<close>

section \<open>The scheduler\<close>

record 'c wrapper =
  cw_handle :: 'c
  cw_prev :: ptr
  cw_next :: ptr

record 'c scheduler =
  rr_task_count :: int
  rr_curr :: ptr
  rr_last :: ptr
  rr_canceled :: bool
  rr_mem :: "nat \<rightharpoonup> 'c wrapper"
  rr_fresh :: nat
  rr_destroyed :: "'c list"

definition RoundRobinScheduler :: "'c scheduler" where
  "RoundRobinScheduler = \<lparr>rr_task_count = 0, rr_curr = Nullptr, rr_last = Nullptr, rr_canceled = False,
     rr_mem = Map.empty, rr_fresh = 0, rr_destroyed = []\<rparr>"

definition wrapper_at :: "'c scheduler \<Rightarrow> ptr \<Rightarrow> 'c wrapper outcome" where
  "wrapper_at s p = (case p of Nullptr \<Rightarrow> Fault Null_Deref
     | Ptr a \<Rightarrow> (case rr_mem s a of None \<Rightarrow> Fault Dangling | Some w \<Rightarrow> Ret w))"

definition change :: "ptr \<Rightarrow> ('c wrapper \<Rightarrow> 'c wrapper) \<Rightarrow> 'c scheduler \<Rightarrow> 'c scheduler outcome" where
  "change p f s = (case p of Nullptr \<Rightarrow> Fault Null_Deref
     | Ptr a \<Rightarrow> (case rr_mem s a of None \<Rightarrow> Fault Dangling
         | Some w \<Rightarrow> Ret (s\<lparr>rr_mem := (rr_mem s)(a \<mapsto> f w)\<rparr>)))"

text \<open>\<open>delete\<close> of a wrapper destroys its coroutine.\<close>

definition delete_wrapper :: "ptr \<Rightarrow> 'c scheduler \<Rightarrow> 'c scheduler outcome" where
  "delete_wrapper p s = (case p of Nullptr \<Rightarrow> Ret s
     | Ptr a \<Rightarrow> (case rr_mem s a of None \<Rightarrow> Fault Dangling
         | Some w \<Rightarrow> Ret (s\<lparr>rr_mem := (rr_mem s)(a := None), rr_destroyed := rr_destroyed s @ [cw_handle w]\<rparr>)))"

definition Schedule :: "'c \<Rightarrow> 'c scheduler \<Rightarrow> 'c scheduler outcome" where
  "Schedule task s =
     (if rr_canceled s then Ret s
      else
        let a = rr_fresh s; coro = Ptr a;
            s0 = s\<lparr>rr_mem := (rr_mem s)(a \<mapsto> \<lparr>cw_handle = task, cw_prev = Nullptr, cw_next = Nullptr\<rparr>), rr_fresh := a + 1\<rparr>
        in bindO
          (if rr_curr s0 = Nullptr then
             bindO (change coro (\<lambda>w. w\<lparr>cw_prev := coro\<rparr>) s0) (\<lambda>s1.
             bindO (change coro (\<lambda>w. w\<lparr>cw_next := coro\<rparr>) s1) (\<lambda>s2.
             Ret (s2\<lparr>rr_curr := coro, rr_last := coro\<rparr>)))
           else
             bindO (change coro (\<lambda>w. w\<lparr>cw_prev := rr_last s0\<rparr>) s0) (\<lambda>s1.
             bindO (wrapper_at s1 (rr_last s1)) (\<lambda>l.
             bindO (change coro (\<lambda>w. w\<lparr>cw_next := cw_next l\<rparr>) s1) (\<lambda>s2.
             bindO (wrapper_at s2 (rr_last s2)) (\<lambda>l.
             bindO (change (cw_next l) (\<lambda>w. w\<lparr>cw_prev := coro\<rparr>) s2) (\<lambda>s3.
             bindO (change (rr_last s3) (\<lambda>w. w\<lparr>cw_next := coro\<rparr>) s3) (\<lambda>s4.
             Ret (s4\<lparr>rr_last := coro\<rparr>))))))))
          (\<lambda>s5. Ret (s5\<lparr>rr_task_count := rr_task_count s5 + 1\<rparr>)))"

fun schedule_all :: "'c list \<Rightarrow> 'c scheduler \<Rightarrow> 'c scheduler outcome" where
  "schedule_all [] s = Ret s"
| "schedule_all (t # ts) s = bindO (Schedule t s) (schedule_all ts)"

text \<open>One round of the loop of \<open>Run\<close>, with a current task.\<close>

definition run_step :: "('c \<Rightarrow> bool) \<Rightarrow> (bool \<Rightarrow> 'c \<Rightarrow> 'c \<times> 'c list) \<Rightarrow> 'c scheduler \<Rightarrow> 'c scheduler outcome" where
  "run_step is_done resume s =
     bindO (wrapper_at s (rr_curr s)) (\<lambda>c.
     if is_done (cw_handle c) then
       if cw_next c = rr_curr s then
         bindO (delete_wrapper (rr_curr s) (s\<lparr>rr_task_count := rr_task_count s - 1\<rparr>)) (\<lambda>s1.
           Ret (s1\<lparr>rr_last := Nullptr, rr_curr := Nullptr\<rparr>))
       else
         bindO (change (cw_prev c) (\<lambda>w. w\<lparr>cw_next := cw_next c\<rparr>) s) (\<lambda>s1.
         bindO (wrapper_at s1 (rr_curr s1)) (\<lambda>c1.
         bindO (change (cw_next c1) (\<lambda>w. w\<lparr>cw_prev := cw_prev c1\<rparr>) s1) (\<lambda>s2.
         bindO (wrapper_at s2 (rr_curr s2)) (\<lambda>c2.
         let s3 = (if rr_last s2 = rr_curr s2 then s2\<lparr>rr_last := cw_prev c2\<rparr> else s2);
             temp = rr_curr s3
         in delete_wrapper temp (s3\<lparr>rr_curr := cw_next c2, rr_task_count := rr_task_count s3 - 1\<rparr>)))))
     else
       (case resume (rr_canceled s) (cw_handle c) of (h, scheduled) \<Rightarrow>
         bindO (schedule_all scheduled s) (\<lambda>s1.
         bindO (change (rr_curr s1) (\<lambda>w. w\<lparr>cw_handle := h\<rparr>) s1) (\<lambda>s2.
         bindO (wrapper_at s2 (rr_curr s2)) (\<lambda>c2. Ret (s2\<lparr>rr_curr := cw_next c2\<rparr>))))))"

partial_function (option) run_loop ::
  "('c \<Rightarrow> bool) \<Rightarrow> (bool \<Rightarrow> 'c \<Rightarrow> 'c \<times> 'c list) \<Rightarrow> 'c scheduler \<Rightarrow> 'c scheduler run"
where
  "run_loop is_done resume s =
     (if rr_curr s = Nullptr then Some (Ret s)
      else bindR (Some (run_step is_done resume s)) (run_loop is_done resume))"

definition Run :: "('c \<Rightarrow> bool) \<Rightarrow> (bool \<Rightarrow> 'c \<Rightarrow> 'c \<times> 'c list) \<Rightarrow> 'c scheduler \<Rightarrow> 'c scheduler run" where
  "Run is_done resume s = (if rr_curr s = Nullptr then Some (Fault Assert_Fail) else run_loop is_done resume s)"

text \<open>
  \<open>Cancel\<close> sets the flag and spins until the running thread has emptied the list; the flag is its
  effect on the state.
\<close>

definition Cancel :: "'c scheduler \<Rightarrow> 'c scheduler" where
  "Cancel s = s\<lparr>rr_canceled := True\<rparr>"

section \<open>The specification: a round of tasks\<close>

text \<open>
  Abstractly the scheduler is the list of the tasks from \<open>last_->next\<close> to \<open>last_\<close> and the index of the
  current one. New tasks go to the end of the list; a step resumes the current task and moves on,
  cyclically, or removes it when it is done.
\<close>

record 'c round =
  rd_tasks :: "'c list"
  rd_pos :: nat

definition after :: "nat \<Rightarrow> nat \<Rightarrow> nat" where "after n k = (if Suc k = n then 0 else Suc k)"
definition before :: "nat \<Rightarrow> nat \<Rightarrow> nat" where "before n k = (if k = 0 then n - 1 else k - 1)"

definition spec_schedule :: "bool \<Rightarrow> 'c list \<Rightarrow> 'c round \<Rightarrow> 'c round" where
  "spec_schedule canceled ts r = (if canceled then r else r\<lparr>rd_tasks := rd_tasks r @ ts\<rparr>)"

definition remove_at :: "nat \<Rightarrow> 'a list \<Rightarrow> 'a list" where
  "remove_at i xs = take i xs @ drop (Suc i) xs"

definition spec_step :: "('c \<Rightarrow> bool) \<Rightarrow> (bool \<Rightarrow> 'c \<Rightarrow> 'c \<times> 'c list) \<Rightarrow> bool \<Rightarrow> 'c round \<Rightarrow> 'c round" where
  "spec_step is_done resume canceled r =
     (let i = rd_pos r; n = length (rd_tasks r); c = rd_tasks r ! i
      in if is_done c then \<lparr>rd_tasks = remove_at i (rd_tasks r), rd_pos = (if Suc i = n then 0 else i)\<rparr>
         else case resume canceled c of (h, ts) \<Rightarrow>
           (let r' = spec_schedule canceled ts (r\<lparr>rd_tasks := (rd_tasks r)[i := h]\<rparr>)
            in r'\<lparr>rd_pos := after (length (rd_tasks r')) i\<rparr>))"

section \<open>The ring in memory\<close>

definition ring_node :: "nat list \<Rightarrow> 'c list \<Rightarrow> nat \<Rightarrow> 'c wrapper" where
  "ring_node as ts k = \<lparr>cw_handle = ts ! k, cw_prev = Ptr (as ! before (length as) k), cw_next = Ptr (as ! after (length as) k)\<rparr>"

definition ring_at :: "'c scheduler \<Rightarrow> nat list \<Rightarrow> 'c round \<Rightarrow> bool" where
  "ring_at s as r \<longleftrightarrow>
     length as = length (rd_tasks r) \<and> distinct as \<and> dom (rr_mem s) = set as \<and> (\<forall>a \<in> set as. a < rr_fresh s) \<and>
     (\<forall>k < length as. rr_mem s (as ! k) = Some (ring_node as (rd_tasks r) k)) \<and>
     rr_task_count s = int (length as) \<and>
     (if as = [] then rr_curr s = Nullptr \<and> rd_pos r = 0
      else rd_pos r < length as \<and> rr_curr s = Ptr (as ! rd_pos r) \<and> rr_last s = Ptr (last as))"

definition represents :: "'c scheduler \<Rightarrow> 'c round \<Rightarrow> bool" where
  "represents s r \<longleftrightarrow> (\<exists>as. ring_at s as r)"

lemma wrapper_Some [simp]: "rr_mem s a = Some w \<Longrightarrow> wrapper_at s (Ptr a) = Ret w"
  by (simp add: wrapper_at_def)

lemma change_Some [simp]: "rr_mem s a = Some w \<Longrightarrow> change (Ptr a) f s = Ret (s\<lparr>rr_mem := (rr_mem s)(a \<mapsto> f w)\<rparr>)"
  by (simp add: change_def)

lemma delete_Some [simp]: "rr_mem s a = Some w \<Longrightarrow>
    delete_wrapper (Ptr a) s = Ret (s\<lparr>rr_mem := (rr_mem s)(a := None), rr_destroyed := rr_destroyed s @ [cw_handle w]\<rparr>)"
  by (simp add: delete_wrapper_def)

lemma Schedule_ring:
  assumes r: "ring_at s as r" and nc: "\<not> rr_canceled s"
  shows "\<exists>s'. Schedule t s = Ret s' \<and> ring_at s' (as @ [rr_fresh s]) (r\<lparr>rd_tasks := rd_tasks r @ [t]\<rparr>) \<and>
    rr_canceled s' = rr_canceled s \<and> rr_destroyed s' = rr_destroyed s"
proof (cases "as = []")
  case True
  then show ?thesis using r nc
    by (auto simp: Schedule_def Let_def ring_at_def ring_node_def before_def after_def)
next
  case False
  define a n f l ts where "a = rr_fresh s" and "n = length as" and "f = as ! 0" and "l = as ! (n - 1)" and "ts = rd_tasks r"
  have n: "0 < n" using False by (simp add: n_def)
  have ts: "length ts = n" "distinct as" using r by (simp_all add: n_def ts_def ring_at_def)
  have fresh: "a \<notin> set as" using r by (auto simp: ring_at_def a_def)
  have node: "rr_mem s (as ! k) = Some (ring_node as ts k)" if "k < n" for k
    using r that by (simp add: ring_at_def n_def ts_def)
  have cl: "rr_curr s = Ptr (as ! rd_pos r)" "rr_last s = Ptr l" "rd_pos r < n"
    using r False by (simp_all add: ring_at_def l_def n_def last_conv_nth)
  have fl: "f \<noteq> a" "l \<noteq> a" using fresh n by (auto simp: f_def l_def n_def)
  have nl: "rr_mem s l = Some (ring_node as ts (n - 1))" "rr_mem s f = Some (ring_node as ts 0)"
    using node [of "n - 1"] node [of 0] n by (simp_all add: l_def f_def)
  have nx: "cw_next (ring_node as ts (n - 1)) = Ptr f" using n by (simp add: ring_node_def after_def f_def n_def)
  define mem1 where "mem1 = (rr_mem s)(a \<mapsto> \<lparr>cw_handle = t, cw_prev = Ptr l, cw_next = Ptr f\<rparr>, f \<mapsto> (ring_node as ts 0)\<lparr>cw_prev := Ptr a\<rparr>)"
  obtain wl where wl: "mem1 l = Some wl" "wl = (if l = f then (ring_node as ts 0)\<lparr>cw_prev := Ptr a\<rparr> else ring_node as ts (n - 1))"
    using nl fl by (auto simp: mem1_def)
  define s' where "s' = s\<lparr>rr_mem := mem1(l \<mapsto> wl\<lparr>cw_next := Ptr a\<rparr>), rr_fresh := a + 1, rr_last := Ptr a, rr_task_count := rr_task_count s + 1\<rparr>"
  have "Schedule t s = Ret s'"
    using nc nl fl nx cl wl by (auto simp: Schedule_def Let_def a_def [symmetric] s'_def mem1_def fun_upd_twist)
  moreover have "ring_at s' (as @ [a]) (r\<lparr>rd_tasks := rd_tasks r @ [t]\<rparr>)"
  proof -
    have "rr_mem s' ((as @ [a]) ! k) = Some (ring_node (as @ [a]) (ts @ [t]) k)" if k: "k < Suc n" for k
    proof (cases "k = n")
      case True
      then show ?thesis using fl n ts by (simp add: s'_def mem1_def nth_append n_def [symmetric] ring_node_def before_def after_def f_def l_def)
    next
      case False
      then have kn: "k < n" using k by simp
      then have ka: "as ! k \<noteq> a" using fresh by (auto simp: n_def)
      have kf: "as ! k = f \<longleftrightarrow> k = 0" "as ! k = l \<longleftrightarrow> k = n - 1" "l = f \<longleftrightarrow> n = 1"
        using n ts kn by (auto simp: f_def l_def n_def nth_eq_iff_index_eq)
      show ?thesis using kn ka kf node [OF kn] wl(2) n ts
        by (auto simp: s'_def mem1_def nth_append n_def [symmetric] ring_node_def before_def after_def)
    qed
    moreover have "dom (rr_mem s') = insert a (set as)"
      using r nl fl n by (auto simp: s'_def mem1_def ring_at_def f_def l_def n_def)
    ultimately show ?thesis using r fresh n ts cl
      by (auto simp: ring_at_def s'_def a_def [symmetric] n_def [symmetric] ts_def [symmetric] nth_append less_Suc_eq)
  qed
  ultimately show ?thesis by (auto simp: a_def s'_def)
qed

lemma schedule_all_ring:
  "ring_at s as r \<Longrightarrow> \<exists>s' as'. schedule_all ts s = Ret s' \<and> ring_at s' (as @ as') (spec_schedule (rr_canceled s) ts r) \<and>
    rr_canceled s' = rr_canceled s \<and> rr_destroyed s' = rr_destroyed s"
proof (induction ts arbitrary: s as r)
  case Nil
  then show ?case by (auto simp: spec_schedule_def intro!: exI [of _ "[]"])
next
  case (Cons t ts)
  show ?case
  proof (cases "rr_canceled s")
    case True
    then have "Schedule t s = Ret s" by (simp add: Schedule_def)
    then show ?thesis using True Cons(1) [OF Cons(2)] by (simp add: spec_schedule_def)
  next
    case False
    obtain s1 where s1: "Schedule t s = Ret s1" "ring_at s1 (as @ [rr_fresh s]) (r\<lparr>rd_tasks := rd_tasks r @ [t]\<rparr>)"
      "rr_canceled s1 = rr_canceled s" "rr_destroyed s1 = rr_destroyed s"
      using Schedule_ring [OF Cons(2) False] by blast
    obtain s2 as' where "schedule_all ts s1 = Ret s2"
      "ring_at s2 ((as @ [rr_fresh s]) @ as') (spec_schedule (rr_canceled s1) ts (r\<lparr>rd_tasks := rd_tasks r @ [t]\<rparr>))"
      "rr_canceled s2 = rr_canceled s1" "rr_destroyed s2 = rr_destroyed s1"
      using Cons(1) [OF s1(2)] by blast
    then show ?thesis using s1 False
      by (intro exI [of _ s2] exI [of _ "rr_fresh s # as'"]) (simp add: spec_schedule_def)
  qed
qed

lemma length_remove_at [simp]: "i < length xs \<Longrightarrow> length (remove_at i xs) = length xs - 1"
  by (simp add: remove_at_def)

lemma nth_remove_at: "i < length xs \<Longrightarrow> k < length xs - 1 \<Longrightarrow> remove_at i xs ! k = xs ! (if k < i then k else Suc k)"
  by (auto simp: remove_at_def nth_append min_def)

lemma set_remove_at: "distinct xs \<Longrightarrow> i < length xs \<Longrightarrow> set (remove_at i xs) = set xs - {xs ! i}"
proof -
  assume a: "distinct xs" "i < length xs"
  then have "xs = take i xs @ xs ! i # drop (Suc i) xs" by (rule_tac id_take_nth_drop)
  with a(1) show ?thesis unfolding remove_at_def
    by (metis (no_types) Diff_insert_absorb Un_insert_right distinct.simps(2) distinct_append list.set(2) set_append
        not_distinct_conv_prefix Un_iff disjoint_insert(1))
qed

lemma distinct_remove_at: "distinct xs \<Longrightarrow> distinct (remove_at i xs)"
  unfolding remove_at_def using set_take_disj_set_drop_if_distinct [of xs i "Suc i"] by simp

lemma remove_at_neighbours:
  assumes "i < n" "2 \<le> n" "k < n - 1" "j = (if k < i then k else Suc k)" "length as = n"
  shows "remove_at i as ! after (n - 1) k = (if j = before n i then as ! after n i else as ! after n j)"
    "remove_at i as ! before (n - 1) k = (if j = after n i then as ! before n i else as ! before n j)"
proof -
  have "after (n - 1) k < n - 1" "before (n - 1) k < n - 1" using assms by (auto simp: after_def before_def)
  then show "remove_at i as ! after (n - 1) k = (if j = before n i then as ! after n i else as ! after n j)"
    "remove_at i as ! before (n - 1) k = (if j = after n i then as ! before n i else as ! before n j)"
    using assms by (auto simp: nth_remove_at after_def before_def split: if_splits intro!: arg_cong [of _ _ "(!) as"])
qed

lemma remove_ring:
  assumes r: "ring_at s as r" and n2: "2 \<le> length as" and d: "is_done (rd_tasks r ! rd_pos r)"
  shows "\<exists>s'. run_step is_done resume s = Ret s' \<and>
    ring_at s' (remove_at (rd_pos r) as) \<lparr>rd_tasks = remove_at (rd_pos r) (rd_tasks r), rd_pos = (if Suc (rd_pos r) = length as then 0 else rd_pos r)\<rparr> \<and>
    rr_canceled s' = rr_canceled s \<and> rr_destroyed s' = rr_destroyed s @ [rd_tasks r ! rd_pos r]"
proof -
  define i n ts where "i = rd_pos r" and "n = length as" and "ts = rd_tasks r"
  define c p x where "c = as ! i" and "p = as ! before n i" and "x = as ! after n i"
  have ne0: "as \<noteq> []" using n2 by auto
  have f: "2 \<le> n" "i < n" "length ts = n" "distinct as" "rr_curr s = Ptr c" "rr_last s = Ptr (last as)" "dom (rr_mem s) = set as"
    "rr_task_count s = int n" "is_done (ts ! i)" "as \<noteq> []"
    using r n2 d ne0 unfolding ring_at_def i_def n_def ts_def c_def if_not_P [OF ne0] by metis+
  have node: "rr_mem s (as ! k) = Some (ring_node as ts k)" if "k < n" for k
    using r that by (simp add: ring_at_def n_def ts_def)
  have ix: "before n i < n" "after n i < n" "before n i \<noteq> i" "after n i \<noteq> i" using f(1,2) by (auto simp: before_def after_def)
  have ne: "p \<noteq> c" "x \<noteq> c" "p = x \<longleftrightarrow> before n i = after n i"
    using ix f by (auto simp: p_def x_def c_def n_def nth_eq_iff_index_eq)
  have mem: "rr_mem s c = Some \<lparr>cw_handle = ts ! i, cw_prev = Ptr p, cw_next = Ptr x\<rparr>"
    "rr_mem s p = Some (ring_node as ts (before n i))" "rr_mem s x = Some (ring_node as ts (after n i))"
    using node [of i] node [OF ix(1)] node [OF ix(2)] f(2) by (simp_all add: c_def p_def x_def ring_node_def n_def)
  define mem1 where "mem1 = (rr_mem s)(p \<mapsto> (ring_node as ts (before n i))\<lparr>cw_next := Ptr x\<rparr>)"
  obtain wx where wx: "mem1 x = Some wx" "wx = (if p = x then (ring_node as ts (before n i))\<lparr>cw_next := Ptr x\<rparr> else ring_node as ts (after n i))"
    using mem by (auto simp: mem1_def)
  define mem2 where "mem2 = (mem1(x \<mapsto> wx\<lparr>cw_prev := Ptr p\<rparr>))(c := None)"
  define s' where "s' = s\<lparr>rr_mem := mem2, rr_last := (if last as = c then Ptr p else rr_last s), rr_curr := Ptr x,
     rr_task_count := rr_task_count s - 1, rr_destroyed := rr_destroyed s @ [ts ! i]\<rparr>"
  have step: "run_step is_done resume s = Ret s'"
    using mem wx(1) ne(1,2) f(5,6,9)
    by (cases "last as = c") (simp_all add: run_step_def Let_def mem1_def s'_def mem2_def)
  define as' ts' where "as' = remove_at i as" and "ts' = remove_at i ts"
  have len: "length as' = n - 1" "length ts' = n - 1" using f by (simp_all add: as'_def ts'_def n_def)
  have nodes: "mem2 (as' ! k) = Some (ring_node as' ts' k)" if k: "k < n - 1" for k
  proof -
    define j where "j = (if k < i then k else Suc k)"
    have j: "j < n" "j \<noteq> i" "as' ! k = as ! j" "ts' ! k = ts ! j"
      using k f by (auto simp: j_def as'_def ts'_def n_def nth_remove_at)
    have eq: "as ! j = c \<longleftrightarrow> False" "as ! j = p \<longleftrightarrow> j = before n i" "as ! j = x \<longleftrightarrow> j = after n i"
      using j ix f by (auto simp: c_def p_def x_def n_def nth_eq_iff_index_eq)
    note nb = remove_at_neighbours [OF f(2,1) k j_def n_def [symmetric], folded as'_def p_def x_def]
    have "mem2 (as ! j) = Some \<lparr>cw_handle = ts ! j, cw_prev = Ptr (if j = after n i then p else as ! before n j),
        cw_next = Ptr (if j = before n i then x else as ! after n j)\<rparr>"
      using eq node [OF j(1)] wx(2) ne(3) unfolding mem2_def mem1_def
      by (auto simp: ring_node_def n_def [symmetric])
    then show ?thesis using nb j(3,4) len by (simp add: ring_node_def)
  qed
  have ptrs: "rr_last s' = Ptr (last as')" "x = as' ! (if Suc i = n then 0 else i)"
  proof -
    have la: "last as = as ! (n - 1)" using f(10) by (simp add: n_def last_conv_nth)
    have lc: "last as = c \<longleftrightarrow> i = n - 1" using f by (auto simp: la c_def n_def nth_eq_iff_index_eq)
    have "as' \<noteq> []" using len f(1) by auto
    then have "last as' = as' ! (n - 2)" using len by (simp add: last_conv_nth numeral_2_eq_2)
    then show "rr_last s' = Ptr (last as')" using f lc la
      by (auto simp: s'_def as'_def n_def nth_remove_at p_def before_def numeral_2_eq_2 Suc_diff_Suc intro!: arg_cong [of _ _ "(!) as"])
    show "x = as' ! (if Suc i = n then 0 else i)" using f by (auto simp: x_def as'_def n_def nth_remove_at after_def)
  qed
  have dm: "dom mem2 = set as'"
    using f mem ne by (auto simp: mem2_def mem1_def as'_def set_remove_at n_def c_def)
  have ne': "as' \<noteq> []" using len f(1) by auto
  have bound: "\<forall>a \<in> set as'. a < rr_fresh s'" using r f(2,4) by (auto simp: s'_def as'_def set_remove_at n_def ring_at_def)
  have "ring_at s' as' \<lparr>rd_tasks = ts', rd_pos = (if Suc i = n then 0 else i)\<rparr>"
    unfolding ring_at_def if_not_P [OF ne'] using len nodes ptrs dm bound f(1,2,8) distinct_remove_at [OF f(4), of i, folded as'_def]
    by (auto simp: s'_def)
  with step show ?thesis by (auto simp: s'_def as'_def ts'_def i_def n_def ts_def)
qed

lemma last_ring:
  assumes r: "ring_at s as r" and n1: "length as = 1" and d: "is_done (rd_tasks r ! rd_pos r)"
  shows "\<exists>s'. run_step is_done resume s = Ret s' \<and> ring_at s' [] \<lparr>rd_tasks = [], rd_pos = 0\<rparr> \<and>
    rr_canceled s' = rr_canceled s \<and> rr_destroyed s' = rr_destroyed s @ [rd_tasks r ! rd_pos r]"
proof -
  obtain a where a: "as = [a]" using n1 by (auto simp: length_Suc_conv)
  have "length (rd_tasks r) = 1" using r a by (simp add: ring_at_def)
  then obtain c where c: "rd_tasks r = [c]" by (auto simp: length_Suc_conv)
  have "rr_mem s a = Some \<lparr>cw_handle = c, cw_prev = Ptr a, cw_next = Ptr a\<rparr>" "rr_curr s = Ptr a" "rd_pos r = 0" "dom (rr_mem s) = {a}"
    "rr_task_count s = 1"
    using r a c by (auto simp: ring_at_def ring_node_def after_def before_def)
  moreover from this have "(rr_mem s)(a := None) = Map.empty" by (auto simp: fun_eq_iff dom_def)
  ultimately show ?thesis using d c by (auto simp: run_step_def ring_at_def)
qed

lemma resume_ring:
  assumes r: "ring_at s as r" and ne: "as \<noteq> []" and d: "\<not> is_done (rd_tasks r ! rd_pos r)"
  shows "\<exists>s' as'. run_step is_done resume s = Ret s' \<and> ring_at s' as' (spec_step is_done resume (rr_canceled s) r) \<and>
    rr_canceled s' = rr_canceled s \<and> rr_destroyed s' = rr_destroyed s"
proof -
  define i ts where "i = rd_pos r" and "ts = rd_tasks r"
  obtain h new where hn: "resume (rr_canceled s) (ts ! i) = (h, new)" by force
  obtain s1 as' where s1: "schedule_all new s = Ret s1" "ring_at s1 (as @ as') (spec_schedule (rr_canceled s) new r)"
    "rr_canceled s1 = rr_canceled s" "rr_destroyed s1 = rr_destroyed s"
    using schedule_all_ring [OF r] by metis
  define bs us where "bs = as @ as'" and "us = rd_tasks (spec_schedule (rr_canceled s) new r)"
  have ne': "bs \<noteq> []" using ne by (simp add: bs_def)
  have pos: "rd_pos (spec_schedule (rr_canceled s) new r) = i" by (simp add: spec_schedule_def i_def)
  have f: "i < length as" "length ts = length as" "rr_curr s = Ptr (as ! i)" "rr_mem s (as ! i) = Some (ring_node as ts i)"
    using r unfolding ring_at_def if_not_P [OF ne] i_def ts_def by metis+
  have g: "length bs = length us" "distinct bs" "rr_curr s1 = Ptr (bs ! i)" "i < length bs" "rr_last s1 = Ptr (last bs)"
    "rr_mem s1 (bs ! i) = Some (ring_node bs us i)" "rr_task_count s1 = int (length bs)" "dom (rr_mem s1) = set bs"
    using s1(2) [folded bs_def] unfolding ring_at_def if_not_P [OF ne'] pos us_def by metis+
  have node: "rr_mem s1 (bs ! k) = Some (ring_node bs us k)" if "k < length bs" for k
    using s1(2) that by (simp add: ring_at_def bs_def us_def)
  define s' where "s' = s1\<lparr>rr_mem := (rr_mem s1)(bs ! i \<mapsto> (ring_node bs us i)\<lparr>cw_handle := h\<rparr>), rr_curr := Ptr (bs ! after (length bs) i)\<rparr>"
  have "run_step is_done resume s = Ret s'"
    using f g hn d s1(1) by (simp add: run_step_def ring_node_def i_def [symmetric] ts_def [symmetric] s'_def)
  moreover have spec: "spec_step is_done resume (rr_canceled s) r = \<lparr>rd_tasks = us[i := h], rd_pos = after (length bs) i\<rparr>"
    using d hn f g(1) by (auto simp: spec_step_def Let_def spec_schedule_def us_def i_def [symmetric] ts_def [symmetric] list_update_append)
  have "ring_at s' bs \<lparr>rd_tasks = us[i := h], rd_pos = after (length bs) i\<rparr>"
  proof -
    have "rr_mem s' (bs ! k) = Some (ring_node bs (us[i := h]) k)" if k: "k < length bs" for k
      using node [OF k] g(1,2,4) k by (cases "k = i") (auto simp: s'_def ring_node_def nth_eq_iff_index_eq)
    moreover have "\<forall>a \<in> set bs. a < rr_fresh s'" using s1(2) by (simp add: ring_at_def bs_def s'_def)
    moreover have "after (length bs) i < length bs" using g(4) by (auto simp: after_def)
    moreover have "dom (rr_mem s') = set bs" using g(4,8) by (auto simp: s'_def)
    ultimately show ?thesis unfolding ring_at_def if_not_P [OF ne'] using g(1,2,5,7) by (simp add: s'_def)
  qed
  ultimately show ?thesis using spec s1(3,4) by (auto simp: s'_def)
qed

text \<open>One step on the linked memory is one step of the abstract round.\<close>

lemma run_step_ring:
  assumes r: "ring_at s as r" and ne: "as \<noteq> []"
  shows "\<exists>s' as'. run_step is_done resume s = Ret s' \<and> ring_at s' as' (spec_step is_done resume (rr_canceled s) r) \<and>
    rr_canceled s' = rr_canceled s \<and>
    rr_destroyed s' = rr_destroyed s @ (if is_done (rd_tasks r ! rd_pos r) then [rd_tasks r ! rd_pos r] else [])"
proof (cases "is_done (rd_tasks r ! rd_pos r)")
  case False
  then show ?thesis using resume_ring [OF r ne] by simp
next
  case d: True
  have n: "rd_pos r < length as" "length (rd_tasks r) = length as"
    using r unfolding ring_at_def if_not_P [OF ne] by metis+
  show ?thesis
  proof (cases "length as = 1")
    case True
    then have "spec_step is_done resume (rr_canceled s) r = \<lparr>rd_tasks = [], rd_pos = 0\<rparr>"
      using d n by (auto simp: spec_step_def Let_def remove_at_def)
    then show ?thesis using last_ring [where is_done = is_done and resume = resume, OF r True] d by fastforce
  next
    case False
    then have "2 \<le> length as" using ne by (cases as) (auto simp: Suc_le_eq)
    from remove_ring [where is_done = is_done and resume = resume, OF r this d] d n show ?thesis
      by (auto simp: spec_step_def Let_def)
  qed
qed

section \<open>Running to the end\<close>

lemma remove_split: "i < length xs \<Longrightarrow> xs = take i xs @ xs ! i # drop (Suc i) xs"
  by (rule id_take_nth_drop)

lemma sum_remove_at:
  fixes f :: "'a \<Rightarrow> 'b::comm_monoid_add"
  assumes "i < length xs"
  shows "sum_list (map f xs) = f (xs ! i) + sum_list (map f (remove_at i xs))"
    "sum_list (map f (xs[i := h])) = f h + sum_list (map f (remove_at i xs))"
proof -
  have "map f xs = map f (take i xs) @ f (xs ! i) # map f (drop (Suc i) xs)"
    by (subst remove_split [OF assms]) simp
  then show "sum_list (map f xs) = f (xs ! i) + sum_list (map f (remove_at i xs))"
    by (simp add: remove_at_def ac_simps)
  show "sum_list (map f (xs[i := h])) = f h + sum_list (map f (remove_at i xs))"
    using assms by (simp add: upd_conv_take_nth_drop remove_at_def ac_simps)
qed

lemma remove_at_update [simp]: "remove_at i (xs[i := h]) = remove_at i xs"
  by (simp add: remove_at_def)

lemma schedule_all_single [simp]: "schedule_all [t] s = Schedule t s"
  by (cases "Schedule t s") auto

text \<open>
  A sum over the tasks of a round changes with a step as it changes for the current task: when it is
  done it leaves, otherwise its successor and the tasks it scheduled replace it.
\<close>

lemma spec_step_sum:
  fixes f :: "'c \<Rightarrow> 'b::comm_monoid_add"
  assumes "rd_pos r < length (rd_tasks r)" and c: "c = rd_tasks r ! rd_pos r" and rest: "rest = remove_at (rd_pos r) (rd_tasks r)"
  shows "sum_list (map f (rd_tasks r)) = f c + sum_list (map f rest)"
    "is_done c \<Longrightarrow> sum_list (map f (rd_tasks (spec_step is_done resume False r))) = sum_list (map f rest)"
    "\<not> is_done c \<Longrightarrow> sum_list (map f (rd_tasks (spec_step is_done resume False r))) =
       f (fst (resume False c)) + sum_list (map f (snd (resume False c))) + sum_list (map f rest)"
  using assms by (auto simp: spec_step_def Let_def spec_schedule_def sum_remove_at ac_simps split: prod.splits)

lemma run_loop_ring:
  assumes mu: "\<And>c. \<not> is_done c \<Longrightarrow> \<mu> (fst (resume False c)) + (\<Sum>t \<leftarrow> snd (resume False c). Suc (\<mu> t)) < \<mu> c"
    and fin: "\<And>c. is_done c \<Longrightarrow> fin c = {#c#}"
      "\<And>c. \<not> is_done c \<Longrightarrow> fin c = fin (fst (resume False c)) + (\<Sum>t \<leftarrow> snd (resume False c). fin t)"
  shows "ring_at s as r \<Longrightarrow> \<not> rr_canceled s \<Longrightarrow>
    \<exists>s'. run_loop is_done resume s = Some (Ret s') \<and> ring_at s' [] \<lparr>rd_tasks = [], rd_pos = 0\<rparr> \<and>
      mset (rr_destroyed s') = mset (rr_destroyed s) + (\<Sum>t \<leftarrow> rd_tasks r. fin t)"
proof (induction "\<Sum>t \<leftarrow> rd_tasks r. Suc (\<mu> t)" arbitrary: s as r rule: less_induct)
  case less
  note [simp] = run_loop.simps [of is_done resume s]
  show ?case
  proof (cases "as = []")
    case True
    then have "rr_curr s = Nullptr" "rd_tasks r = []" "r = \<lparr>rd_tasks = [], rd_pos = 0\<rparr>"
      using less(2) by (auto simp: ring_at_def)
    then show ?thesis using less(2) True by simp
  next
    case False
    have n: "rd_pos r < length as" "length as = length (rd_tasks r)" "rr_curr s \<noteq> Nullptr"
      using less(2) unfolding ring_at_def if_not_P [OF False] by (metis, metis, force)
    define c where "c = rd_tasks r ! rd_pos r"
    obtain s1 as1 where s1: "run_step is_done resume s = Ret s1" "ring_at s1 as1 (spec_step is_done resume False r)"
      "\<not> rr_canceled s1" "rr_destroyed s1 = rr_destroyed s @ (if is_done c then [c] else [])"
      using run_step_ring [OF less(2) False, of is_done resume] less(3) unfolding c_def by auto
    note sums = spec_step_sum(1) [OF n(1) [unfolded n(2)] c_def refl]
      spec_step_sum(2,3) [where is_done = is_done and resume = resume, OF n(1) [unfolded n(2)] c_def refl]
    have "(\<Sum>t \<leftarrow> rd_tasks (spec_step is_done resume False r). Suc (\<mu> t)) < (\<Sum>t \<leftarrow> rd_tasks r. Suc (\<mu> t))"
      using sums [of "\<lambda>t. Suc (\<mu> t)"] mu [of c] by (cases "is_done c") auto
    from less(1) [OF this s1(2,3)] obtain s' where s': "run_loop is_done resume s1 = Some (Ret s')"
      "ring_at s' [] \<lparr>rd_tasks = [], rd_pos = 0\<rparr>"
      "mset (rr_destroyed s') = mset (rr_destroyed s1) + (\<Sum>t \<leftarrow> rd_tasks (spec_step is_done resume False r). fin t)" by blast
    have "mset (rr_destroyed s') = mset (rr_destroyed s) + (\<Sum>t \<leftarrow> rd_tasks r. fin t)"
      using s'(3) s1(4) sums [of fin] fin [of c] by (cases "is_done c") auto
    then show ?thesis using s' s1(1) n(3) by auto
  qed
qed

lemma ring_initial: "ring_at RoundRobinScheduler [] \<lparr>rd_tasks = [], rd_pos = 0\<rparr>"
  by (simp add: ring_at_def RoundRobinScheduler_def)

lemma ring_empty_iff: "ring_at s as r \<Longrightarrow> as = [] \<longleftrightarrow> rd_tasks r = []"
  by (auto simp: ring_at_def)

section \<open>Properties\<close>

text \<open>
  C6. The linked list implements the abstract round: from any memory that represents a round,
  \<open>Schedule\<close> and each pass of the loop of \<open>Run\<close> return without touching a null or deleted wrapper, the
  new memory represents the round after the abstract operation, and the coroutine destroyed is
  exactly the current task when it is done.
\<close>

theorem scheduler_refines_ring:
  assumes "represents s r"
  shows "(\<exists>s'. Schedule t s = Ret s' \<and> represents s' (spec_schedule (rr_canceled s) [t] r)) \<and>
    (if rd_tasks r = [] then rr_curr s = Nullptr
     else \<exists>s'. run_step is_done resume s = Ret s' \<and> represents s' (spec_step is_done resume (rr_canceled s) r) \<and>
       rr_destroyed s' = rr_destroyed s @ (if is_done (rd_tasks r ! rd_pos r) then [rd_tasks r ! rd_pos r] else []))"
proof -
  obtain as where as: "ring_at s as r" using assms by (auto simp: represents_def)
  have "\<exists>s'. Schedule t s = Ret s' \<and> represents s' (spec_schedule (rr_canceled s) [t] r)"
    using schedule_all_ring [OF as, of "[t]"] unfolding schedule_all_single represents_def by blast
  moreover have "rr_curr s = Nullptr" if "rd_tasks r = []" using as that by (auto simp: ring_at_def)
  moreover have "\<exists>s'. run_step is_done resume s = Ret s' \<and> represents s' (spec_step is_done resume (rr_canceled s) r) \<and>
       rr_destroyed s' = rr_destroyed s @ (if is_done (rd_tasks r ! rd_pos r) then [rd_tasks r ! rd_pos r] else [])"
    if "rd_tasks r \<noteq> []"
    using run_step_ring [OF as, of is_done resume] ring_empty_iff [OF as] that unfolding represents_def by blast
  ultimately show ?thesis by simp
qed

text \<open>The scheduler that the witnesses run: coroutines that count down, two of them, one spawning another.\<close>

definition count_done :: "nat \<Rightarrow> bool" where "count_done c \<longleftrightarrow> c = 0"
definition count_resume :: "bool \<Rightarrow> nat \<Rightarrow> nat \<times> nat list" where
  "count_resume b c = (c - 1, if c = 3 then [1] else [])"

lemma scheduler_refines_ring_witness:
  "\<exists>s'. Schedule (2::nat) RoundRobinScheduler = Ret s' \<and> represents s' \<lparr>rd_tasks = [2], rd_pos = 0\<rparr>"
  using scheduler_refines_ring [of RoundRobinScheduler "\<lparr>rd_tasks = [], rd_pos = 0\<rparr>" 2 count_done count_resume] ring_initial
  by (auto simp: represents_def spec_schedule_def RoundRobinScheduler_def)

text \<open>
  C16. Whenever each resume of an unfinished coroutine, together with the tasks it schedules, uses up
  some of a measure, scheduling any non-empty list of tasks on a new scheduler and calling \<open>Run\<close>
  returns, with no task left, every wrapper freed, and every coroutine, also those scheduled while
  running, destroyed exactly once and only when done (\<open>fin c\<close> are the finished coroutines that \<open>c\<close>
  ends in).
\<close>

theorem scheduler_runs_all:
  assumes mu: "\<And>c. \<not> is_done c \<Longrightarrow> \<mu> (fst (resume False c)) + (\<Sum>t \<leftarrow> snd (resume False c). Suc (\<mu> t)) < \<mu> c"
    and fin: "\<And>c. is_done c \<Longrightarrow> fin c = {#c#}"
      "\<And>c. \<not> is_done c \<Longrightarrow> fin c = fin (fst (resume False c)) + (\<Sum>t \<leftarrow> snd (resume False c). fin t)"
    and ne: "tasks \<noteq> []"
  shows "\<exists>s s'. schedule_all tasks RoundRobinScheduler = Ret s \<and> Run is_done resume s = Some (Ret s') \<and>
    rr_curr s' = Nullptr \<and> rr_task_count s' = 0 \<and> rr_mem s' = Map.empty \<and>
    mset (rr_destroyed s') = (\<Sum>t \<leftarrow> tasks. fin t)"
proof -
  obtain s as where s: "schedule_all tasks RoundRobinScheduler = Ret s" "ring_at s as \<lparr>rd_tasks = tasks, rd_pos = 0\<rparr>"
    "\<not> rr_canceled s" "rr_destroyed s = []"
    using schedule_all_ring [OF ring_initial, of tasks] by (auto simp: spec_schedule_def RoundRobinScheduler_def)
  have "rr_curr s \<noteq> Nullptr" using s(2) ne by (auto simp: ring_at_def split: if_splits)
  moreover obtain s' where "run_loop is_done resume s = Some (Ret s')" "ring_at s' [] \<lparr>rd_tasks = [], rd_pos = 0\<rparr>"
    "mset (rr_destroyed s') = (\<Sum>t \<leftarrow> tasks. fin t)"
    using run_loop_ring [where \<mu> = \<mu> and fin = fin and is_done = is_done and resume = resume, OF mu fin s(2,3)] s(4) by auto
  ultimately show ?thesis using s(1) by (auto simp: Run_def ring_at_def)
qed

definition count_measure :: "nat \<Rightarrow> nat" where "count_measure c = (if c < 3 then c else c + 3)"
definition count_fin :: "nat \<Rightarrow> nat multiset" where "count_fin c = (if c < 3 then {#0#} else {#0, 0#})"

lemma count_run:
  "\<not> count_done c \<Longrightarrow> count_measure (fst (count_resume False c)) +
     (\<Sum>t \<leftarrow> snd (count_resume False c). Suc (count_measure t)) < count_measure c"
  "count_done c \<Longrightarrow> count_fin c = {#c#}"
  "\<not> count_done c \<Longrightarrow> count_fin c = count_fin (fst (count_resume False c)) + (\<Sum>t \<leftarrow> snd (count_resume False c). count_fin t)"
  by (cases "c = 3"; simp add: count_done_def count_resume_def count_measure_def count_fin_def; arith)
    (auto simp: count_done_def count_resume_def count_measure_def count_fin_def)

lemma scheduler_runs_all_witness:
  "\<exists>s s'. schedule_all [3, 1, 0] RoundRobinScheduler = Ret s \<and> Run count_done count_resume s = Some (Ret s') \<and>
    rr_curr s' = Nullptr \<and> rr_task_count s' = 0 \<and> rr_mem s' = Map.empty \<and>
    mset (rr_destroyed s') = {#0, 0, 0, 0#}"
proof -
  have "(\<Sum>t \<leftarrow> [3, 1, 0::nat]. count_fin t) = {#0, 0, 0, 0#}" by (simp add: count_fin_def)
  then show ?thesis
    using scheduler_runs_all [where is_done = count_done and resume = count_resume and \<mu> = count_measure and fin = count_fin
        and tasks = "[3, 1, 0]", OF count_run]
    by simp
qed

end
