(* ===== verification/Rdma_Broker.thy ===== *)
theory Rdma_Broker
  imports Connection_Manager_Props Coroutine
begin

text \<open>
  \<open>RdmaBroker\<close> of \<open>rome/rdma/rdma_broker.h\<close> and \<open>rdma_broker.cc\<close>: the coroutine that polls the listening
  channel and hands the events to a receiver (\<open>RdmaReceiverInterface\<close>, in the code the connection
  manager), run by the coroutine scheduler. A suspended coroutine is a value: where it stands, the polls
  that are to come until \<open>terminate_\<close> is seen, and the receiver, whose state is of a type \<open>'m\<close>.
\<close>

section \<open>The coroutine\<close>

record 'm receiver =
  rc_OnConnectRequest :: "cm_id \<Rightarrow> cm_event \<Rightarrow> 'm \<Rightarrow> 'm"
  rc_OnEstablished :: "cm_id \<Rightarrow> cm_event \<Rightarrow> 'm \<Rightarrow> 'm"
  rc_OnDisconnect :: "cm_id \<Rightarrow> 'm \<Rightarrow> 'm"

text \<open>
  The suspension points: before a poll (at the start, after an empty poll or a handled event), with an
  event in hand, and at the end; a fatal event ends the program.
\<close>

datatype broker_pc = Polling | Polled cm_event | Returned | Aborted

record 'm broker =
  bk_pc :: broker_pc
  bk_polls :: "poll list"
  bk_status :: status
  bk_num_connections :: u32
  bk_receiver :: 'm
  bk_acked :: "cm_event list"

text \<open>The call of \<open>strerror(errno)\<close> in the status of a failed poll is an argument.\<close>

definition poll_events :: "string \<Rightarrow> 'm broker \<Rightarrow> 'm broker" where
  "poll_events err b =
     (case bk_polls b of
        [] \<Rightarrow> b\<lparr>bk_pc := Returned\<rparr>
      | Poll_Again # ps \<Rightarrow> b\<lparr>bk_polls := ps, bk_pc := Polling\<rparr>
      | Poll_Error # ps \<Rightarrow> b\<lparr>bk_polls := ps, bk_pc := Returned, bk_status := ErrorStatus kInternal (''rdma_get_cm_event(): '' @ err)\<rparr>
      | Poll_Event ev # ps \<Rightarrow> b\<lparr>bk_polls := ps, bk_pc := Polled ev\<rparr>)"

definition dispatch :: "'m receiver \<Rightarrow> cm_event \<Rightarrow> 'm broker \<Rightarrow> 'm broker" where
  "dispatch rc ev b =
     (case ev_event ev of
        TIMEWAIT_EXIT \<Rightarrow> b\<lparr>bk_acked := bk_acked b @ [ev], bk_pc := Polling\<rparr>
      | CONNECT_REQUEST \<Rightarrow> b\<lparr>bk_receiver := rc_OnConnectRequest rc (ev_id ev) ev (bk_receiver b), bk_pc := Polling\<rparr>
      | ESTABLISHED \<Rightarrow> b\<lparr>bk_receiver := rc_OnEstablished rc (ev_id ev) ev (bk_receiver b),
                        bk_num_connections := bk_num_connections b + 1, bk_pc := Polling\<rparr>
      | DISCONNECTED \<Rightarrow> b\<lparr>bk_acked := bk_acked b @ [ev], bk_receiver := rc_OnDisconnect rc (ev_id ev) (bk_receiver b),
                         bk_num_connections := bk_num_connections b - 1, bk_pc := Polling\<rparr>
      | DEVICE_REMOVAL \<Rightarrow> b\<lparr>bk_pc := Polling\<rparr>
      | _ \<Rightarrow> b\<lparr>bk_pc := Aborted\<rparr>)"

text \<open>One \<open>resume()\<close> of \<open>HandleConnectionRequests\<close>, in the form that the scheduler takes.\<close>

definition HandleConnectionRequests :: "'m receiver \<Rightarrow> string \<Rightarrow> bool \<Rightarrow> 'm broker \<Rightarrow> 'm broker \<times> 'm broker list" where
  "HandleConnectionRequests rc err canceled b =
     (case bk_pc b of Polling \<Rightarrow> poll_events err b | Polled ev \<Rightarrow> dispatch rc ev b | _ \<Rightarrow> b, [])"

definition broker_done :: "'m broker \<Rightarrow> bool" where
  "broker_done b \<longleftrightarrow> bk_pc b = Returned \<or> bk_pc b = Aborted"

definition RdmaBroker :: "'m \<Rightarrow> poll list \<Rightarrow> 'm broker" where
  "RdmaBroker receiver polls = \<lparr>bk_pc = Polling, bk_polls = polls, bk_status = OkStatus, bk_num_connections = 0,
     bk_receiver = receiver, bk_acked = []\<rparr>"

text \<open>\<open>Run\<close>: the coroutine is scheduled on a new scheduler, which runs until it is done.\<close>

definition broker_Run :: "'m receiver \<Rightarrow> string \<Rightarrow> 'm broker \<Rightarrow> 'm broker scheduler run" where
  "broker_Run rc err b =
     bindR (Some (Schedule b RoundRobinScheduler)) (Run broker_done (HandleConnectionRequests rc err))"

section \<open>Starting and stopping\<close>

text \<open>
  What the libraries answer to \<open>Init\<close>: the status of the device list, \<open>rdma_getaddrinfo\<close> and the text of
  its error, \<open>rdma_create_ep\<close>, the checked calls with the name that their error shows, \<open>strerror\<close>, and the
  address and the port of the endpoint.
\<close>

record init_answers =
  ia_devices :: status
  ia_gai_ret :: int
  ia_gai_text :: string
  ia_create_ep :: int
  ia_migrate :: int
  ia_fcntl :: int
  ia_listen :: int
  ia_strerror :: string
  ia_address :: string
  ia_port :: u16

fun first_failure :: "(int \<times> string) list \<Rightarrow> string \<Rightarrow> status" where
  "first_failure [] err = OkStatus"
| "first_failure ((ret, func) # cs) err =
     (if ret \<noteq> 0 then ErrorStatus kInternal (func @ ''(): '' @ err) else first_failure cs err)"

definition broker_Init :: "init_answers \<Rightarrow> status \<times> (string \<times> u16) option" where
  "broker_Init a =
     (if \<not> status_ok (ia_devices a) then (ia_devices a, None)
      else if ia_gai_ret a \<noteq> 0 then (ErrorStatus kInternal (''rdma_getaddrinfo(): '' @ ia_gai_text a), None)
      else if ia_create_ep a \<noteq> 0 then (ErrorStatus kInternal (''rdma_create_ep(): '' @ ia_strerror a), None)
      else let st = first_failure [(ia_migrate a, ''rdma_migrate_id''), (ia_fcntl a, ''fcntl''), (ia_listen a, ''rdma_listen'')] (ia_strerror a)
           in (st, if status_ok st then Some (ia_address a, ia_port a) else None))"

text \<open>\<open>Create\<close> yields the broker or a null pointer; the manager keeps its address.\<close>

definition broker_Create :: "init_answers \<Rightarrow> string option" where
  "broker_Create a = (case broker_Init a of (status, listening) \<Rightarrow>
     if status_ok status then map_option fst listening else None)"

text \<open>\<open>Stop\<close> sets \<open>terminate_\<close>, joins the thread and returns the status that the coroutine left.\<close>

definition broker_Stop :: "'m broker scheduler \<Rightarrow> status" where
  "broker_Stop s = (case rr_destroyed s of [] \<Rightarrow> OkStatus | b # bs \<Rightarrow> bk_status (last (b # bs)))"

text \<open>The destructor ignores that status and destroys the listening endpoint.\<close>

definition destroy_broker :: "cm_id \<Rightarrow> 'm broker scheduler \<Rightarrow> status \<times> cm_call list" where
  "destroy_broker listen_id s = (broker_Stop s, [Rdma_Destroy_Ep listen_id])"

section \<open>The run of the broker\<close>

text \<open>What the polls amount to: the events before the first error, each dispatched in order.\<close>

fun deliver_polls :: "'m receiver \<Rightarrow> string \<Rightarrow> poll list \<Rightarrow> 'm broker \<Rightarrow> 'm broker" where
  "deliver_polls rc err [] b = b\<lparr>bk_pc := Returned, bk_polls := []\<rparr>"
| "deliver_polls rc err (Poll_Again # ps) b = deliver_polls rc err ps b"
| "deliver_polls rc err (Poll_Error # ps) b =
     b\<lparr>bk_polls := ps, bk_pc := Returned, bk_status := ErrorStatus kInternal (''rdma_get_cm_event(): '' @ err)\<rparr>"
| "deliver_polls rc err (Poll_Event ev # ps) b =
     (let b' = dispatch rc ev (b\<lparr>bk_polls := ps\<rparr>) in if bk_pc b' = Aborted then b' else deliver_polls rc err ps b')"

definition outcome_of :: "'m receiver \<Rightarrow> string \<Rightarrow> 'm broker \<Rightarrow> 'm broker" where
  "outcome_of rc err b =
     (case bk_pc b of
        Polling \<Rightarrow> deliver_polls rc err (bk_polls b) b
      | Polled ev \<Rightarrow> (let b' = dispatch rc ev b in if bk_pc b' = Aborted then b' else deliver_polls rc err (bk_polls b') b')
      | _ \<Rightarrow> b)"

fun broker_measure :: "broker_pc \<Rightarrow> nat" where
  "broker_measure Polling = 1"
| "broker_measure (Polled ev) = 2"
| "broker_measure pc = 0"

definition broker_work :: "'m broker \<Rightarrow> nat" where
  "broker_work b = 2 * length (bk_polls b) + broker_measure (bk_pc b)"

lemma dispatch_simps [simp]:
  "bk_polls (dispatch rc ev b) = bk_polls b" "bk_pc (dispatch rc ev b) \<in> {Polling, Aborted}"
  by (auto simp: dispatch_def split: cm_event_type.splits)

lemma dispatch_Polling [simp]: "bk_pc (dispatch rc ev b) \<noteq> Aborted \<Longrightarrow> bk_pc (dispatch rc ev b) = Polling"
  using dispatch_simps(2) [of rc ev b] by auto

lemma dispatch_pc [simp]:
  "dispatch rc ev (b\<lparr>bk_pc := pc\<rparr>) = dispatch rc ev b"
  "dispatch rc ev (b\<lparr>bk_pc := pc, bk_polls := ps\<rparr>) = dispatch rc ev (b\<lparr>bk_polls := ps\<rparr>)"
  by (auto simp: dispatch_def split: cm_event_type.splits)

lemma deliver_polls_pc [simp]: "deliver_polls rc err ps (b\<lparr>bk_pc := pc\<rparr>) = deliver_polls rc err ps b"
proof (induction ps arbitrary: b)
  case (Cons p ps)
  then show ?case by (cases p) (simp_all add: Let_def)
qed simp

lemma deliver_polls_polls [simp]: "deliver_polls rc err ps (b\<lparr>bk_polls := qs\<rparr>) = deliver_polls rc err ps b"
proof (induction ps arbitrary: b)
  case (Cons p ps)
  then show ?case by (cases p) (simp_all add: Let_def)
qed simp

text \<open>A resume keeps the outcome and uses up some of the work.\<close>

lemma resume_outcome:
  assumes "\<not> broker_done b"
  shows "outcome_of rc err (fst (HandleConnectionRequests rc err c b)) = outcome_of rc err b"
    "broker_work (fst (HandleConnectionRequests rc err c b)) < broker_work b"
    "snd (HandleConnectionRequests rc err c b) = []"
proof -
  consider "bk_pc b = Polling" | ev where "bk_pc b = Polled ev" using assms by (cases "bk_pc b") (auto simp: broker_done_def)
  then show "outcome_of rc err (fst (HandleConnectionRequests rc err c b)) = outcome_of rc err b"
    "broker_work (fst (HandleConnectionRequests rc err c b)) < broker_work b"
    "snd (HandleConnectionRequests rc err c b) = []"
  proof (atomize (full), cases)
    case 1
    show "outcome_of rc err (fst (HandleConnectionRequests rc err c b)) = outcome_of rc err b \<and>
      broker_work (fst (HandleConnectionRequests rc err c b)) < broker_work b \<and> snd (HandleConnectionRequests rc err c b) = []"
    proof (cases "bk_polls b")
      case Nil
      then show ?thesis using 1 by (cases b) (simp add: HandleConnectionRequests_def poll_events_def outcome_of_def broker_work_def)
    next
      case (Cons p ps)
      then show ?thesis using 1
        by (cases p) (simp_all add: HandleConnectionRequests_def poll_events_def outcome_of_def broker_work_def Let_def)
    qed
  next
    case (2 ev)
    have "bk_pc (dispatch rc ev b) = Polling \<or> bk_pc (dispatch rc ev b) = Aborted" using dispatch_simps(2) by auto
    then show "outcome_of rc err (fst (HandleConnectionRequests rc err c b)) = outcome_of rc err b \<and>
      broker_work (fst (HandleConnectionRequests rc err c b)) < broker_work b \<and> snd (HandleConnectionRequests rc err c b) = []"
      using 2 by (auto simp: HandleConnectionRequests_def outcome_of_def broker_work_def Let_def)
  qed
qed

lemma broker_runs:
  "\<exists>s. broker_Run rc err b = Some (Ret s) \<and> rr_curr s = Nullptr \<and> rr_mem s = Map.empty \<and> rr_destroyed s = [outcome_of rc err b]"
proof -
  obtain s0 where s0: "Schedule b RoundRobinScheduler = Ret s0" "ring_at s0 [0] \<lparr>rd_tasks = [b], rd_pos = 0\<rparr>"
    "\<not> rr_canceled s0" "rr_destroyed s0 = []"
    using Schedule_ring [OF ring_initial, of b] by (auto simp: RoundRobinScheduler_def)
  have "rr_curr s0 \<noteq> Nullptr" using s0(2) by (auto simp: ring_at_def)
  moreover have m: "broker_work (fst (HandleConnectionRequests rc err False c)) +
      (\<Sum>t \<leftarrow> snd (HandleConnectionRequests rc err False c). Suc (broker_work t)) < broker_work c" if "\<not> broker_done c" for c
    using resume_outcome [OF that] by simp
  moreover have f1: "{#outcome_of rc err c#} = {#c#}" if "broker_done c" for c using that by (auto simp: broker_done_def outcome_of_def)
  moreover have f2: "{#outcome_of rc err c#} = {#outcome_of rc err (fst (HandleConnectionRequests rc err False c))#} +
      (\<Sum>t \<leftarrow> snd (HandleConnectionRequests rc err False c). {#outcome_of rc err t#})" if "\<not> broker_done c" for c
    using resume_outcome [OF that] by simp
  ultimately obtain s' where "run_loop broker_done (HandleConnectionRequests rc err) s0 = Some (Ret s')"
    "ring_at s' [] \<lparr>rd_tasks = [], rd_pos = 0\<rparr>" "mset (rr_destroyed s') = {#outcome_of rc err b#}"
    using run_loop_ring [where \<mu> = broker_work and fin = "\<lambda>b. {#outcome_of rc err b#}" and is_done = broker_done
        and resume = "HandleConnectionRequests rc err", OF m f1 f2 s0(2,3)] s0(4)
    by auto
  with \<open>rr_curr s0 \<noteq> Nullptr\<close> show ?thesis using s0(1) by (auto simp: broker_Run_def Run_def ring_at_def)
qed

section \<open>The contract of a receiver\<close>

text \<open>An invariant that the three handlers of a receiver keep is kept by a whole run of the broker.\<close>

locale broker_receiver =
  fixes rc :: "'m receiver" and ok :: "'m \<Rightarrow> bool"
  assumes request: "ok m \<Longrightarrow> ok (rc_OnConnectRequest rc i ev m)"
    and established: "ok m \<Longrightarrow> ok (rc_OnEstablished rc i ev m)"
    and disconnect: "ok m \<Longrightarrow> ok (rc_OnDisconnect rc i m)"
begin

lemma dispatch_ok: "ok (bk_receiver b) \<Longrightarrow> ok (bk_receiver (dispatch rc ev b))"
  by (auto simp: dispatch_def request established disconnect split: cm_event_type.splits)

lemma deliver_ok: "ok (bk_receiver b) \<Longrightarrow> ok (bk_receiver (deliver_polls rc err ps b))"
proof (induction ps arbitrary: b)
  case (Cons p ps)
  then show ?case using dispatch_ok [of "b\<lparr>bk_polls := ps\<rparr>"] by (cases p) (auto simp: Let_def)
qed simp

lemma broker_keeps:
  assumes "ok m"
  shows "\<exists>s b. broker_Run rc err (RdmaBroker m ps) = Some (Ret s) \<and> rr_destroyed s = [b] \<and> ok (bk_receiver b)"
  using broker_runs [of rc err "RdmaBroker m ps"] deliver_ok [of "RdmaBroker m ps"] assms
  by (auto simp: outcome_of_def RdmaBroker_def)

end

text \<open>
  The connection manager as a receiver. A handler that faults or spins for ever leaves no manager; \<open>ms\<close>
  are the attempts on the lock that each handler makes.
\<close>

definition manager_receiver :: "cm_env \<Rightarrow> attempts \<Rightarrow> cm run receiver" where
  "manager_receiver e ms =
     \<lparr>rc_OnConnectRequest = \<lambda>i ev m. bindR m (\<lambda>s. bindR (OnConnectRequest e i ev ms s) (\<lambda>(s', _). Some (Ret s'))),
      rc_OnEstablished = \<lambda>i ev m. bindR m (\<lambda>s. Some (Ret (OnEstablished i ev s))),
      rc_OnDisconnect = \<lambda>i m. bindR m (\<lambda>s. bindR (OnDisconnect i ms s) (\<lambda>(s', _). Some (Ret s')))\<rparr>"

definition manager_ok :: "u32 \<Rightarrow> cm run \<Rightarrow> bool" where
  "manager_ok my m \<longleftrightarrow> (\<forall>s. m = Some (Ret s) \<longrightarrow> cm_inv my s)"

lemma cm_inv_request: "OnConnectRequest e i event ms s = Some (Ret (s', u)) \<Longrightarrow> cm_inv my s \<Longrightarrow> cm_inv my s'"
  using OnConnectRequest_effect [of e i event ms s s' u] by (auto simp: cm_inv_def Connection_def map_of_eq_None_iff)

lemma cm_inv_disconnect: "OnDisconnect i ms s = Some (Ret (s', u)) \<Longrightarrow> cm_inv my s \<Longrightarrow> cm_inv my s'"
  using OnDisconnect_effect [of i ms s s' u] by (auto simp: cm_inv_def distinct_map_filter)

interpretation manager: broker_receiver "manager_receiver e ms" "manager_ok my" for e ms my
proof
  fix m i ev
  assume m: "manager_ok my m"
  show "manager_ok my (rc_OnConnectRequest (manager_receiver e ms) i ev m)"
    using m by (auto simp: manager_ok_def manager_receiver_def bindR_eq_Ret intro: cm_inv_request)
  show "manager_ok my (rc_OnEstablished (manager_receiver e ms) i ev m)"
    using m by (auto simp: manager_ok_def manager_receiver_def bindR_eq_Ret OnEstablished_def tell_def cm_inv_def)
  show "manager_ok my (rc_OnDisconnect (manager_receiver e ms) i m)"
    using m by (auto simp: manager_ok_def manager_receiver_def bindR_eq_Ret intro: cm_inv_disconnect)
qed

section \<open>Properties\<close>

fun events :: "poll list \<Rightarrow> cm_event list" where
  "events [] = []"
| "events (Poll_Event ev # ps) = ev # events ps"
| "events (p # ps) = events ps"

definition handled :: "'m receiver \<Rightarrow> cm_event \<Rightarrow> 'm \<Rightarrow> 'm" where
  "handled rc ev m = (if ev_event ev = CONNECT_REQUEST then rc_OnConnectRequest rc (ev_id ev) ev m
     else if ev_event ev = ESTABLISHED then rc_OnEstablished rc (ev_id ev) ev m
     else if ev_event ev = DISCONNECTED then rc_OnDisconnect rc (ev_id ev) m else m)"

definition expected_events :: "cm_event_type set" where
  "expected_events = {TIMEWAIT_EXIT, CONNECT_REQUEST, ESTABLISHED, DISCONNECTED, DEVICE_REMOVAL}"

lemma dispatch_expected:
  assumes "ev_event ev \<in> expected_events"
  shows "bk_pc (dispatch rc ev b) = Polling" "bk_receiver (dispatch rc ev b) = handled rc ev (bk_receiver b)"
    "bk_status (dispatch rc ev b) = bk_status b"
    "bk_num_connections (dispatch rc ev b) = bk_num_connections b + (if ev_event ev = ESTABLISHED then 1 else 0) -
       (if ev_event ev = DISCONNECTED then 1 else 0)"
  using assms by (auto simp: dispatch_def expected_events_def handled_def)

lemma deliver_expected:
  "Poll_Error \<notin> set ps \<Longrightarrow> \<forall>ev \<in> set (events ps). ev_event ev \<in> expected_events \<Longrightarrow>
   bk_receiver (deliver_polls rc err ps b) = fold (handled rc) (events ps) (bk_receiver b) \<and>
   bk_status (deliver_polls rc err ps b) = bk_status b \<and>
   bk_num_connections (deliver_polls rc err ps b) = bk_num_connections b +
     of_nat (length (filter (\<lambda>ev. ev_event ev = ESTABLISHED) (events ps))) -
     of_nat (length (filter (\<lambda>ev. ev_event ev = DISCONNECTED) (events ps)))"
proof (induction ps arbitrary: b)
  case (Cons p ps)
  show ?case
  proof (cases p)
    case (Poll_Event ev)
    then have "ev_event ev \<in> expected_events" using Cons(3) by simp
    note d = dispatch_expected [OF this, where rc = rc and b = "b\<lparr>bk_polls := ps\<rparr>"]
    show ?thesis using Cons(1) [of "dispatch rc ev (b\<lparr>bk_polls := ps\<rparr>)"] Cons(2,3) Poll_Event d
      by (cases "ev_event ev = ESTABLISHED"; cases "ev_event ev = DISCONNECTED") (simp_all add: Let_def algebra_simps)
  qed (use Cons in simp_all)
qed simp

text \<open>
  C17. The thread of the broker ends once it sees the request to stop, with its coroutine destroyed once.
  By then the receiver has handled every event that arrived, in order, through the handler of its kind;
  the number of connections is the established minus the disconnected ones; and \<open>Stop\<close> reports success.
\<close>

theorem broker_handles_events:
  assumes "Poll_Error \<notin> set ps" "\<forall>ev \<in> set (events ps). ev_event ev \<in> expected_events"
  shows "\<exists>s b. broker_Run rc err (RdmaBroker m ps) = Some (Ret s) \<and> rr_destroyed s = [b] \<and> rr_mem s = Map.empty \<and>
    bk_receiver b = fold (handled rc) (events ps) m \<and> broker_Stop s = OkStatus \<and>
    bk_num_connections b = of_nat (length (filter (\<lambda>ev. ev_event ev = ESTABLISHED) (events ps))) -
      of_nat (length (filter (\<lambda>ev. ev_event ev = DISCONNECTED) (events ps)))"
  using broker_runs [of rc err "RdmaBroker m ps"] deliver_expected [OF assms, of rc err "RdmaBroker m ps"]
  by (auto simp: outcome_of_def RdmaBroker_def broker_Stop_def)

definition count_receiver :: "nat list receiver" where
  "count_receiver = \<lparr>rc_OnConnectRequest = \<lambda>i ev m. m @ [i], rc_OnEstablished = \<lambda>i ev m. m @ [i + 100],
     rc_OnDisconnect = \<lambda>i m. m @ [i + 200]\<rparr>"

definition demo_event :: "cm_event_type \<Rightarrow> nat \<Rightarrow> cm_event" where
  "demo_event k i = \<lparr>ev_event = k, ev_id = i, ev_private_data = Some 2\<rparr>"

lemma broker_handles_events_witness:
  "\<exists>s b. broker_Run count_receiver [] (RdmaBroker [] [Poll_Again, Poll_Event (demo_event CONNECT_REQUEST 7), Poll_Again,
      Poll_Event (demo_event ESTABLISHED 7), Poll_Event (demo_event DISCONNECTED 7)]) = Some (Ret s) \<and>
    rr_destroyed s = [b] \<and> bk_receiver b = [7, 107, 207] \<and> bk_num_connections b = 0"
  using broker_handles_events [of "[Poll_Again, Poll_Event (demo_event CONNECT_REQUEST 7), Poll_Again,
      Poll_Event (demo_event ESTABLISHED 7), Poll_Event (demo_event DISCONNECTED 7)]" count_receiver "[]" "[]"]
  by (auto simp: demo_event_def expected_events_def count_receiver_def handled_def)



end
