(* ===== verification/Rdma_Device.thy ===== *)
theory Rdma_Device
  imports Status_Util
begin

text \<open>
  \<open>RdmaDevice\<close> of \<open>rome/rdma/rdma_device.h\<close> and \<open>rdma_device.cc\<close>: finding and opening a device of the
  verbs library, its port and its protection domains; and \<open>ibdev2netip\<close> of \<open>rdma_util.h\<close>, which
  finds the address of a device in the output of two commands. The answers of the verbs library and
  of the commands are arguments. The calls that acquire and release something are kept in a trace, in
  the order in which they are made.
\<close>

section \<open>The verbs library\<close>

text \<open>
  A context is the index of its device in the list of devices, a protection domain a number. Every
  answer may depend on the calls made before; a call that fails is one of them, so that it may succeed
  when it is repeated.
\<close>

datatype verbs_event =
    Open_device nat | Open_failed nat | Close_device nat
  | Alloc_pd nat "nat option"  \<comment> \<open>with the domain, if there is one\<close>
  | Dealloc_pd nat

record verbs =
  vb_devices :: "string list"
  vb_open :: "verbs_event list \<Rightarrow> nat \<Rightarrow> bool"
  vb_port_cnt :: "nat \<Rightarrow> nat"
  vb_active :: "verbs_event list \<Rightarrow> nat \<Rightarrow> int \<Rightarrow> bool"
  vb_alloc :: "verbs_event list \<Rightarrow> nat \<Rightarrow> nat option"

section \<open>Devices and ports\<close>

fun active_ports :: "(int \<Rightarrow> bool) \<Rightarrow> int list \<Rightarrow> int list \<Rightarrow> int list" where
  "active_ports active [] ports = ports"
| "active_ports active (i # is) ports = active_ports active is (if active i then ports @ [i] else ports)"

definition FindActivePorts :: "verbs \<Rightarrow> verbs_event list \<Rightarrow> nat \<Rightarrow> int list status_or" where
  "FindActivePorts vb trace context =
     (let ports = active_ports (vb_active vb trace context) [1..int (vb_port_cnt vb context)] []
      in if ports = [] then Inl (ErrorStatus kUnavailable ''No active ports'') else Inr ports)"

fun scan_devices :: "verbs \<Rightarrow> nat list \<Rightarrow> verbs_event list \<Rightarrow> (string \<times> int) list \<Rightarrow>
    (string \<times> int) list \<times> verbs_event list" where
  "scan_devices vb [] trace active = (active, trace)"
| "scan_devices vb (i # is) trace active =
     (if vb_open vb trace i
      then case FindActivePorts vb (trace @ [Open_device i]) i of
             Inl e \<Rightarrow> scan_devices vb is (trace @ [Open_device i]) active
           | Inr ports \<Rightarrow> scan_devices vb is (trace @ [Open_device i])
               (active @ map (\<lambda>p. (vb_devices vb ! i, p)) ports)
      else scan_devices vb is (trace @ [Open_failed i]) active)"

definition GetAvailableDevices :: "verbs \<Rightarrow> verbs_event list \<Rightarrow> (string \<times> int) list status_or \<times> verbs_event list" where
  "GetAvailableDevices vb trace =
     (if vb_devices vb = [] then (Inl (ErrorStatus kNotFound ''No devices found''), trace)
      else case scan_devices vb [0..<length (vb_devices vb)] trace [] of (active, trace') \<Rightarrow> (Inr active, trace'))"

definition LookupDevice :: "verbs \<Rightarrow> string \<Rightarrow> verbs_event list \<Rightarrow> status \<times> verbs_event list" where
  "LookupDevice vb name trace =
     (case GetAvailableDevices vb trace of (devices_or, trace') \<Rightarrow>
        (case devices_or of Inl e \<Rightarrow> e
         | Inr devices \<Rightarrow> if \<exists>d \<in> set devices. name = fst d then OkStatus
             else ErrorStatus kNotFound (''Device not found: '' @ name), trace'))"

record rdma_device =
  rd_context :: "nat option"
  rd_port :: "int option"
  rd_pds :: "(string \<times> nat) list"

definition new_device :: rdma_device where
  "new_device = \<lparr>rd_context = None, rd_port = None, rd_pds = []\<rparr>"

text \<open>The loop goes on after a match: the last device of the name is the one that is found.\<close>

fun find_device :: "string list \<Rightarrow> nat \<Rightarrow> string \<Rightarrow> nat option \<Rightarrow> nat option" where
  "find_device [] i dev_name found = found"
| "find_device (n # ns) i dev_name found = find_device ns (Suc i) dev_name (if n = dev_name then Some i else found)"

text \<open>The assignment to \<open>dev_context_\<close> closes the context that it held.\<close>

definition close_context :: "rdma_device \<Rightarrow> verbs_event list" where
  "close_context d = (case rd_context d of None \<Rightarrow> [] | Some context \<Rightarrow> [Close_device context])"

definition OpenDevice :: "verbs \<Rightarrow> string \<Rightarrow> rdma_device \<Rightarrow> verbs_event list \<Rightarrow> status \<times> rdma_device \<times> verbs_event list" where
  "OpenDevice vb dev_name d trace =
     (if vb_devices vb = [] then (ErrorStatus kUnavailable ''No available devices'', d, trace)
      else case find_device (vb_devices vb) 0 dev_name None of
        None \<Rightarrow> (ErrorStatus kNotFound (''Device not found: '' @ dev_name), d, trace)
      | Some i \<Rightarrow>
          if vb_open vb trace i then (OkStatus, d\<lparr>rd_context := Some i\<rparr>, trace @ Open_device i # close_context d)
          else (ErrorStatus kUnavailable (''Could not open device:'' @ dev_name), d\<lparr>rd_context := None\<rparr>,
                trace @ Open_failed i # close_context d))"

definition ResolvePort :: "verbs \<Rightarrow> int option \<Rightarrow> rdma_device \<Rightarrow> verbs_event list \<Rightarrow> (status \<times> rdma_device) outcome" where
  "ResolvePort vb port d trace =
     (case rd_context d of None \<Rightarrow> Fault Null_Deref
      | Some context \<Rightarrow>
          Ret (case FindActivePorts vb trace context of
            Inl e \<Rightarrow> (ErrorStatus kUnavailable (''No active ports:'' @ vb_devices vb ! context), d)
          | Inr ports \<Rightarrow>
              (case port of
                 Some p \<Rightarrow> if p \<in> set ports then (OkStatus, d\<lparr>rd_port := Some p\<rparr>)
                           else (ErrorStatus kUnavailable (''Port not active: '' @
                             (if p < 0 then ''-'' @ decimal (nat (- p)) else decimal (nat p))), d)
               | None \<Rightarrow> (OkStatus, d\<lparr>rd_port := Some (ports ! 0)\<rparr>))))"

text \<open>
  A device that is not returned is not deleted either: its context stays open. \<open>ROME_CHECK_OK\<close> evaluates
  a call that failed again for its message, when errors are logged (the level \<open>cfg\<close> of the library).
\<close>

definition Create ::
    "nat \<Rightarrow> verbs \<Rightarrow> string \<Rightarrow> int option \<Rightarrow> verbs_event list \<Rightarrow> (rdma_device option \<times> verbs_event list) outcome" where
  "Create cfg vb name port trace =
     (case OpenDevice vb name new_device trace of (s, d, trace1) \<Rightarrow>
        if \<not> status_ok s
        then Ret (None, if cfg \<le> ERROR then snd (snd (OpenDevice vb name d trace1)) else trace1)
        else bindO (ResolvePort vb port d trace1) (\<lambda>(s, d).
          if \<not> status_ok s
          then bindO (if cfg \<le> ERROR then ResolvePort vb port d trace1 else Ret (s, d)) (\<lambda>_. Ret (None, trace1))
          else Ret (Some d, trace1)))"

section \<open>Protection domains\<close>

definition CreateProtectionDomain ::
    "verbs \<Rightarrow> string \<Rightarrow> rdma_device \<Rightarrow> verbs_event list \<Rightarrow> (status \<times> rdma_device \<times> verbs_event list) outcome" where
  "CreateProtectionDomain vb ident d trace =
     (if map_of (rd_pds d) ident \<noteq> None
      then Ret (ErrorStatus kAlreadyExists (''PD already exists: {}'' @ ident), d, trace)
      else case rd_context d of None \<Rightarrow> Fault Null_Deref
        | Some context \<Rightarrow>
           Ret (case vb_alloc vb trace context of
             None \<Rightarrow> (ErrorStatus kUnknown (''Failed to allocated PD: {}'' @ ident), d, trace @ [Alloc_pd context None])
           | Some pd \<Rightarrow> (OkStatus, d\<lparr>rd_pds := rd_pds d @ [(ident, pd)]\<rparr>, trace @ [Alloc_pd context (Some pd)])))"

definition GetProtectionDomain :: "string \<Rightarrow> rdma_device \<Rightarrow> nat status_or" where
  "GetProtectionDomain ident d =
     (case map_of (rd_pds d) ident of
        None \<Rightarrow> Inl (ErrorStatus kNotFound (''PD not found: {}'' @ ident))
      | Some pd \<Rightarrow> Inr pd)"

text \<open>
  The destructor empties the map, each entry deallocating its domain (in an order that the model
  fixes and the code leaves open), and the members close the context after that.
\<close>

definition device_destroy :: "rdma_device \<Rightarrow> verbs_event list \<Rightarrow> verbs_event list" where
  "device_destroy d trace =
     trace @ map (\<lambda>(ident, pd). Dealloc_pd pd) (rd_pds d) @ close_context d"

section \<open>The address of a device\<close>

text \<open>\<open>Split\<close>: the tokens that end with the delimiter; what follows the last one is dropped.\<close>

fun split_from :: "char \<Rightarrow> string \<Rightarrow> string \<Rightarrow> string list" where
  "split_from delim token [] = []"
| "split_from delim token (c # cs) =
     (if c = delim then token # split_from delim [] cs else split_from delim (token @ [c]) cs)"

definition Split :: "string \<Rightarrow> char \<Rightarrow> string list" where
  "Split str delim = split_from delim [] str"

text \<open>
  The regular expression of \<open>ExtractIp\<close>: blanks, the word inet, blanks, four groups of one to three
  digits with dots between them, a rest without line ends, and one newline.
\<close>

text \<open>A greedy match of one to three digits: the digits and the rest.\<close>

definition match_octet :: "string \<Rightarrow> (string \<times> string) option" where
  "match_octet s =
     (let k = min 3 (length (takeWhile is_digit s)) in if k = 0 then None else Some (take k s, drop k s))"

text \<open>A group of digits and a dot, \<open>n\<close> times, and a last group.\<close>

fun match_ip :: "nat \<Rightarrow> string \<Rightarrow> (string \<times> string) option" where
  "match_ip 0 s = match_octet s"
| "match_ip (Suc n) s =
     Option.bind (match_octet s) (\<lambda>(o1, r).
       if r \<noteq> [] \<and> hd r = CHR ''.''
       then Option.bind (match_ip n (tl r)) (\<lambda>(ip, r'). Some (o1 @ ''.'' @ ip, r'))
       else None)"

definition match_rest :: "string \<Rightarrow> bool" where
  "match_rest s \<longleftrightarrow> s \<noteq> [] \<and> last s = CHR 0x0A \<and> (\<forall>c \<in> set (butlast s). c \<noteq> CHR 0x0A \<and> c \<noteq> CHR 0x0D)"

definition match_inet :: "string \<Rightarrow> string option" where
  "match_inet str =
     (let s = dropWhile is_blank str
      in if take 4 s \<noteq> ''inet'' then None
         else let t = drop 4 s
           in if t = [] \<or> \<not> is_blank (hd t) then None
              else case match_ip 3 (dropWhile is_blank t) of
                None \<Rightarrow> None
              | Some (ip, r) \<Rightarrow> if match_rest r then Some ip else None)"

definition ExtractIp :: "string \<Rightarrow> string status_or" where
  "ExtractIp str =
     (if str = [] then Inl (ErrorStatus kNotFound (''No IP address found for netdev: '' @ str))
      else case match_inet str of
        None \<Rightarrow> Inl (ErrorStatus kNotFound (''No IP address found for netdev: '' @ str))
      | Some ip \<Rightarrow> Inr ip)"

fun find_netdev :: "(string \<Rightarrow> string) \<Rightarrow> string \<Rightarrow> string list \<Rightarrow> string status_or outcome" where
  "find_netdev call ib_dev [] = Ret (Inl (ErrorStatus kNotFound (''Device address not found: '' @ ib_dev)))"
| "find_netdev call ib_dev (l # ls) =
     (let line = Split l CHR '' ''
      in if line = [] then Fault Undefined
         else if line ! 0 = ib_dev
           then if length line \<le> 4 then Fault Undefined
                else Ret (ExtractIp (call (''ip addr show dev '' @ line ! 4 @ '' | grep '' @ [CHR 0x27] @ ''inet '' @ [CHR 0x27])))
           else find_netdev call ib_dev ls)"

text \<open>\<open>Call\<close>, which runs a command and returns what it prints, is an argument.\<close>

definition ibdev2netip :: "(string \<Rightarrow> string) \<Rightarrow> string \<Rightarrow> string status_or outcome" where
  "ibdev2netip call ib_dev =
     (let result = call ''ibdev2netdev''
      in if result \<noteq> [] then find_netdev call ib_dev (Split result CHR 0x0A)
         else Ret (Inl (ErrorStatus kNotFound (''Device address not found: '' @ ib_dev))))"

end
