(* ===== verification/Rdma_Device_Props.thy ===== *)
theory Rdma_Device_Props
  imports Rdma_Device
begin

text \<open>
  What the operations of a device promise: when \<open>Create\<close> succeeds and with which port, that it agrees with
  the listing and the lookup, that the protection domains are a finite map whose domains are all
  released before the context, and that \<open>ibdev2netip\<close> finds the address of a device.
\<close>

section \<open>Finding and opening devices\<close>

lemma active_ports_filter: "active_ports active is ports = ports @ filter active is"
  by (induction active "is" ports rule: active_ports.induct) simp_all

lemma FindActivePorts_eq:
  "FindActivePorts vb trace i =
     (let ports = filter (vb_active vb trace i) [1..int (vb_port_cnt vb i)]
      in if ports = [] then Inl (ErrorStatus kUnavailable ''No active ports'') else Inr ports)"
  by (simp add: FindActivePorts_def active_ports_filter)

lemma find_device_snoc:
  "find_device (ns @ [n]) k name found = (if n = name then Some (k + length ns) else find_device ns k name found)"
  by (induction ns arbitrary: k found) auto

text \<open>The last device of the name.\<close>

definition last_named :: "string list \<Rightarrow> string \<Rightarrow> nat \<Rightarrow> bool" where
  "last_named ns name i \<longleftrightarrow> i < length ns \<and> ns ! i = name \<and> name \<notin> set (drop (Suc i) ns)"

lemma find_device_Some: "find_device ns 0 name None = Some i \<longleftrightarrow> last_named ns name i"
proof (induction ns rule: rev_induct)
  case (snoc n ns)
  then show ?case
    by (cases "i < length ns") (auto simp: find_device_snoc last_named_def nth_append drop_append)
qed (simp add: last_named_def)

lemma find_device_None: "find_device ns 0 name None = None \<longleftrightarrow> name \<notin> set ns"
  by (induction ns rule: rev_induct) (auto simp: find_device_snoc)

lemma last_named_distinct: "distinct ns \<Longrightarrow> last_named ns name i \<longleftrightarrow> i < length ns \<and> ns ! i = name"
  unfolding last_named_def by (auto simp: in_set_conv_nth nth_eq_iff_index_eq)

text \<open>The ports of a device that the library reports as active.\<close>

definition ports_of :: "verbs \<Rightarrow> verbs_event list \<Rightarrow> nat \<Rightarrow> int list" where
  "ports_of vb trace i = filter (vb_active vb trace i) [1..int (vb_port_cnt vb i)]"

lemma FindActivePorts_ports:
  "FindActivePorts vb trace i =
     (if ports_of vb trace i = [] then Inl (ErrorStatus kUnavailable ''No active ports'') else Inr (ports_of vb trace i))"
  by (simp add: FindActivePorts_eq ports_of_def Let_def)

text \<open>The port that \<open>ResolvePort\<close> chooses among the active ones.\<close>

definition chosen_port :: "int option \<Rightarrow> int list \<Rightarrow> int option" where
  "chosen_port port ports =
     (case port of None \<Rightarrow> (case ports of [] \<Rightarrow> None | p # ps \<Rightarrow> Some p)
      | Some p \<Rightarrow> if p \<in> set ports then Some p else None)"

lemma Create_eq:
  "Create cfg vb name port trace = Ret
     (case find_device (vb_devices vb) 0 name None of
        None \<Rightarrow> (None, trace)
      | Some i \<Rightarrow> if vb_open vb trace i
          then (map_option (\<lambda>p. \<lparr>rd_context = Some i, rd_port = Some p, rd_pds = []\<rparr>)
                  (chosen_port port (ports_of vb (trace @ [Open_device i]) i)), trace @ [Open_device i])
          else (None, trace @ Open_failed i # (if cfg \<le> ERROR then
                  [if vb_open vb (trace @ [Open_failed i]) i then Open_device i else Open_failed i] else [])))"
proof (cases "find_device (vb_devices vb) 0 name None")
  case None
  then show ?thesis by (auto simp: Create_def OpenDevice_def)
next
  case (Some i)
  then have "vb_devices vb \<noteq> []" by auto
  with Some show ?thesis
    by (auto simp: Create_def OpenDevice_def ResolvePort_def FindActivePorts_ports new_device_def chosen_port_def close_context_def
        split: option.splits list.splits)
qed

lemma scan_devices_stable:
  assumes "\<And>t. vb_open vb t = vb_open vb []" "\<And>t. vb_active vb t = vb_active vb []"
  shows "fst (scan_devices vb is trace active) = active @
    concat (map (\<lambda>i. if vb_open vb [] i then map (\<lambda>p. (vb_devices vb ! i, p)) (ports_of vb [] i) else []) is)"
proof (induction "is" arbitrary: trace active)
  case (Cons i "is")
  have p: "ports_of vb t i = ports_of vb [] i" for t by (simp add: ports_of_def assms(2) [of t])
  show ?case using Cons by (simp add: assms(1) [of trace] FindActivePorts_ports p [of "trace @ [Open_device i]"])
qed simp

lemma filter_upto_hd:
  "(\<exists>ps. filter P [1..n] = p # ps) \<longleftrightarrow> 1 \<le> p \<and> p \<le> n \<and> P p \<and> (\<forall>q. 1 \<le> q \<and> q < p \<longrightarrow> \<not> P q)" for p n :: int
proof
  assume "\<exists>ps. filter P [1..n] = p # ps"
  then obtain us vs where u: "[1..n] = us @ p # vs" "\<forall>u \<in> set us. \<not> P u" "P p"
    by (auto simp: filter_eq_Cons_iff)
  have s: "sorted (us @ p # vs)" using sorted_upto [of 1 n] unfolding u(1) .
  have m: "set (us @ p # vs) = {1..n}" unfolding u(1) [symmetric] by simp
  have "q \<in> set us" if "1 \<le> q" "q < p" for q
  proof -
    have "p \<in> {1..n}" unfolding m [symmetric] by simp
    then have "q \<in> set (us @ p # vs)" unfolding m using that by simp
    then show ?thesis using s that by (auto simp: sorted_append)
  qed
  with u m show "1 \<le> p \<and> p \<le> n \<and> P p \<and> (\<forall>q. 1 \<le> q \<and> q < p \<longrightarrow> \<not> P q)" by auto
next
  assume a: "1 \<le> p \<and> p \<le> n \<and> P p \<and> (\<forall>q. 1 \<le> q \<and> q < p \<longrightarrow> \<not> P q)"
  then have "[1..n] = [1..p - 1] @ p # [p + 1..n]" by (intro upto_split3) auto
  with a show "\<exists>ps. filter P [1..n] = p # ps" by (auto simp: filter_empty_conv)
qed

lemma chosen_port_ports:
  "chosen_port port (ports_of vb trace i) = Some p \<longleftrightarrow>
     1 \<le> p \<and> p \<le> int (vb_port_cnt vb i) \<and> vb_active vb trace i p \<and>
     (case port of Some q \<Rightarrow> p = q | None \<Rightarrow> \<forall>q. 1 \<le> q \<and> q < p \<longrightarrow> \<not> vb_active vb trace i q)"
proof (cases port)
  case None
  have "chosen_port port (ports_of vb trace i) = Some p \<longleftrightarrow> (\<exists>ps. ports_of vb trace i = p # ps)"
    using None by (auto simp: chosen_port_def split: list.splits)
  then show ?thesis using None by (simp add: ports_of_def filter_upto_hd)
qed (auto simp: chosen_port_def ports_of_def)

text \<open>
  \<open>Create\<close> never fails with a fault. It returns a device exactly when the last device of the name
  can be opened and the requested port, or for no request some port, is active; the device then has
  that port, or the smallest active one, and no protection domains.
\<close>

theorem device_create:
  "\<exists>r trace'. Create cfg vb name port trace = Ret (r, trace') \<and>
    (\<forall>d. r = Some d \<longleftrightarrow> (\<exists>i p. last_named (vb_devices vb) name i \<and> vb_open vb trace i \<and>
       d = \<lparr>rd_context = Some i, rd_port = Some p, rd_pds = []\<rparr> \<and> 1 \<le> p \<and> p \<le> int (vb_port_cnt vb i) \<and>
       vb_active vb (trace @ [Open_device i]) i p \<and>
       (case port of Some q \<Rightarrow> p = q | None \<Rightarrow> \<forall>q. 1 \<le> q \<and> q < p \<longrightarrow> \<not> vb_active vb (trace @ [Open_device i]) i q)))"
proof -
  obtain r trace' where r: "Create cfg vb name port trace = Ret (r, trace')" unfolding Create_eq by fastforce
  have "r = Some d \<longleftrightarrow> (\<exists>i p. find_device (vb_devices vb) 0 name None = Some i \<and> vb_open vb trace i \<and>
      d = \<lparr>rd_context = Some i, rd_port = Some p, rd_pds = []\<rparr> \<and>
      chosen_port port (ports_of vb (trace @ [Open_device i]) i) = Some p)" for d
    using r unfolding Create_eq by (auto split: option.splits if_splits)
  with r show ?thesis
    unfolding find_device_Some chosen_port_ports by blast
qed

theorem device_create_witness:
  "\<exists>r trace'. Create 0 \<lparr>vb_devices = [''mlx5_0'', ''mlx5_0''], vb_open = \<lambda>t i. True, vb_port_cnt = \<lambda>i. 2,
     vb_active = \<lambda>t i p. p = 2, vb_alloc = \<lambda>t i. None\<rparr> ''mlx5_0'' None [] = Ret (r, trace') \<and>
   r = Some \<lparr>rd_context = Some 1, rd_port = Some 2, rd_pds = []\<rparr>"
proof -
  let ?vb = "\<lparr>vb_devices = [''mlx5_0'', ''mlx5_0''], vb_open = \<lambda>t i. True, vb_port_cnt = \<lambda>i. 2,
     vb_active = \<lambda>t i p. p = 2, vb_alloc = \<lambda>t i. None\<rparr>"
  have l: "last_named (vb_devices ?vb) ''mlx5_0'' 1" by (simp add: last_named_def)
  obtain r trace' where r: "Create 0 ?vb ''mlx5_0'' None [] = Ret (r, trace')"
    "\<forall>d. r = Some d \<longleftrightarrow> (\<exists>i p. last_named (vb_devices ?vb) ''mlx5_0'' i \<and> vb_open ?vb [] i \<and>
       d = \<lparr>rd_context = Some i, rd_port = Some p, rd_pds = []\<rparr> \<and> 1 \<le> p \<and> p \<le> int (vb_port_cnt ?vb i) \<and>
       vb_active ?vb ([] @ [Open_device i]) i p \<and>
       (case None of Some q \<Rightarrow> p = q | None \<Rightarrow> \<forall>q. 1 \<le> q \<and> q < p \<longrightarrow> \<not> vb_active ?vb ([] @ [Open_device i]) i q))"
    using device_create [of 0 ?vb "''mlx5_0''" None "[]"] by blast
  have "r = Some \<lparr>rd_context = Some 1, rd_port = Some 2, rd_pds = []\<rparr>"
    by (rule r(2) [rule_format, THEN iffD2]) (use l in \<open>auto intro!: exI [of _ 1] exI [of _ 2]\<close>)
  with r(1) show ?thesis by blast
qed

text \<open>A library whose devices do not change: the calls made before have no influence on the answers.\<close>

definition stable_devices :: "verbs \<Rightarrow> bool" where
  "stable_devices vb \<longleftrightarrow> (\<forall>t. vb_open vb t = vb_open vb [] \<and> vb_active vb t = vb_active vb [])"

lemma Create_stable:
  assumes "stable_devices vb" "distinct (vb_devices vb)"
  shows "(\<exists>d t. Create cfg vb name port trace = Ret (Some d, t)) \<longleftrightarrow>
    (\<exists>i < length (vb_devices vb). vb_devices vb ! i = name \<and> vb_open vb [] i \<and>
      chosen_port port (ports_of vb [] i) \<noteq> None)"
proof -
  have s: "vb_open vb t = vb_open vb []" "vb_active vb t = vb_active vb []" for t
    using assms(1) unfolding stable_devices_def by blast+
  have "ports_of vb (trace @ [e]) i = ports_of vb [] i" for e i by (simp add: ports_of_def s(2) [of "trace @ [e]"])
  then have "(\<exists>d t. Create cfg vb name port trace = Ret (Some d, t)) \<longleftrightarrow>
    (\<exists>i. find_device (vb_devices vb) 0 name None = Some i \<and> vb_open vb [] i \<and>
      chosen_port port (ports_of vb [] i) \<noteq> None)"
    unfolding Create_eq s(1) [of trace] by (auto split: option.splits)
  then show ?thesis
    unfolding find_device_Some last_named_distinct [OF assms(2)] by blast
qed

lemma GetAvailableDevices_stable:
  assumes "stable_devices vb" "vb_devices vb \<noteq> []"
  shows "\<exists>active trace'. GetAvailableDevices vb trace = (Inr active, trace') \<and>
    (\<forall>name p. (name, p) \<in> set active \<longleftrightarrow> (\<exists>i < length (vb_devices vb).
      vb_devices vb ! i = name \<and> vb_open vb [] i \<and> p \<in> set (ports_of vb [] i)))"
proof -
  have s: "vb_open vb t = vb_open vb []" "vb_active vb t = vb_active vb []" for t
    using assms(1) unfolding stable_devices_def by blast+
  obtain active trace' where a: "scan_devices vb [0..<length (vb_devices vb)] trace [] = (active, trace')" by force
  have "active = concat (map (\<lambda>i. if vb_open vb [] i then map (\<lambda>p. (vb_devices vb ! i, p)) (ports_of vb [] i) else [])
      [0..<length (vb_devices vb)])"
    using scan_devices_stable [OF s, of "[0..<length (vb_devices vb)]" trace "[]"] unfolding a by simp
  then have "(name, p) \<in> set active \<longleftrightarrow> (\<exists>i < length (vb_devices vb).
      vb_devices vb ! i = name \<and> vb_open vb [] i \<and> p \<in> set (ports_of vb [] i))" for name p
    by (auto split: if_splits)
  then show ?thesis using a assms(2) by (simp add: GetAvailableDevices_def)
qed

text \<open>
  C31. While the devices of the machine do not change and have different names, the listing, the
  lookup and the construction agree: \<open>Create\<close> with a port returns a device exactly for the pairs that
  \<open>GetAvailableDevices\<close> lists, and \<open>Create\<close> without one exactly for the names that \<open>LookupDevice\<close> finds.
\<close>

theorem device_available:
  assumes "stable_devices vb" "distinct (vb_devices vb)" "vb_devices vb \<noteq> []"
  shows "\<exists>active trace'. GetAvailableDevices vb trace = (Inr active, trace') \<and>
    (\<forall>name p. (name, p) \<in> set active \<longleftrightarrow> (\<exists>d t. Create cfg vb name (Some p) trace2 = Ret (Some d, t))) \<and>
    (\<forall>name. status_ok (fst (LookupDevice vb name trace)) \<longleftrightarrow> (\<exists>d t. Create cfg vb name None trace2 = Ret (Some d, t)))"
proof -
  obtain active trace' where a: "GetAvailableDevices vb trace = (Inr active, trace')"
    "\<And>name p. (name, p) \<in> set active \<longleftrightarrow> (\<exists>i < length (vb_devices vb).
      vb_devices vb ! i = name \<and> vb_open vb [] i \<and> p \<in> set (ports_of vb [] i))"
    using GetAvailableDevices_stable [OF assms(1,3)] by blast
  have c: "chosen_port (Some p) ports \<noteq> None \<longleftrightarrow> p \<in> set ports" "chosen_port None ports \<noteq> None \<longleftrightarrow> (\<exists>p. p \<in> set ports)"
    for p ports by (auto simp: chosen_port_def split: list.splits)
  have "status_ok (fst (LookupDevice vb name trace)) \<longleftrightarrow> (\<exists>p. (name, p) \<in> set active)" for name
    unfolding LookupDevice_def a(1) by force
  then show ?thesis unfolding Create_stable [OF assms(1,2)] using a c by auto
qed

theorem device_available_witness:
  "let vb = \<lparr>vb_devices = [''mlx5_0'', ''mlx5_1''], vb_open = \<lambda>t i. True, vb_port_cnt = \<lambda>i. 2,
     vb_active = \<lambda>t i p. i = 0 \<and> p = 2, vb_alloc = \<lambda>t i. Some 0\<rparr>
   in GetAvailableDevices vb [] = (Inr [(''mlx5_0'', 2)], [Open_device 0, Open_device 1]) \<and>
     (\<exists>d t. Create 0 vb ''mlx5_0'' (Some 2) [] = Ret (Some d, t))"
proof -
  define vb where "vb = \<lparr>vb_devices = [''mlx5_0'', ''mlx5_1''], vb_open = \<lambda>t i. True, vb_port_cnt = \<lambda>i. 2,
     vb_active = \<lambda>t i p. i = 0 \<and> p = 2, vb_alloc = \<lambda>t i. Some 0\<rparr>"
  have g: "GetAvailableDevices vb [] = (Inr [(''mlx5_0'', 2)], [Open_device 0, Open_device 1])"
    unfolding vb_def by code_simp
  have "stable_devices vb" "distinct (vb_devices vb)" "vb_devices vb \<noteq> []"
    by (simp_all add: vb_def stable_devices_def)
  from device_available [OF this, of "[]" 0 "[]"] g
  have "\<exists>d t. Create 0 vb ''mlx5_0'' (Some 2) [] = Ret (Some d, t)" by auto
  with g show ?thesis by (simp add: vb_def [symmetric])
qed

section \<open>Opening twice\<close>

text \<open>
  A device that could not be opened is opened again for the message, with errors being logged: when the
  second attempt succeeds \<open>Create\<close> returns nothing and the context stays open.
\<close>

lemma create_opens_again:
  assumes "last_named (vb_devices vb) name i" "cfg \<le> ERROR" "\<not> vb_open vb trace i" "vb_open vb (trace @ [Open_failed i]) i"
  shows "Create cfg vb name port trace = Ret (None, trace @ [Open_failed i, Open_device i])"
  using assms by (simp add: Create_eq find_device_Some [symmetric])

lemma create_opens_once:
  assumes "last_named (vb_devices vb) name i" "ERROR < cfg" "\<not> vb_open vb trace i"
  shows "Create cfg vb name port trace = Ret (None, trace @ [Open_failed i])"
  using assms by (simp add: Create_eq find_device_Some [symmetric])

section \<open>Protection domains\<close>

datatype pd_op = Create_pd string | Get_pd string

text \<open>One call: its status, and the domain that it hands out.\<close>

fun run_pd_op :: "verbs \<Rightarrow> pd_op \<Rightarrow> rdma_device \<Rightarrow> verbs_event list \<Rightarrow>
    ((status \<times> nat option) \<times> rdma_device \<times> verbs_event list) outcome" where
  "run_pd_op vb (Create_pd ident) d trace =
     bindO (CreateProtectionDomain vb ident d trace) (\<lambda>(s, d', trace'). Ret ((s, None), d', trace'))"
| "run_pd_op vb (Get_pd ident) d trace =
     Ret ((case GetProtectionDomain ident d of Inl e \<Rightarrow> (e, None) | Inr pd \<Rightarrow> (OkStatus, Some pd)), d, trace)"

fun run_pd_ops :: "verbs \<Rightarrow> pd_op list \<Rightarrow> rdma_device \<Rightarrow> verbs_event list \<Rightarrow>
    ((status \<times> nat option) list \<times> rdma_device \<times> verbs_event list) outcome" where
  "run_pd_ops vb [] d trace = Ret ([], d, trace)"
| "run_pd_ops vb (x # xs) d trace =
     bindO (run_pd_op vb x d trace) (\<lambda>(r, d', trace').
     bindO (run_pd_ops vb xs d' trace') (\<lambda>(rs, d'', trace''). Ret (r # rs, d'', trace'')))"

text \<open>
  The abstract device: a finite map from names to domains, and the answers to the allocations so far in
  order. A name is created once; a refused call changes nothing.
\<close>

definition allocated :: "nat option list \<Rightarrow> nat list" where
  "allocated as = map the (filter (\<lambda>a. a \<noteq> None) as)"

fun spec_pd_op :: "verbs \<Rightarrow> nat \<Rightarrow> verbs_event list \<Rightarrow> pd_op \<Rightarrow> (string \<rightharpoonup> nat) \<times> nat option list \<Rightarrow>
    (status \<times> nat option) \<times> (string \<rightharpoonup> nat) \<times> nat option list" where
  "spec_pd_op vb c trace (Create_pd ident) (m, as) =
     (if ident \<in> dom m then ((ErrorStatus kAlreadyExists (''PD already exists: {}'' @ ident), None), m, as)
      else case vb_alloc vb (trace @ map (Alloc_pd c) as) c of
             None \<Rightarrow> ((ErrorStatus kUnknown (''Failed to allocated PD: {}'' @ ident), None), m, as @ [None])
           | Some pd \<Rightarrow> ((OkStatus, None), m(ident \<mapsto> pd), as @ [Some pd]))"
| "spec_pd_op vb c trace (Get_pd ident) (m, as) =
     ((case m ident of None \<Rightarrow> (ErrorStatus kNotFound (''PD not found: {}'' @ ident), None)
       | Some pd \<Rightarrow> (OkStatus, Some pd)), m, as)"

fun spec_pd_ops :: "verbs \<Rightarrow> nat \<Rightarrow> verbs_event list \<Rightarrow> pd_op list \<Rightarrow> (string \<rightharpoonup> nat) \<times> nat option list \<Rightarrow>
    (status \<times> nat option) list \<times> (string \<rightharpoonup> nat) \<times> nat option list" where
  "spec_pd_ops vb c trace [] st = ([], st)"
| "spec_pd_ops vb c trace (x # xs) st =
     (case spec_pd_op vb c trace x st of (r, st1) \<Rightarrow>
       (case spec_pd_ops vb c trace xs st1 of (rs, st2) \<Rightarrow> (r # rs, st2)))"

definition pd_abs :: "nat \<Rightarrow> verbs_event list \<Rightarrow> rdma_device \<Rightarrow> verbs_event list \<Rightarrow> (string \<rightharpoonup> nat) \<times> nat option list \<Rightarrow> bool" where
  "pd_abs c trace d trace' st \<longleftrightarrow> rd_context d = Some c \<and> fst st = map_of (rd_pds d) \<and>
     allocated (snd st) = map snd (rd_pds d) \<and> trace' = trace @ map (Alloc_pd c) (snd st) \<and> distinct (map fst (rd_pds d))"

lemma map_of_snoc: "map_of xs k = None \<Longrightarrow> map_of (xs @ [(k, v)]) = (map_of xs)(k \<mapsto> v)"
  by (auto simp: fun_eq_iff map_add_def split: option.splits)

lemma run_pd_op_refines:
  assumes "pd_abs c trace d trace1 st"
  shows "\<exists>d' trace2. run_pd_op vb x d trace1 = Ret (fst (spec_pd_op vb c trace x st), d', trace2) \<and>
    pd_abs c trace d' trace2 (snd (spec_pd_op vb c trace x st))"
proof (cases x)
  case (Create_pd ident)
  obtain as where st: "st = (map_of (rd_pds d), as)" using assms by (cases st) (simp add: pd_abs_def)
  show ?thesis
  proof (cases "map_of (rd_pds d) ident")
    case (Some pd)
    then show ?thesis using assms Create_pd by (auto simp: st CreateProtectionDomain_def dom_def)
  next
    case None
    then have "ident \<notin> fst ` set (rd_pds d)" by (simp add: map_of_eq_None_iff)
    then show ?thesis using assms Create_pd None
      by (auto simp: st pd_abs_def CreateProtectionDomain_def dom_def map_of_snoc [OF None] allocated_def simp del: map_of_append
          split: option.splits)
  qed
next
  case (Get_pd ident)
  then show ?thesis using assms
    by (cases st) (auto simp: pd_abs_def GetProtectionDomain_def split: option.splits)
qed

lemma run_pd_ops_refines:
  assumes "pd_abs c trace d trace1 st"
  shows "\<exists>d' trace2. run_pd_ops vb xs d trace1 = Ret (fst (spec_pd_ops vb c trace xs st), d', trace2) \<and>
    pd_abs c trace d' trace2 (snd (spec_pd_ops vb c trace xs st))"
  using assms
proof (induction xs arbitrary: d trace1 st)
  case (Cons x xs)
  obtain d1 t1 where 1: "run_pd_op vb x d trace1 = Ret (fst (spec_pd_op vb c trace x st), d1, t1)"
    "pd_abs c trace d1 t1 (snd (spec_pd_op vb c trace x st))"
    using run_pd_op_refines [OF Cons(2)] by blast
  from Cons(1) [OF 1(2)] show ?case by (auto simp: 1(1) split: prod.splits)
qed simp

text \<open>
  C29. The protection domains of a new device: any sequence of calls answers as the finite map does,
  no call ends in a fault, and the destructor deallocates every domain that was allocated exactly
  once, before it closes the context.
\<close>

theorem device_domains:
  assumes "Create cfg vb name port trace0 = Ret (Some d, trace)"
  shows "\<exists>c d' trace'. run_pd_ops vb xs d trace =
      Ret (fst (spec_pd_ops vb c trace xs (Map.empty, [])), d', trace') \<and>
    (let as = snd (snd (spec_pd_ops vb c trace xs (Map.empty, [])))
     in device_destroy d' trace' =
        trace0 @ [Open_device c] @ map (Alloc_pd c) as @ map Dealloc_pd (allocated as) @ [Close_device c])"
proof -
  obtain c where c: "rd_context d = Some c" "rd_pds d = []" "trace = trace0 @ [Open_device c]"
    using assms unfolding Create_eq by (auto split: option.splits if_splits)
  then have "pd_abs c trace d trace (Map.empty, [])" by (simp add: pd_abs_def allocated_def)
  from run_pd_ops_refines [OF this, of vb xs] obtain d' trace' where
    r: "run_pd_ops vb xs d trace = Ret (fst (spec_pd_ops vb c trace xs (Map.empty, [])), d', trace')"
    "pd_abs c trace d' trace' (snd (spec_pd_ops vb c trace xs (Map.empty, [])))" by blast
  have "map (\<lambda>(ident, pd). Dealloc_pd pd) (rd_pds d') = map Dealloc_pd (map snd (rd_pds d'))"
    by (simp add: case_prod_beta comp_def)
  with r(2) have "device_destroy d' trace' = (let as = snd (snd (spec_pd_ops vb c trace xs (Map.empty, [])))
     in trace0 @ [Open_device c] @ map (Alloc_pd c) as @ map Dealloc_pd (allocated as) @ [Close_device c])"
    by (simp add: pd_abs_def device_destroy_def close_context_def c(3) Let_def)
  with r(1) show ?thesis by (auto simp: Let_def)
qed

theorem device_domains_witness:
  "let vb = \<lparr>vb_devices = [''mlx5_0''], vb_open = \<lambda>t i. True, vb_port_cnt = \<lambda>i. 1,
     vb_active = \<lambda>t i p. True, vb_alloc = \<lambda>t i. Some (length t)\<rparr>;
     xs = [Create_pd ''a'', Get_pd ''a'', Create_pd ''a'', Get_pd ''b'']
   in \<exists>d trace. Create 0 vb ''mlx5_0'' None [] = Ret (Some d, trace) \<and> (\<exists>c d' trace'. run_pd_ops vb xs d trace =
      Ret (fst (spec_pd_ops vb c trace xs (Map.empty, [])), d', trace'))"
proof -
  define vb where "vb = \<lparr>vb_devices = [''mlx5_0''], vb_open = \<lambda>t i. True, vb_port_cnt = \<lambda>i. 1,
     vb_active = \<lambda>t i p. True, vb_alloc = \<lambda>t i. Some (length t)\<rparr>"
  have "Create 0 vb ''mlx5_0'' None [] =
    Ret (Some \<lparr>rd_context = Some 0, rd_port = Some 1, rd_pds = []\<rparr>, [Open_device 0])"
    unfolding vb_def by code_simp
  from this device_domains [OF this] show ?thesis unfolding vb_def [symmetric] Let_def by blast
qed

section \<open>The address of a device\<close>

lemma split_from_token:
  "delim \<notin> set s \<Longrightarrow> split_from delim t (s @ delim # rest) = (t @ s) # split_from delim [] rest"
  by (induction s arbitrary: t) auto

lemma Split_token: "delim \<notin> set s \<Longrightarrow> Split (s @ delim # rest) delim = s # Split rest delim"
  by (simp add: Split_def split_from_token)

lemma Split_rest: "delim \<notin> set s \<Longrightarrow> Split s delim = []"
proof -
  assume "delim \<notin> set s"
  then have "split_from delim t s = []" for t by (induction s arbitrary: t) auto
  then show ?thesis by (simp add: Split_def)
qed

text \<open>What \<open>ibdev2netdev\<close> prints: one line for each device and port, with the state of the port last.\<close>

record netdev_entry =
  ne_dev :: string
  ne_port :: string
  ne_net :: string
  ne_state :: string

definition netdev_line :: "netdev_entry \<Rightarrow> string" where
  "netdev_line e = ne_dev e @ '' port '' @ ne_port e @ '' ==> '' @ ne_net e @ CHR '' '' # ne_state e"

definition print_netdevs :: "netdev_entry list \<Rightarrow> string" where
  "print_netdevs es = concat (map (\<lambda>e. netdev_line e @ [CHR 0x0A]) es)"

text \<open>Words: no blank and no end of line within them.\<close>

definition netdev_ok :: "netdev_entry \<Rightarrow> bool" where
  "netdev_ok e \<longleftrightarrow> (\<forall>s \<in> {ne_dev e, ne_port e, ne_net e, ne_state e}. CHR '' '' \<notin> set s \<and> CHR 0x0A \<notin> set s)"

lemma Split_line:
  assumes "netdev_ok e"
  shows "Split (netdev_line e) CHR '' '' = [ne_dev e, ''port'', ne_port e, ''==>'', ne_net e]"
proof -
  have "netdev_line e = ne_dev e @ CHR '' '' # ''port'' @ CHR '' '' # ne_port e @ CHR '' '' # ''==>'' @
    CHR '' '' # ne_net e @ CHR '' '' # ne_state e" by (simp add: netdev_line_def)
  then show ?thesis using assms by (simp add: Split_token Split_rest netdev_ok_def
        Split_token [of "CHR '' ''" "''port''", simplified] Split_token [of "CHR '' ''" "''==>''", simplified])
qed

lemma Split_netdevs:
  assumes "\<forall>e \<in> set es. netdev_ok e"
  shows "Split (print_netdevs es) CHR 0x0A = map netdev_line es"
  using assms
proof (induction es)
  case Nil
  then show ?case by (simp add: print_netdevs_def Split_rest)
next
  case (Cons e es)
  have "CHR 0x0A \<notin> set (netdev_line e)" using Cons by (auto simp: netdev_line_def netdev_ok_def)
  then show ?case using Cons by (simp add: print_netdevs_def Split_token)
qed

definition ip_command :: "string \<Rightarrow> string" where
  "ip_command net = ''ip addr show dev '' @ net @ '' | grep '' @ [CHR 0x27] @ ''inet '' @ [CHR 0x27]"

lemma find_netdev_lines:
  assumes "\<forall>e \<in> set es. netdev_ok e"
  shows "find_netdev call ib_dev (map netdev_line es) = Ret
    (case map_of (map (\<lambda>e. (ne_dev e, ne_net e)) es) ib_dev of
       None \<Rightarrow> Inl (ErrorStatus kNotFound (''Device address not found: '' @ ib_dev))
     | Some net \<Rightarrow> ExtractIp (call (ip_command net)))"
  using assms by (induction es) (simp_all add: Split_line Let_def ip_command_def)

text \<open>One address in the output of the second command.\<close>

definition octet :: "string \<Rightarrow> bool" where
  "octet s \<longleftrightarrow> s \<noteq> [] \<and> length s \<le> 3 \<and> (\<forall>c \<in> set s. is_digit c)"

lemma match_octet_ok:
  assumes "octet s" "r = [] \<or> \<not> is_digit (hd r)"
  shows "match_octet (s @ r) = Some (s, r)"
proof -
  have "takeWhile is_digit r = []" using assms(2) by (cases r) auto
  then have "takeWhile is_digit (s @ r) = s"
    using assms(1) by (subst takeWhile_append2) (auto simp: octet_def)
  then show ?thesis using assms(1) by (simp add: match_octet_def octet_def)
qed

definition ip_string :: "string list \<Rightarrow> string" where
  "ip_string os = concat (map (\<lambda>s. s @ ''.'') (butlast os)) @ last os"

lemma match_ip_ok:
  assumes "length os = Suc n" "\<forall>s \<in> set os. octet s" "r = [] \<or> \<not> is_digit (hd r)"
  shows "match_ip n (ip_string os @ r) = Some (ip_string os, r)"
  using assms
proof (induction n arbitrary: os)
  case 0
  then show ?case by (cases os) (simp_all add: ip_string_def match_octet_ok)
next
  case (Suc n)
  then obtain s os' where os: "os = s # os'" "length os' = Suc n" by (cases os) auto
  then have ne: "os' \<noteq> []" by auto
  have i: "ip_string os = s @ ''.'' @ ip_string os'" using ne by (simp add: ip_string_def os(1))
  have "match_octet (s @ ''.'' @ ip_string os' @ r) = Some (s, ''.'' @ ip_string os' @ r)"
    by (rule match_octet_ok) (use Suc(3) in \<open>simp_all add: os(1) is_digit_def\<close>)
  then show ?case unfolding i using Suc by (simp add: os)
qed

lemma dropWhile_blanks: "\<forall>c \<in> set b. is_blank c \<Longrightarrow> s \<noteq> [] \<Longrightarrow> \<not> is_blank (hd s) \<Longrightarrow> dropWhile is_blank (b @ s) = s"
  by (cases s) (simp_all add: dropWhile_append1 dropWhile_append2)

lemma match_inet_ok:
  assumes "\<forall>c \<in> set pre. is_blank c" "\<forall>c \<in> set gap. is_blank c" "gap \<noteq> []" "length os = 4"
    "\<forall>s \<in> set os. octet s" "\<not> is_digit (hd (r @ [CHR 0x0A]))" "\<forall>c \<in> set r. c \<noteq> CHR 0x0A \<and> c \<noteq> CHR 0x0D"
  shows "match_inet (pre @ ''inet'' @ gap @ ip_string os @ r @ [CHR 0x0A]) = Some (ip_string os)"
proof -
  let ?ip = "ip_string os @ r @ [CHR 0x0A]"
  have 1: "dropWhile is_blank (pre @ ''inet'' @ gap @ ?ip) = ''inet'' @ gap @ ?ip"
    by (rule dropWhile_blanks [OF assms(1)]) (simp_all add: is_blank_def)
  obtain s os' where so: "os = s # os'" "length os' = 3" using assms(4) by (cases os) auto
  then obtain c cs where "s = c # cs" "is_digit c" using assms(5) by (cases s) (auto simp: octet_def)
  with so have os: "os = (c # cs) # os'" "is_digit c" "os' \<noteq> []" by auto
  have ip: "ip_string os = c # (cs @ ''.'' @ ip_string os')" using os by (simp add: ip_string_def)
  have "\<not> is_blank c" using os(2) unfolding is_digit_def is_blank_def by auto
  then have 2: "dropWhile is_blank (gap @ ?ip) = ?ip" by (intro dropWhile_blanks) (simp_all add: assms ip)
  have 3: "match_ip 3 ?ip = Some (ip_string os, r @ [CHR 0x0A])"
    by (rule match_ip_ok) (use assms in auto)
  have 4: "match_rest (r @ [CHR 0x0A])" using assms(7) by (simp add: match_rest_def)
  have 5: "is_blank (hd (gap @ ?ip))" using assms(2,3) by (cases gap) simp_all
  show ?thesis unfolding match_inet_def Let_def 1 using assms(3) 2 3 4 5 by simp
qed

text \<open>
  C38. \<open>ibdev2netip\<close> finds the address of a device: when the table of devices has well-formed lines, the
  first line of the device names its network device, and the second command prints one line with an
  address of it, the answer is exactly that address; a device that is not in the table is not found.
\<close>

theorem device_address:
  assumes "call ''ibdev2netdev'' = print_netdevs es" "\<forall>e \<in> set es. netdev_ok e"
    "map_of (map (\<lambda>e. (ne_dev e, ne_net e)) es) ib_dev = Some net"
    "call (ip_command net) = pre @ ''inet'' @ gap @ ip_string os @ r @ [CHR 0x0A]"
    "\<forall>c \<in> set pre. is_blank c" "\<forall>c \<in> set gap. is_blank c" "gap \<noteq> []" "length os = 4" "\<forall>s \<in> set os. octet s"
    "\<not> is_digit (hd (r @ [CHR 0x0A]))" "\<forall>c \<in> set r. c \<noteq> CHR 0x0A \<and> c \<noteq> CHR 0x0D"
  shows "ibdev2netip call ib_dev = Ret (Inr (ip_string os)) \<and>
    (\<forall>dev. dev \<notin> ne_dev ` set es \<longrightarrow>
       ibdev2netip call dev = Ret (Inl (ErrorStatus kNotFound (''Device address not found: '' @ dev))))"
proof -
  have "es \<noteq> []" using assms(3) by auto
  then have ne: "print_netdevs es \<noteq> []" by (cases es) (simp_all add: print_netdevs_def)
  have F: "ibdev2netip call dev = find_netdev call dev (map netdev_line es)" for dev
    using ne by (simp add: ibdev2netip_def assms(1) Split_netdevs [OF assms(2)])
  have "ExtractIp (call (ip_command net)) = Inr (ip_string os)"
    unfolding ExtractIp_def assms(4) match_inet_ok [OF assms(5-11)] by simp
  moreover have "map_of (map (\<lambda>e. (ne_dev e, ne_net e)) es) dev = None" if "dev \<notin> ne_dev ` set es" for dev
    using that by (force simp: map_of_eq_None_iff)
  ultimately show ?thesis unfolding F find_netdev_lines [OF assms(2)] using assms(3) by simp
qed

theorem device_address_witness:
  "\<exists>call. call ''ibdev2netdev'' = ''mlx5_0 port 1 ==> ibp153s0 (Up)'' @ [CHR 0x0A] \<and>
    ibdev2netip call ''mlx5_0'' = Ret (Inr ''10.0.12.7'')"
proof -
  let ?es = "[\<lparr>ne_dev = ''mlx5_0'', ne_port = ''1'', ne_net = ''ibp153s0'', ne_state = ''(Up)''\<rparr>]"
  let ?os = "[''10'', ''0'', ''12'', ''7'']"
  let ?call = "\<lambda>c. if c = ''ibdev2netdev'' then print_netdevs ?es
    else ''    '' @ ''inet'' @ '' '' @ ip_string ?os @ ''/24 brd 10.0.12.255'' @ [CHR 0x0A]"
  have "ibdev2netip ?call ''mlx5_0'' = Ret (Inr (ip_string ?os)) \<and>
    (\<forall>dev. dev \<notin> ne_dev ` set ?es \<longrightarrow>
       ibdev2netip ?call dev = Ret (Inl (ErrorStatus kNotFound (''Device address not found: '' @ dev))))"
    by (rule device_address [where net = "''ibp153s0''" and pre = "''    ''" and gap = "'' ''" and
          r = "''/24 brd 10.0.12.255''"])
      (simp_all add: netdev_ok_def ip_command_def is_blank_def octet_def is_digit_def)
  moreover have "print_netdevs ?es = ''mlx5_0 port 1 ==> ibp153s0 (Up)'' @ [CHR 0x0A]" by code_simp
  moreover have "ip_string ?os = ''10.0.12.7''" by code_simp
  ultimately show ?thesis by (intro exI [of _ ?call]) simp
qed

text \<open>An empty line in the table, and a device with two addresses.\<close>

lemma empty_line_undefined: "find_netdev call ib_dev ([] # ls) = Fault Undefined"
  by (simp add: Split_def)

lemma two_addresses_not_found:
  "match_inet (''inet 10.0.0.1/24'' @ [CHR 0x0A] @ ''inet 10.0.0.2/24'' @ [CHR 0x0A]) = None"
  by code_simp

end
