(* ===== verification/Thread_Pool.thy ===== *)
theory Thread_Pool
  imports Rome_Prelude "HOL-Library.Multiset"
begin

text \<open>
  \<open>ThreadPool\<close> of \<open>rome/util/thread_pool.h\<close> and \<open>thread_pool.cc\<close>: a queue of tasks and worker threads
  that take from it. Each worker has a program counter; the section under the lock is one step. The
  state also records the tasks accepted, started and finished, in their order.
\<close>

section \<open>The pool\<close>

definition kInitialBackoff :: int where "kInitialBackoff = 100"
definition kMaxBackoff :: int where "kMaxBackoff = 10000000"

datatype 't worker =
    Checking int   \<comment> \<open>before the test of \<open>stopped_\<close>, with its backoff\<close>
  | Taking int     \<comment> \<open>before the locked section\<close>
  | Sleeping int
  | Running 't
  | Exited

record 't thread_pool =
  tp_drain :: bool
  tp_stopped :: bool
  tp_tasks :: "'t list"
  tp_workers :: "'t worker list"
  tp_accepted :: "'t list"
  tp_started :: "'t list"
  tp_finished :: "'t list"

text \<open>\<open>hardware\<close> is \<open>std::thread::hardware_concurrency()\<close>.\<close>

definition ThreadPool :: "nat \<Rightarrow> 't thread_pool" where
  "ThreadPool hardware = \<lparr>tp_drain = False, tp_stopped = False, tp_tasks = [],
     tp_workers = replicate hardware (Checking kInitialBackoff), tp_accepted = [], tp_started = [], tp_finished = []\<rparr>"

definition Enqueue :: "'t \<Rightarrow> 't thread_pool \<Rightarrow> status \<times> 't thread_pool" where
  "Enqueue task p =
     (if tp_drain p then (ErrorStatus kUnavailable ''Thread pool is draining'', p)
      else (OkStatus, p\<lparr>tp_tasks := tp_tasks p @ [task], tp_accepted := tp_accepted p @ [task]\<rparr>))"

definition tp_Stop :: "'t thread_pool \<Rightarrow> 't thread_pool" where
  "tp_Stop p = (if \<not> tp_stopped p then p\<lparr>tp_stopped := True\<rparr> else p)"

text \<open>\<open>Drain\<close> spins while there are tasks: one pass of its loop, with the result when it ends.\<close>

definition tp_Drain :: "'t thread_pool \<Rightarrow> 't thread_pool option" where
  "tp_Drain p = (if tp_tasks p \<noteq> [] then None else Some (tp_Stop p))"

text \<open>One step of the worker \<open>i\<close> in \<open>RunThread\<close>.\<close>

definition RunThread :: "nat \<Rightarrow> 't thread_pool \<Rightarrow> 't thread_pool" where
  "RunThread i p =
     (case tp_workers p ! i of
        Checking b \<Rightarrow> p\<lparr>tp_workers := (tp_workers p)[i := if tp_stopped p then Exited else Taking b]\<rparr>
      | Taking b \<Rightarrow>
          (case tp_tasks p of
             [] \<Rightarrow> p\<lparr>tp_workers := (tp_workers p)[i := Sleeping b]\<rparr>
           | task # tasks \<Rightarrow> p\<lparr>tp_tasks := tasks, tp_workers := (tp_workers p)[i := Running task],
                             tp_started := tp_started p @ [task]\<rparr>)
      | Sleeping b \<Rightarrow> p\<lparr>tp_workers := (tp_workers p)[i := Checking (min (b * 2) kMaxBackoff)]\<rparr>
      | Running task \<Rightarrow> p\<lparr>tp_workers := (tp_workers p)[i := Checking kInitialBackoff], tp_finished := tp_finished p @ [task]\<rparr>
      | Exited \<Rightarrow> p)"

inductive tp_step :: "'t thread_pool \<Rightarrow> 't thread_pool \<Rightarrow> bool" where
  work: "i < length (tp_workers p) \<Longrightarrow> tp_step p (RunThread i p)"
| enqueue: "tp_step p (snd (Enqueue task p))"
| stop: "tp_step p (tp_Stop p)"
| drain: "tp_Drain p = Some p' \<Longrightarrow> tp_step p p'"

section \<open>Every task once, in order\<close>

fun running_task :: "'t worker \<Rightarrow> 't multiset" where
  "running_task (Running t) = {#t#}"
| "running_task _ = {#}"

fun backoff_ok :: "'t worker \<Rightarrow> bool" where
  "backoff_ok (Checking b) = (kInitialBackoff \<le> b \<and> b \<le> kMaxBackoff)"
| "backoff_ok (Taking b) = (kInitialBackoff \<le> b \<and> b \<le> kMaxBackoff)"
| "backoff_ok (Sleeping b) = (kInitialBackoff \<le> b \<and> b \<le> kMaxBackoff)"
| "backoff_ok _ = True"

definition running_tasks :: "'t thread_pool \<Rightarrow> 't multiset" where
  "running_tasks p = (\<Sum>w \<leftarrow> tp_workers p. running_task w)"

definition tp_inv :: "'t thread_pool \<Rightarrow> bool" where
  "tp_inv p \<longleftrightarrow> \<not> tp_drain p \<and> tp_accepted p = tp_started p @ tp_tasks p \<and>
     mset (tp_started p) = mset (tp_finished p) + running_tasks p \<and> (\<forall>w \<in> set (tp_workers p). backoff_ok w)"

lemma sum_update:
  fixes f :: "'a \<Rightarrow> 'b multiset"
  assumes "i < length ws"
  shows "(\<Sum>w \<leftarrow> ws[i := v]. f w) + f (ws ! i) = (\<Sum>w \<leftarrow> ws. f w) + f v"
proof -
  have "map f ws = map f (take i ws) @ f (ws ! i) # map f (drop (Suc i) ws)"
    by (subst id_take_nth_drop [OF assms]) simp
  then show ?thesis using assms by (simp add: upd_conv_take_nth_drop ac_simps)
qed

lemma tp_inv_work:
  assumes "tp_inv p" "i < length (tp_workers p)"
  shows "tp_inv (RunThread i p)"
proof -
  have bo: "backoff_ok (tp_workers p ! i)" using assms by (simp add: tp_inv_def)
  have bs: "\<forall>w \<in> set ((tp_workers p)[i := v]). backoff_ok w" if "backoff_ok v" for v
    using assms that by (auto simp: tp_inv_def dest!: set_update_subset_insert [THEN subsetD])
  note su = sum_update [OF assms(2), of running_task, folded running_tasks_def]
  have lim: "kInitialBackoff \<le> kMaxBackoff" "0 < kInitialBackoff" by (simp_all add: kInitialBackoff_def kMaxBackoff_def)
  show ?thesis
  proof (cases "tp_workers p ! i")
    case (Checking b)
    then show ?thesis using assms(1) bo bs [of "Taking b"] bs [of Exited] su
      by (auto simp: RunThread_def tp_inv_def running_tasks_def)
  next
    case (Taking b)
    then show ?thesis using assms(1) bo bs [of "Sleeping b"] bs [of "Running t" for t] su
      by (auto simp: RunThread_def tp_inv_def running_tasks_def split: list.splits)
  next
    case (Sleeping b)
    then show ?thesis using assms(1) bo bs [of "Checking (min (b * 2) kMaxBackoff)"] su lim
      by (auto simp: RunThread_def tp_inv_def running_tasks_def)
  next
    case (Running t)
    then show ?thesis using assms(1) bs [of "Checking kInitialBackoff"] su [of "Checking kInitialBackoff"] lim
      by (auto simp: RunThread_def tp_inv_def running_tasks_def)
  next
    case Exited
    then show ?thesis using assms(1) by (simp add: RunThread_def)
  qed
qed

lemma tp_inv_step: "tp_step p p' \<Longrightarrow> tp_inv p \<Longrightarrow> tp_inv p'"
proof (induction rule: tp_step.induct)
  case (work i p)
  then show ?case by (blast intro: tp_inv_work)
qed (auto simp: Enqueue_def tp_Stop_def tp_Drain_def tp_inv_def running_tasks_def split: if_splits)

lemma tp_inv_reachable: "tp_step\<^sup>*\<^sup>* (ThreadPool n) p \<Longrightarrow> tp_inv p"
proof (induction rule: rtranclp_induct)
  case base
  have "(\<Sum>w \<leftarrow> replicate n (Checking kInitialBackoff). running_task w) = {#}" by (induction n) simp_all
  then show ?case by (auto simp: tp_inv_def ThreadPool_def running_tasks_def kInitialBackoff_def kMaxBackoff_def)
next
  case (step p p')
  then show ?case by (blast intro: tp_inv_step)
qed

lemma running_tasks_exited: "set (tp_workers p) \<subseteq> {Exited} \<Longrightarrow> running_tasks p = {#}"
proof -
  assume "set (tp_workers p) \<subseteq> {Exited}"
  then have "\<forall>w \<in> set (tp_workers p). running_task w = {#}" by auto
  then show ?thesis unfolding running_tasks_def by (induction "tp_workers p") (auto simp: sum_list_0 cong: map_cong)
qed

text \<open>
  C22. However the workers and the callers interleave, the tasks are started in the order in which they
  were accepted, each once, and run once; when the queue is empty and all workers have left, every
  accepted task is finished. The sleep of a worker stays between its limits.
\<close>

theorem thread_pool_runs_once:
  assumes "tp_step\<^sup>*\<^sup>* (ThreadPool n) p"
  shows "tp_accepted p = tp_started p @ tp_tasks p \<and>
    mset (tp_started p) = mset (tp_finished p) + running_tasks p \<and>
    (tp_tasks p = [] \<and> set (tp_workers p) \<subseteq> {Exited} \<longrightarrow> mset (tp_finished p) = mset (tp_accepted p)) \<and>
    (\<forall>b. Sleeping b \<in> set (tp_workers p) \<longrightarrow> kInitialBackoff \<le> b \<and> b \<le> kMaxBackoff)"
proof -
  have i: "tp_inv p" by (rule tp_inv_reachable [OF assms])
  with running_tasks_exited [of p] show ?thesis by (fastforce simp: tp_inv_def)
qed

definition demo_run :: "int thread_pool" where
  "demo_run = fold (\<lambda>f p. f p) [snd \<circ> Enqueue 7, snd \<circ> Enqueue 8, RunThread 0, RunThread 0, RunThread 1, RunThread 1, tp_Stop,
     RunThread 1, RunThread 0, RunThread 0, RunThread 1] (ThreadPool 2)"

lemma demo_run_value:
  "tp_finished demo_run = [8, 7]" "tp_accepted demo_run = [7, 8]" "tp_tasks demo_run = []" "tp_workers demo_run = [Exited, Exited]"
  by (simp_all add: demo_run_def ThreadPool_def Enqueue_def RunThread_def tp_Stop_def numeral_2_eq_2)

lemma demo_run_reachable: "tp_step\<^sup>*\<^sup>* (ThreadPool 2) demo_run"
proof -
  let ?R = "tp_step\<^sup>*\<^sup>*"
  have e: "?R q (snd (Enqueue t p))" if "?R q p" for q p :: "int thread_pool" and t
    using that tp_step.enqueue by (rule rtranclp.rtrancl_into_rtrancl)
  have s: "?R q (tp_Stop p)" if "?R q p" for q p :: "int thread_pool"
    using that tp_step.stop by (rule rtranclp.rtrancl_into_rtrancl)
  have w: "?R q (RunThread i p)" if "?R q p" "i < length (tp_workers p)" for q p :: "int thread_pool" and i
    using that(1) tp_step.work [OF that(2)] by (rule rtranclp.rtrancl_into_rtrancl)
  have len: "length (tp_workers (RunThread i p)) = length (tp_workers p)" "length (tp_workers (snd (Enqueue t p))) = length (tp_workers p)"
    "length (tp_workers (tp_Stop p)) = length (tp_workers p)" for i t and p :: "int thread_pool"
    by (simp_all add: RunThread_def Enqueue_def tp_Stop_def split: worker.splits list.splits)
  have n: "length (tp_workers (ThreadPool 2 :: int thread_pool)) = 2" by (simp add: ThreadPool_def)
  show ?thesis unfolding demo_run_def fold.simps comp_apply id_apply
    by (intro w s e rtranclp.rtrancl_refl; simp add: len n)
qed

lemma thread_pool_runs_once_witness: "mset (tp_finished demo_run) = {#7, 8#}"
  using thread_pool_runs_once [OF demo_run_reachable] demo_run_value by simp

section \<open>Tasks that are lost\<close>

lemma exited_step:
  "tp_step p p' \<Longrightarrow> set (tp_workers p) \<subseteq> {Exited} \<Longrightarrow> set (tp_workers p') \<subseteq> {Exited} \<and> tp_started p' = tp_started p"
proof (induction rule: tp_step.induct)
  case (work i p)
  then have "tp_workers p ! i = Exited" using nth_mem [OF work(1)] by (metis singletonD subsetD)
  with work show ?case by (simp add: RunThread_def)
qed (auto simp: Enqueue_def tp_Stop_def tp_Drain_def split: if_splits)

text \<open>
  The flag \<open>drain_\<close> is never set: a pool that was drained or stopped and whose workers have left still
  accepts tasks with an ok status, and none of them is ever started.
\<close>

theorem thread_pool_loses_late_tasks:
  assumes "tp_step\<^sup>*\<^sup>* (ThreadPool n) p" "set (tp_workers p) \<subseteq> {Exited}" "tp_step\<^sup>*\<^sup>* (snd (Enqueue task p)) p'"
  shows "fst (Enqueue task p) = OkStatus \<and> task \<in> set (tp_tasks (snd (Enqueue task p))) \<and> tp_started p' = tp_started p"
proof -
  have d: "\<not> tp_drain p" using tp_inv_reachable [OF assms(1)] by (simp add: tp_inv_def)
  have "set (tp_workers p') \<subseteq> {Exited} \<and> tp_started p' = tp_started p"
    using assms(3)
  proof (induction rule: rtranclp_induct)
    case base
    show ?case using assms(2) d by (simp add: Enqueue_def)
  next
    case (step q r)
    then show ?case using exited_step by metis
  qed
  then show ?thesis using d by (simp add: Enqueue_def)
qed

lemma thread_pool_loses_late_tasks_witness:
  "fst (Enqueue 9 demo_run) = OkStatus \<and> tp_started (RunThread 0 (snd (Enqueue 9 demo_run))) = tp_started demo_run"
proof -
  have "set (tp_workers demo_run) \<subseteq> {Exited}" by (simp add: demo_run_value)
  moreover have "tp_step\<^sup>*\<^sup>* (snd (Enqueue 9 demo_run)) (RunThread 0 (snd (Enqueue 9 demo_run)))"
    by (rule r_into_rtranclp, rule tp_step.work) (simp add: Enqueue_def demo_run_value)
  ultimately show ?thesis using thread_pool_loses_late_tasks [OF demo_run_reachable] by blast
qed

end
