(* ===== verification/Request_Coroutines.thy ===== *)
theory Request_Coroutines
  imports Thread_Pool
begin

text \<open>
  The example \<open>gladiators/coroutines\<close>: coroutines that wait for request handlers, all of them run by one
  thread pool (\<open>request_handler.h\<close>, \<open>c++20_coroutines.h\<close>, \<open>main.cc\<close>). A coroutine that waits is suspended; a
  task of the pool does a step of its handler and then enqueues the task that resumes it. The state is
  the pool of the theory of thread pools, with the place in the current task for each worker, the
  handlers and flags of the coroutines, and the main thread.
\<close>

section \<open>Request handlers\<close>

datatype handler_step = kFirst | kSecond | kDone

record request_handler =
  rh_id :: string
  rh_step :: handler_step

definition RequestHandler :: "string \<Rightarrow> request_handler" where
  "RequestHandler ident = \<lparr>rh_id = ident, rh_step = kFirst\<rparr>"

fun step_ToString :: "handler_step \<Rightarrow> string" where
  "step_ToString kFirst = ''Step::kFirst''"
| "step_ToString kSecond = ''Step::kSecond''"
| "step_ToString kDone = ''Step::kDone''"

definition Handle :: "request_handler \<Rightarrow> request_handler" where
  "Handle h = (case rh_step h of kFirst \<Rightarrow> h\<lparr>rh_step := kSecond\<rparr> | kSecond \<Rightarrow> h\<lparr>rh_step := kDone\<rparr> | kDone \<Rightarrow> h)"

section \<open>The system\<close>

text \<open>The tasks of the pool, for the coroutine of the given number, with the names that they get.\<close>

datatype coro_task = Handle_task nat | Resume_task nat

datatype main_pc =
    Starting nat    \<comment> \<open>before it starts the coroutine of this number\<close>
  | Waiting nat     \<comment> \<open>in \<open>Wait\<close> for this one\<close>
  | Draining
  | Joining         \<comment> \<open>in the destructor of the pool\<close>
  | Returned

record coro_system =
  cs_pool :: "coro_task thread_pool"
  cs_phase :: "nat list"
  cs_handlers :: "request_handler list"
  cs_done :: "bool list"
  cs_main :: main_pc
  cs_handled :: "nat list"
  cs_names :: "string list"

text \<open>
  \<open>await_ready\<close>, \<open>await_resume\<close> and \<open>await_suspend\<close> of the coroutine \<open>i\<close>; the log of names has the first
  component of every task.
\<close>

definition await_ready :: "nat \<Rightarrow> coro_system \<Rightarrow> bool" where
  "await_ready i s \<longleftrightarrow> rh_step (cs_handlers s ! i) = kDone"

definition await_resume :: "nat \<Rightarrow> coro_system \<Rightarrow> bool" where
  "await_resume i s \<longleftrightarrow> rh_step (cs_handlers s ! i) = kDone"

definition cs_Enqueue :: "string \<Rightarrow> coro_task \<Rightarrow> coro_system \<Rightarrow> coro_system" where
  "cs_Enqueue name task s = s\<lparr>cs_pool := snd (Enqueue task (cs_pool s)), cs_names := cs_names s @ [name]\<rparr>"

definition await_suspend :: "nat \<Rightarrow> coro_system \<Rightarrow> coro_system" where
  "await_suspend i s =
     (let h = cs_handlers s ! i in cs_Enqueue (rh_id h @ '':'' @ step_ToString (rh_step h)) (Handle_task i) s)"

text \<open>The end of a coroutine destroys its promise, which sets the flag.\<close>

definition coroutine_end :: "nat \<Rightarrow> coro_system \<Rightarrow> coro_system" where
  "coroutine_end i s = s\<lparr>cs_done := (cs_done s)[i := True]\<rparr>"

text \<open>The loop \<open>while (!co_await *handler)\<close>, up to the next suspension or the end.\<close>

definition co_loop :: "nat \<Rightarrow> coro_system \<Rightarrow> coro_system" where
  "co_loop i s = (if await_ready i s then coroutine_end i s else await_suspend i s)"

definition resume_coro :: "nat \<Rightarrow> coro_system \<Rightarrow> coro_system" where
  "resume_coro i s = (if await_resume i s then coroutine_end i s else co_loop i s)"

definition start_coroutine :: "nat \<Rightarrow> coro_system \<Rightarrow> coro_system" where
  "start_coroutine i s = co_loop i (s\<lparr>cs_done := (cs_done s)[i := False]\<rparr>)"

text \<open>
  A step of the worker \<open>w\<close>. The phase of a worker that runs a task is 0 at its beginning, 1 between the
  step of the handler and the second \<open>Enqueue\<close>, and 2 when the task has nothing left to do.
\<close>

definition cs_work :: "nat \<Rightarrow> coro_system \<Rightarrow> coro_system" where
  "cs_work w s =
     (let idle = s\<lparr>cs_pool := RunThread w (cs_pool s), cs_phase := (cs_phase s)[w := 0]\<rparr>
      in case tp_workers (cs_pool s) ! w of
        Running (Handle_task i) \<Rightarrow>
          if cs_phase s ! w = 0
          then s\<lparr>cs_handlers := (cs_handlers s)[i := Handle (cs_handlers s ! i)], cs_handled := cs_handled s @ [i],
                 cs_phase := (cs_phase s)[w := 1]\<rparr>
          else if cs_phase s ! w = 1
          then (cs_Enqueue (rh_id (cs_handlers s ! i) @ '':resume'') (Resume_task i) s)\<lparr>cs_phase := (cs_phase s)[w := 2]\<rparr>
          else idle
      | Running (Resume_task i) \<Rightarrow>
          if cs_phase s ! w = 0 then (resume_coro i s)\<lparr>cs_phase := (cs_phase s)[w := 2]\<rparr> else idle
      | _ \<Rightarrow> idle)"

text \<open>A step of the main thread: \<open>Run\<close>, then \<open>Drain\<close>, then the destructor of the pool.\<close>

definition cs_main_step :: "nat \<Rightarrow> coro_system \<Rightarrow> coro_system" where
  "cs_main_step num_coros s =
     (case cs_main s of
        Starting i \<Rightarrow> if i < num_coros then (start_coroutine i s)\<lparr>cs_main := Starting (Suc i)\<rparr> else s\<lparr>cs_main := Waiting 0\<rparr>
      | Waiting i \<Rightarrow> if i < num_coros then if cs_done s ! i then s\<lparr>cs_main := Waiting (Suc i)\<rparr> else s
                     else s\<lparr>cs_main := Draining\<rparr>
      | Draining \<Rightarrow> (case tp_Drain (cs_pool s) of None \<Rightarrow> s | Some p \<Rightarrow> s\<lparr>cs_pool := p, cs_main := Joining\<rparr>)
      | Joining \<Rightarrow> if list_all (\<lambda>w. w = Exited) (tp_workers (cs_pool s)) then s\<lparr>cs_main := Returned\<rparr> else s
      | Returned \<Rightarrow> s)"

definition coro_main :: "nat \<Rightarrow> nat \<Rightarrow> coro_system" where
  "coro_main hardware num_coros =
     \<lparr>cs_pool = ThreadPool hardware, cs_phase = replicate hardware 0,
      cs_handlers = map (\<lambda>i. RequestHandler (''client'' @ decimal i)) [0..<num_coros],
      cs_done = replicate num_coros False, cs_main = Starting 0, cs_handled = [], cs_names = []\<rparr>"

inductive cs_reach :: "nat \<Rightarrow> nat \<Rightarrow> coro_system \<Rightarrow> bool" for hardware num_coros :: nat where
  start: "cs_reach hardware num_coros (coro_main hardware num_coros)"
| work: "cs_reach hardware num_coros s \<Longrightarrow> w < hardware \<Longrightarrow> cs_reach hardware num_coros (cs_work w s)"
| main: "cs_reach hardware num_coros s \<Longrightarrow> cs_reach hardware num_coros (cs_main_step num_coros s)"

section \<open>Waiting with a timeout\<close>

text \<open>
  \<open>WaitWithTimeout\<close>: \<open>done_at k\<close> is the flag at its \<open>k\<close>-th reading, \<open>clk k\<close> the time at the \<open>k\<close>-th reading
  after the start. The clock is read only while the flag is not set; the flag is read once more at the end.
\<close>

partial_function (option) timeout_loop :: "(nat \<Rightarrow> bool) \<Rightarrow> (nat \<Rightarrow> int) \<Rightarrow> int \<Rightarrow> int \<Rightarrow> nat \<Rightarrow> nat option" where
  "timeout_loop done_at clk start durr k =
     (if \<not> done_at k \<and> clk k - start < durr then timeout_loop done_at clk start durr (k + 1) else Some (k + 1))"

definition WaitWithTimeout :: "(nat \<Rightarrow> bool) \<Rightarrow> (nat \<Rightarrow> int) \<Rightarrow> int \<Rightarrow> int \<Rightarrow> status option" where
  "WaitWithTimeout done_at clk start durr =
     map_option (\<lambda>k. if \<not> done_at k then ErrorStatus kDeadlineExceeded ''Timed out waiting for task'' else OkStatus)
       (timeout_loop done_at clk start durr 0)"

end
