(* ===== verification/Request_Coroutines_Props.thy ===== *)
theory Request_Coroutines_Props
  imports Request_Coroutines
begin

text \<open>
  No wake-up of the coroutines of \<open>gladiators/coroutines\<close> is lost: the life of a coroutine as ranks, the
  invariant that every step keeps, and from every reachable state a way to the end.
\<close>

section \<open>The life of a coroutine\<close>

text \<open>
  Abstractly every coroutine goes through eight states, numbered in their order: not started, its
  handler waits to run (1) or has run (2), it waits to be resumed (3); the same again (4, 5, 6); ended (7).
  The ranks say what a coroutine in a state has: its task or the place in it, the step of its handler,
  and how many tasks and how many calls of \<open>Handle\<close> it has made.
\<close>

datatype token = Tok_handle nat | Tok_handled nat | Tok_resume nat

definition token_at :: "nat \<Rightarrow> nat \<Rightarrow> token multiset" where
  "token_at i r = (if r = 1 \<or> r = 4 then {#Tok_handle i#} else if r = 2 \<or> r = 5 then {#Tok_handled i#}
     else if r = 3 \<or> r = 6 then {#Tok_resume i#} else {#})"

definition step_at :: "nat \<Rightarrow> handler_step" where
  "step_at r = (if r \<le> 1 then kFirst else if r \<le> 4 then kSecond else kDone)"

definition tasks_at :: "nat \<Rightarrow> nat" where
  "tasks_at r = (if r = 0 then 0 else if r \<le> 2 then 1 else if r = 3 then 2 else if r \<le> 5 then 3 else 4)"

definition handled_at :: "nat \<Rightarrow> nat" where
  "handled_at r = (if r \<le> 1 then 0 else if r \<le> 4 then 1 else 2)"

fun task_token :: "coro_task \<Rightarrow> token" where
  "task_token (Handle_task i) = Tok_handle i"
| "task_token (Resume_task i) = Tok_resume i"

definition worker_token :: "coro_task worker \<times> nat \<Rightarrow> token multiset" where
  "worker_token wp = (case wp of
     (Running (Handle_task i), p) \<Rightarrow> if p = 0 then {#Tok_handle i#} else if p = 1 then {#Tok_handled i#} else {#}
   | (Running (Resume_task i), p) \<Rightarrow> if p = 0 then {#Tok_resume i#} else {#}
   | _ \<Rightarrow> {#})"

definition live :: "coro_system \<Rightarrow> token multiset" where
  "live s = image_mset task_token (mset (tp_tasks (cs_pool s))) +
     (\<Sum>wp \<leftarrow> zip (tp_workers (cs_pool s)) (cs_phase s). worker_token wp)"

fun main_ok :: "nat \<Rightarrow> (nat \<Rightarrow> nat) \<Rightarrow> main_pc \<Rightarrow> bool" where
  "main_ok n f (Starting k) \<longleftrightarrow> k \<le> n \<and> (\<forall>i<n. f i = 0 \<longleftrightarrow> k \<le> i)"
| "main_ok n f (Waiting k) \<longleftrightarrow> k \<le> n \<and> (\<forall>i<n. f i \<noteq> 0) \<and> (\<forall>i<k. f i = 7)"
| "main_ok n f _ \<longleftrightarrow> (\<forall>i<n. f i = 7)"

definition cs_ranks :: "nat \<Rightarrow> (nat \<Rightarrow> nat) \<Rightarrow> coro_system \<Rightarrow> bool" where
  "cs_ranks n f s \<longleftrightarrow> (\<forall>i<n. f i \<le> 7) \<and> live s = (\<Sum>i<n. token_at i (f i)) \<and>
     length (cs_handlers s) = n \<and> (\<forall>i<n. rh_step (cs_handlers s ! i) = step_at (f i)) \<and>
     length (cs_done s) = n \<and> (\<forall>i<n. cs_done s ! i \<longleftrightarrow> f i = 7) \<and>
     length (tp_accepted (cs_pool s)) = (\<Sum>i<n. tasks_at (f i)) \<and>
     (\<forall>i<n. count_list (cs_handled s) i = handled_at (f i)) \<and> main_ok n f (cs_main s)"

definition cs_inv :: "nat \<Rightarrow> nat \<Rightarrow> coro_system \<Rightarrow> bool" where
  "cs_inv hw n s \<longleftrightarrow> tp_inv (cs_pool s) \<and> length (tp_workers (cs_pool s)) = hw \<and> length (cs_phase s) = hw \<and>
     (\<forall>w<hw. (\<forall>t. tp_workers (cs_pool s) ! w \<noteq> Running t) \<longrightarrow> cs_phase s ! w = 0) \<and>
     (\<exists>f. cs_ranks n f s)"

lemma token_in_live:
  assumes "tok \<in># (\<Sum>i<n. token_at i (f i))"
  shows "(\<forall>i. tok = Tok_handle i \<longrightarrow> i < n \<and> (f i = 1 \<or> f i = 4)) \<and> (\<forall>i. tok = Tok_handled i \<longrightarrow> i < n \<and> (f i = 2 \<or> f i = 5)) \<and>
    (\<forall>i. tok = Tok_resume i \<longrightarrow> i < n \<and> (f i = 3 \<or> f i = 6))"
proof -
  obtain j where "j < n" "tok \<in># token_at j (f j)"
    using assms by (auto simp: set_mset_sum)
  then show ?thesis by (auto simp: token_at_def split: if_splits)
qed

lemma sum_upd:
  fixes n :: nat and h :: "nat \<Rightarrow> nat \<Rightarrow> 'a::comm_monoid_add"
  assumes "i < n" shows "(\<Sum>j<n. h j ((f(i := r)) j)) + h i (f i) = (\<Sum>j<n. h j (f j)) + h i r"
proof -
  have i: "finite {..<n}" "i \<in> {..<n}" using assms by auto
  have "(\<Sum>j\<in>{..<n} - {i}. h j ((f(i := r)) j)) = (\<Sum>j\<in>{..<n} - {i}. h j (f j))"
    by (rule sum.cong) auto
  then show ?thesis
    using sum.remove [OF i, of "\<lambda>j. h j ((f(i := r)) j)"] sum.remove [OF i, of "\<lambda>j. h j (f j)"]
    by (simp add: ac_simps)
qed

text \<open>One coroutine moves on, and only its token, its handler, its flag and the counts change.\<close>

lemma cs_ranks_advance:
  assumes r: "cs_ranks n f s" and i: "i < n" and le: "q \<le> 7"
    and l: "live s' + token_at i (f i) = live s + token_at i q"
    and h: "cs_handlers s' = (cs_handlers s)[i := h]" "rh_step h = step_at q"
    and d: "cs_done s' = (cs_done s)[i := (q = 7)]"
    and a: "length (tp_accepted (cs_pool s')) + tasks_at (f i) = length (tp_accepted (cs_pool s)) + tasks_at q"
    and c: "\<And>j. count_list (cs_handled s') j + (if j = i then handled_at (f i) else 0) =
      count_list (cs_handled s) j + (if j = i then handled_at q else 0)"
    and m: "main_ok n (f(i := q)) (cs_main s')"
  shows "cs_ranks n (f(i := q)) s'"
proof -
  have "live s' = (\<Sum>j<n. token_at j ((f(i := q)) j))"
    using sum_upd [OF i, of token_at f q] l r unfolding cs_ranks_def by (metis add_right_cancel)
  moreover have "length (tp_accepted (cs_pool s')) = (\<Sum>j<n. tasks_at ((f(i := q)) j))"
    using sum_upd [OF i, of "\<lambda>_. tasks_at" f q] a r unfolding cs_ranks_def by linarith
  moreover have "count_list (cs_handled s') j = handled_at ((f(i := q)) j)" if "j < n" for j
    using c [of j] r that unfolding cs_ranks_def by (cases "j = i") auto
  ultimately show ?thesis using r i le h d m unfolding cs_ranks_def by (auto simp: nth_list_update)
qed

text \<open>Nothing that the ranks speak of changes.\<close>

lemma cs_ranks_same:
  assumes "cs_ranks n f s" "live s' = live s" "cs_handlers s' = cs_handlers s" "cs_done s' = cs_done s"
    "tp_accepted (cs_pool s') = tp_accepted (cs_pool s)" "cs_handled s' = cs_handled s" "main_ok n f (cs_main s')"
  shows "cs_ranks n f s'"
  using assms by (simp add: cs_ranks_def)

text \<open>The sum of the ranks, read off the state.\<close>

definition pot :: "nat \<Rightarrow> coro_system \<Rightarrow> nat" where
  "pot n s = (\<Sum>i<n. count_list (cs_handled s) i + of_bool (cs_done s ! i)) + length (tp_accepted (cs_pool s))"

lemma pot_ranks: "cs_ranks n f s \<Longrightarrow> pot n s = (\<Sum>i<n. f i)"
proof -
  assume r: "cs_ranks n f s"
  have "pot n s = (\<Sum>i<n. handled_at (f i) + of_bool (f i = 7) + tasks_at (f i))"
    using r by (simp add: cs_ranks_def pot_def sum.distrib)
  also have "\<dots> = (\<Sum>i<n. f i)"
  proof (rule sum.cong)
    fix i assume "i \<in> {..<n}"
    then have "f i \<le> 7" using r by (simp add: cs_ranks_def)
    then show "handled_at (f i) + of_bool (f i = 7) + tasks_at (f i) = f i" by (auto simp: handled_at_def tasks_at_def)
  qed simp
  finally show ?thesis .
qed

lemma pot_Suc:
  assumes "cs_ranks n f s" "cs_ranks n (f(i := Suc (f i))) s'" "i < n" shows "pot n s' = Suc (pot n s)"
  using sum_upd [OF assms(3), of "\<lambda>_ r. r" f "Suc (f i)"] pot_ranks [OF assms(1)] pot_ranks [OF assms(2)] by simp

lemma main_ok_upd:
  "main_ok n f m \<Longrightarrow> i < n \<Longrightarrow> f i \<noteq> 0 \<Longrightarrow> f i \<noteq> 7 \<Longrightarrow> q \<noteq> 0 \<Longrightarrow> main_ok n (f(i := q)) m"
  by (cases "(n, f, m)" rule: main_ok.cases) auto

section \<open>Steps of the workers\<close>

definition queued :: "coro_system \<Rightarrow> token multiset" where
  "queued s = image_mset task_token (mset (tp_tasks (cs_pool s)))"

lemma live_update:
  assumes "w < length (tp_workers (cs_pool s))" "length (cs_phase s) = length (tp_workers (cs_pool s))"
    "tp_workers (cs_pool s') = (tp_workers (cs_pool s))[w := v]" "cs_phase s' = (cs_phase s)[w := q]"
  shows "live s' + worker_token (tp_workers (cs_pool s) ! w, cs_phase s ! w) + queued s =
    live s + worker_token (v, q) + queued s'"
proof -
  let ?z = "zip (tp_workers (cs_pool s)) (cs_phase s)"
  have "zip (tp_workers (cs_pool s')) (cs_phase s') = ?z[w := (v, q)]" unfolding assms(3,4) by (rule zip_update)
  moreover have "?z ! w = (tp_workers (cs_pool s) ! w, cs_phase s ! w)" "w < length ?z" using assms(1,2) by simp_all
  ultimately show ?thesis
    using sum_update [of w ?z worker_token "(v, q)"] by (simp add: live_def queued_def ac_simps)
qed

lemma Enqueue_inv: "tp_inv p \<Longrightarrow> Enqueue t p =
    (OkStatus, p\<lparr>tp_tasks := tp_tasks p @ [t], tp_accepted := tp_accepted p @ [t]\<rparr>)"
  by (simp add: Enqueue_def tp_inv_def)

lemma tp_inv_Enqueue: "tp_inv p \<Longrightarrow> tp_inv (snd (Enqueue t p))"
  using tp_inv_step [OF tp_step.enqueue] .

text \<open>A step of a worker between two tasks moves at most a task from the queue to the worker.\<close>

lemma idle_live:
  assumes "cs_inv hw n s" "w < hw"
    "worker_token (tp_workers (cs_pool s) ! w, cs_phase s ! w) = {#}"
  defines "s' \<equiv> s\<lparr>cs_pool := RunThread w (cs_pool s), cs_phase := (cs_phase s)[w := 0]\<rparr>"
  shows "live s' = live s" "tp_accepted (cs_pool s') = tp_accepted (cs_pool s)"
    "length (tp_workers (cs_pool s')) = hw"
    "\<forall>v<hw. (\<forall>t. tp_workers (cs_pool s') ! v \<noteq> Running t) \<longrightarrow> cs_phase s' ! v = 0"
proof -
  have len: "length (tp_workers (cs_pool s)) = hw" "length (cs_phase s) = hw" using assms(1) by (simp_all add: cs_inv_def)
  have ph: "\<forall>v<hw. (\<forall>t. tp_workers (cs_pool s) ! v \<noteq> Running t) \<longrightarrow> cs_phase s ! v = 0"
    using assms(1) by (simp add: cs_inv_def)
  define v where "v = tp_workers (cs_pool s') ! w"
  have v: "tp_workers (cs_pool s') = (tp_workers (cs_pool s))[w := v]"
    "tp_accepted (cs_pool s') = tp_accepted (cs_pool s)" "queued s = worker_token (v, 0) + queued s'"
    using assms(2) len
    by (simp_all add: v_def s'_def RunThread_def queued_def worker_token_def
        split: worker.split list.split coro_task.split) (metis list_update_id)
  have "live s' + queued s = live s + worker_token (v, 0) + queued s'"
    using live_update [of w s s' v 0] assms(2,3) len v(1) by (simp add: s'_def)
  then show "live s' = live s" using v(3) by simp
  show "tp_accepted (cs_pool s') = tp_accepted (cs_pool s)" by (rule v)
  show "length (tp_workers (cs_pool s')) = hw" using v(1) len by simp
  show "\<forall>u<hw. (\<forall>t. tp_workers (cs_pool s') ! u \<noteq> Running t) \<longrightarrow> cs_phase s' ! u = 0"
    unfolding v(1) using ph len
    by (auto simp: s'_def) (metis nth_list_update_eq nth_list_update_neq)
qed

lemma cs_invE:
  assumes "cs_inv hw n s"
  obtains f where "cs_ranks n f s" "tp_inv (cs_pool s)" "length (tp_workers (cs_pool s)) = hw" "length (cs_phase s) = hw"
  using assms unfolding cs_inv_def by blast

lemma member_sum_list_mset: "x \<in> set xs \<Longrightarrow> (f x :: 'b multiset) \<subseteq># (\<Sum>y \<leftarrow> xs. f y)"
proof (induction xs)
  case (Cons y ys)
  then show ?case by (cases "x = y") (auto intro: subset_mset.add_increasing)
qed simp

text \<open>A worker's token is live.\<close>

lemma worker_token_live:
  assumes "w < length (tp_workers (cs_pool s))" "length (cs_phase s) = length (tp_workers (cs_pool s))"
    "tok \<in># worker_token (tp_workers (cs_pool s) ! w, cs_phase s ! w)"
  shows "tok \<in># live s"
proof -
  let ?z = "zip (tp_workers (cs_pool s)) (cs_phase s)"
  have "?z ! w \<in> set ?z" using assms(1,2) by (intro nth_mem) simp
  then have "worker_token (?z ! w) \<subseteq># (\<Sum>wp \<leftarrow> ?z. worker_token wp)" by (rule member_sum_list_mset)
  moreover have "?z ! w = (tp_workers (cs_pool s) ! w, cs_phase s ! w)" using assms(1,2) by simp
  ultimately show ?thesis using assms(3) unfolding live_def by (metis mset_subset_eqD union_iff)
qed

text \<open>The next state of the waits and of the ends of the coroutine \<open>i\<close>.\<close>

lemma cs_Enqueue_simps [simp]:
  assumes "tp_inv (cs_pool s)"
  shows "tp_workers (cs_pool (cs_Enqueue nm t s)) = tp_workers (cs_pool s)"
    "tp_accepted (cs_pool (cs_Enqueue nm t s)) = tp_accepted (cs_pool s) @ [t]"
    "queued (cs_Enqueue nm t s) = queued s + {#task_token t#}"
    "tp_inv (cs_pool (cs_Enqueue nm t s))"
  using tp_inv_Enqueue [OF assms, of t] by (simp_all add: cs_Enqueue_def Enqueue_inv [OF assms] queued_def)

lemma cs_Enqueue_rest [simp]:
  "cs_phase (cs_Enqueue nm t s) = cs_phase s" "cs_handlers (cs_Enqueue nm t s) = cs_handlers s"
  "cs_done (cs_Enqueue nm t s) = cs_done s" "cs_handled (cs_Enqueue nm t s) = cs_handled s" "cs_main (cs_Enqueue nm t s) = cs_main s"
  by (simp_all add: cs_Enqueue_def)

lemma ranks_token:
  assumes "cs_ranks n f s"
  shows "Tok_handle i \<in># live s \<Longrightarrow> i < n \<and> (f i = 1 \<or> f i = 4)"
    "Tok_handled i \<in># live s \<Longrightarrow> i < n \<and> (f i = 2 \<or> f i = 5)"
    "Tok_resume i \<in># live s \<Longrightarrow> i < n \<and> (f i = 3 \<or> f i = 6)"
proof -
  have l: "live s = (\<Sum>i<n. token_at i (f i))" using assms by (simp add: cs_ranks_def)
  show "Tok_handle i \<in># live s \<Longrightarrow> i < n \<and> (f i = 1 \<or> f i = 4)"
    "Tok_handled i \<in># live s \<Longrightarrow> i < n \<and> (f i = 2 \<or> f i = 5)"
    "Tok_resume i \<in># live s \<Longrightarrow> i < n \<and> (f i = 3 \<or> f i = 6)"
    unfolding l by (simp_all only: token_in_live)
qed

lemma ranks_fields:
  assumes "cs_ranks n f s" "i < n"
  shows "rh_step (cs_handlers s ! i) = step_at (f i)" "cs_done s ! i \<longleftrightarrow> f i = 7" "main_ok n f (cs_main s)"
    "i < length (cs_handlers s)" "i < length (cs_done s)"
  using assms by (simp_all add: cs_ranks_def)

lemma cs_inv_running:
  assumes "cs_inv hw n s" "tp_workers (cs_pool s) ! w = Running t" "tp_workers (cs_pool s') = tp_workers (cs_pool s)"
    "cs_phase s' = (cs_phase s)[w := q]" "tp_inv (cs_pool s')" "cs_ranks n g s'"
  shows "cs_inv hw n s'"
proof -
  have "cs_phase s' ! v = 0" if "v < hw" "\<forall>t. tp_workers (cs_pool s') ! v \<noteq> Running t" for v
    using that assms(1-4) by (cases "v = w") (auto simp: cs_inv_def)
  then show ?thesis using assms unfolding cs_inv_def by auto
qed

text \<open>The three places in a task at which a coroutine moves on.\<close>

lemma work_Handle:
  assumes inv: "cs_inv hw n s" and w: "w < hw"
    and r: "tp_workers (cs_pool s) ! w = Running (Handle_task i)" "cs_phase s ! w = 0"
  shows "cs_inv hw n (cs_work w s) \<and> pot n (cs_work w s) = Suc (pot n s)"
proof -
  obtain f where f: "cs_ranks n f s" and tp: "tp_inv (cs_pool s)" and len: "length (tp_workers (cs_pool s)) = hw" "length (cs_phase s) = hw"
    using inv by (rule cs_invE)
  have "Tok_handle i \<in># live s"
    by (rule worker_token_live [of w]) (use w len r in \<open>simp_all add: worker_token_def\<close>)
  from ranks_token(1) [OF f this] have i: "i < n" "f i = 1 \<or> f i = 4" by simp_all
  let ?h = "Handle (cs_handlers s ! i)"
  have s': "cs_work w s = s\<lparr>cs_handlers := (cs_handlers s)[i := ?h], cs_handled := cs_handled s @ [i], cs_phase := (cs_phase s)[w := 1]\<rparr>"
    (is "_ = ?s") using r by (simp add: cs_work_def)
  have wk: "tp_workers (cs_pool ?s) = (tp_workers (cs_pool s))[w := Running (Handle_task i)]"
    using r(1) list_update_id [of "tp_workers (cs_pool s)" w] by simp
  have "live ?s + worker_token (Running (Handle_task i), 0) + queued s = live s + worker_token (Running (Handle_task i), 1) + queued ?s"
    using live_update [of w s ?s, OF _ _ wk] w len r by simp
  then have l: "live ?s + {#Tok_handle i#} = live s + {#Tok_handled i#}" by (simp add: worker_token_def queued_def)
  note R = ranks_fields [OF f i(1)]
  have r': "cs_ranks n (f(i := Suc (f i))) ?s"
  proof (rule cs_ranks_advance [OF f i(1), where h = ?h])
    show "live ?s + token_at i (f i) = live s + token_at i (Suc (f i))" using l i(2) by (auto simp: token_at_def)
    show "rh_step ?h = step_at (Suc (f i))" using R(1) i(2) by (auto simp: Handle_def step_at_def)
    show "cs_done ?s = (cs_done s)[i := (Suc (f i) = 7)]" using R(2) i(2) list_update_id [of "cs_done s" i] by auto
    show "main_ok n (f(i := Suc (f i))) (cs_main ?s)" using main_ok_upd [OF R(3) i(1)] i(2) by auto
  qed (use i(2) in \<open>auto simp: tasks_at_def handled_at_def\<close>)
  have "cs_inv hw n ?s" using tp by (intro cs_inv_running [OF inv r(1) _ _ _ r']) simp_all
  then show ?thesis unfolding s' using pot_Suc [OF f r' i(1)] by simp
qed

lemma work_handled:
  assumes inv: "cs_inv hw n s" and w: "w < hw"
    and r: "tp_workers (cs_pool s) ! w = Running (Handle_task i)" "cs_phase s ! w = 1"
  shows "cs_inv hw n (cs_work w s) \<and> pot n (cs_work w s) = Suc (pot n s)"
proof -
  obtain f where f: "cs_ranks n f s" and tp: "tp_inv (cs_pool s)" and len: "length (tp_workers (cs_pool s)) = hw" "length (cs_phase s) = hw"
    using inv by (rule cs_invE)
  have "Tok_handled i \<in># live s"
    by (rule worker_token_live [of w]) (use w len r in \<open>simp_all add: worker_token_def\<close>)
  from ranks_token(2) [OF f this] have i: "i < n" "f i = 2 \<or> f i = 5" by simp_all
  let ?s = "(cs_Enqueue (rh_id (cs_handlers s ! i) @ '':resume'') (Resume_task i) s)\<lparr>cs_phase := (cs_phase s)[w := 2]\<rparr>"
  have s': "cs_work w s = ?s" using r by (simp add: cs_work_def)
  have wk: "tp_workers (cs_pool ?s) = (tp_workers (cs_pool s))[w := Running (Handle_task i)]"
    using r(1) list_update_id [of "tp_workers (cs_pool s)" w] tp by simp
  have q: "queued ?s = queued s + {#Tok_resume i#}"
    using cs_Enqueue_simps(3) [OF tp, of _ "Resume_task i"] by (simp add: queued_def)
  have "live ?s + worker_token (Running (Handle_task i), 1) + queued s = live s + worker_token (Running (Handle_task i), 2) + queued ?s"
    using live_update [of w s ?s, OF _ _ wk] w len r by simp
  then have l: "live ?s + {#Tok_handled i#} = live s + {#Tok_resume i#}" unfolding q by (simp add: worker_token_def)
  note R = ranks_fields [OF f i(1)]
  have r': "cs_ranks n (f(i := Suc (f i))) ?s"
  proof (rule cs_ranks_advance [OF f i(1), where h = "cs_handlers s ! i"])
    show "live ?s + token_at i (f i) = live s + token_at i (Suc (f i))" using l i(2) by (auto simp: token_at_def)
    show "rh_step (cs_handlers s ! i) = step_at (Suc (f i))" using R(1) i(2) by (auto simp: step_at_def)
    show "cs_done ?s = (cs_done s)[i := (Suc (f i) = 7)]" using R(2) i(2) list_update_id [of "cs_done s" i] by auto
    show "main_ok n (f(i := Suc (f i))) (cs_main ?s)" using main_ok_upd [OF R(3) i(1)] i(2) by auto
  qed (use i(2) tp in \<open>auto simp: tasks_at_def handled_at_def\<close>)
  have "cs_inv hw n ?s" using tp by (intro cs_inv_running [OF inv r(1) _ _ _ r']) simp_all
  then show ?thesis unfolding s' using pot_Suc [OF f r' i(1)] by simp
qed

lemma work_resume:
  assumes inv: "cs_inv hw n s" and w: "w < hw"
    and r: "tp_workers (cs_pool s) ! w = Running (Resume_task i)" "cs_phase s ! w = 0"
  shows "cs_inv hw n (cs_work w s) \<and> pot n (cs_work w s) = Suc (pot n s)"
proof -
  obtain f where f: "cs_ranks n f s" and tp: "tp_inv (cs_pool s)" and len: "length (tp_workers (cs_pool s)) = hw" "length (cs_phase s) = hw"
    using inv by (rule cs_invE)
  have "Tok_resume i \<in># live s"
    by (rule worker_token_live [of w]) (use w len r in \<open>simp_all add: worker_token_def\<close>)
  from ranks_token(3) [OF f this] have i: "i < n" "f i = 3 \<or> f i = 6" by simp_all
  note R = ranks_fields [OF f i(1)]
  let ?t = "resume_coro i s"
  let ?s = "?t\<lparr>cs_phase := (cs_phase s)[w := 2]\<rparr>"
  have s': "cs_work w s = ?s" using r by (simp add: cs_work_def)
  have t: "?t = (if f i = 6 then coroutine_end i s
      else cs_Enqueue (rh_id (cs_handlers s ! i) @ '':'' @ step_ToString (rh_step (cs_handlers s ! i))) (Handle_task i) s)"
    using R(1) i(2) by (auto simp: resume_coro_def co_loop_def await_resume_def await_ready_def await_suspend_def step_at_def Let_def)
  have same: "tp_workers (cs_pool ?t) = tp_workers (cs_pool s)" "cs_handlers ?t = cs_handlers s" "cs_handled ?t = cs_handled s"
    "cs_main ?t = cs_main s" "tp_inv (cs_pool ?t)" unfolding t using tp by (simp_all add: coroutine_end_def)
  have wk: "tp_workers (cs_pool ?s) = (tp_workers (cs_pool s))[w := Running (Resume_task i)]"
    using r(1) list_update_id [of "tp_workers (cs_pool s)" w] same by simp
  have q: "queued ?s = queued s + (if f i = 6 then {#} else {#Tok_handle i#})"
    unfolding t using cs_Enqueue_simps(3) [OF tp, of _ "Handle_task i"] by (simp add: queued_def coroutine_end_def)
  have "live ?s + worker_token (Running (Resume_task i), 0) + queued s = live s + worker_token (Running (Resume_task i), 2) + queued ?s"
    using live_update [of w s ?s, OF _ _ wk] w len r by simp
  then have l: "live ?s + {#Tok_resume i#} = live s + (if f i = 6 then {#} else {#Tok_handle i#})"
    unfolding q by (auto simp: worker_token_def)
  have r': "cs_ranks n (f(i := Suc (f i))) ?s"
  proof (rule cs_ranks_advance [OF f i(1), where h = "cs_handlers s ! i"])
    show "live ?s + token_at i (f i) = live s + token_at i (Suc (f i))" using l i(2) by (auto simp: token_at_def)
    show "rh_step (cs_handlers s ! i) = step_at (Suc (f i))" using R(1) i(2) by (auto simp: step_at_def)
    show "cs_done ?s = (cs_done s)[i := (Suc (f i) = 7)]"
      unfolding t using R(2) i(2) list_update_id [of "cs_done s" i] by (auto simp: coroutine_end_def)
    show "main_ok n (f(i := Suc (f i))) (cs_main ?s)" using main_ok_upd [OF R(3) i(1)] i(2) same by auto
    show "length (tp_accepted (cs_pool ?s)) + tasks_at (f i) = length (tp_accepted (cs_pool s)) + tasks_at (Suc (f i))"
      unfolding t using i(2) tp by (auto simp: tasks_at_def coroutine_end_def)
  qed (use i(2) same in \<open>auto simp: handled_at_def\<close>)
  have "cs_inv hw n ?s" using same by (intro cs_inv_running [OF inv r(1) _ _ _ r']) simp_all
  then show ?thesis unfolding s' using pot_Suc [OF f r' i(1)] by simp
qed

lemma work_token:
  assumes "cs_inv hw n s" "w < hw" "worker_token (tp_workers (cs_pool s) ! w, cs_phase s ! w) \<noteq> {#}"
  shows "cs_inv hw n (cs_work w s) \<and> pot n (cs_work w s) = Suc (pot n s)"
proof -
  obtain t where t: "tp_workers (cs_pool s) ! w = Running t" using assms(3) by (auto simp: worker_token_def split: worker.splits)
  show ?thesis
    using assms t work_Handle [OF assms(1,2)] work_handled [OF assms(1,2)] work_resume [OF assms(1,2)]
    by (cases t) (auto simp: worker_token_def split: if_splits)
qed

lemma work_idle:
  assumes "worker_token (tp_workers (cs_pool s) ! w, cs_phase s ! w) = {#}"
  shows "cs_work w s = s\<lparr>cs_pool := RunThread w (cs_pool s), cs_phase := (cs_phase s)[w := 0]\<rparr>"
  using assms by (auto simp: cs_work_def worker_token_def Let_def split: worker.split coro_task.split if_splits)

lemma cs_work_inv:
  assumes inv: "cs_inv hw n s" and w: "w < hw"
  shows "cs_inv hw n (cs_work w s)"
proof (cases "worker_token (tp_workers (cs_pool s) ! w, cs_phase s ! w) = {#}")
  case True
  let ?idle = "s\<lparr>cs_pool := RunThread w (cs_pool s), cs_phase := (cs_phase s)[w := 0]\<rparr>"
  obtain f where f: "cs_ranks n f s" and tp: "tp_inv (cs_pool s)" and len: "length (tp_workers (cs_pool s)) = hw" "length (cs_phase s) = hw"
    using inv by (rule cs_invE)
  note I = idle_live [OF inv w True]
  have "cs_ranks n f ?idle" by (rule cs_ranks_same [OF f I(1) _ _ I(2)]) (use f in \<open>simp_all add: cs_ranks_def\<close>)
  then show ?thesis unfolding work_idle [OF True] cs_inv_def
    using I(3,4) len tp_inv_work [OF tp, of w] w by auto
qed (use inv w work_token in blast)

section \<open>Steps of the main thread\<close>

lemma cs_ranks_main:
  assumes "cs_ranks n f s" "main_ok n f m" shows "cs_ranks n f (s\<lparr>cs_main := m\<rparr>)"
  by (rule cs_ranks_same [OF assms(1)]) (use assms(2) in \<open>simp_all add: live_def\<close>)

lemma cs_inv_main:
  assumes "cs_inv hw n s" "cs_ranks n f s" "main_ok n f m" shows "cs_inv hw n (s\<lparr>cs_main := m\<rparr>)"
  using assms(1) cs_ranks_main [OF assms(2,3)] unfolding cs_inv_def by auto

lemma main_start:
  assumes inv: "cs_inv hw n s" and m: "cs_main s = Starting i" and i: "i < n"
  shows "cs_inv hw n ((start_coroutine i s)\<lparr>cs_main := Starting (Suc i)\<rparr>)"
proof -
  obtain f where f: "cs_ranks n f s" and tp: "tp_inv (cs_pool s)"
    using inv by (rule cs_invE)
  note R = ranks_fields [OF f i]
  have f0: "f i = 0" "\<forall>j<n. f j = 0 \<longleftrightarrow> i \<le> j" using R(3) i unfolding m by auto
  let ?d = "s\<lparr>cs_done := (cs_done s)[i := False]\<rparr>"
  let ?t = "cs_Enqueue (rh_id (cs_handlers s ! i) @ '':'' @ step_ToString (rh_step (cs_handlers s ! i))) (Handle_task i) ?d"
  let ?s = "?t\<lparr>cs_main := Starting (Suc i)\<rparr>"
  have tpd: "tp_inv (cs_pool ?d)" using tp by simp
  have s': "(start_coroutine i s)\<lparr>cs_main := Starting (Suc i)\<rparr> = ?s"
    using R(1) f0 by (simp add: start_coroutine_def co_loop_def await_ready_def await_suspend_def step_at_def Let_def)
  have l: "live ?s = live s + {#Tok_handle i#}"
    using tp by (simp add: live_def cs_Enqueue_def Enqueue_inv ac_simps)
  have "cs_ranks n (f(i := 1)) ?s"
  proof (rule cs_ranks_advance [OF f i, where h = "cs_handlers s ! i"])
    show "live ?s + token_at i (f i) = live s + token_at i 1" using l f0 by (simp add: token_at_def)
    show "rh_step (cs_handlers s ! i) = step_at 1" using R(1) f0 by (simp add: step_at_def)
    show "main_ok n (f(i := 1)) (cs_main ?s)" using f0 i by auto
  qed (use f0 tpd in \<open>simp_all add: tasks_at_def handled_at_def\<close>)
  then show ?thesis unfolding s' using inv tpd unfolding cs_inv_def by auto
qed

lemma cs_main_inv:
  assumes inv: "cs_inv hw n s" shows "cs_inv hw n (cs_main_step n s)"
proof -
  obtain f where f: "cs_ranks n f s" and tp: "tp_inv (cs_pool s)"
    using inv by (rule cs_invE)
  have ok: "main_ok n f (cs_main s)" using f by (simp add: cs_ranks_def)
  show ?thesis
  proof (cases "cs_main s")
    case (Starting i)
    then show ?thesis using main_start [OF inv Starting] ok cs_inv_main [OF inv f, of "Waiting 0"]
      by (cases "i < n") (auto simp: cs_main_step_def)
  next
    case (Waiting i)
    have "cs_inv hw n (s\<lparr>cs_main := Waiting (Suc i)\<rparr>)" if "i < n" "cs_done s ! i"
      using ranks_fields(2) [OF f that(1)] that ok Waiting by (intro cs_inv_main [OF inv f]) (auto simp: less_Suc_eq)
    moreover have "cs_inv hw n (s\<lparr>cs_main := Draining\<rparr>)" if "\<not> i < n"
      using that ok Waiting by (intro cs_inv_main [OF inv f]) auto
    ultimately show ?thesis using Waiting inv by (simp add: cs_main_step_def)
  next
    case Draining
    show ?thesis
    proof (cases "tp_Drain (cs_pool s)")
      case None
      then show ?thesis using inv Draining by (simp add: cs_main_step_def)
    next
      case (Some p)
      have p: "tp_workers p = tp_workers (cs_pool s)" "tp_accepted p = tp_accepted (cs_pool s)" "tp_tasks p = tp_tasks (cs_pool s)"
        using Some by (auto simp: tp_Drain_def tp_Stop_def split: if_splits)
      have "cs_ranks n f (s\<lparr>cs_pool := p, cs_main := Joining\<rparr>)"
        by (rule cs_ranks_same [OF f]) (use ok Draining p in \<open>simp_all add: live_def\<close>)
      then show ?thesis using inv Draining Some p tp_inv_step [OF tp_step.drain [OF Some] tp]
        unfolding cs_inv_def by (auto simp: cs_main_step_def)
    qed
  next
    case Joining
    then show ?thesis using ok inv cs_inv_main [OF inv f, of Returned] by (simp add: cs_main_step_def)
  next
    case Returned
    then show ?thesis using inv by (simp add: cs_main_step_def)
  qed
qed

lemma cs_inv_initial: "cs_inv hw n (coro_main hw n)"
proof -
  have "cs_ranks n (\<lambda>_. 0) (coro_main hw n)"
  proof -
    have "(\<Sum>wp\<leftarrow>zip (replicate hw (Checking kInitialBackoff)) (replicate hw (0::nat)). worker_token wp) = {#}"
      by (induction hw) (simp_all add: worker_token_def)
    then show ?thesis
      by (simp add: cs_ranks_def coro_main_def ThreadPool_def live_def token_at_def step_at_def tasks_at_def handled_at_def RequestHandler_def)
  qed
  moreover have "tp_inv (ThreadPool hw)" by (rule tp_inv_reachable [OF rtranclp.rtrancl_refl])
  ultimately show ?thesis by (auto simp: cs_inv_def coro_main_def ThreadPool_def)
qed

lemma cs_reach_inv: "cs_reach hw n s \<Longrightarrow> cs_inv hw n s"
  by (induction rule: cs_reach.induct) (auto intro: cs_inv_initial cs_work_inv cs_main_inv)


section \<open>The runs of the example\<close>

text \<open>What the invariant says of the coroutines when nothing is left to run.\<close>

lemma running_no_token:
  assumes "cs_inv hw n s" "\<forall>w \<in> set (tp_workers (cs_pool s)). \<forall>t. w \<noteq> Running t" "tp_tasks (cs_pool s) = []"
  shows "live s = {#}"
proof -
  have "\<forall>x \<in> set (zip (tp_workers (cs_pool s)) (cs_phase s)). worker_token x = {#}"
    using assms(2) by (fastforce simp: worker_token_def dest: set_zip_leftD split: worker.split)
  then show ?thesis using assms(3) by (simp add: live_def sum_list_0 cong: map_cong)
qed

lemma live_empty_done:
  assumes "cs_ranks n f s" "live s = {#}" "i < n" "f i \<noteq> 0" shows "f i = 7"
proof -
  have "token_at i (f i) \<subseteq># live s"
    using assms(1,3) sum.remove [of "{..<n}" i "\<lambda>i. token_at i (f i)"] by (simp add: cs_ranks_def)
  then have "token_at i (f i) = {#}" using assms(2) by simp
  moreover have "f i \<le> 7" using assms(1,3) by (simp add: cs_ranks_def)
  ultimately show ?thesis using assms(4) by (auto simp: token_at_def split: if_splits)
qed

lemma returned_exited: "cs_reach hw n s \<Longrightarrow> cs_main s = Returned \<Longrightarrow> list_all (\<lambda>w. w = Exited) (tp_workers (cs_pool s))"
proof (induction rule: cs_reach.induct)
  case start
  then show ?case by (simp add: coro_main_def)
next
  case (work s w)
  have len: "w < length (tp_workers (cs_pool s))" using cs_reach_inv [OF work(1)] work(2) by (simp add: cs_inv_def)
  have "cs_main (cs_work w s) = cs_main s"
    by (simp add: cs_work_def resume_coro_def co_loop_def coroutine_end_def await_suspend_def Let_def
        split: worker.split coro_task.split)
  then have e: "list_all (\<lambda>w. w = Exited) (tp_workers (cs_pool s))" using work by simp
  then have "tp_workers (cs_pool s) ! w = Exited" using len by (simp add: list_all_length)
  then show ?case using e by (simp add: cs_work_def RunThread_def Let_def)
next
  case (main s)
  then show ?case
    by (cases "cs_main s")
      (auto simp: cs_main_step_def start_coroutine_def co_loop_def coroutine_end_def await_suspend_def Let_def split: if_splits option.splits)
qed

text \<open>
  C13. The example, for any number of coroutines, any number of workers and any interleaving: a flag is set only after
  its handler is done, by exactly two calls; at most four tasks per coroutine are accepted; no wake-up is lost: when the
  coroutines are started, the queue is empty and no worker is at a task, all coroutines have ended;
  and when \<open>main\<close> returns they all have, and exactly four tasks per coroutine were accepted and run.
\<close>

theorem coroutines_complete:
  assumes "cs_reach hw n s"
  shows "(\<forall>i<n. cs_done s ! i \<longrightarrow> rh_step (cs_handlers s ! i) = kDone \<and> count_list (cs_handled s) i = 2) \<and>
    length (tp_accepted (cs_pool s)) \<le> 4 * n \<and>
    (tp_tasks (cs_pool s) = [] \<and> (\<forall>w \<in> set (tp_workers (cs_pool s)). \<forall>t. w \<noteq> Running t) \<and> (\<forall>i. cs_main s \<noteq> Starting i)
      \<longrightarrow> (\<forall>i<n. cs_done s ! i)) \<and>
    (cs_main s = Returned \<longrightarrow> (\<forall>i<n. cs_done s ! i) \<and> length (tp_accepted (cs_pool s)) = 4 * n \<and>
      mset (tp_finished (cs_pool s)) = mset (tp_accepted (cs_pool s)))"
proof -
  have inv: "cs_inv hw n s" by (rule cs_reach_inv [OF assms])
  then obtain f where f: "cs_ranks n f s" and tp: "tp_inv (cs_pool s)" by (rule cs_invE)
  have d: "\<And>i. i < n \<Longrightarrow> cs_done s ! i \<longleftrightarrow> f i = 7" and acc: "length (tp_accepted (cs_pool s)) = (\<Sum>i<n. tasks_at (f i))"
    and m: "main_ok n f (cs_main s)" using f by (simp_all add: cs_ranks_def)
  have "rh_step (cs_handlers s ! i) = kDone \<and> count_list (cs_handled s) i = 2" if "i < n" "cs_done s ! i" for i
    using f that by (simp add: cs_ranks_def step_at_def handled_at_def)
  moreover have "length (tp_accepted (cs_pool s)) \<le> 4 * n"
  proof -
    have "tasks_at r \<le> 4" for r by (simp add: tasks_at_def)
    then show ?thesis using sum_bounded_above [of "{..<n}" "\<lambda>i. tasks_at (f i)" 4] acc by simp
  qed
  moreover have "\<forall>i<n. cs_done s ! i" if "tp_tasks (cs_pool s) = []" "\<forall>w \<in> set (tp_workers (cs_pool s)). \<forall>t. w \<noteq> Running t"
      "\<forall>i. cs_main s \<noteq> Starting i"
  proof (intro allI impI)
    fix i assume "i < n"
    moreover have "f i \<noteq> 0" using m that(3) \<open>i < n\<close> by (cases "cs_main s") auto
    ultimately show "cs_done s ! i" using live_empty_done [OF f running_no_token [OF inv that(2,1)]] d by blast
  qed
  moreover have "(\<forall>i<n. cs_done s ! i) \<and> length (tp_accepted (cs_pool s)) = 4 * n \<and>
      mset (tp_finished (cs_pool s)) = mset (tp_accepted (cs_pool s))" if r: "cs_main s = Returned"
  proof -
    have f7: "\<forall>i<n. f i = 7" using m r by simp
    then have "live s = {#}" using f by (simp add: cs_ranks_def token_at_def)
    then have "tp_tasks (cs_pool s) = []" by (simp add: live_def)
    moreover have "running_tasks (cs_pool s) = {#}"
      using returned_exited [OF assms r] by (auto simp: list_all_iff intro: running_tasks_exited)
    ultimately show ?thesis using tp f7 d acc by (simp add: tp_inv_def tasks_at_def)
  qed
  ultimately show ?thesis by blast
qed

text \<open>A run with one coroutine and one worker.\<close>

definition coro_run :: "nat list \<Rightarrow> coro_system" where
  "coro_run ws = foldl (\<lambda>s w. if w = 0 then cs_work 0 s else cs_main_step 1 s) (coro_main 1 1) ws"

lemma coro_run_reach: "cs_reach 1 1 (coro_run ws)"
  by (induction ws rule: rev_induct) (auto simp: coro_run_def intro: cs_reach.intros)

definition coro_trace :: "nat list" where
  "coro_trace = [1, 1] @ replicate 18 0 @ [1, 1, 1] @ replicate 4 0 @ [1]"

lemma coro_run_value: "cs_main (coro_run coro_trace) = Returned" "cs_names (coro_run coro_trace) =
    [''client0:Step::kFirst'', ''client0:resume'', ''client0:Step::kSecond'', ''client0:resume'']"
  by code_simp+

lemma coroutines_complete_witness:
  "cs_done (coro_run coro_trace) ! 0 \<and> mset (tp_finished (cs_pool (coro_run coro_trace))) = mset (tp_accepted (cs_pool (coro_run coro_trace)))"
  using coroutines_complete [OF coro_run_reach [of coro_trace]] coro_run_value(1) by simp



section \<open>The way to the end\<close>

definition cs_step :: "nat \<Rightarrow> nat \<Rightarrow> coro_system \<Rightarrow> coro_system \<Rightarrow> bool" where
  "cs_step hw n s s' \<longleftrightarrow> s' = cs_main_step n s \<or> (\<exists>w<hw. s' = cs_work w s)"

lemma cs_step_reach: "(cs_step hw n)\<^sup>*\<^sup>* s s' \<Longrightarrow> cs_reach hw n s \<Longrightarrow> cs_reach hw n s'"
  by (induction rule: rtranclp_induct) (auto simp: cs_step_def intro: cs_reach.intros)

fun main_left :: "nat \<Rightarrow> main_pc \<Rightarrow> nat" where
  "main_left n (Starting k) = 2 * n + 4 - k"
| "main_left n (Waiting k) = n + 3 - k"
| "main_left n Draining = 2"
| "main_left n Joining = 1"
| "main_left n Returned = 0"

text \<open>How far a worker is from its next task, and from its exit once the pool is stopped.\<close>

fun to_task :: "'t worker \<Rightarrow> nat" where
  "to_task (Running t) = 5"
| "to_task (Sleeping b) = 4"
| "to_task (Checking b) = 3"
| "to_task (Taking b) = 2"
| "to_task Exited = 0"

fun to_exit :: "'t worker \<Rightarrow> nat" where
  "to_exit (Taking b) = 3"
| "to_exit (Running t) = 2"
| "to_exit (Sleeping b) = 2"
| "to_exit (Checking b) = 1"
| "to_exit Exited = 0"

definition worker_left :: "coro_system \<Rightarrow> nat" where
  "worker_left s = (if tp_stopped (cs_pool s) then (\<Sum>w \<leftarrow> tp_workers (cs_pool s). to_exit w)
     else if \<exists>t. tp_workers (cs_pool s) ! 0 = Running t \<and> worker_token (Running t, cs_phase s ! 0) \<noteq> {#} then 0
     else to_task (tp_workers (cs_pool s) ! 0))"

definition stop_ok :: "coro_system \<Rightarrow> bool" where
  "stop_ok s \<longleftrightarrow> (tp_stopped (cs_pool s) \<longleftrightarrow> cs_main s = Joining \<or> cs_main s = Returned) \<and>
     (\<not> tp_stopped (cs_pool s) \<longrightarrow> Exited \<notin> set (tp_workers (cs_pool s)))"

lemma work_frame:
  "cs_main (cs_work w s) = cs_main s" "tp_stopped (cs_pool (cs_work w s)) = tp_stopped (cs_pool s)"
  by (simp_all add: cs_work_def resume_coro_def co_loop_def coroutine_end_def await_suspend_def cs_Enqueue_def Enqueue_def RunThread_def Let_def
        split: worker.split coro_task.split list.split)

lemma work_workers:
  "tp_workers (cs_pool (cs_work w s)) = tp_workers (cs_pool s) \<or> tp_workers (cs_pool (cs_work w s)) = tp_workers (RunThread w (cs_pool s))"
  by (simp add: cs_work_def resume_coro_def co_loop_def coroutine_end_def await_suspend_def cs_Enqueue_def Enqueue_def Let_def
        split: worker.split coro_task.split list.split)

lemma RunThread_not_exited:
  assumes "\<not> tp_stopped p" "Exited \<notin> set (tp_workers p)"
  shows "Exited \<notin> set (tp_workers (RunThread w p))"
  using assms by (auto simp: RunThread_def split: worker.splits list.splits dest!: set_update_subset_insert [THEN subsetD])

lemma stop_ok_reach: "cs_reach hw n s \<Longrightarrow> stop_ok s"
proof (induction rule: cs_reach.induct)
  case start
  then show ?case by (auto simp: stop_ok_def coro_main_def ThreadPool_def)
next
  case (work s w)
  then show ?case using work_workers [of w s] RunThread_not_exited [of "cs_pool s" w]
    by (auto simp: stop_ok_def work_frame)
next
  case (main s)
  then show ?case
    by (cases "cs_main s")
      (auto simp: stop_ok_def cs_main_step_def start_coroutine_def co_loop_def coroutine_end_def await_suspend_def cs_Enqueue_def Enqueue_def
        tp_Drain_def tp_Stop_def Let_def split: if_splits option.splits)
qed

lemma pot_bound: "cs_ranks n f s \<Longrightarrow> pot n s \<le> 7 * n"
  using sum_bounded_above [of "{..<n}" f 7] by (simp add: pot_ranks) (simp add: cs_ranks_def mult.commute)

definition left_rel :: "nat \<Rightarrow> (coro_system \<times> coro_system) set" where
  "left_rel n = measures [\<lambda>s. main_left n (cs_main s), \<lambda>s. 7 * n - pot n s, worker_left]"


lemma progress_idle:
  assumes r: "cs_reach hw n s" and w: "w < hw" and t: "worker_token (tp_workers (cs_pool s) ! w, cs_phase s ! w) = {#}"
    and l: "worker_left (cs_work w s) < worker_left s"
  shows "(cs_work w s, s) \<in> left_rel n"
proof -
  note inv = cs_reach_inv [OF r]
  have "tp_accepted (cs_pool (cs_work w s)) = tp_accepted (cs_pool s)"
    unfolding work_idle [OF t] using idle_live(2) [OF inv w t] by simp
  moreover have "cs_handled (cs_work w s) = cs_handled s" "cs_done (cs_work w s) = cs_done s" by (simp_all add: work_idle [OF t])
  ultimately have "pot n (cs_work w s) = pot n s" by (simp add: pot_def)
  then show ?thesis using l by (simp add: left_rel_def work_frame)
qed

lemma progress_worker:
  assumes r: "cs_reach hw n s" and hw: "0 < hw" and ns: "\<not> tp_stopped (cs_pool s)" and l: "live s \<noteq> {#}"
  shows "\<exists>w<hw. (cs_work w s, s) \<in> left_rel n"
proof (cases "\<exists>w<hw. worker_token (tp_workers (cs_pool s) ! w, cs_phase s ! w) \<noteq> {#}")
  case True
  then obtain w where w: "w < hw" "worker_token (tp_workers (cs_pool s) ! w, cs_phase s ! w) \<noteq> {#}" by blast
  note W = work_token [OF cs_reach_inv [OF r] w]
  obtain f where "cs_ranks n f (cs_work w s)" using W cs_invE by blast
  then have "pot n (cs_work w s) \<le> 7 * n" by (rule pot_bound)
  then have "(cs_work w s, s) \<in> left_rel n" using W by (auto simp: left_rel_def work_frame)
  then show ?thesis using w(1) by blast
next
  case False
  have len: "length (tp_workers (cs_pool s)) = hw" "length (cs_phase s) = hw" using cs_reach_inv [OF r] by (simp_all add: cs_inv_def)
  have "\<forall>x \<in> set (zip (tp_workers (cs_pool s)) (cs_phase s)). worker_token x = {#}"
    using False len by (auto simp: set_zip)
  then have "(\<Sum>wp \<leftarrow> zip (tp_workers (cs_pool s)) (cs_phase s). worker_token wp) = {#}" by (simp add: sum_list_0 cong: map_cong)
  then have q: "tp_tasks (cs_pool s) \<noteq> []" using l by (auto simp: live_def)
  have t: "worker_token (tp_workers (cs_pool s) ! 0, cs_phase s ! 0) = {#}" using False hw by blast
  have "tp_workers (cs_pool s) ! 0 \<noteq> Exited"
    using stop_ok_reach [OF r] ns nth_mem [of 0 "tp_workers (cs_pool s)"] len hw by (metis stop_ok_def)
  then have "worker_left (cs_work 0 s) < worker_left s"
    unfolding worker_left_def work_idle [OF t] using t q ns len hw
    by (cases "tp_workers (cs_pool s) ! 0"; cases "tp_tasks (cs_pool s)") (auto simp: RunThread_def worker_token_def split: coro_task.splits)
  from progress_idle [OF r hw t this] hw show ?thesis by blast
qed

lemma sum_list_update_less:
  fixes g :: "'a \<Rightarrow> nat"
  shows "i < length xs \<Longrightarrow> g v < g (xs ! i) \<Longrightarrow> (\<Sum>x \<leftarrow> xs[i := v]. g x) < (\<Sum>x \<leftarrow> xs. g x)"
proof (induction xs arbitrary: i)
  case (Cons a as)
  then show ?case by (cases i) auto
qed simp

lemma progress_joining:
  assumes r: "cs_reach hw n s" and st: "tp_stopped (cs_pool s)" and l: "live s = {#}" and w: "w < hw" "tp_workers (cs_pool s) ! w \<noteq> Exited"
  shows "(cs_work w s, s) \<in> left_rel n"
proof -
  have len: "length (tp_workers (cs_pool s)) = hw" "length (cs_phase s) = hw" using cs_reach_inv [OF r] by (simp_all add: cs_inv_def)
  have t: "worker_token (tp_workers (cs_pool s) ! w, cs_phase s ! w) = {#}"
    using worker_token_live [of w s] len w(1) l by (metis multiset_nonemptyE empty_iff set_mset_empty)
  have q: "tp_tasks (cs_pool s) = []" using l by (simp add: live_def)
  have "worker_left (cs_work w s) < worker_left s"
    unfolding worker_left_def work_idle [OF t] using st q w len
    by (cases "tp_workers (cs_pool s) ! w") (auto simp: RunThread_def intro!: sum_list_update_less)
  then show ?thesis by (rule progress_idle [OF r w(1) t])
qed

lemma cs_progress:
  assumes r: "cs_reach hw n s" and hw: "0 < hw" and m: "cs_main s \<noteq> Returned"
  shows "\<exists>s'. cs_step hw n s s' \<and> (s', s) \<in> left_rel n"
proof -
  have inv: "cs_inv hw n s" by (rule cs_reach_inv [OF r])
  obtain f where f: "cs_ranks n f s" using inv by (rule cs_invE)
  have ok: "main_ok n f (cs_main s)" and d: "\<And>i. i < n \<Longrightarrow> cs_done s ! i \<longleftrightarrow> f i = 7"
    and lv: "live s = (\<Sum>i<n. token_at i (f i))" and le: "\<And>i. i < n \<Longrightarrow> f i \<le> 7" using f by (simp_all add: cs_ranks_def)
  have main: ?thesis if "main_left n (cs_main (cs_main_step n s)) < main_left n (cs_main s)"
    using that by (auto simp: cs_step_def left_rel_def)
  have worker: ?thesis if "w < hw" "(cs_work w s, s) \<in> left_rel n" for w using that unfolding cs_step_def by blast
  have ended: "live s = {#}" if "\<forall>i<n. f i = 7" using that lv by (simp add: token_at_def)
  have stopped: "tp_stopped (cs_pool s) \<longleftrightarrow> cs_main s = Joining" using stop_ok_reach [OF r] m by (simp add: stop_ok_def)
  show ?thesis
  proof (cases "cs_main s")
    case (Starting k)
    then show ?thesis using ok by (intro main) (auto simp: cs_main_step_def)
  next
    case (Waiting k)
    show ?thesis
    proof (cases "k < n \<and> \<not> cs_done s ! k")
      case True
      then have "f k \<noteq> 7" "f k \<noteq> 0" using d ok Waiting by auto
      then have "live s \<noteq> {#}" using live_empty_done [OF f] True by blast
      then show ?thesis using progress_worker [OF r hw] stopped Waiting worker by auto
    next
      case False
      then show ?thesis using ok Waiting by (intro main) (auto simp: cs_main_step_def)
    qed
  next
    case Draining
    then have "tp_tasks (cs_pool s) = []" using ended ok by (simp add: live_def)
    then show ?thesis using Draining by (intro main) (simp add: cs_main_step_def tp_Drain_def)
  next
    case Joining
    have len: "length (tp_workers (cs_pool s)) = hw" using inv by (simp add: cs_inv_def)
    show ?thesis
    proof (cases "list_all (\<lambda>w. w = Exited) (tp_workers (cs_pool s))")
      case True
      then show ?thesis using Joining by (intro main) (simp add: cs_main_step_def)
    next
      case False
      then obtain w where w: "w < hw" "tp_workers (cs_pool s) ! w \<noteq> Exited" using len by (auto simp: list_all_length)
      show ?thesis using progress_joining [OF r _ _ w] stopped Joining ended ok by (intro worker [OF w(1)]) simp
    qed
  qed (use m in simp)
qed

text \<open>
  C14. The example never gets stuck: with at least one worker, from every state that any interleaving reaches
  some further steps of the workers and the main thread make \<open>main\<close> return.
\<close>

theorem coroutines_can_return:
  assumes "cs_reach hw n s" "0 < hw"
  shows "\<exists>s'. (cs_step hw n)\<^sup>*\<^sup>* s s' \<and> cs_main s' = Returned"
proof -
  have "wf (left_rel n)" by (simp add: left_rel_def)
  then show ?thesis using assms(1)
  proof (induction s rule: wf_induct_rule)
    case (less s)
    show ?case
    proof (cases "cs_main s = Returned")
      case False
      then obtain s' where s': "cs_step hw n s s'" "(s', s) \<in> left_rel n" using cs_progress [OF less(2) assms(2)] by blast
      have "cs_reach hw n s'" using cs_step_reach [OF r_into_rtranclp [of "cs_step hw n", OF s'(1)] less(2)] .
      then show ?thesis using less(1) [OF s'(2)] s'(1) by (meson converse_rtranclp_into_rtranclp)
    qed blast
  qed
qed

lemma coroutines_can_return_witness: "\<exists>s'. (cs_step 3 5)\<^sup>*\<^sup>* (cs_main_step 5 (coro_main 3 5)) s' \<and> cs_main s' = Returned"
  using coroutines_can_return [OF cs_reach.main [OF cs_reach.start], of 3 5] by simp

end
