(* ===== verification/Rmalloc_Heap.thy ===== *)
theory Rmalloc_Heap
  imports Rmalloc
begin

text \<open>
  The allocator in use: any number of threads, each with its own free lists, allocate from one arena through
  \<open>rdma_allocator\<close>, free in any order what any of them allocated, and write to their blocks. An operation is one step (the
  race for the head inside it is that of \<open>bump_step\<close>).
\<close>

section \<open>The steps\<close>

text \<open>\<open>hp_live\<close> has the blocks that were handed out and not freed, with the bytes that were asked for.\<close>

record heap =
  hp_arena :: arena
  hp_tls :: "nat \<Rightarrow> tls"
  hp_live :: "u64 \<rightharpoonup> u64"

definition heap_init :: "u64 \<Rightarrow> u64 \<Rightarrow> (u64 \<Rightarrow> u8) \<Rightarrow> heap" where
  "heap_init raw bytes mem = \<lparr>hp_arena = make_arena raw bytes mem, hp_tls = (\<lambda>_. fresh_tls), hp_live = Map.empty\<rparr>"

definition whole_class :: "u64 \<Rightarrow> bool" where
  "whole_class b \<longleftrightarrow> b \<in> set (map (\<lambda>k. 2 ^ k) [0..<21])"

definition allocated :: "heap \<Rightarrow> nat \<Rightarrow> u64 \<Rightarrow> arena \<Rightarrow> tls \<Rightarrow> u64 \<Rightarrow> heap" where
  "allocated s t b ar th p = s\<lparr>hp_arena := ar, hp_tls := (hp_tls s)(t := th), hp_live := (if p = 0 then hp_live s else (hp_live s)(p \<mapsto> b))\<rparr>"

inductive heap_step :: "bool \<Rightarrow> heap \<Rightarrow> heap \<Rightarrow> bool" for debug :: bool where
  heap_allocate: "whole_class (sizeof_T * n) \<Longrightarrow> ra_allocate debug (hp_arena s) (hp_tls s t) sizeof_T n = Ret (ar, th, p) \<Longrightarrow>
    heap_step debug s (allocated s t (sizeof_T * n) ar th p)"
| heap_deallocate: "hp_live s p = Some (sizeof_T * n) \<Longrightarrow> ra_deallocate (hp_tls s t) p sizeof_T n = Ret th \<Longrightarrow>
    heap_step debug s (s\<lparr>hp_tls := (hp_tls s)(t := th), hp_live := (hp_live s)(p := None)\<rparr>)"
| heap_write: "hp_live s p = Some b \<Longrightarrow> unat (a - p) < unat b \<Longrightarrow>
    heap_step debug s (s\<lparr>hp_arena := (hp_arena s)\<lparr>ar_mem := (ar_mem (hp_arena s))(a := v)\<rparr>\<rparr>)"

section \<open>Free lists of one alignment\<close>

definition thread_ok :: "tls \<Rightarrow> bool" where
  "thread_ok th \<longleftrightarrow> tls_ok th \<and> (\<forall>i < kNumSlabClasses. fst ` set (tl_freelists th ! i) \<subseteq> {64} \<and>
     tl_alignments th ! i = (if tl_freelists th ! i = [] then 0 else 64))"

lemma thread_ok_fresh: "thread_ok fresh_tls"
  by (simp add: thread_ok_def tls_ok_def fresh_tls_def del: replicate_Suc)

lemma whole_class_iff: "whole_class b \<longleftrightarrow> (\<exists>k \<le> 20. b = 2 ^ k)"
proof -
  have "k < 21 \<longleftrightarrow> k \<le> 20" for k :: nat by auto
  then show ?thesis by (simp add: whole_class_def image_iff Bex_def del: upt_rec_numeral)
qed

lemma pow2_class:
  assumes "k \<le> 20"
  shows "slab_class (2 ^ k) = Ret (max 3 k)"
proof -
  have u: "unat (2 ^ k :: u64) = 2 ^ k" using assms by (simp add: unat_pow2)
  have "(2::nat) ^ k \<le> 2 ^ 20" using assms by (intro power_increasing) simp_all
  moreover have "2 ^ k \<noteq> (0 :: u64)" using assms by simp
  ultimately obtain c where c: "slab_class (2 ^ k) = Ret c" "3 \<le> c" "(2::nat) ^ k \<le> 2 ^ c"
    "c = 3 \<or> (\<forall>r. (2::nat) ^ k \<le> 2 ^ r \<longrightarrow> c \<le> r)"
    using slab_class_ok [of "2 ^ k"] u by auto
  have "k \<le> c" using c(3) by simp
  moreover have "c = 3 \<or> c \<le> k" using c(4) by blast
  ultimately have "c = max 3 k" using c(2) by auto
  with c(1) show ?thesis by simp
qed

definition set_list :: "tls \<Rightarrow> nat \<Rightarrow> (u64 \<times> u64) list \<Rightarrow> tls" where
  "set_list th i fs = th\<lparr>tl_freelists := (tl_freelists th)[i := fs],
     tl_alignments := (tl_alignments th)[i := if fs = [] then 0 else 64]\<rparr>"

lemma set_list_ok: "thread_ok th \<Longrightarrow> fst ` set fs \<subseteq> {64} \<Longrightarrow> thread_ok (set_list th i fs)"
  by (cases "i < kNumSlabClasses") (auto simp: thread_ok_def tls_ok_def set_list_def nth_list_update)

lemma set_list_nth: "thread_ok th \<Longrightarrow> i < kNumSlabClasses \<Longrightarrow> tl_freelists (set_list th i fs) ! j = (if j = i then fs else tl_freelists th ! j)"
  by (auto simp: thread_ok_def tls_ok_def set_list_def)

text \<open>A request of \<open>2 ^ k\<close> bytes takes \<open>block_size k\<close> bytes of the arena.\<close>

definition block_size :: "nat \<Rightarrow> nat" where
  "block_size k = 2 ^ max 6 k"

lemma request_size: "k \<le> 20 \<Longrightarrow> (if 64 > (2 ^ k :: u64) then 64 else 2 ^ k) = (2 ^ max 6 k :: u64)"
proof -
  assume k: "k \<le> 20"
  then have u: "unat (2 ^ k :: u64) = 2 ^ k" by (simp add: unat_pow2)
  have p: "(2::nat) ^ k < 2 ^ 6 \<longleftrightarrow> k < 6" by (rule power_strict_increasing_iff) simp
  have "(2 ^ k :: u64) < 64 \<longleftrightarrow> k < 6" using p by (simp only: word_less_nat_alt u) simp
  then show ?thesis by (auto simp: max_def)
qed

lemma ra_allocate_pow2:
  assumes th: "thread_ok th" and k: "k \<le> 20" and b: "sizeof_T * n = 2 ^ k"
  shows "tl_freelists th ! (max 6 k - 3) = [] \<Longrightarrow>
      ra_allocate debug ar th sizeof_T n = (case bump ar (2 ^ max 6 k) 64 of (ar', d) \<Rightarrow> Ret (ar', th, d))"
    "tl_freelists th ! (max 6 k - 3) = (al, p) # fs \<Longrightarrow> ra_allocate debug ar th sizeof_T n =
      Ret (ar\<lparr>ar_mem := memset0 (ar_mem ar) p (block_size k)\<rparr>, set_list th (max 6 k - 3) fs, p)"
proof -
  let ?i = "max 6 k - 3"
  have c: "slab_class (2 ^ max 6 k) = Ret (max 6 k)" using pow2_class [of "max 6 k"] k by simp
  have i: "?i < kNumSlabClasses" using k by (auto simp: kNumSlabClasses_def kMaxSlabClass_def kMinSlabClass_def max_def)
  have al: "tl_alignments th ! ?i = (if tl_freelists th ! ?i = [] then 0 else 64)" "fst ` set (tl_freelists th ! ?i) \<subseteq> {64}"
    "?i < length (tl_alignments th)"
    using th i by (auto simp: thread_ok_def tls_ok_def)
  have mx: "(64::u64) \<le> kMaxAlignment" by (simp add: kMaxAlignment_def)
  note do_allocate = ra_allocate_def do_allocate_def b Let_def request_size [OF k] c kMinSlabClass_def
  show "ra_allocate debug ar th sizeof_T n = (case bump ar (2 ^ max 6 k) 64 of (ar', d) \<Rightarrow> Ret (ar', th, d))"
    if "tl_freelists th ! ?i = []" using that al(1) i mx by (simp add: do_allocate)
  show "ra_allocate debug ar th sizeof_T n =
      Ret (ar\<lparr>ar_mem := memset0 (ar_mem ar) p (block_size k)\<rparr>, set_list th ?i fs, p)"
    if f: "tl_freelists th ! ?i = (al, p) # fs"
  proof -
    have "al = 64" "tl_alignments th ! ?i = 64" using al f by auto
    moreover from this have "(tl_alignments th)[?i := 64] = tl_alignments th" by (metis list_update_id)
    ultimately show ?thesis using f i mx by (cases th; cases "fs = []") (simp_all add: do_allocate block_size_def set_list_def)
  qed
qed

lemma ra_deallocate_pow2:
  assumes "thread_ok th" "k \<le> 20" "sizeof_T * n = 2 ^ k"
  shows "ra_deallocate th p sizeof_T n = Ret (set_list th (max 3 k - 3) (tl_freelists th ! (max 3 k - 3) @ [(64, p)]))"
proof -
  have "max 3 k - 3 < kNumSlabClasses" using assms(2) by (auto simp: kNumSlabClasses_def kMaxSlabClass_def kMinSlabClass_def max_def)
  then have "tl_alignments th ! (max 3 k - 3) = 0 \<or> tl_alignments th ! (max 3 k - 3) = 64"
    using assms(1) by (auto simp: thread_ok_def)
  then have "ucast (ucast (tl_alignments th ! (max 3 k - 3)) OR (64 :: u64)) = (64 :: u8)" by auto
  moreover have "3 \<le> max 3 k" "max 3 k \<le> 20" using assms(2) by auto
  ultimately show ?thesis
    using do_deallocate_class [OF pow2_class [OF assms(2)], of th p 64] by (simp add: ra_deallocate_def assms(3) set_list_def)
qed

section \<open>Who has each block\<close>

text \<open>
  Every block that was ever cut off the arena is either in use, with the bytes that were asked for, or on one free list: that of a
  thread and a class.
\<close>

datatype slot = Used u64 | Unused nat nat

fun extent :: "slot \<Rightarrow> nat" where
  "extent (Used b) = max (unat b) 64"
| "extent (Unused t i) = max (2 ^ (i + 3)) 64"

definition blocks_ok :: "(u64 \<rightharpoonup> slot) \<Rightarrow> nat \<Rightarrow> nat \<Rightarrow> bool" where
  "blocks_ok own lo hi \<longleftrightarrow> (\<forall>p x. own p = Some x \<longrightarrow> lo \<le> unat p \<and> unat p + extent x \<le> hi \<and> unat p mod 64 = 0) \<and>
     (\<forall>p q x y. own p = Some x \<longrightarrow> own q = Some y \<longrightarrow> p \<noteq> q \<longrightarrow>
        unat p + extent x \<le> unat q \<or> unat q + extent y \<le> unat p)"

definition lists_ok :: "(u64 \<rightharpoonup> slot) \<Rightarrow> (nat \<Rightarrow> tls) \<Rightarrow> bool" where
  "lists_ok own ths \<longleftrightarrow> (\<forall>t. thread_ok (ths t) \<and> (\<forall>i < kNumSlabClasses. distinct (map snd (tl_freelists (ths t) ! i)) \<and>
     snd ` set (tl_freelists (ths t) ! i) = {p. own p = Some (Unused t i)}))"

definition heap_inv :: "u64 \<Rightarrow> nat \<Rightarrow> heap \<Rightarrow> bool" where
  "heap_inv raw hi s \<longleftrightarrow> ar_raw (hp_arena s) = raw \<and> raw \<le> ar_head (hp_arena s) \<and> unat (ar_head (hp_arena s)) \<le> hi \<and>
     (\<exists>own. blocks_ok own (unat (ar_head (hp_arena s))) hi \<and> lists_ok own (hp_tls s) \<and>
        (\<forall>p b. hp_live s p = Some b \<longleftrightarrow> own p = Some (Used b))) \<and>
     (\<forall>p b. hp_live s p = Some b \<longrightarrow> whole_class b)"

lemma blocks_ok_same: "blocks_ok own lo hi \<Longrightarrow> own p = Some x \<Longrightarrow> extent y = extent x \<Longrightarrow> blocks_ok (own(p \<mapsto> y)) lo hi"
  unfolding blocks_ok_def by (intro conjI allI impI) (auto split: if_splits)

lemma extent_pos: "0 < extent x"
  by (cases x) auto

lemma blocks_ok_new:
  assumes "blocks_ok own lo hi" "unat d + extent y \<le> lo" "lo \<le> hi" "unat d mod 64 = 0"
  shows "blocks_ok (own(d \<mapsto> y)) (unat d) hi" "own d = None"
proof -
  have "unat d < lo" using assms(2) extent_pos [of y] by linarith
  moreover have above: "own p = Some x \<Longrightarrow> lo \<le> unat p" for p x using assms(1) by (simp add: blocks_ok_def)
  ultimately show "own d = None" by (metis not_less option.exhaust)
  have "own p = Some x \<Longrightarrow> unat d + extent y \<le> unat p" "own p = Some x \<Longrightarrow> unat d \<le> unat p" for p x
    using above [of p x] assms(2) by linarith+
  then show "blocks_ok (own(d \<mapsto> y)) (unat d) hi"
    using assms unfolding blocks_ok_def by (intro conjI allI impI) (auto split: if_splits)
qed

lemma lists_ok_new: "lists_ok own ths \<Longrightarrow> own d = None \<Longrightarrow> lists_ok (own(d \<mapsto> Used b)) ths"
proof -
  assume "own d = None"
  then have "{p. (own(d \<mapsto> Used b)) p = Some (Unused t i)} = {p. own p = Some (Unused t i)}" for t i by auto
  then show "lists_ok own ths \<Longrightarrow> lists_ok (own(d \<mapsto> Used b)) ths" by (simp add: lists_ok_def)
qed

text \<open>A list of a thread changes, and the ownership with it.\<close>

lemma lists_ok_set:
  assumes "lists_ok own ths" "i < kNumSlabClasses" "fst ` set fs \<subseteq> {64}" "distinct (map snd fs)"
    and "\<And>q u j. own' q = Some (Unused u j) \<longleftrightarrow> (if u = t \<and> j = i then q \<in> snd ` set fs else own q = Some (Unused u j))"
  shows "lists_ok own' (ths(t := set_list (ths t) i fs))"
proof -
  have L: "thread_ok (ths u)" "j < kNumSlabClasses \<Longrightarrow> distinct (map snd (tl_freelists (ths u) ! j))"
    "j < kNumSlabClasses \<Longrightarrow> snd ` set (tl_freelists (ths u) ! j) = {q. own q = Some (Unused u j)}" for u j
    using assms(1) by (auto simp: lists_ok_def)
  have "{q. own' q = Some (Unused u j)} = (if u = t \<and> j = i then snd ` set fs else {q. own q = Some (Unused u j)})" for u j
    using assms(5) by auto
  then show ?thesis
    using L assms(2-4) set_list_ok [OF L(1) [of t] assms(3)] set_list_nth [OF L(1) [of t] assms(2), of fs]
    by (simp add: lists_ok_def)
qed

lemma lists_ok_pop:
  assumes "lists_ok own ths" "i < kNumSlabClasses" "tl_freelists (ths t) ! i = (al, p) # fs"
  shows "own p = Some (Unused t i)" "lists_ok (own(p \<mapsto> Used b)) (ths(t := set_list (ths t) i fs))"
proof -
  have L: "fst ` set ((al, p) # fs) \<subseteq> {64}" "distinct (map snd ((al, p) # fs))"
    "snd ` set ((al, p) # fs) = {q. own q = Some (Unused t i)}"
    using assms unfolding lists_ok_def by (metis thread_ok_def)+
  then show own: "own p = Some (Unused t i)" by auto
  have "own p = Some (Unused u j) \<longleftrightarrow> u = t \<and> j = i" for u j using own by auto
  moreover have "own q = Some (Unused t i) \<longleftrightarrow> q = p \<or> q \<in> snd ` set fs" for q using L(3) by auto
  ultimately show "lists_ok (own(p \<mapsto> Used b)) (ths(t := set_list (ths t) i fs))"
    using L(1,2) by (intro lists_ok_set [OF assms(1,2)]) auto
qed

lemma lists_ok_push:
  assumes "lists_ok own ths" "i < kNumSlabClasses" "own p = Some (Used b)"
  shows "lists_ok (own(p \<mapsto> Unused t i)) (ths(t := set_list (ths t) i (tl_freelists (ths t) ! i @ [(64, p)])))"
proof -
  let ?fs = "tl_freelists (ths t) ! i"
  have L: "fst ` set ?fs \<subseteq> {64}" "distinct (map snd ?fs)" "snd ` set ?fs = {q. own q = Some (Unused t i)}"
    using assms(1,2) unfolding lists_ok_def by (metis thread_ok_def)+
  have "own q = Some (Unused t i) \<longleftrightarrow> q \<in> snd ` set ?fs" for q using L(3) by auto
  moreover from this have "p \<notin> snd ` set ?fs" using assms(3) by (metis option.inject slot.distinct(1))
  ultimately show ?thesis
    using L(1,2) assms(3) by (intro lists_ok_set [OF assms(1,2)]) auto
qed

section \<open>The operations keep the invariant\<close>

lemma bump_block:
  assumes "2 ^ 20 + 256 \<le> unat (ar_raw ar)" "ar_raw ar \<le> ar_head ar" "k \<le> 20" "bump ar (2 ^ max 6 k) 64 = (ar', d)"
  shows "ar' = ar \<and> d = 0 \<or>
    ar' = ar\<lparr>ar_head := d\<rparr> \<and> d \<noteq> 0 \<and> ar_raw ar \<le> d \<and> unat d + block_size k \<le> unat (ar_head ar) \<and> unat d mod 64 = 0"
proof (cases "bump_target (ar_head ar) (2 ^ max 6 k) 64 < ar_raw ar")
  case True
  then show ?thesis using assms(4) by (simp add: bump_def)
next
  case False
  then have d: "d = bump_target (ar_head ar) (2 ^ max 6 k) 64" "ar' = ar\<lparr>ar_head := d\<rparr>" using assms(4) by (auto simp: bump_def Let_def)
  have u: "unat (2 ^ max 6 k :: u64) = block_size k" using assms(3) by (simp add: unat_pow2 block_size_def)
  have "block_size k \<le> 2 ^ 20" unfolding block_size_def using assms(3) by (intro power_increasing) auto
  moreover have "pow2_alignment 64" by (simp add: pow2_alignment_iff) (rule exI [of _ 6], simp)
  moreover have "2 ^ 20 + 256 \<le> unat (ar_head ar)" using assms(1,2) by (simp add: word_le_nat_alt)
  ultimately have t: "unat d + block_size k + unat (ar_head ar) mod 64 = unat (ar_head ar)" "(unat d + block_size k) mod 64 = 0"
    using bump_target_unat [of 64 "ar_head ar" "2 ^ max 6 k"] u by (simp_all add: d(1))
  have "max 6 k = 6 + (max 6 k - 6)" by simp
  then have "block_size k = 2 ^ 6 * 2 ^ (max 6 k - 6)" unfolding block_size_def by (metis power_add)
  then have "block_size k mod 64 = 0" by simp
  then have "unat d mod 64 = 0" using t(2) by (metis add_0_right mod_add_right_eq)
  moreover have "ar_raw ar \<le> d" using False d(1) by simp
  moreover from this have "d \<noteq> 0" using assms(1) by (auto simp: word_le_nat_alt)
  ultimately show ?thesis using d(2) t(1) by simp
qed

lemma in_block: "unat p + m \<le> hi \<Longrightarrow> hi < 2 ^ 64 \<Longrightarrow> unat (a - p) < m \<Longrightarrow> unat p \<le> unat a \<and> unat a < unat p + m" for a p :: u64
proof -
  assume m: "unat p + m \<le> hi" "hi < 2 ^ 64" "unat (a - p) < m"
  then have "unat ((a - p) + p) = unat (a - p) + unat p" by (intro unat_add_lem [THEN iffD1]) simp
  then show ?thesis using m by simp
qed

lemma memset_outside:
  assumes "blocks_ok own lo hi" "hi < 2 ^ 64" "own p = Some x" "own q = Some (Used b)" "p \<noteq> q" "unat (a - q) < unat b"
  shows "memset0 mem p (extent x) a = mem a"
proof -
  have "unat p + extent x \<le> hi" "unat q + extent (Used b) \<le> hi"
    "unat p + extent x \<le> unat q \<or> unat q + extent (Used b) \<le> unat p"
    using assms(1,3-5) unfolding blocks_ok_def by blast+
  moreover from this have "unat q \<le> unat a \<and> unat a < unat q + extent (Used b)" using in_block [of q "extent (Used b)" hi a] assms(2,6) by simp
  ultimately have "\<not> unat (a - p) < extent x" using in_block [of p "extent x" hi a] assms(2) by auto
  then show ?thesis by (simp add: memset0_def)
qed

lemma allocate_ok:
  assumes i: "heap_inv raw hi s" and raw: "2 ^ 20 + 256 \<le> unat raw" "hi < 2 ^ 64" and b: "whole_class (sizeof_T * n)"
  shows "\<exists>ar th p. ra_allocate debug (hp_arena s) (hp_tls s t) sizeof_T n = Ret (ar, th, p) \<and>
    heap_inv raw hi (allocated s t (sizeof_T * n) ar th p) \<and> (p \<noteq> 0 \<longrightarrow> hp_live s p = None) \<and>
    (\<forall>q c a. hp_live s q = Some c \<longrightarrow> unat (a - q) < unat c \<longrightarrow> ar_mem ar a = ar_mem (hp_arena s) a)"
proof -
  obtain k where k: "k \<le> 20" "sizeof_T * n = 2 ^ k" using b by (auto simp: whole_class_iff)
  let ?i = "max 6 k - 3" and ?ar = "hp_arena s"
  have u: "unat (2 ^ k :: u64) = 2 ^ k" using k(1) by (simp add: unat_pow2)
  have "(2::nat) ^ 6 \<le> 2 ^ k \<longleftrightarrow> 6 \<le> k" "(2::nat) ^ 6 \<le> 2 ^ max 6 k" by (rule power_increasing_iff, simp, intro power_increasing) simp_all
  then have e: "extent (Used (2 ^ k)) = block_size k" "extent (Unused t ?i) = block_size k" for t
    using u by (auto simp: block_size_def max_def)
  have idx: "?i < kNumSlabClasses" using k(1) by (auto simp: kNumSlabClasses_def kMaxSlabClass_def kMinSlabClass_def max_def)
  obtain own where r: "ar_raw ?ar = raw" "raw \<le> ar_head ?ar" "unat (ar_head ?ar) \<le> hi" and own: "blocks_ok own (unat (ar_head ?ar)) hi"
    "lists_ok own (hp_tls s)" "\<And>p b. hp_live s p = Some b \<longleftrightarrow> own p = Some (Used b)" and w: "\<forall>p b. hp_live s p = Some b \<longrightarrow> whole_class b"
    using i by (auto simp: heap_inv_def)
  have th: "thread_ok (hp_tls s t)" using own(2) by (simp add: lists_ok_def)
  show ?thesis
  proof (cases "tl_freelists (hp_tls s t) ! ?i")
    case Nil
    obtain ar d where d: "bump ?ar (2 ^ max 6 k) 64 = (ar, d)" by force
    have A: "ra_allocate debug ?ar (hp_tls s t) sizeof_T n = Ret (ar, hp_tls s t, d)"
      using ra_allocate_pow2(1) [OF th k Nil] d by simp
    consider "ar = ?ar" "d = 0" | "ar = ?ar\<lparr>ar_head := d\<rparr>" "d \<noteq> 0" "raw \<le> d" "unat d + block_size k \<le> unat (ar_head ?ar)" "unat d mod 64 = 0"
      using bump_block [OF _ _ k(1) d] raw(1) r by auto
    then show ?thesis
    proof cases
      case 1
      then show ?thesis using A i by (simp add: allocated_def)
    next
      case 2
      have new: "blocks_ok (own(d \<mapsto> Used (2 ^ k))) (unat d) hi" "own d = None"
        using blocks_ok_new [OF own(1) _ r(3) 2(5), of "Used (2 ^ k)"] 2(4) e(1) by simp_all
      have "heap_inv raw hi (allocated s t (2 ^ k) ar (hp_tls s t) d)"
        unfolding heap_inv_def
        using r 2 new(1) own(3) w b k(2) lists_ok_new [OF own(2) new(2), of "2 ^ k"]
        by (auto simp: allocated_def intro!: exI [of _ "own(d \<mapsto> Used (2 ^ k))"])
      then show ?thesis using A 2(1) own(3) new(2) k(2) by (cases "hp_live s d") auto
    qed
  next
    case (Cons x fs)
    obtain al p where x: "x = (al, p)" by force
    note pop = lists_ok_pop [OF own(2) idx Cons [unfolded x]]
    have A: "ra_allocate debug ?ar (hp_tls s t) sizeof_T n =
        Ret (?ar\<lparr>ar_mem := memset0 (ar_mem ?ar) p (block_size k)\<rparr>, set_list (hp_tls s t) ?i fs, p)"
      using ra_allocate_pow2(2) [OF th k Cons [unfolded x]] .
    have "unat (ar_head ?ar) \<le> unat p" using own(1) pop(1) by (auto simp: blocks_ok_def)
    then have "p \<noteq> 0" using r(2) raw(1) by (auto simp: word_le_nat_alt)
    moreover have "blocks_ok (own(p \<mapsto> Used (2 ^ k))) (unat (ar_head ?ar)) hi"
      using blocks_ok_same [OF own(1) pop(1)] e by simp
    ultimately have "heap_inv raw hi (allocated s t (2 ^ k) (?ar\<lparr>ar_mem := memset0 (ar_mem ?ar) p (block_size k)\<rparr>) (set_list (hp_tls s t) ?i fs) p)"
      unfolding heap_inv_def using r own(3) w b k(2) pop(2) [of "2 ^ k"]
      by (auto simp: allocated_def intro!: exI [of _ "own(p \<mapsto> Used (2 ^ k))"])
    moreover have "hp_live s p = None" using own(3) [of p] pop(1) by (cases "hp_live s p") auto
    moreover have "memset0 (ar_mem ?ar) p (block_size k) a = ar_mem ?ar a" if "hp_live s q = Some c" "unat (a - q) < unat c" for q c a
      using memset_outside [OF own(1) raw(2) pop(1), of q c a] that own(3) pop(1) e(2) by (cases "p = q") auto
    ultimately show ?thesis using A k(2) by auto
  qed
qed

lemma deallocate_ok:
  assumes i: "heap_inv raw hi s" and p: "hp_live s p = Some (sizeof_T * n)"
  shows "\<exists>th. ra_deallocate (hp_tls s t) p sizeof_T n = Ret th \<and>
    heap_inv raw hi (s\<lparr>hp_tls := (hp_tls s)(t := th), hp_live := (hp_live s)(p := None)\<rparr>)"
proof -
  obtain own where r: "ar_raw (hp_arena s) = raw" "raw \<le> ar_head (hp_arena s)" "unat (ar_head (hp_arena s)) \<le> hi"
    and own: "blocks_ok own (unat (ar_head (hp_arena s))) hi" "lists_ok own (hp_tls s)" "\<And>p b. hp_live s p = Some b \<longleftrightarrow> own p = Some (Used b)"
    and w: "\<forall>p b. hp_live s p = Some b \<longrightarrow> whole_class b"
    using i by (auto simp: heap_inv_def)
  obtain k where k: "k \<le> 20" "sizeof_T * n = 2 ^ k" using w p by (auto simp: whole_class_iff)
  let ?i = "max 3 k - 3"
  let ?own = "own(p \<mapsto> Unused t ?i)" and ?th = "set_list (hp_tls s t) ?i (tl_freelists (hp_tls s t) ! ?i @ [(64, p)])"
  have idx: "?i < kNumSlabClasses" using k(1) by (auto simp: kNumSlabClasses_def kMaxSlabClass_def kMinSlabClass_def max_def)
  have u: "own p = Some (Used (2 ^ k))" using own(3) p k(2) by simp
  have "(2::nat) ^ k \<le> 2 ^ 6 \<longleftrightarrow> k \<le> 6" by (rule power_increasing_iff) simp
  then have "extent (Unused t ?i) = extent (Used (2 ^ k))" using k(1) by (auto simp: unat_pow2 max_def)
  then have "blocks_ok ?own (unat (ar_head (hp_arena s))) hi" by (rule blocks_ok_same [OF own(1) u])
  moreover have "lists_ok ?own ((hp_tls s)(t := ?th))" by (rule lists_ok_push [OF own(2) idx u])
  moreover have "((hp_live s)(p := None)) q = Some c \<longleftrightarrow> ?own q = Some (Used c)" for q c using own(3) by auto
  ultimately have "heap_inv raw hi (s\<lparr>hp_tls := (hp_tls s)(t := ?th), hp_live := (hp_live s)(p := None)\<rparr>)"
    unfolding heap_inv_def using r w own(3) by (auto intro!: exI [of _ ?own] split: if_splits)
  moreover have "thread_ok (hp_tls s t)" using own(2) by (simp add: lists_ok_def)
  ultimately show ?thesis using ra_deallocate_pow2 [OF _ k] by blast
qed

lemma heap_step_inv:
  assumes "heap_step debug s s'" "heap_inv raw hi s" "2 ^ 20 + 256 \<le> unat raw" "hi < 2 ^ 64"
  shows "heap_inv raw hi s'"
  using assms
proof (cases rule: heap_step.cases)
  case (heap_allocate sizeof_T n t ar th p)
  then show ?thesis using allocate_ok [OF assms(2-4) heap_allocate(2), of debug t] by simp
next
  case (heap_deallocate p sizeof_T n t th)
  then show ?thesis using deallocate_ok [OF assms(2) heap_deallocate(2), of t] by simp
next
  case (heap_write p b a v)
  then show ?thesis using assms(2) by (simp add: heap_inv_def)
qed

lemma unat_u64_less: "unat (x :: u64) < 2 ^ 64"
  using unsigned_less [of x] by simp

lemma heap_init_inv: "raw \<le> raw + bytes \<Longrightarrow> heap_inv raw (unat (raw + bytes)) (heap_init raw bytes mem)"
  unfolding heap_inv_def
  by (auto simp: heap_init_def make_arena_def blocks_ok_def lists_ok_def thread_ok_fresh intro!: exI [of _ Map.empty])
    (simp_all add: fresh_tls_def del: replicate_Suc)

lemma heap_reachable_inv:
  assumes "(heap_step debug)\<^sup>*\<^sup>* (heap_init raw bytes mem) s" "2 ^ 20 + 256 \<le> unat raw" "raw \<le> raw + bytes"
  shows "heap_inv raw (unat (raw + bytes)) s"
  using assms(1) by (induction rule: rtranclp_induct) (auto intro: heap_init_inv [OF assms(3)] heap_step_inv [OF _ _ assms(2) unat_u64_less])

section \<open>Properties\<close>

text \<open>
  C9. As long as every request has a power of two of bytes, the allocator is sound, whatever threads allocate, free
  and write in whatever order: the blocks in use lie in the arena at multiples of 64 and do not overlap; every further request is
  answered, by a null pointer or a block that is not in use, without a change to the contents of those in use; and
  each of them can be freed by any thread.
\<close>

theorem allocator_sound:
  assumes "(heap_step debug)\<^sup>*\<^sup>* (heap_init raw bytes mem) s" "2 ^ 20 + 256 \<le> unat raw" "raw \<le> raw + bytes"
  shows "(\<forall>p b. hp_live s p = Some b \<longrightarrow> raw \<le> p \<and> unat p + unat b \<le> unat (raw + bytes) \<and> unat p mod 64 = 0) \<and>
    (\<forall>p q b c. hp_live s p = Some b \<longrightarrow> hp_live s q = Some c \<longrightarrow> p \<noteq> q \<longrightarrow> disjoint_blocks (p, b) (q, c)) \<and>
    (\<forall>t sizeof_T n. whole_class (sizeof_T * n) \<longrightarrow>
      (\<exists>ar th p. ra_allocate debug (hp_arena s) (hp_tls s t) sizeof_T n = Ret (ar, th, p) \<and> (p \<noteq> 0 \<longrightarrow> hp_live s p = None) \<and>
         (\<forall>q c a. hp_live s q = Some c \<longrightarrow> unat (a - q) < unat c \<longrightarrow> ar_mem ar a = ar_mem (hp_arena s) a))) \<and>
    (\<forall>t p sizeof_T n. hp_live s p = Some (sizeof_T * n) \<longrightarrow> (\<exists>th. ra_deallocate (hp_tls s t) p sizeof_T n = Ret th))"
proof (intro conjI)
  note i = heap_reachable_inv [OF assms]
  then obtain own where own: "blocks_ok own (unat (ar_head (hp_arena s))) (unat (raw + bytes))" "raw \<le> ar_head (hp_arena s)"
    "\<And>p b. hp_live s p = Some b \<Longrightarrow> own p = Some (Used b)"
    by (auto simp: heap_inv_def)
  have B: "unat raw \<le> unat p" "unat p + extent (Used b) \<le> unat (raw + bytes)" "unat p mod 64 = 0"
    if "hp_live s p = Some b" for p b
    using own(1,2) own(3) [OF that] unfolding blocks_ok_def by (force simp: word_le_nat_alt)+
  show "\<forall>p b. hp_live s p = Some b \<longrightarrow> raw \<le> p \<and> unat p + unat b \<le> unat (raw + bytes) \<and> unat p mod 64 = 0"
    using B by (fastforce simp: word_le_nat_alt)
  have D: "unat p + extent (Used b) \<le> unat q \<or> unat q + extent (Used c) \<le> unat p"
    if "hp_live s p = Some b" "hp_live s q = Some c" "p \<noteq> q" for p q b c
    using own(1) own(3) [OF that(1)] own(3) [OF that(2)] that(3) unfolding blocks_ok_def by blast
  show "\<forall>p q b c. hp_live s p = Some b \<longrightarrow> hp_live s q = Some c \<longrightarrow> p \<noteq> q \<longrightarrow> disjoint_blocks (p, b) (q, c)"
    using D by (fastforce simp: disjoint_blocks_def)
  show "\<forall>t sizeof_T n. whole_class (sizeof_T * n) \<longrightarrow>
      (\<exists>ar th p. ra_allocate debug (hp_arena s) (hp_tls s t) sizeof_T n = Ret (ar, th, p) \<and> (p \<noteq> 0 \<longrightarrow> hp_live s p = None) \<and>
         (\<forall>q c a. hp_live s q = Some c \<longrightarrow> unat (a - q) < unat c \<longrightarrow> ar_mem ar a = ar_mem (hp_arena s) a))"
    using allocate_ok [OF i assms(2)] unat_u64_less [of "raw + bytes"] by simp blast
  show "\<forall>t p sizeof_T n. hp_live s p = Some (sizeof_T * n) \<longrightarrow> (\<exists>th. ra_deallocate (hp_tls s t) p sizeof_T n = Ret th)"
    using deallocate_ok [OF i] by blast
qed

lemma first_allocation:
  "ra_allocate True (make_arena 0x200000 0x200000 (\<lambda>_. 1)) fresh_tls 128 1 =
    Ret (make_arena 0x200000 0x1FFF80 (\<lambda>_. 1), fresh_tls, 0x3FFF80)"
proof -
  have "tl_freelists fresh_tls ! (max 6 7 - 3) = []"
    by (simp add: fresh_tls_def kNumSlabClasses_def kMaxSlabClass_def kMinSlabClass_def)
  from ra_allocate_pow2(1) [OF thread_ok_fresh _ _ this, of 128 1 True "make_arena 0x200000 0x200000 (\<lambda>_. 1)"]
  show ?thesis by (simp add: bump_def bump_target_def make_arena_def)
qed

lemma allocator_sound_witness:
  "\<exists>s ar th p. (heap_step True)\<^sup>*\<^sup>* (heap_init 0x200000 0x200000 (\<lambda>_. 1)) s \<and> hp_live s 0x3FFF80 = Some 128 \<and>
    ra_allocate True (hp_arena s) (hp_tls s 3) 8 4 = Ret (ar, th, p) \<and> p \<noteq> 0x3FFF80 \<and> ar_mem ar 0x3FFFFF = ar_mem (hp_arena s) 0x3FFFFF"
proof -
  let ?s = "allocated (heap_init 0x200000 0x200000 (\<lambda>_. 1)) 0 (128 * 1) (make_arena 0x200000 0x1FFF80 (\<lambda>_. 1)) fresh_tls 0x3FFF80"
  have w: "whole_class (128 * 1)" "whole_class (8 * 4)"
    by (simp_all add: whole_class_iff) (rule exI [of _ 7], simp, rule exI [of _ 5], simp)
  have "heap_step True (heap_init 0x200000 0x200000 (\<lambda>_. 1)) ?s"
    by (rule heap_allocate [OF w(1)]) (simp add: heap_init_def first_allocation)
  then have r: "(heap_step True)\<^sup>*\<^sup>* (heap_init 0x200000 0x200000 (\<lambda>_. 1)) ?s" by blast
  have l: "hp_live ?s 0x3FFF80 = Some 128" by (simp add: allocated_def)
  have "(\<exists>ar th p. ra_allocate True (hp_arena ?s) (hp_tls ?s 3) 8 4 = Ret (ar, th, p) \<and> (p \<noteq> 0 \<longrightarrow> hp_live ?s p = None) \<and>
         (\<forall>q c a. hp_live ?s q = Some c \<longrightarrow> unat (a - q) < unat c \<longrightarrow> ar_mem ar a = ar_mem (hp_arena ?s) a))"
    using allocator_sound [OF r] w(2) by simp
  then obtain ar th p where a: "ra_allocate True (hp_arena ?s) (hp_tls ?s 3) 8 4 = Ret (ar, th, p)" "p \<noteq> 0 \<longrightarrow> hp_live ?s p = None"
    "\<And>q c a. hp_live ?s q = Some c \<Longrightarrow> unat (a - q) < unat c \<Longrightarrow> ar_mem ar a = ar_mem (hp_arena ?s) a" by blast
  have "p \<noteq> 0x3FFF80" using a(2) l by auto
  moreover have "ar_mem ar 0x3FFFFF = ar_mem (hp_arena ?s) 0x3FFFFF" by (rule a(3) [OF l]) simp
  ultimately show ?thesis using r l a(1) by blast
qed

lemma do_allocate_first:
  assumes "al \<le> b" "al \<le> kMaxAlignment" "slab_class b = Ret c" "c - 3 < kNumSlabClasses"
    and "ucast (tl_alignments th ! (c - 3)) AND al \<noteq> 0" "tl_freelists th ! (c - 3) = (al, p) # fs"
  shows "\<exists>th'. do_allocate debug ar th b al = Ret (ar\<lparr>ar_mem := memset0 (ar_mem ar) p (2 ^ c)\<rparr>, th', p)"
proof -
  have "\<not> b < al" using assms(1) by simp
  then show ?thesis using assms(2-6) by (simp add: do_allocate_def Let_def kMinSlabClass_def)
qed

text \<open>
  C25. Without that condition blocks overlap: a block of \<open>b\<close> bytes that is freed serves a request of more bytes as long as the
  two round up to the same power of two. The new block then reaches into the one that was allocated before the freed one, and clears
  its first byte at least.
\<close>

theorem reuse_overlaps:
  assumes "thread_ok th" "tl_freelists th ! (c - 3) = []" "slab_class b = Ret c" "slab_class b' = Ret c"
    and b: "64 \<le> b" "b < b'" "unat b' \<le> 2 ^ 20"
    and ar: "2 ^ 20 + 256 \<le> unat (ar_raw ar)" "unat (ar_raw ar) + unat b \<le> unat (ar_head ar)" "unat (ar_head ar) mod 64 = 0"
  shows "\<exists>ar1 p th2 ar2 th3. ra_allocate debug ar th 1 b = Ret (ar1, th, p) \<and> ar_raw ar \<le> p \<and> unat p + unat b = unat (ar_head ar) \<and>
    ra_deallocate th p 1 b = Ret th2 \<and> ra_allocate debug ar1 th2 1 b' = Ret (ar2, th3, p) \<and>
    unat (ar_head ar) < unat p + unat b' \<and> ar_mem ar2 (ar_head ar) = 0"
proof -
  have n0: "b \<noteq> 0" "b' \<noteq> 0" using b by auto
  have bu: "unat b < unat b'" "unat b \<le> 2 ^ 20" using b by (simp_all add: word_less_nat_alt)
  have c: "3 \<le> c" "c \<le> 20" "unat b' \<le> 2 ^ c" using slab_class_ok [OF n0(2) b(3)] assms(4) by auto
  have idx: "c - 3 < kNumSlabClasses" using c by (auto simp: kNumSlabClasses_def kMaxSlabClass_def kMinSlabClass_def)
  have al: "tl_alignments th ! (c - 3) = 0" "length (tl_alignments th) = kNumSlabClasses" "length (tl_freelists th) = kNumSlabClasses"
    using assms(1,2) idx by (auto simp: thread_ok_def tls_ok_def)
  have mx: "(64::u64) \<le> kMaxAlignment" "pow2_alignment 64" by (simp add: kMaxAlignment_def, simp add: pow2_alignment_iff) (rule exI [of _ 6], simp)
  define p where "p = bump_target (ar_head ar) b 64"
  have "2 ^ 20 + 256 \<le> unat (ar_head ar)" using ar(1,2) by linarith
  then have p: "unat p + unat b = unat (ar_head ar)" using bump_target_unat(1) [OF mx(2) _ bu(2), of "ar_head ar"] ar(3) by (simp add: p_def)
  have raw: "ar_raw ar \<le> p" using p ar(2) by (simp add: word_le_nat_alt)
  then have "\<not> p < ar_raw ar" by simp
  then have "bump ar b 64 = (ar\<lparr>ar_head := p\<rparr>, p)" by (simp add: bump_def p_def [symmetric] Let_def)
  then have 1: "ra_allocate debug ar th 1 b = Ret (ar\<lparr>ar_head := p\<rparr>, th, p)"
    using do_allocate_bump [OF n0(1) bu(2) b(1) mx(1) assms(3), of th debug ar] al(1) by (simp add: ra_allocate_def)
  let ?th = "th\<lparr>tl_alignments := (tl_alignments th)[c - 3 := ucast (ucast (tl_alignments th ! (c - 3)) OR (64 :: u64))],
    tl_freelists := (tl_freelists th)[c - 3 := tl_freelists th ! (c - 3) @ [(64, p)]]\<rparr>"
  have 2: "ra_deallocate th p 1 b = Ret ?th" using do_deallocate_class [OF assms(3) c(1,2)] by (simp add: ra_deallocate_def)
  have "64 \<le> b'" using b(1,2) by simp
  then obtain th3 where 3: "ra_allocate debug (ar\<lparr>ar_head := p\<rparr>) ?th 1 b' =
      Ret ((ar\<lparr>ar_head := p\<rparr>)\<lparr>ar_mem := memset0 (ar_mem (ar\<lparr>ar_head := p\<rparr>)) p (2 ^ c)\<rparr>, th3, p)"
    using do_allocate_first [OF _ mx(1) assms(4) idx, of ?th p "[]" debug "ar\<lparr>ar_head := p\<rparr>"] al idx assms(2)
    by (auto simp: ra_allocate_def)
  have "unat (p + b) = unat (ar_head ar)" using p unat_u64_less [of "ar_head ar"] by (subst unat_add_lem [THEN iffD1]) simp_all
  then have "ar_head ar = p + b" by (simp add: word_unat_eq_iff)
  then have "unat (ar_head ar - p) < 2 ^ c" using bu(1) c(3) by simp
  then have 4: "ar_mem ((ar\<lparr>ar_head := p\<rparr>)\<lparr>ar_mem := memset0 (ar_mem (ar\<lparr>ar_head := p\<rparr>)) p (2 ^ c)\<rparr>) (ar_head ar) = 0"
    by (simp add: memset0_def)
  have 5: "unat (ar_head ar) < unat p + unat b'" using p bu(1) by linarith
  show ?thesis by (intro exI conjI) (rule 1, rule raw, rule p, rule 2, rule 3, rule 5, rule 4)
qed

lemma reuse_overlaps_witness:
  "\<exists>ar1 p th2 ar2 th3. ra_allocate True (make_arena 0x200000 0x1FFF80 (\<lambda>_. 1)) fresh_tls 1 72 = Ret (ar1, fresh_tls, p) \<and>
    unat p + 72 = 0x3FFF80 \<and> ra_deallocate fresh_tls p 1 72 = Ret th2 \<and> ra_allocate True ar1 th2 1 120 = Ret (ar2, th3, p) \<and> ar_mem ar2 0x3FFF80 = 0"
proof -
  have c: "slab_class 72 = Ret 7" "slab_class 120 = Ret 7" by code_simp+
  have "tl_freelists fresh_tls ! (7 - 3) = []" by (simp add: fresh_tls_def kNumSlabClasses_def kMaxSlabClass_def kMinSlabClass_def)
  from reuse_overlaps [OF thread_ok_fresh this c, of "make_arena 0x200000 0x1FFF80 (\<lambda>_. 1)" True]
  show ?thesis by (simp add: make_arena_def) blast
qed

end
