(* ===== verification/Rmalloc_Shared.thy ===== *)
theory Rmalloc_Shared
  imports Rmalloc_Heap Rdma_Memory
begin

text \<open>
  Several memory resources in one process: the constructor of \<open>rdma_memory_resource\<close> over the registered memory of
  \<open>Rdma_Memory\<close>, and what follows from free lists that belong to the thread and not to a resource.
\<close>

section \<open>The resource\<close>

record memory_resource =
  rs_memory :: rdma_memory
  rs_arena :: arena

text \<open>
  The file of huge pages and the contents of the new memory are arguments. The constructor clears the alignments of the calling
  thread, and not its lists.
\<close>

definition rdma_memory_resource ::
  "(nat \<Rightarrow> nat \<Rightarrow> int \<Rightarrow> (u32 \<times> u32) option) \<Rightarrow> (u64 \<Rightarrow> nat option) \<Rightarrow> (u64 \<Rightarrow> nat option) \<Rightarrow> string option \<Rightarrow> (u64 \<Rightarrow> u8) \<Rightarrow>
    u64 \<Rightarrow> nat \<Rightarrow> tls \<Rightarrow> (memory_resource \<times> tls) outcome" where
  "rdma_memory_resource reg_mr aligned_alloc mmap file mem bytes pd th =
     bindO (RdmaMemory reg_mr aligned_alloc mmap bytes (Some (''/proc/sys/vm/nr_hugepages'', file)) pd) (\<lambda>rm.
       Ret (\<lparr>rs_memory = rm, rs_arena = make_arena (of_nat (rm_raw rm)) bytes mem\<rparr>,
            th\<lparr>tl_alignments := replicate kNumSlabClasses 0\<rparr>))"

definition rs_mr :: "memory_resource \<Rightarrow> mem_region outcome" where
  "rs_mr r = GetDefaultMemoryRegion (rs_memory r)"

section \<open>Blocks of another resource\<close>

lemma rdma_memory_resource_Ret:
  "rdma_memory_resource reg_mr aligned_alloc mmap file mem bytes pd th = Ret (r, th') \<Longrightarrow>
   th' = th\<lparr>tl_alignments := replicate kNumSlabClasses 0\<rparr> \<and> ar_mem (rs_arena r) = mem \<and>
   ar_raw (rs_arena r) = of_nat (rm_raw (rs_memory r)) \<and> ar_head (rs_arena r) = ar_raw (rs_arena r) + bytes \<and> regions_ok (rs_memory r)"
  unfolding rdma_memory_resource_def by (auto simp: bindO_eq_Ret make_arena_def dest: RdmaMemory_ok)

text \<open>A block that is freed is the first of its list, and the list is marked.\<close>

lemma deallocate_marks:
  assumes "slab_class b = Ret c" "3 \<le> c" "c \<le> 20" "tls_ok th"
  shows "\<exists>th'. ra_deallocate th p 1 b = Ret th' \<and> tls_ok th' \<and> ucast (tl_alignments th' ! (c - 3)) AND (64 :: u64) \<noteq> 0 \<and>
    tl_freelists th' ! (c - 3) = tl_freelists th ! (c - 3) @ [(64, p)]"
proof -
  have "c - 3 < kNumSlabClasses" using assms(2,3) by (auto simp: kNumSlabClasses_def kMaxSlabClass_def kMinSlabClass_def)
  moreover have "ucast (ucast (ucast A OR (64 :: u64)) :: u8) AND (64 :: u64) \<noteq> 0" for A :: u8
    using alignment_bit [of 6 A] by simp
  ultimately show ?thesis using do_deallocate_class [OF assms(1-3), of th p 64] assms(4)
    by (simp add: ra_deallocate_def tls_ok_def)
qed



end
