(* ===== verification/Variant_Visit.thy ===== *)
theory Variant_Visit
  imports Rome_Prelude
begin

text \<open>
  The replacement of \<open>std::visit\<close> in \<open>rome/util/variant_util.h\<close>. A variant of \<open>va_size\<close> alternatives holds
  the value of one of them, or, after an assignment that failed, none. The overloads that the
  visitors form are a function from the number of an alternative and its value to the result.
\<close>

record 'a variant =
  va_size :: nat
  va_index :: "nat option"
  va_value :: 'a

definition variant_ok :: "'a variant \<Rightarrow> bool" where
  "variant_ok v \<longleftrightarrow> (\<exists>i. va_index v = Some i \<and> i < va_size v)"

text \<open>The recursion over the template parameter. What follows the last test is an endless loop.\<close>

fun visit_from :: "nat \<Rightarrow> 'a variant \<Rightarrow> (nat \<Rightarrow> 'a \<Rightarrow> 'r) \<Rightarrow> 'r option" where
  "visit_from 0 var vis = (if va_index var = Some 0 then Some (vis 0 (va_value var)) else None)"
| "visit_from (Suc n) var vis =
     (if va_index var = Some (Suc n) then Some (vis (Suc n) (va_value var)) else visit_from n var vis)"

text \<open>Each visitor has an overload for some alternatives; \<open>overload\<close> has those of all of them.\<close>

type_synonym ('a, 'r) variant_visitor = "nat \<Rightarrow> ('a \<Rightarrow> 'r) option"

fun overload :: "('a, 'r) variant_visitor list \<Rightarrow> ('a, 'r) variant_visitor" where
  "overload [] i = None"
| "overload (f # fs) i = (case f i of None \<Rightarrow> overload fs i | Some g \<Rightarrow> Some g)"

text \<open>
  The program is compiled only if every alternative is covered (and no two visitors take the same one).
\<close>

definition well_formed_call :: "'a variant \<Rightarrow> ('a, 'r) variant_visitor list \<Rightarrow> bool" where
  "well_formed_call var visitors \<longleftrightarrow> 0 < va_size var \<and>
     (\<forall>i < va_size var. length (filter (\<lambda>f. f i \<noteq> None) visitors) = 1)"

definition visit :: "'a variant \<Rightarrow> ('a, 'r) variant_visitor list \<Rightarrow> 'r option" where
  "visit var visitors = visit_from (va_size var - 1) var (\<lambda>i. the (overload visitors i))"

definition is_visitable :: "'v \<Rightarrow> ('v \<Rightarrow> bool) list \<Rightarrow> bool" where
  "is_visitable value visitors = foldr (\<lambda>invocable b. invocable value \<or> b) visitors False"

lemma visit_from_eq:
  "visit_from n var vis = (case va_index var of Some i \<Rightarrow> if i \<le> n then Some (vis i (va_value var)) else None | None \<Rightarrow> None)"
  by (induction n) (auto split: option.splits simp: le_Suc_eq)

lemma overload_unique:
  assumes "length (filter (\<lambda>f. f i \<noteq> None) fs) = 1" "f \<in> set fs" "f i = Some g"
  shows "overload fs i = Some g"
  using assms
proof (induction fs)
  case (Cons h fs)
  show ?case
  proof (cases "h i")
    case None
    then show ?thesis using Cons by (auto split: if_splits)
  next
    case (Some k)
    then have "filter (\<lambda>f. f i \<noteq> None) fs = []" using Cons(2) by simp
    then have "f \<notin> set fs" using Cons(4) by (auto simp: filter_empty_conv)
    then show ?thesis using Cons(3,4) Some by simp
  qed
qed simp

text \<open>
  C40. A call that the compiler accepts, on a variant that holds a value, returns what the one visitor of
  the value's alternative makes of it, whatever the order of the visitors. On a variant without a
  value, for which \<open>std::visit\<close> throws, it never returns.
\<close>

theorem visit_dispatches:
  assumes "well_formed_call var visitors"
  shows "(visit var visitors \<noteq> None \<longleftrightarrow> (\<exists>i \<le> va_size var - 1. va_index var = Some i)) \<and>
    (\<forall>i f g. va_index var = Some i \<and> i < va_size var \<and> f \<in> set visitors \<and> f i = Some g \<longrightarrow>
       visit var visitors = Some (g (va_value var)))"
proof -
  have "visit var visitors = Some (g (va_value var))"
    if "va_index var = Some i" "i < va_size var" "f \<in> set visitors" "f i = Some g" for i f g
  proof -
    have "overload visitors i = Some g"
      by (rule overload_unique [OF _ that(3,4)]) (use assms that(2) in \<open>simp add: well_formed_call_def\<close>)
    then show ?thesis using that by (simp add: visit_def visit_from_eq)
  qed
  then show ?thesis by (auto simp: visit_def visit_from_eq split: option.splits if_splits)
qed

theorem visit_dispatches_witness:
  "visit \<lparr>va_size = 2, va_index = Some 1, va_value = 5 :: int\<rparr>
     [\<lambda>i. if i = 1 then Some (\<lambda>x. x + 1) else None, \<lambda>i. if i = 0 then Some uminus else None] = Some 6"
proof -
  let ?v = "\<lparr>va_size = 2, va_index = Some 1, va_value = 5 :: int\<rparr>"
  let ?fs = "[\<lambda>i. if i = 1 then Some (\<lambda>x. x + 1) else None, \<lambda>i. if i = 0 then Some uminus else None] :: (int, int) variant_visitor list"
  have "well_formed_call ?v ?fs" by (simp add: well_formed_call_def less_2_cases_iff)
  from visit_dispatches [OF this]
  have "\<forall>i f g. va_index ?v = Some i \<and> i < va_size ?v \<and> f \<in> set ?fs \<and> f i = Some g \<longrightarrow>
       visit ?v ?fs = Some (g (va_value ?v))" by (rule conjunct2)
  from this [rule_format, of 1 "?fs ! 0" "\<lambda>x. x + 1"] show ?thesis by simp
qed

lemma is_visitable_iff: "is_visitable value visitors \<longleftrightarrow> (\<exists>f \<in> set visitors. f value)"
  by (induction visitors) (simp_all add: is_visitable_def)

end
