(* ===== verification/Ycsb.thy ===== *)
theory Ycsb
  imports Streams
begin

text \<open>
  The YCSB workloads of \<open>rome/colosseum/streams/ycsb.h\<close>: the history of recent keys, the key
  generator and the streams A to C, E and read-modify-write of \<open>YcsbStreamFactory\<close>. The distributions
  are arguments, as in the theory of streams; the one of the key generator yields the bytes of the
  object it draws, since the code hashes its memory.
\<close>

section \<open>LatestStream\<close>

text \<open>
  The array is not initialised: a slot is \<open>None\<close> until it is written, and reading it is undefined.
  \<open>sz\<close> is the template parameter.
\<close>

record ('s, 'a) latest_stream =
  ls_stream :: "'s stream"
  ls_latest :: "'a option list"
  ls_newest :: int

definition ls_push :: "int \<Rightarrow> 'a \<Rightarrow> ('s, 'a) latest_stream \<Rightarrow> ('s, 'a) latest_stream" where
  "ls_push sz v s =
     s\<lparr>ls_latest := (ls_latest s)[nat (ls_newest s) := Some v],
       ls_newest := (if ls_newest s - 1 > 0 then ls_newest s - 1 else sz - 1)\<rparr>"

definition ls_NextInternal :: "int \<Rightarrow> ('s, 'a) next_fun \<Rightarrow> (('s, 'a) latest_stream, 'a) next_fun" where
  "ls_NextInternal sz nx s =
     bindO (Next nx (ls_stream s)) (\<lambda>(nv, st).
       case nv of
         Inl e \<Rightarrow> Ret (nv, s\<lparr>ls_stream := st\<rparr>)
       | Inr v \<Rightarrow> Ret (nv, ls_push sz v (s\<lparr>ls_stream := st\<rparr>)))"

definition LatestStream :: "int \<Rightarrow> ('s, 'a) next_fun \<Rightarrow> 's stream \<Rightarrow> ('s, 'a) latest_stream outcome" where
  "LatestStream sz nx st =
     bindO (next_n (ls_NextInternal sz nx) (nat sz)
         \<lparr>ls_stream = st, ls_latest = replicate (nat sz) None, ls_newest = sz - 1\<rparr>)
       (\<lambda>(_, s). Ret s)"

text \<open>\<open>Latest\<close> with the offset \<open>i\<close> drawn from \<open>latest_dist_\<close>, the range from 0 to \<open>size - 1\<close>.\<close>

definition Latest :: "int \<Rightarrow> int \<Rightarrow> ('s, 'a) latest_stream \<Rightarrow> 'a status_or outcome" where
  "Latest sz i s =
     (let p = (ls_newest s + i) mod sz
      in case (ls_latest s ! nat p) of None \<Rightarrow> Fault Undefined | Some v \<Rightarrow> Ret (Inr v))"

section \<open>YcsbKeyGenerator\<close>

datatype op_type = kGet | kInsert | kUpdate | kScan

definition op_type_of :: "nat \<Rightarrow> op_type" where
  "op_type_of i = (if i = 0 then kGet else if i = 1 then kInsert else if i = 2 then kUpdate else kScan)"

record 'k ycsb_op =
  op_key :: 'k
  op_kind :: op_type
  op_range :: int

record ('k, 'g) key_generator =
  kg_mt :: 'g
  kg_hi :: 'k
  kg_lo :: 'k

definition fnv_prime :: u64 where "fnv_prime = 0x100000001b3"
definition fnv_offset_basis :: u64 where "fnv_offset_basis = 0xcbf29ce484222325"

text \<open>The hash of the first eight bytes at \<open>&v\<close>; an object of fewer bytes is read past its end.\<close>

fun fnv_hash :: "u64 \<Rightarrow> u8 list \<Rightarrow> u64" where
  "fnv_hash hash [] = hash"
| "fnv_hash hash (b # bs) = fnv_hash (hash * fnv_prime XOR ucast b) bs"

definition YcsbKeyGenerator :: "'g \<Rightarrow> u64 \<Rightarrow> u64 \<Rightarrow> ('k::len word, 'g) key_generator" where
  "YcsbKeyGenerator mt lo hi = \<lparr>kg_mt = mt, kg_hi = ucast hi, kg_lo = ucast lo\<rparr>"

definition kg_NextInternal :: "('g \<Rightarrow> u8 list \<times> 'g) \<Rightarrow> (('k::len word, 'g) key_generator, 'k word) next_fun" where
  "kg_NextInternal draw_bytes s =
     (case draw_bytes (kg_mt s) of (v, mt') \<Rightarrow>
        if length v < 8 then Fault Undefined
        else let hash = fnv_hash fnv_offset_basis (take 8 v)
             in if kg_hi s = 0 then Fault Undefined
                else Ret (Inr (ucast hash mod kg_hi s + kg_lo s), s\<lparr>kg_mt := mt'\<rparr>))"

section \<open>YcsbStreamFactory\<close>

text \<open>The generators of the mapped streams, over their tuples of source streams.\<close>

definition ycsb_ab :: "('s, 'k) next_fun \<Rightarrow> ('o, op_type) next_fun \<Rightarrow> ('s stream \<times> 'o stream, 'k ycsb_op) next_fun" where
  "ycsb_ab nk no = (\<lambda>(keys, ops).
     bindO (Next nk keys) (\<lambda>(k, keys).
       case k of Inl e \<Rightarrow> Ret (Inl e, (keys, ops))
       | Inr kv \<Rightarrow>
           bindO (Next no ops) (\<lambda>(p, ops).
             case p of Inl e \<Rightarrow> Ret (Inl e, (keys, ops))
             | Inr pv \<Rightarrow> Ret (Inr \<lparr>op_key = kv, op_kind = pv, op_range = -1\<rparr>, (keys, ops)))))"

definition ycsb_c :: "('s, 'k) next_fun \<Rightarrow> ('s stream, 'k ycsb_op) next_fun" where
  "ycsb_c nk keys =
     bindO (Next nk keys) (\<lambda>(k, keys).
       case k of Inl e \<Rightarrow> Ret (Inl e, keys)
       | Inr kv \<Rightarrow> Ret (Inr \<lparr>op_key = kv, op_kind = kGet, op_range = -1\<rparr>, keys))"

definition ycsb_e :: "('s, 'k) next_fun \<Rightarrow> ('o, op_type) next_fun \<Rightarrow> ('r, int) next_fun \<Rightarrow>
    ('s stream \<times> 'o stream \<times> 'r stream, 'k ycsb_op) next_fun" where
  "ycsb_e nk no nr = (\<lambda>(keys, ops, ranges).
     bindO (Next nk keys) (\<lambda>(k, keys).
       case k of Inl e \<Rightarrow> Ret (Inl e, (keys, ops, ranges))
       | Inr kv \<Rightarrow>
           bindO (Next no ops) (\<lambda>(p, ops).
             case p of Inl e \<Rightarrow> Ret (Inl e, (keys, ops, ranges))
             | Inr pv \<Rightarrow>
                 bindO (if pv = kScan then Next nr ranges else Ret (Inr (-1), ranges)) (\<lambda>(r, ranges).
                   case r of Inl e \<Rightarrow> Fault Assert_Fail
                   | Inr rv \<Rightarrow> Ret (Inr \<lparr>op_key = kv, op_kind = pv, op_range = rv\<rparr>, (keys, ops, ranges))))))"

definition weights_a :: "u32 list" where "weights_a = [50, 0, 50, 0]"
definition weights_b :: "u32 list" where "weights_b = [95, 0, 5, 0]"
definition weights_d :: "u32 list" where "weights_d = [95, 5, 0, 0]"
definition weights_e :: "u32 list" where "weights_e = [0, 5, 0, 95]"

definition key_source :: "'g \<Rightarrow> 'k::len word \<Rightarrow> 'k word \<Rightarrow> ('k word, 'g) key_generator stream" where
  "key_source mt lo hi = make_stream (YcsbKeyGenerator mt (ucast lo) (ucast hi))"

definition op_source :: "u32 list \<Rightarrow> 'h \<Rightarrow> (op_type, 'h) weighted_stream stream" where
  "op_source weights mt = make_stream (WeightedStream op_type_of weights mt)"

definition YcsbA :: "'g \<Rightarrow> 'h \<Rightarrow> 'k::len word \<Rightarrow> 'k word \<Rightarrow>
    (('k word, 'g) key_generator stream \<times> (op_type, 'h) weighted_stream stream) stream" where
  "YcsbA mt mt2 lo hi = make_stream (key_source mt lo hi, op_source weights_a mt2)"

definition YcsbB :: "'g \<Rightarrow> 'h \<Rightarrow> 'k::len word \<Rightarrow> 'k word \<Rightarrow>
    (('k word, 'g) key_generator stream \<times> (op_type, 'h) weighted_stream stream) stream" where
  "YcsbB mt mt2 lo hi = make_stream (key_source mt lo hi, op_source weights_b mt2)"

definition YcsbC :: "'g \<Rightarrow> 'k::len word \<Rightarrow> 'k word \<Rightarrow> ('k word, 'g) key_generator stream stream" where
  "YcsbC mt lo hi = make_stream (key_source mt lo hi)"

definition YcsbE :: "'g \<Rightarrow> 'h \<Rightarrow> 'i \<Rightarrow> 'k::len word \<Rightarrow> 'k word \<Rightarrow>
    (('k word, 'g) key_generator stream \<times> (op_type, 'h) weighted_stream stream \<times> 'i stream) stream" where
  "YcsbE mt mt2 mt3 lo hi = make_stream (key_source mt lo hi, op_source weights_e mt2, make_stream mt3)"

text \<open>
  \<open>YcsbRmwStream\<close>: the member \<open>key_stream_\<close> is the pointer, \<open>None\<close> for null. The constructor makes a
  local variable of the same name and leaves the member null.
\<close>

record ('s, 'k) ycsb_rmw =
  rmw_key_stream :: "'s stream option"
  rmw_get_next :: bool
  rmw_last_key :: 'k

definition YcsbRmwStream :: "'k \<Rightarrow> ('s, 'k) ycsb_rmw" where
  "YcsbRmwStream garbage = \<lparr>rmw_key_stream = None, rmw_get_next = True, rmw_last_key = garbage\<rparr>"

definition rmw_NextInternal :: "('s, 'k) next_fun \<Rightarrow> (('s, 'k) ycsb_rmw, 'k ycsb_op) next_fun" where
  "rmw_NextInternal nk s =
     bindO (if rmw_get_next s then
              (case rmw_key_stream s of
                 None \<Rightarrow> Fault Null_Deref
               | Some ks \<Rightarrow> bindO (Next nk ks) (\<lambda>(k, ks').
                   bindO (VALUE_OR_DIE k) (\<lambda>kv. Ret (s\<lparr>rmw_key_stream := Some ks', rmw_last_key := kv\<rparr>))))
            else Ret s) (\<lambda>s1.
     let s2 = s1\<lparr>rmw_get_next := \<not> rmw_get_next s1\<rparr>
     in Ret (Inr \<lparr>op_key = rmw_last_key s2, op_kind = (if \<not> rmw_get_next s2 then kInsert else kGet), op_range = -1\<rparr>, s2))"

section \<open>The history of recent keys\<close>

text \<open>After \<open>l\<close> insertions \<open>xs\<close>, with \<open>m = sz - 1\<close>: the slot of the \<open>k\<close>-th most recent one.\<close>

definition latest_inv :: "nat \<Rightarrow> 'a list \<Rightarrow> ('s, 'a) latest_stream \<Rightarrow> bool" where
  "latest_inv m xs s \<longleftrightarrow> length (ls_latest s) = m + 1 \<and> ls_latest s ! 0 = None \<and>
     ls_newest s = int (m - length xs mod m) \<and>
     (\<forall>k. 1 \<le> k \<and> k \<le> m \<and> k \<le> length xs \<longrightarrow>
        ls_latest s ! (m - (length xs - k) mod m) = Some (xs ! (length xs - k)))"

lemma mod_apart:
  fixes l d m :: nat
  assumes "0 < d" "d < m" "d \<le> l" shows "(l - d) mod m \<noteq> l mod m"
proof
  assume "(l - d) mod m = l mod m"
  then have "m dvd l - (l - d)" by (metis mod_eq_dvd_iff_nat diff_le_self)
  then show False using assms by (auto dest: dvd_imp_le)
qed

lemma latest_inv_push:
  assumes m: "1 \<le> m" and i: "latest_inv m xs s"
  shows "latest_inv m (xs @ [v]) (ls_push (int m + 1) v s)"
proof -
  define l where "l = length xs"
  define p where "p = m - l mod m"
  have lm: "l mod m < m" using m by simp
  have p: "1 \<le> p" "p \<le> m" "ls_newest s = int p" "length (ls_latest s) = m + 1"
    using m i lm by (auto simp: p_def latest_inv_def l_def)
  have nw: "ls_newest (ls_push (int m + 1) v s) = int (m - Suc l mod m)"
  proof (cases "Suc (l mod m) = m")
    case True
    then have "Suc l mod m = 0" by (simp add: mod_Suc)
    moreover have "p = 1" using True p_def by simp
    ultimately show ?thesis using p by (simp add: ls_push_def)
  next
    case False
    then have "Suc l mod m = Suc (l mod m)" by (simp add: mod_Suc)
    moreover have "Suc (l mod m) < m" using False m mod_less_divisor [of m l] by linarith
    ultimately show ?thesis using p by (simp add: ls_push_def p_def of_nat_diff)
  qed
  have old: "ls_latest s ! (m - (l - k) mod m) = Some (xs ! (l - k))" if "1 \<le> k" "k \<le> m" "k \<le> l" for k
    using i that by (simp add: latest_inv_def l_def)
  have sl: "ls_latest (ls_push (int m + 1) v s) ! (m - (Suc l - k) mod m) = Some ((xs @ [v]) ! (Suc l - k))"
    if k: "1 \<le> k" "k \<le> m" "k \<le> Suc l" for k
  proof (cases "k = 1")
    case True
    then show ?thesis using p m by (simp add: ls_push_def p_def [symmetric] l_def [symmetric] nth_append)
  next
    case False
    then have k1: "1 \<le> k - 1" "k - 1 < m" "k - 1 \<le> l" "Suc l - k = l - (k - 1)" using k by auto
    have "(l - (k - 1)) mod m \<noteq> l mod m" using k1 by (intro mod_apart) auto
    moreover have "(l - (k - 1)) mod m < m" using m by simp
    ultimately have "m - (l - (k - 1)) mod m \<noteq> p" unfolding p_def using lm by linarith
    moreover have "ls_latest s ! (m - (l - (k - 1)) mod m) = Some (xs ! (l - (k - 1)))"
      by (rule old) (use k1 in auto)
    moreover have "l - (k - 1) < l" using k1 by simp
    ultimately show ?thesis using p k1(4) by (simp add: ls_push_def nth_append l_def)
  qed
  have "ls_latest (ls_push (int m + 1) v s) ! 0 = None" using p i by (simp add: ls_push_def latest_inv_def)
  with nw sl p show ?thesis by (simp add: latest_inv_def l_def ls_push_def)
qed

lemma next_n_add:
  "next_n nx (a + b) s = bindO (next_n nx a s) (\<lambda>(xs, s1). bindO (next_n nx b s1) (\<lambda>(ys, s2). Ret (xs @ ys, s2)))"
proof (induction a arbitrary: s)
  case 0
  then show ?case by (cases "next_n nx b s") auto
next
  case (Suc a)
  show ?case
  proof (cases "nx s")
    case (Ret p)
    obtain x s1 where p: "p = (x, s1)" by force
    show ?thesis
    proof (cases "next_n nx a s1")
      case (Ret r)
      then show ?thesis using \<open>nx s = Ret p\<close> p Suc [of s1] by (cases "next_n nx b (snd r)") (auto split: prod.splits)
    qed (use Ret p Suc [of s1] in simp)
  qed simp
qed

lemma next_n_length: "next_n nx n s = Ret (xs, s') \<Longrightarrow> length xs = n"
  by (induction n arbitrary: s xs) (auto simp: outcome_inv)

lemma next_n_Next:
  "next_n f n s = Ret (ys, s') \<Longrightarrow> next_n (Next f) n (make_stream s) = Ret (ys, make_stream s')"
proof (induction n arbitrary: s ys)
  case (Suc n)
  then obtain x s1 zs where "f s = Ret (x, s1)" "next_n f n s1 = Ret (zs, s')" "ys = x # zs"
    by (auto simp: outcome_inv)
  with Suc(1) [of s1 zs] show ?case by (simp add: Next_def make_stream_def)
qed (simp add: make_stream_def)

lemma ls_next_n:
  assumes m: "1 \<le> m"
  shows "latest_inv m ys s \<Longrightarrow> next_n (Next nx) n (ls_stream s) = Ret (map Inr xs, st) \<Longrightarrow>
    \<exists>s'. next_n (ls_NextInternal (int m + 1) nx) n s = Ret (map Inr xs, s') \<and> latest_inv m (ys @ xs) s' \<and> ls_stream s' = st"
proof (induction n arbitrary: s ys xs)
  case 0
  then show ?case by auto
next
  case (Suc n)
  obtain x s1 zs where 1: "Next nx (ls_stream s) = Ret (x, s1)" "next_n (Next nx) n s1 = Ret (zs, st)" "map Inr xs = x # zs"
    using Suc(3) by (auto simp: outcome_inv)
  then obtain v us where xs: "xs = v # us" "x = Inr v" "zs = map Inr us" by auto
  define t where "t = ls_push (int m + 1) v (s\<lparr>ls_stream := s1\<rparr>)"
  have "latest_inv m ys (s\<lparr>ls_stream := s1\<rparr>)" using Suc(2) by (simp add: latest_inv_def)
  then have i: "latest_inv m (ys @ [v]) t" unfolding t_def by (rule latest_inv_push [OF m])
  have "ls_stream t = s1" by (simp add: t_def ls_push_def)
  with Suc(1) [OF i, of us] 1(2) xs obtain s' where
    "next_n (ls_NextInternal (int m + 1) nx) n t = Ret (map Inr us, s')" "latest_inv m (ys @ xs) s'" "ls_stream s' = st"
    by auto
  moreover have "ls_NextInternal (int m + 1) nx s = Ret (Inr v, t)"
    using 1(1) xs(2) by (simp add: ls_NextInternal_def t_def)
  ultimately show ?case using xs(1) by simp
qed

text \<open>The slot of the \<open>j\<close>-th newest of \<open>l\<close> keys in a ring of \<open>m\<close>, counted from the newest one.\<close>

lemma ring_back:
  fixes l m j :: nat
  assumes "0 < m" "m \<le> l" "j \<le> m"
  shows "(l - j) mod m = (if j \<le> l mod m then l mod m - j else m + l mod m - j)"
proof -
  define a q where "a = l div m" and "q = l mod m"
  have a: "l = a * m + q" "q < m" using assms(1) by (simp_all add: a_def q_def)
  show ?thesis
  proof (cases "j \<le> q")
    case True
    then have "(l - j) mod m = (a * m + (q - j)) mod m" using a by simp
    also have "\<dots> = (q - j) mod m" by (rule mod_mult_self3)
    finally show ?thesis using True a(2) unfolding q_def [symmetric] by simp
  next
    case False
    then have "1 \<le> a" using a assms(2) by (cases a) auto
    then have "l - j = (a - 1) * m + (m + q - j)" using a assms(3) by (cases a) auto
    then have "(l - j) mod m = ((a - 1) * m + (m + q - j)) mod m" by (rule arg_cong)
    also have "\<dots> = (m + q - j) mod m" by (rule mod_mult_self3)
    finally have "(l - j) mod m = (m + q - j) mod m" .
    moreover have "m + q - j < m" using False assms(3) a(2) by linarith
    ultimately show ?thesis using False unfolding q_def [symmetric] by simp
  qed
qed

lemma Latest_slot:
  assumes m: "1 \<le> m" and i: "latest_inv m xs s" "m \<le> length xs" "k \<le> m" and q: "q = length xs mod m"
  shows "Latest (int m + 1) (int k) s =
    (if k = 0 then Ret (Inr (xs ! (length xs - m)))
     else if k \<le> q then Ret (Inr (xs ! (length xs - k)))
     else if k = q + 1 then Fault Undefined
     else Ret (Inr (xs ! (length xs + 1 - k))))"
proof -
  define l where "l = length xs"
  have lm: "q < m" using m q by simp
  have slot: "ls_latest s ! (m - (l - k) mod m) = Some (xs ! (l - k))" if "1 \<le> k" "k \<le> m" for k
    using i that by (simp add: latest_inv_def l_def)
  have nw: "ls_newest s + int k = int (m - q + k)" using i q by (simp add: latest_inv_def)
  have "nat (int (m - q + k) mod (int m + 1)) = (m - q + k) mod (m + 1)"
    by (metis nat_int of_nat_1 of_nat_add of_nat_mod)
  then have L: "Latest (int m + 1) (int k) s =
      (case ls_latest s ! ((m - q + k) mod (m + 1)) of None \<Rightarrow> Fault Undefined | Some v \<Rightarrow> Ret (Inr v))"
    unfolding Latest_def Let_def nw by simp
  have wr: "(l - j) mod m = (if j \<le> q then q - j else m + q - j)" if "j \<le> m" for j
    using ring_back [of m l j] m i(2) that by (simp add: l_def q)
  consider "k = 0" | "1 \<le> k" "k \<le> q" | "k = q + 1" | "q + 1 < k" by linarith
  then show ?thesis
  proof cases
    case 1
    then show ?thesis using L slot [of m] wr [of m] lm m by (cases "q = 0") (auto simp: l_def)
  next
    case 2
    then have "(m - q + k) mod (m + 1) = m - (l - k) mod m" using wr [of k] lm i(3) by simp
    then show ?thesis using L slot [of k] 2 i(3) by (simp add: l_def)
  next
    case 3
    then have "(m - q + k) mod (m + 1) = 0" using lm by simp
    then show ?thesis using L 3 i(1) by (simp add: latest_inv_def)
  next
    case 4
    have "(m - q + k) mod (m + 1) = k - q - 1" using 4 i(3) lm by (simp add: mod_if)
    also have "\<dots> = m - (l - (k - 1)) mod m" using wr [of "k - 1"] 4 i(3) by simp
    finally show ?thesis using L slot [of "k - 1"] 4 i(3) by (simp add: l_def)
  qed
qed

text \<open>
  Let \<open>m + 1\<close> be the size of the history and \<open>xs\<close> the keys inserted so far, at least \<open>m\<close>.
  A draw of \<open>Latest\<close> never sees more than the last \<open>m\<close> of them: the offset 0, the most likely one, is
  the oldest key of these, the offsets up to \<open>q = |xs| mod m\<close> count back from the newest one, the
  offset \<open>q + 1\<close> reads the slot 0, which is never written, and the larger ones go on counting back.
\<close>

theorem latest_history:
  assumes "1 \<le> m" "next_n (Next nx) (m + 1 + n) inner = Ret (map Inr xs, inner')" "k \<le> m" "q = length xs mod m"
  shows "\<exists>s0 s1. LatestStream (int m + 1) nx inner = Ret s0 \<and>
    next_n (Next (ls_NextInternal (int m + 1) nx)) n (make_stream s0) = Ret (map Inr (drop (m + 1) xs), make_stream s1) \<and>
    Latest (int m + 1) (int k) s1 =
      (if k = 0 then Ret (Inr (xs ! (length xs - m)))
       else if k \<le> q then Ret (Inr (xs ! (length xs - k)))
       else if k = q + 1 then Fault Undefined
       else Ret (Inr (xs ! (length xs + 1 - k))))"
proof -
  define e where "e = \<lparr>ls_stream = inner, ls_latest = replicate (m + 1) (None :: 'a option), ls_newest = int m\<rparr>"
  have e: "latest_inv m [] e" by (simp add: latest_inv_def e_def)
  obtain a b st where ab: "next_n (Next nx) (m + 1) inner = Ret (a, st)" "next_n (Next nx) n st = Ret (b, inner')"
      "a @ b = map Inr xs"
    using assms(2) unfolding next_n_add by (auto simp: outcome_inv)
  then obtain us vs where uv: "xs = us @ vs" "a = map Inr us" "b = map Inr vs" by (auto simp: append_eq_map_conv)
  have lu: "length us = m + 1" using next_n_length [OF ab(1)] uv(2) by simp
  obtain s0 where s0: "next_n (ls_NextInternal (int m + 1) nx) (m + 1) e = Ret (map Inr us, s0)"
      "latest_inv m us s0" "ls_stream s0 = st"
    using ls_next_n [OF assms(1) e, of nx "m + 1" us st] ab(1) uv(2) by (auto simp: e_def)
  obtain s1 where s1: "next_n (ls_NextInternal (int m + 1) nx) n s0 = Ret (map Inr vs, s1)" "latest_inv m xs s1"
    using ls_next_n [OF assms(1) s0(2), of nx n vs inner'] ab(2) uv s0(3) by auto
  have "nat (int m + 1) = m + 1" by simp
  then have "LatestStream (int m + 1) nx inner = Ret s0"
    using s0(1) unfolding LatestStream_def by (simp add: e_def)
  moreover have "m \<le> length xs" using lu uv(1) by simp
  note Latest_slot [OF assms(1) s1(2) this assms(3,4)]
  moreover have "drop (m + 1) xs = vs" using lu uv(1) by simp
  ultimately show ?thesis using next_n_Next [OF s1(1)] by blast
qed

lemma latest_history_witness:
  "\<exists>s0 s1. LatestStream 3 ts_NextInternal (make_stream (TestStream [10, 20, 30, 40, 50 :: int])) = Ret s0 \<and>
    next_n (Next (ls_NextInternal 3 ts_NextInternal)) 2 (make_stream s0) = Ret (map Inr [40, 50], make_stream s1) \<and>
    Latest 3 2 s1 = Fault Undefined"
proof -
  obtain s' where "next_n (Next ts_NextInternal) 5 (make_stream (TestStream [10, 20, 30, 40, 50 :: int])) =
      Ret (map Inr [10, 20, 30, 40, 50], s')"
    using ts_next_n [of "TestStream [10, 20, 30, 40, 50 :: int]" 5] by (simp add: make_stream_def TestStream_def)
  then have "next_n (Next ts_NextInternal) (2 + 1 + 2) (make_stream (TestStream [10, 20, 30, 40, 50 :: int])) =
      Ret (map Inr [10, 20, 30, 40, 50], s')" by simp
  from latest_history [OF _ this, of 2 1] show ?thesis by simp
qed

section \<open>Keys and operations\<close>

definition key_window :: "'k::len word \<Rightarrow> 'k word \<Rightarrow> 'k word set" where
  "key_window lo hi = {h mod hi + lo | h. True}"

definition kg_inv :: "('g \<Rightarrow> u8 list \<times> 'g) \<Rightarrow> 'k::len word \<Rightarrow> 'k word \<Rightarrow> ('k word, 'g) key_generator \<Rightarrow> bool" where
  "kg_inv draw_bytes lo hi s \<longleftrightarrow> (\<forall>g. length (fst (draw_bytes g)) = 8) \<and> hi \<noteq> 0 \<and> kg_hi s = hi \<and> kg_lo s = lo"

interpretation key_gen: endless_stream "kg_NextInternal draw_bytes" "kg_inv draw_bytes lo hi" "key_window lo hi"
  for draw_bytes lo hi
proof
  fix s
  assume i: "kg_inv draw_bytes lo hi s"
  obtain v mt where d: "draw_bytes (kg_mt s) = (v, mt)" by force
  have "length v = 8" using i d by (metis kg_inv_def fst_conv)
  then show "\<exists>x s'. kg_NextInternal draw_bytes s = Ret (Inr x, s') \<and> x \<in> key_window lo hi \<and> kg_inv draw_bytes lo hi s'"
    using i d by (auto simp: kg_NextInternal_def kg_inv_def key_window_def Let_def)
qed

interpretation random_source: endless_stream "rds_NextInternal distribution" "\<lambda>_. \<forall>g. fst (distribution g) \<in> D" D
  for distribution D
  by unfold_locales (auto simp: rds_NextInternal_def split: prod.splits, metis fst_conv)

locale ycsb_sources =
  keys: endless_stream nk ik K + ops: endless_stream no io P
  for nk :: "('s, 'k) next_fun" and ik K and no :: "('o, op_type) next_fun" and io P
begin

definition pair_inv :: "'s stream \<times> 'o stream \<Rightarrow> bool" where
  "pair_inv = (\<lambda>(keys, ops). \<not> terminated keys \<and> ik (impl keys) \<and> \<not> terminated ops \<and> io (impl ops))"

definition ab_ops :: "'k ycsb_op set" where "ab_ops = {\<lparr>op_key = k, op_kind = p, op_range = -1\<rparr> | k p. k \<in> K \<and> p \<in> P}"

end

sublocale ycsb_sources \<subseteq> ab: endless_stream "mapped_NextInternal (ycsb_ab nk no)" pair_inv ab_ops
proof
  fix s
  assume i: "pair_inv s"
  obtain keys ops where s: "s = (keys, ops)" by force
  obtain k keys' where k: "Next nk keys = Ret (Inr k, keys')" "k \<in> K" "ik (impl keys')" "\<not> terminated keys'"
    using i keys.step_Next [of keys] by (auto simp: s pair_inv_def)
  obtain p ops' where p: "Next no ops = Ret (Inr p, ops')" "p \<in> P" "io (impl ops')" "\<not> terminated ops'"
    using i ops.step_Next [of ops] by (auto simp: s pair_inv_def)
  show "\<exists>x s'. mapped_NextInternal (ycsb_ab nk no) s = Ret (Inr x, s') \<and> x \<in> ab_ops \<and> pair_inv s'"
    using k p by (auto simp: mapped_NextInternal_def ycsb_ab_def s ab_ops_def pair_inv_def)
qed

locale ycsb_scan_sources = ycsb_sources nk ik K no io P + ranges: endless_stream nr ir R
  for nk :: "('s, 'k) next_fun" and ik K and no :: "('o, op_type) next_fun" and io P
  and nr :: "('r, int) next_fun" and ir R
begin

definition triple_inv :: "'s stream \<times> 'o stream \<times> 'r stream \<Rightarrow> bool" where
  "triple_inv = (\<lambda>(keys, ops, ranges). pair_inv (keys, ops) \<and> \<not> terminated ranges \<and> ir (impl ranges))"

definition e_ops :: "'k ycsb_op set" where
  "e_ops = {\<lparr>op_key = k, op_kind = p, op_range = r\<rparr> | k p r. k \<in> K \<and> p \<in> P \<and> (if p = kScan then r \<in> R else r = -1)}"

end

sublocale ycsb_scan_sources \<subseteq> scan: endless_stream "mapped_NextInternal (ycsb_e nk no nr)" triple_inv e_ops
proof
  fix s
  assume i: "triple_inv s"
  obtain keys ops ranges where s: "s = (keys, ops, ranges)" using prod_cases3 by blast
  obtain k keys' where k: "Next nk keys = Ret (Inr k, keys')" "k \<in> K" "ik (impl keys')" "\<not> terminated keys'"
    using i keys.step_Next [of keys] by (auto simp: s triple_inv_def pair_inv_def)
  obtain p ops' where p: "Next no ops = Ret (Inr p, ops')" "p \<in> P" "io (impl ops')" "\<not> terminated ops'"
    using i ops.step_Next [of ops] by (auto simp: s triple_inv_def pair_inv_def)
  obtain r ranges' where r: "Next nr ranges = Ret (Inr r, ranges')" "r \<in> R" "ir (impl ranges')" "\<not> terminated ranges'"
    using i ranges.step_Next [of ranges] by (auto simp: s triple_inv_def)
  show "\<exists>x s'. mapped_NextInternal (ycsb_e nk no nr) s = Ret (Inr x, s') \<and> x \<in> e_ops \<and> triple_inv s'"
    using k p r i by (auto simp: mapped_NextInternal_def ycsb_e_def s e_ops_def triple_inv_def pair_inv_def)
qed

interpretation ycsb: ycsb_scan_sources
  "kg_NextInternal draw_bytes" "kg_inv draw_bytes lo hi" "key_window lo hi"
  "ws_NextInternal uniform" "weighted_inv uniform op_type_of weights" "positive_values op_type_of weights"
  "rds_NextInternal distribution" "\<lambda>_. \<forall>g. fst (distribution g) \<in> R" R
  for draw_bytes lo hi uniform weights distribution R
  by unfold_locales

lemma key_window_bounds:
  assumes "hi \<noteq> 0" "unat lo + unat hi \<le> 2 ^ LENGTH('k)" "x \<in> key_window lo (hi :: 'k::len word)"
  shows "lo \<le> x \<and> unat x < unat lo + unat hi"
proof -
  obtain h where h: "x = h mod hi + lo" using assms(3) by (auto simp: key_window_def)
  have "unat (h mod hi) < unat hi" using assms(1) by (simp add: unat_mod_distrib unat_gt_0)
  then have "unat x = unat (h mod hi) + unat lo"
    using assms(2) unfolding h by (subst unat_add_lem [THEN iffD1]) auto
  then show ?thesis using \<open>unat (h mod hi) < unat hi\<close> by (simp add: word_le_nat_alt)
qed

lemma factory_weights:
  "weights_ok weights_a" "positive_values op_type_of weights_a = {kGet, kUpdate}"
  "weights_ok weights_b" "positive_values op_type_of weights_b = {kGet, kUpdate}"
  "weights_ok weights_e" "positive_values op_type_of weights_e = {kInsert, kScan}"
  unfolding set_weight_table [symmetric]
  by (auto simp: weights_ok_def weights_a_def weights_b_def weights_e_def weight_table_def op_type_of_def upt_rec)

lemma key_source_ok:
  assumes "\<And>g. length (fst (draw_bytes g)) = 8" "hi \<noteq> 0" "LENGTH('k) \<le> 64"
  shows "\<not> terminated (key_source mt lo (hi :: 'k::len word)) \<and> kg_inv draw_bytes lo hi (impl (key_source mt lo hi))"
proof -
  have "ucast (ucast w :: u64) = w" for w :: "'k word" using assms(3)
    by (intro word_bit_eqI) (simp add: bit_ucast_iff)
  then show ?thesis using assms by (simp add: key_source_def make_stream_def kg_inv_def YcsbKeyGenerator_def)
qed

lemma op_source_ok:
  "uniform_range uniform \<Longrightarrow> weights_ok weights \<Longrightarrow>
    \<not> terminated (op_source weights mt) \<and> weighted_inv uniform op_type_of weights (impl (op_source weights mt))"
  by (simp add: op_source_def make_stream_def WeightedStream_inv)



end
