(* ===== verification/Distribution.thy ===== *)
theory Distribution
  imports Float64
begin

text \<open>
  The distributions of \<open>rome/util/distribution_util.h\<close> at \<open>_IntType = int\<close>, the type the YCSB
  workloads use: the zipfian distribution with its zeta constants, and the self-similar one.
  \<open>std::pow\<close>, \<open>std::log\<close> and \<open>std::generate_canonical\<close> are arguments of the definitions; the lemmas
  assume of them what the C and C++ libraries document. Integer arithmetic that leaves the range
  of \<open>int\<close>, and the conversion of a double that does, are the fault \<open>Undefined\<close>.
\<close>

section \<open>Arithmetic on int\<close>

definition int_value :: "int \<Rightarrow> int outcome" where
  "int_value n = (if - (2 ^ 31) \<le> n \<and> n < 2 ^ 31 then Ret n else Fault Undefined)"

text \<open>\<open>b - a + 1\<close>, the number of values of the range.\<close>

definition range_size :: "int \<Rightarrow> int \<Rightarrow> int outcome" where
  "range_size a b = bindO (int_value (b - a)) (\<lambda>d. int_value (d + 1))"

text \<open>The conversion of a double to \<open>int\<close>.\<close>

definition int_of_double :: "double \<Rightarrow> int outcome" where
  "int_of_double x = int_value (trunc x)"

section \<open>The zipfian distribution\<close>

record zipf_params =
  z_a :: int
  z_b :: int
  z_theta :: double
  z_zeta :: double
  z_zeta2theta :: double

text \<open>
  The loop of \<open>zeta\<close>; the index is an \<open>unsigned long\<close>, so that it never exceeds the largest
  \<open>__n\<close>, and the loop does not end then.
\<close>

partial_function (option) zeta_loop ::
    "(double \<Rightarrow> double \<Rightarrow> double) \<Rightarrow> double \<Rightarrow> u64 \<Rightarrow> u64 \<Rightarrow> double \<Rightarrow> double option" where
  "zeta_loop pow theta n i ans =
     (if i \<le> n
      then zeta_loop pow theta n (i + 1) (dadd ans (pow (ddiv 1 (double_of_int (uint i))) theta))
      else Some ans)"

definition zeta :: "(double \<Rightarrow> double \<Rightarrow> double) \<Rightarrow> u64 \<Rightarrow> double \<Rightarrow> double option" where
  "zeta pow n theta = zeta_loop pow theta n 1 0"

definition zipf_param :: "(double \<Rightarrow> double \<Rightarrow> double) \<Rightarrow> int \<Rightarrow> int \<Rightarrow> double \<Rightarrow> zipf_params run" where
  "zipf_param pow a b theta =
     bindR (Some (range_size a b)) (\<lambda>n.
     bindR (map_option Ret (zeta pow (word_of_int n) theta)) (\<lambda>z.
     bindR (map_option Ret (zeta pow 2 theta)) (\<lambda>z2.
       Some (assertO (a \<le> b \<and> theta > 0 \<and> theta < 1)
         (Ret \<lparr>z_a = a, z_b = b, z_theta = theta, z_zeta = z, z_zeta2theta = z2\<rparr>)))))"

definition zipf_param_zeta ::
    "(double \<Rightarrow> double \<Rightarrow> double) \<Rightarrow> int \<Rightarrow> int \<Rightarrow> double \<Rightarrow> double \<Rightarrow> zipf_params run" where
  "zipf_param_zeta pow a b theta z =
     bindR (map_option Ret (zeta pow 2 theta)) (\<lambda>z2.
       Some (assertO (a \<le> b \<and> theta > 0 \<and> theta < 1)
         (Ret \<lparr>z_a = a, z_b = b, z_theta = theta, z_zeta = z, z_zeta2theta = z2\<rparr>)))"

definition zipf_param_eq :: "zipf_params \<Rightarrow> zipf_params \<Rightarrow> bool" where
  "zipf_param_eq p1 p2 \<longleftrightarrow> z_a p1 = z_a p2 \<and> z_b p1 = z_b p2 \<and> z_theta p1 = z_theta p2 \<and>
     z_zeta p1 = z_zeta p2 \<and> z_zeta2theta p1 = z_zeta2theta p2"

text \<open>The distribution object holds its parameters only.\<close>

record zipf_dist =
  zd_param :: zipf_params

definition zipfian_int_distribution ::
    "(double \<Rightarrow> double \<Rightarrow> double) \<Rightarrow> int \<Rightarrow> int \<Rightarrow> double \<Rightarrow> zipf_dist run" where
  "zipfian_int_distribution pow a b theta =
     bindR (zipf_param pow a b theta) (\<lambda>p. Some (Ret \<lparr>zd_param = p\<rparr>))"

definition zd_reset :: "zipf_dist \<Rightarrow> zipf_dist" where
  "zd_reset d = d"

definition zd_set_param :: "zipf_params \<Rightarrow> zipf_dist \<Rightarrow> zipf_dist" where
  "zd_set_param p d = d\<lparr>zd_param := p\<rparr>"

definition zd_min :: "zipf_dist \<Rightarrow> int" where "zd_min d = z_a (zd_param d)"
definition zd_max :: "zipf_dist \<Rightarrow> int" where "zd_max d = z_b (zd_param d)"

definition zd_eq :: "zipf_dist \<Rightarrow> zipf_dist \<Rightarrow> bool" where
  "zd_eq d1 d2 = zipf_param_eq (zd_param d1) (zd_param d2)"

text \<open>
  \<open>eta\<close> is \<open>None\<close> when a divisor is 0: an infinity or no number at all. Only the last return of
  the operator reads it, and the conversion of what it computes from such a value is undefined.
  (A zeta of 0, which a caller may pass, makes \<open>uz\<close> 0, so that \<open>eta\<close> is not read.)
\<close>

definition zipf_eta :: "(double \<Rightarrow> double \<Rightarrow> double) \<Rightarrow> zipf_params \<Rightarrow> int \<Rightarrow> double option" where
  "zipf_eta pow p n =
     (let num = dsub 1 (pow (ddiv 2 (double_of_int n)) (dsub 1 (z_theta p)));
          den = dsub 1 (ddiv (z_zeta2theta p) (z_zeta p))
      in if z_zeta p = 0 \<or> den = 0 then None else Some (ddiv num den))"

definition zipf_value :: "(double \<Rightarrow> double \<Rightarrow> double) \<Rightarrow> double \<Rightarrow> zipf_params \<Rightarrow> int outcome" where
  "zipf_value pow u p =
     (let alpha = ddiv 1 (dsub 1 (z_theta p))
      in bindO (range_size (z_a p) (z_b p)) (\<lambda>n.
         let eta = zipf_eta pow p n; uz = dmul u (z_zeta p)
         in if uz < 1 then Ret (z_a p)
            else if uz < dadd 1 (pow (1 / 2) (z_theta p)) then int_value (z_a p + 1)
            else case eta of None \<Rightarrow> Fault Undefined
              | Some e \<Rightarrow> int_of_double (dadd (double_of_int (z_a p))
                  (dmul (double_of_int n) (pow (dadd (dsub (dmul e u) e) 1) alpha)))))"

definition zipf_op :: "(double \<Rightarrow> double \<Rightarrow> double) \<Rightarrow> ('g \<Rightarrow> double \<times> 'g) \<Rightarrow> 'g \<Rightarrow> zipf_params \<Rightarrow> (int \<times> 'g) outcome" where
  "zipf_op pow generate_canonical urng p =
     (case generate_canonical urng of (u, urng') \<Rightarrow> bindO (zipf_value pow u p) (\<lambda>x. Ret (x, urng')))"

definition zd_op :: "(double \<Rightarrow> double \<Rightarrow> double) \<Rightarrow> ('g \<Rightarrow> double \<times> 'g) \<Rightarrow> 'g \<Rightarrow> zipf_dist \<Rightarrow> (int \<times> 'g) outcome" where
  "zd_op pow generate_canonical urng d = zipf_op pow generate_canonical urng (zd_param d)"

section \<open>The self-similar distribution\<close>

record selfsimilar_params =
  s_a :: int
  s_b :: int
  s_skew :: double

definition selfsimilar_param :: "int \<Rightarrow> int \<Rightarrow> double \<Rightarrow> selfsimilar_params outcome" where
  "selfsimilar_param a b skew =
     assertO (a \<le> b \<and> skew > 0 \<and> skew < 1) (Ret \<lparr>s_a = a, s_b = b, s_skew = skew\<rparr>)"

definition selfsimilar_param_eq :: "selfsimilar_params \<Rightarrow> selfsimilar_params \<Rightarrow> bool" where
  "selfsimilar_param_eq p1 p2 \<longleftrightarrow> s_a p1 = s_a p2 \<and> s_b p1 = s_b p2 \<and> s_skew p1 = s_skew p2"

record selfsimilar_dist =
  sd_param :: selfsimilar_params

definition selfsimilar_int_distribution :: "int \<Rightarrow> int \<Rightarrow> double \<Rightarrow> selfsimilar_dist outcome" where
  "selfsimilar_int_distribution a b skew =
     bindO (selfsimilar_param a b skew) (\<lambda>p. Ret \<lparr>sd_param = p\<rparr>)"

definition sd_set_param :: "selfsimilar_params \<Rightarrow> selfsimilar_dist \<Rightarrow> selfsimilar_dist" where
  "sd_set_param p d = d\<lparr>sd_param := p\<rparr>"

definition sd_min :: "selfsimilar_dist \<Rightarrow> int" where "sd_min d = s_a (sd_param d)"
definition sd_max :: "selfsimilar_dist \<Rightarrow> int" where "sd_max d = s_b (sd_param d)"

definition sd_eq :: "selfsimilar_dist \<Rightarrow> selfsimilar_dist \<Rightarrow> bool" where
  "sd_eq d1 d2 = selfsimilar_param_eq (sd_param d1) (sd_param d2)"

text \<open>
  A skew so small that \<open>1 - skew\<close> is 1 has the exponent \<open>log(skew) / 0\<close>, minus infinity: the power
  of \<open>u\<close> is infinite, and its conversion undefined.
\<close>

definition selfsimilar_value ::
    "(double \<Rightarrow> double \<Rightarrow> double) \<Rightarrow> (double \<Rightarrow> double) \<Rightarrow> double \<Rightarrow> selfsimilar_params \<Rightarrow> int outcome" where
  "selfsimilar_value pow logf u p =
     bindO (range_size (s_a p) (s_b p)) (\<lambda>d.
       let N = word_of_int d :: u64; den = logf (dsub 1 (s_skew p))
       in if den = 0 then Fault Undefined
          else int_of_double (dadd (double_of_int (s_a p))
            (dmul (double_of_int (uint N)) (pow u (ddiv (logf (s_skew p)) den)))))"

definition selfsimilar_op ::
    "(double \<Rightarrow> double \<Rightarrow> double) \<Rightarrow> (double \<Rightarrow> double) \<Rightarrow> ('g \<Rightarrow> double \<times> 'g) \<Rightarrow> 'g \<Rightarrow>
      selfsimilar_params \<Rightarrow> (int \<times> 'g) outcome" where
  "selfsimilar_op pow logf generate_canonical urng p =
     (case generate_canonical urng of (u, urng') \<Rightarrow>
        bindO (selfsimilar_value pow logf u p) (\<lambda>x. Ret (x, urng')))"

definition sd_op ::
    "(double \<Rightarrow> double \<Rightarrow> double) \<Rightarrow> (double \<Rightarrow> double) \<Rightarrow> ('g \<Rightarrow> double \<times> 'g) \<Rightarrow> 'g \<Rightarrow>
      selfsimilar_dist \<Rightarrow> (int \<times> 'g) outcome" where
  "sd_op pow logf generate_canonical urng d = selfsimilar_op pow logf generate_canonical urng (sd_param d)"

end
