(* ===== verification/Distribution_Props.thy ===== *)
theory Distribution_Props
  imports Distribution
begin

text \<open>
  The range of the distributions: the zeta loop ends with the sum it stands for, every draw is
  defined and leaves the range by at most one, and the draws that do leave it.
\<close>

section \<open>Zeta\<close>

text \<open>What the libraries document: the power of a number of the unit interval, and a canonical number.\<close>

definition pow_documented :: "(double \<Rightarrow> double \<Rightarrow> double) \<Rightarrow> bool" where
  "pow_documented pow \<longleftrightarrow> (\<forall>x y. fl x = x \<and> 0 \<le> x \<and> x \<le> 1 \<and> 0 < y \<longrightarrow>
     0 \<le> pow x y \<and> pow x y \<le> 1 \<and> (y \<le> 1 \<longrightarrow> x \<le> pow x y) \<and> (1 \<le> y \<longrightarrow> pow x y \<le> x))"

definition canonical :: "double \<Rightarrow> bool" where
  "canonical u \<longleftrightarrow> fl u = u \<and> 0 \<le> u \<and> u < 1"

lemma pow_unit:
  assumes "pow_documented pow" "fl x = x" "0 \<le> x" "x \<le> 1" "0 < y"
  shows "0 \<le> pow x y" "pow x y \<le> 1" "y \<le> 1 \<Longrightarrow> x \<le> pow x y" "1 \<le> y \<Longrightarrow> pow x y \<le> x"
  using assms unfolding pow_documented_def by blast+

text \<open>The sum that the loop computes.\<close>

fun zeta_sum :: "(double \<Rightarrow> double \<Rightarrow> double) \<Rightarrow> double \<Rightarrow> nat \<Rightarrow> double" where
  "zeta_sum pow theta 0 = 0"
| "zeta_sum pow theta (Suc k) = dadd (zeta_sum pow theta k) (pow (ddiv 1 (double_of_int (int (Suc k)))) theta)"

lemma zeta_loop_sum:
  assumes "unat n < 2 ^ 64 - 1" "k \<le> unat n"
  shows "zeta_loop pow theta n (word_of_nat (Suc k)) (zeta_sum pow theta k) = Some (zeta_sum pow theta (unat n))"
  using assms(2)
proof (induction "unat n - k" arbitrary: k)
  case 0
  then have k: "k = unat n" by simp
  have "unat (word_of_nat (Suc k) :: u64) = Suc k"
    using assms(1) by (intro of_nat_inverse [OF refl]) (simp add: k)
  then have "\<not> (word_of_nat (Suc k) :: u64) \<le> n" by (simp add: word_le_nat_alt k)
  then show ?case by (subst zeta_loop.simps) (simp add: k del: of_nat_Suc)
next
  case (Suc d)
  have u: "unat (word_of_nat (Suc k) :: u64) = Suc k"
    using assms(1) Suc by (intro of_nat_inverse [OF refl]) simp
  have le: "(word_of_nat (Suc k) :: u64) \<le> n" using Suc(2,3) by (simp only: word_le_nat_alt u)
  have ui: "uint (word_of_nat (Suc k) :: u64) = int (Suc k)" using u by (simp only: uint_nat)
  have n: "(word_of_nat (Suc k) :: u64) + 1 = word_of_nat (Suc (Suc k))" by simp
  have "zeta_loop pow theta n (word_of_nat (Suc (Suc k))) (zeta_sum pow theta (Suc k)) =
    Some (zeta_sum pow theta (unat n))"
    by (rule Suc(1)) (use Suc(2,3) in auto)
  then show ?case
    by (subst zeta_loop.simps) (simp only: le if_True ui n zeta_sum.simps)
qed

lemma zeta_eq:
  "unat n < 2 ^ 64 - 1 \<Longrightarrow> zeta pow n theta = Some (zeta_sum pow theta (unat n))"
  using zeta_loop_sum [of n 0 pow theta] by (simp add: zeta_def)

text \<open>The loop over the largest domain does not end.\<close>

lemma zeta_loop_endless: "zeta_loop pow theta n i ans = Some r \<Longrightarrow> n \<noteq> - 1"
  by (erule zeta_loop.raw_induct [where P = "\<lambda>pow theta n i ans r. n \<noteq> - 1", rotated])
    (auto split: if_splits)

lemma zeta_max: "zeta pow (- 1) theta = None"
  using zeta_loop_endless [of pow theta "- 1"] unfolding zeta_def by (metis not_None_eq)

lemma zeta_sum_double [simp]: "fl (zeta_sum pow theta k) = zeta_sum pow theta k"
  by (cases k) (simp_all add: dadd_def)

text \<open>The arguments \<open>1.0 / i\<close> of the powers.\<close>

lemma inverse_int:
  assumes "1 \<le> n" "n \<le> 2 ^ 53"
  shows "ddiv 1 (double_of_int n) = fl (1 / of_int n)" "0 \<le> fl (1 / of_int n)" "fl (1 / of_int n) \<le> 1"
proof -
  show "ddiv 1 (double_of_int n) = fl (1 / of_int n)" using assms by (simp add: ddiv_def double_of_int_exact)
  show "0 \<le> fl (1 / of_int n)" using assms by (intro fl_nonneg) simp
  have "1 / rat_of_int n \<le> 1" using assms by (simp add: field_simps)
  then show "fl (1 / of_int n) \<le> 1" using fl_mono by fastforce
qed

lemma zeta_sum_mono:
  assumes "pow_documented pow" "0 < theta" "k \<le> m" "m \<le> 2 ^ 53"
  shows "zeta_sum pow theta k \<le> zeta_sum pow theta m"
  using assms(3,4)
proof (induction m rule: dec_induct)
  case (step m)
  have "1 \<le> int (Suc m)" "int (Suc m) \<le> 2 ^ 53" using step(1-3) step.prems by simp_all
  note inv = inverse_int [OF this]
  have "0 \<le> pow (ddiv 1 (double_of_int (int (Suc m)))) theta"
    unfolding inv(1) by (rule pow_unit [OF assms(1)]) (use inv assms(2) in auto)
  then have "zeta_sum pow theta m \<le> zeta_sum pow theta (Suc m)"
    by (simp add: dadd_def fl_double_ge)
  then show ?case using step by simp
qed simp

lemma zeta_sum_1:
  assumes "pow_documented pow" "0 < theta" "theta < 1"
  shows "zeta_sum pow theta 1 = 1"
proof -
  have "pow 1 theta = 1" using pow_unit [OF assms(1), of 1 theta] assms(2,3) by simp
  then show ?thesis by (simp add: dadd_def ddiv_def double_of_int_exact)
qed

lemma zeta_sum_2:
  assumes "pow_documented pow" "0 < theta" "theta < 1"
  shows "zeta_sum pow theta 2 = dadd 1 (pow (1 / 2) theta)"
proof -
  have h: "ddiv 1 (double_of_int 2) = 1 / 2"
    using fl_half_powers [of 1] by (simp add: ddiv_def double_of_int_exact)
  show ?thesis using zeta_sum_1 [OF assms] by (simp add: numeral_2_eq_2 h del: double_of_int_exact)
qed

lemma zeta_sum_2_bounds:
  assumes "pow_documented pow" "0 < theta" "theta < 1"
  shows "1 < zeta_sum pow theta 2" "zeta_sum pow theta 2 \<le> 2"
proof -
  note p = pow_unit [OF assms(1) _ _ _ assms(2), of "1 / 2"]
  have h: "fl (1 / 2) = 1 / 2" using fl_half_powers [of 1] by simp
  have "fl (3 / 2) = 3 / 2" using fl_dyadic [of 3 "- 1"] by simp
  then have "3 / 2 \<le> dadd 1 (pow (1 / 2) theta)"
    unfolding dadd_def using p(3) h assms(3) by (intro fl_double_ge) simp_all
  then show "1 < zeta_sum pow theta 2" unfolding zeta_sum_2 [OF assms] by simp
  have "dadd 1 (pow (1 / 2) theta) \<le> 2"
    unfolding dadd_def using p(2) h fl_int [of 2] by (intro fl_double_le) simp_all
  then show "zeta_sum pow theta 2 \<le> 2" unfolding zeta_sum_2 [OF assms] .
qed

lemma zeta_sum_gap:
  assumes "pow_documented pow" "0 < theta" "theta < 1" "3 \<le> n" "n \<le> 2 ^ 53"
  shows "zeta_sum pow theta 2 \<le> 10 / 11 * zeta_sum pow theta n"
proof -
  define z2 where "z2 = zeta_sum pow theta 2"
  have z2: "1 < z2" "z2 \<le> 2" unfolding z2_def by (rule zeta_sum_2_bounds [OF assms(1-3)])+
  have i3: "(1::int) \<le> 3" "(3::int) \<le> 2 ^ 53" by simp_all
  note i3 = inverse_int [OF this]
  have "fl (1 / 4) = 1 / 4" using fl_half_powers [of 2] by simp
  then have "1 / 4 \<le> fl (1 / of_int 3)" by (intro fl_double_ge) simp_all
  also have "\<dots> \<le> pow (fl (1 / of_int 3)) theta"
    by (rule pow_unit [OF assms(1)]) (use i3 assms(2,3) in auto)
  finally have t: "1 / 4 \<le> pow (fl (1 / of_int 3)) theta" .
  have "zeta_sum pow theta 3 = dadd z2 (pow (ddiv 1 (double_of_int 3)) theta)"
    by (simp add: numeral_3_eq_3 z2_def numeral_2_eq_2)
  also have "\<dots> = fl (z2 + pow (fl (1 / of_int 3)) theta)" by (simp only: i3(1) dadd_def)
  also have "\<dots> \<ge> fl (z2 * (9 / 8))" using t z2 by (intro fl_mono) simp
  finally have "fl (z2 * (9 / 8)) \<le> zeta_sum pow theta 3" .
  moreover have "z2 * (9 / 8) * (1 - 1 / 2 ^ 53) \<le> fl (z2 * (9 / 8))" using z2 by (intro fl_lower) simp
  moreover have "zeta_sum pow theta 3 \<le> zeta_sum pow theta n"
    by (rule zeta_sum_mono [OF assms(1,2)]) (use assms in auto)
  ultimately have "z2 * (9 / 8) * (1 - 1 / 2 ^ 53) \<le> zeta_sum pow theta n" by linarith
  then show ?thesis using z2 by (simp add: z2_def [symmetric])
qed

section \<open>Integers\<close>

lemma int_value_Ret: "- (2 ^ 31) \<le> n \<Longrightarrow> n < 2 ^ 31 \<Longrightarrow> int_value n = Ret n"
  by (simp add: int_value_def)

lemma range_size_Ret:
  "- (2 ^ 31) \<le> a \<Longrightarrow> a \<le> b \<Longrightarrow> b - a + 1 < 2 ^ 31 \<Longrightarrow> range_size a b = Ret (b - a + 1)"
  by (simp add: range_size_def int_value_def)

lemma trunc_between:
  assumes "of_int a \<le> x" "x \<le> of_int c" shows "a \<le> trunc x" "trunc x \<le> c"
  using assms by (auto simp: trunc_def le_floor_iff ceiling_le_iff) linarith+

lemma trunc_below:
  assumes "0 \<le> x" "x < of_int c" shows "trunc x < c"
  using assms by (simp add: trunc_def floor_less_iff)

text \<open>A share of the range, added to its lower bound.\<close>

lemma offset_in_range:
  assumes "\<bar>a\<bar> \<le> 2 ^ 31" "0 < n" "n < 2 ^ 31" "0 \<le> w" "w \<le> 1"
  shows "of_int a \<le> dadd (double_of_int a) (dmul (double_of_int n) w)"
    "dadd (double_of_int a) (dmul (double_of_int n) w) \<le> of_int (a + n)"
proof -
  have d: "double_of_int a = of_int a" "double_of_int n = of_int n"
    using assms by (auto intro!: double_of_int_exact)
  have nw: "0 \<le> of_int n * w" "of_int n * w \<le> of_int n"
    using assms by (simp_all add: mult_left_le)
  have v: "0 \<le> fl (of_int n * w)" by (rule fl_nonneg) (rule nw)
  have v': "fl (of_int n * w) \<le> of_int n" by (rule fl_le_int) (use nw assms in auto)
  show "of_int a \<le> dadd (double_of_int a) (dmul (double_of_int n) w)"
    unfolding dadd_def dmul_def d by (rule fl_ge_int) (use v assms in auto)
  show "dadd (double_of_int a) (dmul (double_of_int n) w) \<le> of_int (a + n)"
    unfolding dadd_def dmul_def d by (rule fl_le_int) (use v' assms in auto)
qed

lemma offset_value:
  assumes "- (2 ^ 31) \<le> a" "a + n < 2 ^ 31" "0 < n" "n < 2 ^ 31" "0 \<le> w" "w \<le> 1"
  shows "\<exists>x. int_of_double (dadd (double_of_int a) (dmul (double_of_int n) w)) = Ret x \<and> a \<le> x \<and> x \<le> a + n"
proof -
  have a: "\<bar>a\<bar> \<le> 2 ^ 31" using assms(1-3) by (intro abs_leI) linarith+
  note t = trunc_between [OF offset_in_range [OF a assms(3-6)]]
  have "int_value (trunc (dadd (double_of_int a) (dmul (double_of_int n) w))) =
    Ret (trunc (dadd (double_of_int a) (dmul (double_of_int n) w)))"
    by (rule int_value_Ret) (use t assms(1,2) in linarith)+
  with t show ?thesis unfolding int_of_double_def by blast
qed

lemma canonical_le: "canonical u \<Longrightarrow> u \<le> 1 - 1 / 2 ^ 53"
proof (rule ccontr)
  assume c: "canonical u" and n: "\<not> u \<le> 1 - 1 / 2 ^ 53"
  have u: "0 < u" "u < 1" "fl u = u" using c n by (auto simp: canonical_def)
  have "ilog2 u = - 1" using n u by (intro ilog2_unique) (simp_all add: power_int_minus)
  then have "fl u = of_int (round_half_even (u / 2 powi (- 53))) * 2 powi (- 53)"
    using fl_pos_eq [OF u(1)] by simp
  then obtain m where "u = of_int m * 2 powi (- 53)" using u(3) by metis
  moreover have "(2::rat) powi (- 53) = 1 / 2 ^ 53" by (simp add: power_int_def power_one_over)
  ultimately have m: "u = of_int m / 2 ^ 53" by simp
  from u(2) have "rat_of_int m < of_int (2 ^ 53)" unfolding m by simp
  then have "m \<le> 2 ^ 53 - 1" by (simp only: of_int_less_iff)
  then have "rat_of_int m \<le> of_int (2 ^ 53 - 1)" by (simp only: of_int_le_iff)
  with n show False unfolding m by (simp add: field_simps)
qed

section \<open>The draw of the zipfian distribution\<close>

text \<open>\<open>1 - theta\<close> and the exponent \<open>alpha\<close>.\<close>

lemma complement:
  assumes "0 < theta" "theta < 1"
  shows "0 < dsub 1 theta" "dsub 1 theta \<le> 1" "0 < ddiv 1 (dsub 1 theta)"
proof -
  show p: "0 < dsub 1 theta" unfolding dsub_def using assms by (intro fl_pos) simp
  show "dsub 1 theta \<le> 1" unfolding dsub_def using assms by (intro fl_double_le) simp_all
  show "0 < ddiv 1 (dsub 1 theta)" unfolding ddiv_def using p by (intro fl_pos) simp
qed

text \<open>
  The argument of the last power. \<open>q\<close> is the quotient of the two zeta constants, \<open>g\<close> the numerator of
  \<open>eta\<close>: a draw that gets there is so large that the argument stays in the unit interval.
\<close>

definition round_error :: rat where "round_error = 1 / 2 ^ 53"

lemma round_error: "0 < round_error" "round_error \<le> 1 / 9007199254740992"
  by (simp_all add: round_error_def)

text \<open>The denominator of \<open>eta\<close> stays away from 0.\<close>

lemma eta_denominator:
  fixes z z2 :: rat
  assumes z: "0 < z2" "z2 \<le> 10 / 11 * z"
  shows "(1 - z2 / z - round_error) * (1 - round_error) \<le> dsub 1 (ddiv z2 z)" "11 / 144 \<le> dsub 1 (ddiv z2 z)"
proof -
  let ?e = round_error
  define q where "q = z2 / z"
  note e = round_error
  have q: "0 < q" "q \<le> 10 / 11" using z by (simp_all add: q_def field_simps)
  have fq: "fl q \<le> q * (1 + ?e)" using fl_upper [of q] q by (simp add: round_error_def)
  have "q * ?e \<le> ?e" using q e by (simp add: mult_le_cancel_right2)
  with fq have fq': "fl q \<le> q + ?e" by (simp add: distrib_left)
  have "(1 - q - ?e) * (1 - ?e) \<le> (1 - fl q) * (1 - ?e)" using fq' e by (intro mult_right_mono) simp_all
  also have "\<dots> \<le> fl (1 - fl q)"
  proof -
    have "0 \<le> 1 - fl q" using fq' q e by linarith
    from fl_lower [OF this] show ?thesis by (simp add: round_error_def)
  qed
  finally show d: "(1 - z2 / z - ?e) * (1 - ?e) \<le> dsub 1 (ddiv z2 z)" by (simp add: dsub_def ddiv_def q_def)
  have "(1 / 12) * (11 / 12) \<le> (1 - q - ?e) * (1 - ?e)" using q e by (intro mult_mono) simp_all
  also have "\<dots> \<le> dsub 1 (ddiv z2 z)" using d by (simp add: q_def)
  finally show "11 / 144 \<le> dsub 1 (ddiv z2 z)" by simp
qed

text \<open>All the roundings together change a quotient by less than one part in \<open>2^40\<close>.\<close>

lemma rounded_gap:
  fixes s :: rat
  assumes s: "1 / 11 \<le> s" "s \<le> 1"
  shows "(s + round_error) * (1 + round_error) \<le>
    (1 + 1 / 1099511627776) * ((s - round_error) * (1 - round_error))"
proof -
  let ?e = round_error
  define c :: rat where "c = 1 / 1099511627776"
  note e = round_error
  have c: "0 < c" "c \<le> 1" by (simp_all add: c_def)
  have se: "s * ?e \<le> ?e" "0 \<le> s * ?e" using s e by (simp_all add: mult_left_le_one_le)
  have ee: "?e * ?e \<le> ?e" "0 \<le> ?e * ?e" using e by (simp_all add: mult_left_le_one_le)
  have ce: "c * ?e \<le> ?e" "0 \<le> c * ?e" using c e by (simp_all add: mult_left_le_one_le)
  have cse: "c * (s * ?e) \<le> ?e" "0 \<le> c * (s * ?e)" using mult_mono [of c 1 "s * ?e" ?e] c se e by simp_all
  have cee: "0 \<le> c * (?e * ?e)" using c ee by simp
  have cs: "c * (1 / 11) \<le> c * s" using c s by (intro mult_left_mono) simp_all
  have l: "(s + ?e) * (1 + ?e) = s + ?e + s * ?e + ?e * ?e" by (simp add: algebra_simps)
  have r: "(1 + c) * ((s - ?e) * (1 - ?e)) =
    s - ?e - s * ?e + ?e * ?e + c * s - c * ?e - c * (s * ?e) + c * (?e * ?e)" by (simp add: algebra_simps)
  have "7 * ?e \<le> c * (1 / 11)" using e by (simp add: c_def)
  then show ?thesis unfolding c_def [symmetric] l r using se ee ce cse cee cs e by linarith
qed

text \<open>What the draw subtracts from 1 is at most a little less than 1.\<close>

lemma eta_bounds:
  fixes z z2 u g :: rat
  assumes u: "u \<le> 1" and z: "0 < z2" "z2 \<le> 10 / 11 * z"
    and uq: "1 - u \<le> 1 - z2 / z + round_error" and g: "0 \<le> g" "g \<le> 1 - 1 / 2 ^ 31"
  defines "eta \<equiv> ddiv g (dsub 1 (ddiv z2 z))"
  shows "0 \<le> eta" "eta \<le> 14" "eta * (1 - u) \<le> 1 - 1 / 4294967296"
proof -
  let ?e = round_error and ?c = "1 / 1099511627776 :: rat"
  define d where "d = dsub 1 (ddiv z2 z)"
  define s where "s = 1 - z2 / z"
  note e = round_error
  have s: "1 / 11 \<le> s" "s \<le> 1" using z by (simp_all add: s_def field_simps)
  have d: "(s - ?e) * (1 - ?e) \<le> d" "11 / 144 \<le> d" using eta_denominator [OF z] by (simp_all add: d_def s_def)
  have gd: "0 \<le> g / d" "g / d \<le> 144 / 11" using g d by (simp_all add: field_simps)
  have eta: "eta = fl (g / d)" by (simp add: eta_def ddiv_def d_def)
  show eta0: "0 \<le> eta" unfolding eta by (rule fl_nonneg) (rule gd)
  have etaU: "eta \<le> g / d * (1 + ?e)" using fl_upper [OF gd(1)] by (simp add: eta round_error_def)
  have "g / d * (1 + ?e) \<le> 144 / 11 * (1 + ?e)" using gd e by (intro mult_right_mono) simp_all
  with etaU e show "eta \<le> 14" by simp
  have "(1 + ?c) * ((s - ?e) * (1 - ?e)) \<le> (1 + ?c) * d" using d(1) by (intro mult_left_mono) simp_all
  with rounded_gap [OF s] have sd: "(s + ?e) * (1 + ?e) \<le> (1 + ?c) * d" by (rule order_trans)
  have "eta * (1 - u) \<le> g / d * (1 + ?e) * (s + ?e)"
    using etaU uq u eta0 gd e by (intro mult_mono) (simp_all add: s_def)
  also have "\<dots> = g / d * ((s + ?e) * (1 + ?e))" by simp
  also have "\<dots> \<le> g / d * ((1 + ?c) * d)" using sd gd(1) by (rule mult_left_mono)
  also have "\<dots> = g * (1 + ?c)" using d by simp
  also have "\<dots> \<le> (1 - 1 / 2 ^ 31) * (1 + ?c)" using g by (intro mult_right_mono) simp_all
  also have "\<dots> \<le> 1 - 1 / 4294967296" by simp
  finally show "eta * (1 - u) \<le> 1 - 1 / 4294967296" .
qed

lemma power_argument:
  fixes z z2 u g :: rat
  assumes u: "0 \<le> u" "u \<le> 1" and z: "0 < z2" "z2 \<le> 10 / 11 * z" and uz: "z2 \<le> dmul u z"
    and g: "0 \<le> g" "g \<le> 1 - 1 / 2 ^ 31"
  defines "eta \<equiv> ddiv g (dsub 1 (ddiv z2 z))"
  shows "0 < dsub 1 (ddiv z2 z)" "0 \<le> dadd (dsub (dmul eta u) eta) 1" "dadd (dsub (dmul eta u) eta) 1 \<le> 1"
proof -
  let ?e = round_error
  note e = round_error
  have z0: "0 < z" using z by linarith
  show "0 < dsub 1 (ddiv z2 z)" using eta_denominator [OF z] by simp
  have "z2 \<le> u * z * (1 + ?e)" using uz fl_upper [of "u * z"] u z0 unfolding dmul_def round_error_def by simp
  then have "z2 / z \<le> u * (1 + ?e)" using z0 by (simp add: field_simps)
  moreover have "u * ?e \<le> ?e" using u e by (simp add: mult_le_cancel_right2)
  ultimately have "1 - u \<le> 1 - z2 / z + ?e" by (simp add: distrib_left)
  note b = eta_bounds [OF u(2) z this g, folded eta_def]
  have "fl (fl (eta * u) - eta) \<le> 0"
  proof -
    have "eta * u \<le> eta" using b(1) u by (simp add: mult_left_le)
    moreover have "fl eta = eta" by (simp add: eta_def ddiv_def)
    ultimately have "fl (eta * u) \<le> eta" by (intro fl_double_le)
    then show ?thesis using fl_mono [of _ 0] by simp
  qed
  then show "dadd (dsub (dmul eta u) eta) 1 \<le> 1"
    unfolding dadd_def dsub_def dmul_def by (intro fl_double_le) simp_all
  have "- 1 \<le> fl (eta * u) - eta"
  proof -
    have "eta * u * (1 - ?e) \<le> fl (eta * u)" using fl_lower [of "eta * u"] b(1) u by (simp add: round_error_def)
    moreover have "eta * u * ?e \<le> 14 * 1 * ?e" using b(1,2) u e by (intro mult_mono) simp_all
    ultimately have "eta * u - 14 * ?e \<le> fl (eta * u)" by (simp add: algebra_simps)
    then show ?thesis using b(3) e by (simp add: algebra_simps)
  qed
  then have "- 1 \<le> fl (fl (eta * u) - eta)" using fl_ge_int [of "- 1"] by simp
  then show "0 \<le> dadd (dsub (dmul eta u) eta) 1"
    unfolding dadd_def dsub_def dmul_def by (intro fl_nonneg) simp
qed

text \<open>The numerator of \<open>eta\<close>: the power is at least \<open>2 / n\<close>, far above the rounding errors.\<close>

lemma numerator_bounds:
  assumes "pow_documented pow" "0 < theta" "theta < 1" "3 \<le> n" "n < 2 ^ 31"
  shows "0 \<le> dsub 1 (pow (ddiv 2 (double_of_int n)) (dsub 1 theta))"
    "dsub 1 (pow (ddiv 2 (double_of_int n)) (dsub 1 theta)) \<le> 1 - 1 / 2 ^ 31"
proof -
  have d: "ddiv 2 (double_of_int n) = fl (2 / of_int n)"
    using assms by (simp add: ddiv_def double_of_int_exact)
  have n: "rat_of_int 3 \<le> of_int n" "rat_of_int n \<le> of_int (2 ^ 31)"
    using assms by (simp_all only: of_int_le_iff)
  have x1: "fl (2 / of_int n) \<le> 1" using n by (intro fl_double_le) (simp_all add: field_simps)
  have h: "fl (1 / 2 ^ 31) = 1 / 2 ^ 31" by (rule fl_half_powers)
  have x0: "1 / 2 ^ 31 \<le> fl (2 / of_int n)" using n by (intro fl_double_ge [OF h]) (simp add: field_simps)
  note p = pow_unit [OF assms(1) fl_idem _ x1 complement(1) [OF assms(2,3)]]
  have p0: "0 \<le> fl (2 / rat_of_int n)" by (rule order_trans [OF _ x0]) simp
  show "0 \<le> dsub 1 (pow (ddiv 2 (double_of_int n)) (dsub 1 theta))"
    unfolding d using p(2) [OF p0] by (simp add: dsub_def fl_nonneg)
  have e: "fl (1 - 1 / 2 ^ 31) = 1 - 1 / 2 ^ 31"
    using fl_dyadic [of "2 ^ 31 - 1" "- 31"] by (simp add: power_int_def power_one_over)
  have "1 / 2 ^ 31 \<le> pow (fl (2 / of_int n)) (dsub 1 theta)"
    using x0 p(3) [OF p0 complement(2) [OF assms(2,3)]] by (rule order_trans)
  then have "1 - pow (fl (2 / of_int n)) (dsub 1 theta) \<le> 1 - 1 / 2 ^ 31" by simp
  from fl_double_le [OF e this]
  show "dsub 1 (pow (ddiv 2 (double_of_int n)) (dsub 1 theta)) \<le> 1 - 1 / 2 ^ 31"
    unfolding d by (simp add: dsub_def [of 1 "pow _ _"])
qed

definition zipf_param_of :: "(double \<Rightarrow> double \<Rightarrow> double) \<Rightarrow> int \<Rightarrow> int \<Rightarrow> double \<Rightarrow> zipf_params" where
  "zipf_param_of pow a b theta = \<lparr>z_a = a, z_b = b, z_theta = theta,
     z_zeta = zeta_sum pow theta (nat (b - a + 1)), z_zeta2theta = zeta_sum pow theta 2\<rparr>"

lemma zipf_param_of_simps [simp]:
  "z_a (zipf_param_of pow a b theta) = a" "z_b (zipf_param_of pow a b theta) = b"
  "z_theta (zipf_param_of pow a b theta) = theta"
  "z_zeta (zipf_param_of pow a b theta) = zeta_sum pow theta (nat (b - a + 1))"
  "z_zeta2theta (zipf_param_of pow a b theta) = zeta_sum pow theta 2"
  by (simp_all add: zipf_param_of_def)

lemma zipf_param_Ret:
  assumes "- (2 ^ 31) \<le> a" "a \<le> b" "b - a + 1 < 2 ^ 31" "0 < theta" "theta < 1"
  shows "zipf_param pow a b theta = Some (Ret (zipf_param_of pow a b theta))"
proof -
  have "uint (word_of_int (b - a + 1) :: u64) = b - a + 1"
    unfolding uint_word_of_int_eq using assms(1-3) by (intro take_bit_int_eq_self) simp_all
  then have u: "unat (word_of_int (b - a + 1) :: u64) = nat (b - a + 1)" by (simp only: unat_eq_nat_uint)
  have "zeta pow (word_of_int (b - a + 1)) theta = Some (zeta_sum pow theta (nat (b - a + 1)))"
    by (subst zeta_eq) (use assms in \<open>simp_all only: u\<close>, simp)
  moreover have "zeta pow 2 theta = Some (zeta_sum pow theta 2)" by (subst zeta_eq) simp_all
  ultimately show ?thesis
    using assms range_size_Ret [OF assms(1-3)] by (simp add: zipf_param_def zipf_param_of_def)
qed

lemma zipf_value_in_range:
  assumes pow: "pow_documented pow" and theta: "0 < theta" "theta < 1"
    and ab: "- (2 ^ 31) \<le> a" "a \<le> b" "b - a + 1 < 2 ^ 31" "b + 1 < 2 ^ 31" and u: "canonical u"
  shows "\<exists>x. zipf_value pow u (zipf_param_of pow a b theta) = Ret x \<and> a \<le> x \<and> x \<le> b + 1 \<and>
    (b \<le> a + 1 \<longrightarrow> x \<le> b)"
proof -
  define n where "n = b - a + 1"
  define z where "z = zeta_sum pow theta (nat n)"
  define z2 where "z2 = zeta_sum pow theta 2"
  have z2: "dadd 1 (pow (1 / 2) theta) = z2" unfolding z2_def by (rule zeta_sum_2 [OF pow theta, symmetric])
  have n: "1 \<le> n" "n < 2 ^ 31" using ab by (simp_all add: n_def)
  have rs: "range_size a b = Ret n" unfolding n_def by (rule range_size_Ret) (use ab in auto)
  have uu: "0 \<le> u" "u \<le> 1 - 1 / 2 ^ 53" "u \<le> 1"
    using u canonical_le [OF u] by (simp_all add: canonical_def)
  have zz: "1 \<le> z"
    unfolding z_def using zeta_sum_mono [OF pow theta(1), of 1 "nat n"] zeta_sum_1 [OF pow theta] n by simp
  have low: "dmul u z < z"
    unfolding dmul_def using uu zz by (intro fl_below) (simp_all add: mult.commute)
  have F: "zipf_value pow u (zipf_param_of pow a b theta) =
    (if dmul u z < 1 then Ret a else if dmul u z < z2 then int_value (a + 1)
     else case zipf_eta pow (zipf_param_of pow a b theta) n of None \<Rightarrow> Fault Undefined
      | Some e \<Rightarrow> int_of_double (dadd (double_of_int a)
          (dmul (double_of_int n) (pow (dadd (dsub (dmul e u) e) 1) (ddiv 1 (dsub 1 theta))))))"
    unfolding zipf_value_def
    by (simp add: rs z2 z_def [symmetric] n_def [symmetric] Let_def cong: option.case_cong)
  consider "dmul u z < 1" | "\<not> dmul u z < 1" "dmul u z < z2" | "z2 \<le> dmul u z" by linarith
  then show ?thesis
  proof cases
    case 1
    then show ?thesis unfolding F using ab by simp
  next
    case 2
    have "n \<noteq> 1" using 2 low zeta_sum_1 [OF pow theta] by (auto simp: z_def)
    then have "a + 1 \<le> b" using n by (simp add: n_def)
    moreover have "int_value (a + 1) = Ret (a + 1)" using ab calculation by (intro int_value_Ret) linarith+
    ultimately show ?thesis unfolding F using 2 by simp
  next
    case 3
    have n1: "n \<noteq> 1" using 3 low zeta_sum_1 [OF pow theta] zeta_sum_2_bounds(1) [OF pow theta]
      by (auto simp: z_def z2_def)
    have n2: "n \<noteq> 2" using 3 low by (auto simp: z_def z2_def)
    have n3: "3 \<le> n" using n1 n2 n by linarith
    have gap: "z2 \<le> 10 / 11 * z" unfolding z_def z2_def
      by (rule zeta_sum_gap [OF pow theta]) (use n3 n in auto)
    have z20: "0 < z2" using zeta_sum_2_bounds(1) [OF pow theta] by (simp add: z2_def)
    note num = numerator_bounds [OF pow theta n3 n(2)]
    define g where "g = dsub 1 (pow (ddiv 2 (double_of_int n)) (dsub 1 theta))"
    define eta where "eta = ddiv g (dsub 1 (ddiv z2 z))"
    note arg = power_argument [OF uu(1,3) z20 gap 3 num, folded g_def, folded eta_def]
    have E: "zipf_eta pow (zipf_param_of pow a b theta) n = Some eta"
      using arg(1) zz by (simp add: zipf_eta_def z_def [symmetric] z2_def [symmetric]
          n_def [symmetric] g_def [symmetric] eta_def Let_def)
    have ad: "fl (dadd (dsub (dmul eta u) eta) 1) = dadd (dsub (dmul eta u) eta) 1"
      by (simp add: dadd_def)
    note w = pow_unit [OF pow ad arg(2,3) complement(3) [OF theta]]
    have "\<exists>x. int_of_double (dadd (double_of_int a)
        (dmul (double_of_int n) (pow (dadd (dsub (dmul eta u) eta) 1) (ddiv 1 (dsub 1 theta))))) = Ret x \<and>
      a \<le> x \<and> x \<le> a + n"
      by (rule offset_value) (use ab n w in \<open>auto simp: n_def\<close>)
    moreover have "\<not> dmul u z < 1" "\<not> dmul u z < z2"
      using 3 zeta_sum_2_bounds(1) [OF pow theta] by (auto simp: z2_def)
    ultimately show ?thesis unfolding F using E n3 by (auto simp: n_def)
  qed
qed

text \<open>
  The largest canonical number: when \<open>eta\<close> is at most a quarter, as it is for the skew of 0.99 on
  every range, the argument of the power is rounded to 1.
\<close>

lemma power_argument_1:
  assumes e: "fl e = e" "0 \<le> e" "e \<le> 1 / 4"
  shows "dadd (dsub (dmul e (1 - 1 / 2 ^ 53)) e) 1 = 1"
proof -
  define f where "f = fl (e * (1 - 1 / 2 ^ 53))"
  have f1: "f \<le> e" unfolding f_def using e(2) by (intro fl_double_le [OF e(1)]) simp
  have "e * (1 - 1 / 2 ^ 53) * (1 - 1 / 2 ^ 53) \<le> f" unfolding f_def using e(2) by (intro fl_lower) simp
  then have "- (1 / 2 ^ 54) \<le> f - e" using e by (simp add: field_simps)
  moreover have h: "fl (- (1 / 2 ^ 54)) = - (1 / 2 ^ 54)" by (simp only: fl_minus fl_half_powers)
  ultimately have lo: "- (1 / 2 ^ 54) \<le> fl (f - e)" by (intro fl_double_ge)
  have hi: "fl (f - e) \<le> 0" using f1 fl_mono [of "f - e" 0] by simp
  have "ilog2 (1 - 1 / 2 ^ 54) = - 1" by (intro ilog2_unique) (simp_all add: power_int_def)
  moreover have "round_half_even ((1 - 1 / 2 ^ 54) / (1 / 2 ^ 53)) = 2 ^ 53"
  proof -
    have "\<lfloor>18014398509481983 / 2 :: rat\<rfloor> = 9007199254740991" by (intro floor_unique) simp_all
    then show ?thesis by (simp add: round_half_even_def Let_def)
  qed
  ultimately have "fl (1 - 1 / 2 ^ 54) = 1"
    using fl_pos_eq [of "1 - 1 / 2 ^ 54"] by (simp add: power_int_def power_one_over)
  then have "1 \<le> fl (fl (f - e) + 1)" using fl_mono [of "1 - 1 / 2 ^ 54" "fl (f - e) + 1"] lo by simp
  moreover have "fl (fl (f - e) + 1) \<le> 1" using hi by (intro fl_double_le) simp_all
  ultimately show ?thesis unfolding dadd_def dsub_def dmul_def f_def by simp
qed

lemma offset_top:
  assumes "- (2 ^ 31) \<le> a" "a + n < 2 ^ 31" "0 < n" "n < 2 ^ 31"
  shows "int_of_double (dadd (double_of_int a) (dmul (double_of_int n) 1)) = Ret (a + n)"
proof -
  have a: "\<bar>a\<bar> \<le> 2 ^ 31" "\<bar>a + n\<bar> \<le> 2 ^ 53" using assms by (auto intro!: abs_leI)
  have "dadd (double_of_int a) (dmul (double_of_int n) 1) = fl (of_int (a + n))"
    using assms a by (simp add: dadd_def dmul_def double_of_int_exact fl_int)
  also have "\<dots> = of_int (a + n)" by (rule fl_int) (rule a)
  finally show ?thesis using assms
    by (simp add: int_of_double_def trunc_def int_value_def del: of_int_add)
qed

lemma zipf_value_top:
  assumes pow: "pow_documented pow" and theta: "0 < theta" "theta < 1"
    and ab: "- (2 ^ 31) \<le> a" "a + 2 \<le> b" "b - a + 1 < 2 ^ 31" "b + 1 < 2 ^ 31"
    and eta: "zipf_eta pow (zipf_param_of pow a b theta) (b - a + 1) = Some e" "0 \<le> e" "e \<le> 1 / 4"
    and one: "pow 1 (ddiv 1 (dsub 1 theta)) = 1"
  shows "zipf_value pow (1 - 1 / 2 ^ 53) (zipf_param_of pow a b theta) = Ret (b + 1)"
proof -
  define n where "n = b - a + 1"
  define z where "z = zeta_sum pow theta (nat n)"
  define z2 where "z2 = zeta_sum pow theta 2"
  have z2: "dadd 1 (pow (1 / 2) theta) = z2" unfolding z2_def by (rule zeta_sum_2 [OF pow theta, symmetric])
  have rs: "range_size a b = Ret n" unfolding n_def by (rule range_size_Ret) (use ab in auto)
  have gap: "z2 \<le> 10 / 11 * z" unfolding z_def z2_def
    by (rule zeta_sum_gap [OF pow theta]) (use ab in \<open>auto simp: n_def\<close>)
  have z1: "1 < z2" using zeta_sum_2_bounds(1) [OF pow theta] by (simp add: z2_def)
  have "z2 \<le> (1 - 1 / 2 ^ 53) * z" using gap z1 by simp
  then have uz: "z2 \<le> dmul (1 - 1 / 2 ^ 53) z" unfolding dmul_def z2_def by (intro fl_double_ge) simp_all
  have E: "zipf_eta pow (zipf_param_of pow a b theta) n = Some e" using eta(1) by (simp add: n_def)
  have ed: "fl e = e" using eta(1) by (auto simp: zipf_eta_def Let_def ddiv_def split: if_splits)
  note arg = power_argument_1 [OF ed eta(2,3)]
  have "\<not> dmul (1 - 1 / 2 ^ 53) z < 1" "\<not> dmul (1 - 1 / 2 ^ 53) z < z2" using uz z1 by linarith+
  then have "zipf_value pow (1 - 1 / 2 ^ 53) (zipf_param_of pow a b theta) =
    int_of_double (dadd (double_of_int a) (dmul (double_of_int n) 1))"
    unfolding zipf_value_def zipf_param_of_simps rs bindO.simps z2 z_def [symmetric] n_def [symmetric] Let_def
    by (simp only: E if_False option.case arg one)
  also have "\<dots> = Ret (a + n)" by (rule offset_top) (use ab in \<open>auto simp: n_def\<close>)
  finally show ?thesis by (simp add: n_def)
qed

section \<open>The draw of the self-similar distribution\<close>

text \<open>The logarithm of a number below 1 is negative, and grows with the number.\<close>

definition log_documented :: "(double \<Rightarrow> double) \<Rightarrow> bool" where
  "log_documented logf \<longleftrightarrow> (\<forall>x y. fl x = x \<and> fl y = y \<and> 0 < x \<and> x \<le> y \<and> y < 1 \<longrightarrow>
     logf x \<le> logf y \<and> logf y < 0)"

definition skew_exponent :: "(double \<Rightarrow> double) \<Rightarrow> double \<Rightarrow> double" where
  "skew_exponent logf skew = ddiv (logf skew) (logf (dsub 1 skew))"

lemma skew_exponent:
  assumes logf: "log_documented logf" and s: "fl skew = skew" "0 < skew" "skew < 1" "dsub 1 skew < 1"
  shows "logf (dsub 1 skew) < 0" "0 < skew_exponent logf skew"
    "skew \<le> 1 / 2 \<Longrightarrow> 1 \<le> skew_exponent logf skew"
proof -
  have d: "fl (dsub 1 skew) = dsub 1 skew" "0 < dsub 1 skew" using s by (simp_all add: dsub_def fl_pos)
  show l2: "logf (dsub 1 skew) < 0" using logf d s(4) unfolding log_documented_def by blast
  have l1: "logf skew < 0" using logf s unfolding log_documented_def by blast
  show "0 < skew_exponent logf skew"
    unfolding skew_exponent_def ddiv_def using l1 l2 by (intro fl_pos divide_neg_neg)
  assume "skew \<le> 1 / 2"
  then have "skew \<le> dsub 1 skew" unfolding dsub_def using s by (intro fl_double_ge) simp_all
  then have "logf skew \<le> logf (dsub 1 skew)" using logf s d unfolding log_documented_def by blast
  then have "1 \<le> logf skew / logf (dsub 1 skew)" using l2 by (simp add: le_divide_eq)
  then show "1 \<le> skew_exponent logf skew"
    unfolding skew_exponent_def ddiv_def by (intro fl_double_ge) simp_all
qed

lemma selfsimilar_value_eq:
  assumes "- (2 ^ 31) \<le> a" "a \<le> b" "b - a + 1 < 2 ^ 31" "logf (dsub 1 skew) < 0"
  shows "selfsimilar_value pow logf u \<lparr>s_a = a, s_b = b, s_skew = skew\<rparr> =
    int_of_double (dadd (double_of_int a) (dmul (double_of_int (b - a + 1)) (pow u (skew_exponent logf skew))))"
proof -
  have "uint (word_of_int (b - a + 1) :: u64) = b - a + 1"
    unfolding uint_word_of_int_eq using assms(1-3) by (intro take_bit_int_eq_self) simp_all
  then show ?thesis unfolding selfsimilar_value_def selfsimilar_params.simps range_size_Ret [OF assms(1-3)]
    bindO.simps Let_def skew_exponent_def using assms(4) by simp
qed

lemma selfsimilar_value_in_range:
  assumes pow: "pow_documented pow" and logf: "log_documented logf"
    and s: "fl skew = skew" "0 < skew" "skew < 1" "dsub 1 skew < 1"
    and ab: "- (2 ^ 31) \<le> a" "a \<le> b" "b - a + 1 < 2 ^ 31" "b + 1 < 2 ^ 31" and u: "canonical u"
  shows "\<exists>x. selfsimilar_value pow logf u \<lparr>s_a = a, s_b = b, s_skew = skew\<rparr> = Ret x \<and>
    a \<le> x \<and> x \<le> b + 1 \<and> (a = 0 \<and> skew \<le> 1 / 2 \<longrightarrow> x \<le> b)"
proof -
  note ex = skew_exponent [OF logf s]
  define n where "n = b - a + 1"
  define w where "w = pow u (skew_exponent logf skew)"
  have n: "0 < n" "n < 2 ^ 31" using ab by (simp_all add: n_def)
  have uu: "fl u = u" "0 \<le> u" "u \<le> 1" "u \<le> 1 - 1 / 2 ^ 53"
    using u canonical_le [OF u] by (simp_all add: canonical_def)
  note w = pow_unit [OF pow uu(1-3) ex(2), folded w_def]
  note F = selfsimilar_value_eq [where logf = logf and skew = skew and pow = pow and u = u,
      OF ab(1-3) ex(1), folded n_def w_def]
  obtain x where x: "int_of_double (dadd (double_of_int a) (dmul (double_of_int n) w)) = Ret x"
    "a \<le> x" "x \<le> a + n"
    using offset_value [OF ab(1) _ n w(1,2)] ab(4) by (auto simp: n_def)
  have "x \<le> b" if a: "a = 0" "skew \<le> 1 / 2"
  proof -
    define v where "v = dmul (double_of_int n) w"
    have "w \<le> 1 - 1 / 2 ^ 53" using w(4) [OF ex(3) [OF a(2)]] uu(4) by linarith
    then have v: "v < of_int n" "0 \<le> v" "fl v = v"
      unfolding v_def dmul_def using n w(1)
      by (auto intro!: fl_below fl_nonneg mult_left_mono simp: double_of_int_exact)
    then have "trunc v < n" by (intro trunc_below)
    moreover have "dadd (double_of_int a) v = v" using v(3) a(1) by (simp add: dadd_def double_of_int_def)
    ultimately have "x < n" using x(1) unfolding v_def
      by (auto simp: int_of_double_def int_value_def split: if_splits)
    then show ?thesis using a(1) by (simp add: n_def)
  qed
  then show ?thesis using x F by (auto simp: n_def)
qed

text \<open>Far from 0 the sum is rounded up to the next integer.\<close>

lemma selfsimilar_value_top:
  assumes "2 ^ 30 \<le> a" "a + 2 < 2 ^ 31" "logf (dsub 1 skew) < 0"
    and w: "1 - 1 / 2 ^ 25 \<le> pow u (skew_exponent logf skew)" "pow u (skew_exponent logf skew) \<le> 1"
  shows "selfsimilar_value pow logf u \<lparr>s_a = a, s_b = a + 1, s_skew = skew\<rparr> = Ret (a + 2)"
proof -
  define x where "x = pow u (skew_exponent logf skew)"
  define v where "v = dmul (double_of_int 2) x"
  have "fl (2 - 1 / 2 ^ 24) = 2 - 1 / 2 ^ 24"
    using fl_dyadic [of "2 ^ 25 - 1" "- 24"] by (simp add: power_int_def power_one_over)
  then have "2 - 1 / 2 ^ 24 \<le> fl (2 * x)" using w(1) by (intro fl_double_ge) (simp_all add: x_def)
  moreover have "fl (2 * x) \<le> 2" using fl_le_int [of "2 * x" 2] w(2) by (simp add: x_def)
  ultimately have v: "2 - 1 / 2 ^ 24 \<le> v" "v \<le> 2" unfolding v_def dmul_def by (simp_all add: double_of_int_exact)
  define y where "y = of_int a + v"
  have a: "rat_of_int (2 ^ 30) \<le> of_int a" "rat_of_int (a + 2) \<le> of_int (2 ^ 31 - 1)"
    using assms(1,2) by (simp_all only: of_int_le_iff)
  have y: "of_int (a + 2) - 1 / 2 ^ 24 \<le> y" "y \<le> of_int (a + 2)" using v by (simp_all add: y_def)
  have lg: "ilog2 y = 30" using a y by (intro ilog2_unique) (simp_all add: power_int_def)
  have "(0::rat) < y" using a y by simp
  note fy = fl_pos_eq [OF this, unfolded lg]
  have pw: "(2::rat) powi (30 - 52) = 1 / 2 ^ 22" by (simp add: power_int_def power_one_over)
  have "round_half_even (y / (1 / 2 ^ 22)) = 2 ^ 22 * (a + 2)"
  proof -
    define r where "r = y * 2 ^ 22"
    have r: "of_int (2 ^ 22 * (a + 2)) - 1 / 4 \<le> r" "r \<le> of_int (2 ^ 22 * (a + 2))"
      using y by (simp_all add: r_def algebra_simps)
    have "of_int (round_half_even r) - r \<le> 1 / 2" "- (of_int (round_half_even r) - r) \<le> 1 / 2"
      using round_half_even_close [of r] by (rule abs_le_D1, rule abs_le_D2)
    then have "rat_of_int (round_half_even r) < of_int (2 ^ 22 * (a + 2) + 1)"
      "rat_of_int (2 ^ 22 * (a + 2) - 1) < of_int (round_half_even r)"
      using r by simp_all
    then have "round_half_even r = 2 ^ 22 * (a + 2)" unfolding of_int_less_iff by simp
    then show ?thesis by (simp add: r_def)
  qed
  then have "fl y = of_int (a + 2)" unfolding fy pw by simp
  then have "dadd (double_of_int a) v = of_int (a + 2)"
    using assms(1,2) by (simp add: dadd_def y_def double_of_int_exact)
  moreover have "trunc (of_int (a + 2)) = a + 2" using assms(1) by (simp add: trunc_def del: of_int_add)
  ultimately have "int_of_double (dadd (double_of_int a) v) = Ret (a + 2)"
    using assms(1,2) by (simp add: int_of_double_def int_value_def del: of_int_add)
  moreover have "a + 1 - a + 1 = 2" by simp
  ultimately show ?thesis
    using selfsimilar_value_eq [of a "a + 1" logf skew pow u] assms(1-3)
    by (simp add: v_def x_def)
qed

text \<open>
  The values that the C library returns for the powers of a range of three with the default skew
  (elsewhere the first argument, which the documented bounds allow).
\<close>

definition skew_99 :: double where "skew_99 = 4458563631096791 / 4503599627370496"

definition pow_values :: "double \<Rightarrow> double \<Rightarrow> double" where
  "pow_values x y =
     (if x = 1 / 2 \<and> y = skew_99 then 1133731160003523 / 2251799813685248
      else if x = 6004799503160661 / 18014398509481984 \<and> y = skew_99
        then 6071132673420653 / 18014398509481984
      else if x = 6004799503160661 / 9007199254740992 \<and> y = 45035996273705 / 4503599627370496
        then 8970752144635555 / 9007199254740992
      else x)"

lemma pow_values_documented: "pow_documented pow_values"
  unfolding pow_documented_def pow_values_def by (auto simp: skew_99_def)

lemma fl_eval:
  assumes "2 powi k \<le> x" "x < 2 powi (k + 1)" "\<lfloor>x / 2 powi (k - 52)\<rfloor> = m" "x / 2 powi (k - 52) - of_int m < 1 / 2"
  shows "fl x = of_int m * 2 powi (k - 52)"
proof -
  have "(0::rat) < 2 powi k" by simp
  with assms(1) have "0 < x" by linarith
  then show ?thesis using assms by (simp add: fl_pos_eq ilog2_unique round_half_even_def Let_def)
qed

lemma fl_thirds:
  "fl (1 / 3) = 6004799503160661 / 18014398509481984" "fl (2 / 3) = 6004799503160661 / 9007199254740992"
proof -
  have f: "\<lfloor>18014398509481984 / 3 :: rat\<rfloor> = 6004799503160661" by (intro floor_unique) simp_all
  have "fl (1 / 3) = of_int 6004799503160661 * 2 powi (- 2 - 52)"
    by (rule fl_eval) (simp_all add: power_int_def power_one_over f)
  then show "fl (1 / 3) = 6004799503160661 / 18014398509481984" by (simp add: power_int_def power_one_over)
  have "fl (2 / 3) = of_int 6004799503160661 * 2 powi (- 1 - 52)"
    by (rule fl_eval) (simp_all add: power_int_def power_one_over f)
  then show "fl (2 / 3) = 6004799503160661 / 9007199254740992" by (simp add: power_int_def power_one_over)
qed

lemma pow_values_eta:
  "\<exists>e. zipf_eta pow_values (zipf_param_of pow_values 0 2 skew_99) 3 = Some e \<and> 0 \<le> e \<and> e \<le> 1 / 4"
proof -
  have s: "0 < skew_99" "skew_99 < 1" by (simp_all add: skew_99_def)
  define z where "z = zeta_sum pow_values skew_99 3"
  define z2 :: rat where "z2 = 3385530973688771 / 2251799813685248"
  have "fl (1 + 1133731160003523 / 2251799813685248) = z2"
    using fl_dyadic [of 3385530973688771 "- 51"] by (simp add: z2_def power_int_def power_one_over)
  then have z2: "zeta_sum pow_values skew_99 2 = z2"
    unfolding zeta_sum_2 [OF pow_values_documented s] by (simp add: dadd_def pow_values_def)
  have "pow_values (ddiv 1 (double_of_int 3)) skew_99 = 6071132673420653 / 18014398509481984"
    by (simp add: ddiv_def double_of_int_exact fl_thirds pow_values_def)
  moreover have "z = dadd (zeta_sum pow_values skew_99 2) (pow_values (ddiv 1 (double_of_int 3)) skew_99)"
    by (simp add: z_def numeral_3_eq_3 numeral_2_eq_2)
  ultimately have "z = fl (z2 + 6071132673420653 / 18014398509481984)"
    by (simp only: z2 dadd_def)
  then have z: "18 / 10 \<le> z" using fl_lower [of "z2 + 6071132673420653 / 18014398509481984"] by (simp add: z2_def)
  then have "z2 / z \<le> 84 / 100" by (simp add: z2_def field_simps)
  moreover have "fl (z2 / z) \<le> z2 / z * (1 + 1 / 2 ^ 53)" using z by (intro fl_upper) (simp add: z2_def)
  ultimately have q: "fl (z2 / z) \<le> 85 / 100" by simp
  define den where "den = dsub 1 (ddiv z2 z)"
  have den: "1 / 10 \<le> den" using fl_lower [of "1 - fl (z2 / z)"] q by (simp add: den_def dsub_def ddiv_def)
  have c: "dsub 1 skew_99 = 45035996273705 / 4503599627370496"
    using fl_dyadic [of 45035996273705 "- 52"] by (simp add: dsub_def skew_99_def power_int_def power_one_over)
  have "pow_values (ddiv 2 (double_of_int 3)) (dsub 1 skew_99) = 8970752144635555 / 9007199254740992"
    unfolding c by (simp add: ddiv_def double_of_int_exact fl_thirds pow_values_def skew_99_def)
  moreover have "dsub 1 (8970752144635555 / 9007199254740992) = 36447110105437 / 9007199254740992"
    using fl_dyadic [of 36447110105437 "- 53"] by (simp add: dsub_def power_int_def power_one_over)
  ultimately have num: "dsub 1 (pow_values (ddiv 2 (double_of_int 3)) (dsub 1 skew_99)) =
    36447110105437 / 9007199254740992" by (simp only:)
  have "z \<noteq> 0" "den \<noteq> 0" using z den by auto
  then have E: "zipf_eta pow_values (zipf_param_of pow_values 0 2 skew_99) 3 =
    Some (ddiv (36447110105437 / 9007199254740992) den)"
    by (simp add: zipf_eta_def z2 z_def [symmetric] den_def [symmetric] num Let_def)
  have b: "0 \<le> 36447110105437 / 9007199254740992 / den" "36447110105437 / 9007199254740992 / den \<le> 1 / 20"
    using den by (simp_all add: field_simps)
  have "0 \<le> ddiv (36447110105437 / 9007199254740992) den" unfolding ddiv_def using b by (intro fl_nonneg)
  moreover have "ddiv (36447110105437 / 9007199254740992) den \<le> 1 / 4"
    unfolding ddiv_def using b fl_half_powers [of 2] by (intro fl_double_le) simp_all
  ultimately show ?thesis using E by blast
qed

section \<open>Properties\<close>

text \<open>
  C30. The zipfian distribution over \<open>a\<close> to \<open>b\<close> can be constructed for every skew between 0 and 1:
  its zeta loops end and no assertion fails. Every draw, whatever the random engine, is defined (no
  division by zero is read, every conversion fits an \<open>int\<close>) and lies between \<open>a\<close> and \<open>b + 1\<close>; over a
  range of one or two values it never exceeds \<open>b\<close>.
\<close>

theorem zipfian_draws:
  assumes "pow_documented pow" "0 < theta" "theta < 1" "- (2 ^ 31) \<le> a" "a \<le> b" "b - a + 1 < 2 ^ 31"
    "b + 1 < 2 ^ 31" "\<forall>g. canonical (fst (generate_canonical g))"
  shows "\<exists>d. zipfian_int_distribution pow a b theta = Some (Ret d) \<and> zd_min d = a \<and> zd_max d = b \<and>
    (\<forall>g. \<exists>x g'. zd_op pow generate_canonical g d = Ret (x, g') \<and> a \<le> x \<and> x \<le> b + 1 \<and> (b \<le> a + 1 \<longrightarrow> x \<le> b))"
proof -
  let ?d = "\<lparr>zd_param = zipf_param_of pow a b theta\<rparr>"
  have "\<exists>x g'. zd_op pow generate_canonical g ?d = Ret (x, g') \<and> a \<le> x \<and> x \<le> b + 1 \<and> (b \<le> a + 1 \<longrightarrow> x \<le> b)" for g
    using zipf_value_in_range [OF assms(1-7), of "fst (generate_canonical g)"] assms(8)
    by (fastforce simp: zd_op_def zipf_op_def split: prod.splits)
  moreover have "zipfian_int_distribution pow a b theta = Some (Ret ?d)"
    by (simp add: zipfian_int_distribution_def zipf_param_Ret [OF assms(4-6,2,3)])
  ultimately show ?thesis by (intro exI [of _ ?d]) (simp add: zd_min_def zd_max_def)
qed

theorem zipfian_draws_witness:
  "\<exists>d. zipfian_int_distribution pow_values 0 2 skew_99 = Some (Ret d) \<and> zd_min d = 0 \<and> zd_max d = 2 \<and>
    (\<forall>g. \<exists>x g'. zd_op pow_values (\<lambda>g. (1 / 2, g :: nat)) g d = Ret (x, g') \<and> 0 \<le> x \<and> x \<le> 2 + 1 \<and>
      (2 \<le> (0::int) + 1 \<longrightarrow> x \<le> 2))"
  by (rule zipfian_draws)
    (use pow_values_documented fl_half_powers [of 1] in \<open>simp_all add: skew_99_def canonical_def\<close>)

text \<open>
  The zipfian distribution leaves its range: when \<open>eta\<close> is at most a quarter (for the default
  skew of 0.99 it is, on every range), the largest random number, \<open>1 - 2^-53\<close>, draws \<open>b + 1\<close>, because the
  argument of the last power is rounded to 1.
\<close>

theorem zipfian_overshoot:
  assumes "pow_documented pow" "0 < theta" "theta < 1" "- (2 ^ 31) \<le> a" "a + 2 \<le> b" "b - a + 1 < 2 ^ 31"
    "b + 1 < 2 ^ 31" "pow 1 (ddiv 1 (dsub 1 theta)) = 1" "zipf_param pow a b theta = Some (Ret p)"
    "\<exists>e. zipf_eta pow p (b - a + 1) = Some e \<and> 0 \<le> e \<and> e \<le> 1 / 4" "generate_canonical g = (1 - 1 / 2 ^ 53, g')"
  shows "zipf_op pow generate_canonical g p = Ret (b + 1, g')"
proof -
  have "a \<le> b" using assms(5) by simp
  then have p: "p = zipf_param_of pow a b theta"
    using zipf_param_Ret [OF assms(4) _ assms(6,2,3), of pow] assms(9) by simp
  from assms(10) obtain e where "zipf_eta pow (zipf_param_of pow a b theta) (b - a + 1) = Some e"
    "0 \<le> e" "e \<le> 1 / 4" unfolding p by blast
  from zipf_value_top [OF assms(1-7) this assms(8)] show ?thesis
    unfolding p by (simp add: zipf_op_def assms(11) del: One_rat_def)
qed

theorem zipfian_overshoot_witness:
  "\<exists>p. zipf_param pow_values 0 2 skew_99 = Some (Ret p) \<and>
    zipf_op pow_values (\<lambda>g. (1 - 1 / 2 ^ 53, g :: nat)) 0 p = Ret (3, 0)"
proof -
  have s: "0 < skew_99" "skew_99 < 1" by (simp_all add: skew_99_def)
  have P: "zipf_param pow_values 0 2 skew_99 = Some (Ret (zipf_param_of pow_values 0 2 skew_99))"
    by (rule zipf_param_Ret) (use s in simp_all)
  have one: "pow_values 1 y = 1" for y by (simp add: pow_values_def)
  have "zipf_op pow_values (\<lambda>g. (1 - 1 / 2 ^ 53, g :: nat)) 0 (zipf_param_of pow_values 0 2 skew_99) = Ret (2 + 1, 0)"
    by (rule zipfian_overshoot [OF pow_values_documented s _ _ _ _ one P])
      (use pow_values_eta in simp_all)
  with P show ?thesis by simp
qed



text \<open>A self-similar distribution far from 0 draws \<open>b + 1\<close> for every large random number.\<close>

lemma selfsimilar_overshoot:
  assumes "2 ^ 30 \<le> a" "a + 2 < 2 ^ 31" "logf (dsub 1 skew) < 0" "generate_canonical g = (u, g')"
    "1 - 1 / 2 ^ 25 \<le> pow u (skew_exponent logf skew)" "pow u (skew_exponent logf skew) \<le> 1"
  shows "selfsimilar_op pow logf generate_canonical g \<lparr>s_a = a, s_b = a + 1, s_skew = skew\<rparr> = Ret (a + 2, g')"
  using selfsimilar_value_top [where logf = logf and skew = skew and pow = pow and u = u, OF assms(1-3,5,6)] by (simp add: selfsimilar_op_def assms(4))

text \<open>
  The default arguments of the parameters, 0 and the largest \<open>int\<close>, overflow \<open>b - a + 1\<close>; bounds in the
  wrong order by two make the loop of zeta endless before the assertion that forbids them.
\<close>

lemma zipf_param_default: "zipf_param pow 0 (2 ^ 31 - 1) theta = Some (Fault Undefined)"
  by (simp add: zipf_param_def range_size_def int_value_def)

lemma zipf_param_endless:
  assumes "- (2 ^ 31) \<le> b" "b + 2 < 2 ^ 31" shows "zipf_param pow (b + 2) b theta = None"
  using assms by (simp add: zipf_param_def range_size_def int_value_def zeta_max)

end
