(* ===== verification/Ycsb_Latest.thy ===== *)
theory Ycsb_Latest
  imports Ycsb Distribution_Props
begin

text \<open>
  Workload D of \<open>rome/colosseum/streams/ycsb.h\<close>: the history of recent keys with the zipfian distribution that
  draws from it, and the stream that the factory makes of it.
\<close>

section \<open>The history and its distribution\<close>

text \<open>\<open>0.99\<close>, which is also the default of the distribution's constructor.\<close>

definition kDefaultTheta :: double where
  "kDefaultTheta = fl (99 / 100)"

record ('s, 'a, 'e) recent_keys =
  rk_history :: "('s, 'a) latest_stream"
  rk_rand :: 'e
  rk_dist :: zipf_dist

definition make_recent_keys ::
    "(double \<Rightarrow> double \<Rightarrow> double) \<Rightarrow> int \<Rightarrow> ('s, 'a) next_fun \<Rightarrow> 's stream \<Rightarrow> 'e \<Rightarrow> ('s, 'a, 'e) recent_keys run" where
  "make_recent_keys pow sz nx st rand =
     bindR (zipfian_int_distribution pow 0 (sz - 1) kDefaultTheta) (\<lambda>dist.
       Some (bindO (LatestStream sz nx st) (\<lambda>h. Ret \<lparr>rk_history = h, rk_rand = rand, rk_dist = dist\<rparr>)))"

definition rk_NextInternal :: "int \<Rightarrow> ('s, 'a) next_fun \<Rightarrow> (('s, 'a, 'e) recent_keys, 'a) next_fun" where
  "rk_NextInternal sz nx s = bindO (ls_NextInternal sz nx (rk_history s)) (\<lambda>(v, h). Ret (v, s\<lparr>rk_history := h\<rparr>))"

definition rk_Latest :: "(double \<Rightarrow> double \<Rightarrow> double) \<Rightarrow> ('e \<Rightarrow> double \<times> 'e) \<Rightarrow> int \<Rightarrow> (('s, 'a, 'e) recent_keys, 'a) next_fun" where
  "rk_Latest pow generate_canonical sz s =
     bindO (zd_op pow generate_canonical (rk_rand s) (rk_dist s)) (\<lambda>(i, rand).
     bindO (Latest sz i (rk_history s)) (\<lambda>v. Ret (v, s\<lparr>rk_rand := rand\<rparr>)))"

section \<open>Workload D\<close>

definition ycsb_d :: "(double \<Rightarrow> double \<Rightarrow> double) \<Rightarrow> ('e \<Rightarrow> double \<times> 'e) \<Rightarrow> int \<Rightarrow> ('s, 'k) next_fun \<Rightarrow> ('o, op_type) next_fun \<Rightarrow>
    (('s, 'k, 'e) recent_keys stream \<times> 'o stream, 'k ycsb_op) next_fun" where
  "ycsb_d pow generate_canonical sz nk no = (\<lambda>(keys, ops).
     bindO (Next no ops) (\<lambda>(p, ops).
       case p of Inl e \<Rightarrow> Ret (Inl e, (keys, ops))
       | Inr pv \<Rightarrow>
           bindO (if pv = kInsert then Next (rk_NextInternal sz nk) keys
                  else bindO (rk_Latest pow generate_canonical sz (impl keys)) (\<lambda>(k, r). Ret (k, keys\<lparr>impl := r\<rparr>))) (\<lambda>(k, keys).
             case k of Inl e \<Rightarrow> Ret (Inl e, (keys, ops))
             | Inr kv \<Rightarrow> Ret (Inr \<lparr>op_key = kv, op_kind = pv, op_range = -1\<rparr>, (keys, ops)))))"

definition YcsbD :: "(double \<Rightarrow> double \<Rightarrow> double) \<Rightarrow> ('g \<Rightarrow> u8 list \<times> 'g) \<Rightarrow> 'g \<Rightarrow> 'h \<Rightarrow> 'e \<Rightarrow> 'k::len word \<Rightarrow> 'k word \<Rightarrow>
    ((('k word, 'g) key_generator, 'k word, 'e) recent_keys stream \<times> (op_type, 'h) weighted_stream stream) stream run" where
  "YcsbD pow draw_bytes mt mt2 rand lo hi =
     bindR (make_recent_keys pow 10000 (kg_NextInternal draw_bytes) (key_source mt lo hi) rand) (\<lambda>ks.
       Some (Ret (make_stream (make_stream ks, op_source weights_d mt2))))"

section \<open>The life of the history\<close>

text \<open>
  The keys that were inserted so far, among them those of the constructor; a draw sees the last \<open>m\<close>.
\<close>

definition recent :: "nat \<Rightarrow> 'a list \<Rightarrow> 'a list" where
  "recent m ks = drop (length ks - m) ks"

lemma recent_nth: "length ks - m \<le> i \<Longrightarrow> i < length ks \<Longrightarrow> ks ! i \<in> set (recent m ks)"
proof -
  assume "length ks - m \<le> i" "i < length ks"
  then have "ks ! i = drop (length ks - m) ks ! (i - (length ks - m))" "i - (length ks - m) < length (drop (length ks - m) ks)" by simp_all
  then show ?thesis unfolding recent_def by (simp only: nth_mem)
qed

text \<open>Inserted keys after the operations \<open>xs\<close>.\<close>

definition inserted :: "'k list \<Rightarrow> 'k ycsb_op list \<Rightarrow> 'k list" where
  "inserted ks xs = ks @ map op_key (filter (\<lambda>x. op_kind x = kInsert) xs)"

lemma inserted_simps [simp]:
  "inserted ks [] = ks" "inserted ks (x # xs) = inserted (if op_kind x = kInsert then ks @ [op_key x] else ks) xs"
  by (simp_all add: inserted_def)

definition dist_ok :: "(double \<Rightarrow> double \<Rightarrow> double) \<Rightarrow> ('e \<Rightarrow> double \<times> 'e) \<Rightarrow> nat \<Rightarrow> zipf_dist \<Rightarrow> bool" where
  "dist_ok pow generate_canonical m d \<longleftrightarrow> (\<forall>g. \<exists>x g'. zd_op pow generate_canonical g d = Ret (int x, g') \<and> x \<le> m + 1)"

lemma Latest_draw:
  assumes m: "1 \<le> m" and i: "latest_inv m ks h" "m \<le> length ks" "x \<le> m + 1"
  shows "if x = length ks mod m + 1 then Latest (int m + 1) (int x) h = Fault Undefined
    else \<exists>v \<in> set (recent m ks). Latest (int m + 1) (int x) h = Ret (Inr v)"
proof (cases "x = m + 1")
  case True
  have "Latest (int m + 1) (int (m + 1)) h = Latest (int m + 1) (int 0) h"
  proof -
    have "(ls_newest h + int (m + 1)) mod (int m + 1) = (ls_newest h + int 0) mod (int m + 1)"
      using mod_add_self2 [of "ls_newest h" "int m + 1"] by (simp add: add.commute)
    then show ?thesis by (simp only: Latest_def)
  qed
  also have "\<dots> = Ret (Inr (ks ! (length ks - m)))" using Latest_slot [OF m i(1,2), of 0] by simp
  finally have "Latest (int m + 1) (int x) h = Ret (Inr (ks ! (length ks - m)))" using True by simp
  moreover have "ks ! (length ks - m) \<in> set (recent m ks)" using m i(2) by (intro recent_nth) simp_all
  moreover have "x \<noteq> length ks mod m + 1" using True m mod_less_divisor [of m "length ks"] by linarith
  ultimately show ?thesis by auto
next
  case False
  then have x: "x \<le> m" using i(3) by simp
  define q where "q = length ks mod m"
  note L = Latest_slot [OF m i(1,2) x q_def]
  have r: "ks ! (length ks - j) \<in> set (recent m ks)" if "1 \<le> j" "j \<le> m" for j
    using that i(2) by (intro recent_nth) simp_all
  consider "x = 0" | "1 \<le> x" "x \<le> q" | "x = q + 1" | "q + 1 < x" by linarith
  then show ?thesis
  proof cases
    case 1
    then show ?thesis using L r [of m] m by auto
  next
    case 2
    then have "Latest (int m + 1) (int x) h = Ret (Inr (ks ! (length ks - x)))" using L by simp
    then show ?thesis using r [of x] 2 x by (auto simp: q_def)
  next
    case 3
    then show ?thesis using L by (simp add: q_def)
  next
    case 4
    then have "Latest (int m + 1) (int x) h = Ret (Inr (ks ! (length ks - (x - 1))))" using L i(2) x by simp
    then show ?thesis using r [of "x - 1"] 4 x by (auto simp: q_def)
  qed
qed

text \<open>Whether the next operation is a read whose draw hits the slot that is never written.\<close>

definition reads_gap :: "(double \<Rightarrow> double \<Rightarrow> double) \<Rightarrow> ('e \<Rightarrow> double \<times> 'e) \<Rightarrow> nat \<Rightarrow> ('o, op_type) next_fun \<Rightarrow> 'k list \<Rightarrow>
    ('s, 'k, 'e) recent_keys stream \<times> 'o stream \<Rightarrow> bool" where
  "reads_gap pow generate_canonical m no ks = (\<lambda>(keys, ops). case Next no ops of
       Ret (Inr p, _) \<Rightarrow> p \<noteq> kInsert \<and>
         (case zd_op pow generate_canonical (rk_rand (impl keys)) (rk_dist (impl keys)) of
            Ret (x, _) \<Rightarrow> x = int (length ks mod m + 1) | _ \<Rightarrow> False)
     | _ \<Rightarrow> False)"

text \<open>A run of the workload: an insertion brings a key of \<open>K\<close>, any other operation has a recent one.\<close>

fun d_run :: "nat \<Rightarrow> 'k set \<Rightarrow> op_type set \<Rightarrow> 'k list \<Rightarrow> 'k ycsb_op list \<Rightarrow> bool" where
  "d_run m K P ks [] \<longleftrightarrow> True"
| "d_run m K P ks (x # xs) \<longleftrightarrow> op_range x = -1 \<and> op_kind x \<in> P \<and>
     (if op_kind x = kInsert then op_key x \<in> K \<and> d_run m K P (ks @ [op_key x]) xs
      else op_key x \<in> set (recent m ks) \<and> d_run m K P ks xs)"

context ycsb_sources
begin

definition d_inv :: "(double \<Rightarrow> double \<Rightarrow> double) \<Rightarrow> ('e \<Rightarrow> double \<times> 'e) \<Rightarrow> nat \<Rightarrow> 'k list \<Rightarrow>
    ('s, 'k, 'e) recent_keys stream \<times> 'o stream \<Rightarrow> bool" where
  "d_inv pow generate_canonical m ks = (\<lambda>(keys, ops). 1 \<le> m \<and> m \<le> length ks \<and> \<not> terminated keys \<and>
     latest_inv m ks (rk_history (impl keys)) \<and> dist_ok pow generate_canonical m (rk_dist (impl keys)) \<and>
     \<not> terminated (ls_stream (rk_history (impl keys))) \<and> ik (impl (ls_stream (rk_history (impl keys)))) \<and>
     \<not> terminated ops \<and> io (impl ops))"

lemma d_step:
  assumes i: "d_inv pow gc m ks st"
  shows "(\<exists>x st'. ycsb_d pow gc (int m + 1) nk no st = Ret (Inr x, st') \<and> d_run m K P ks [x] \<and> d_inv pow gc m (inserted ks [x]) st') \<or>
    (ycsb_d pow gc (int m + 1) nk no st = Fault Undefined \<and> reads_gap pow gc m no ks st)"
proof -
  obtain keys ops where st: "st = (keys, ops)" by force
  have m: "1 \<le> m" "m \<le> length ks" and l: "latest_inv m ks (rk_history (impl keys))" "\<not> terminated keys"
    and d: "dist_ok pow gc m (rk_dist (impl keys))"
    and h: "\<not> terminated (ls_stream (rk_history (impl keys)))" "ik (impl (ls_stream (rk_history (impl keys))))"
    and o: "\<not> terminated ops" "io (impl ops)"
    using i by (simp_all add: st d_inv_def)
  obtain p ops' where p: "Next no ops = Ret (Inr p, ops')" "p \<in> P" "io (impl ops')" "\<not> terminated ops'"
    using ops.step_Next [OF o(2,1)] by blast
  show ?thesis
  proof (cases "p = kInsert")
    case True
    obtain v st1 where v: "Next nk (ls_stream (rk_history (impl keys))) = Ret (Inr v, st1)" "v \<in> K" "ik (impl st1)" "\<not> terminated st1"
      using keys.step_Next [OF h(2,1)] by blast
    define h1 where "h1 = ls_push (int m + 1) v ((rk_history (impl keys))\<lparr>ls_stream := st1\<rparr>)"
    have "latest_inv m ks ((rk_history (impl keys))\<lparr>ls_stream := st1\<rparr>)" using l(1) by (simp add: latest_inv_def)
    then have "latest_inv m (ks @ [v]) h1" unfolding h1_def by (rule latest_inv_push [OF m(1)])
    moreover have "ls_stream h1 = st1" by (simp add: h1_def ls_push_def)
    ultimately have "d_inv pow gc m (ks @ [v]) (keys\<lparr>impl := (impl keys)\<lparr>rk_history := h1\<rparr>\<rparr>, ops')"
      using m l(2) d v(3,4) p(3,4) by (simp add: d_inv_def)
    moreover have "ycsb_d pow gc (int m + 1) nk no st =
        Ret (Inr \<lparr>op_key = v, op_kind = kInsert, op_range = -1\<rparr>, (keys\<lparr>impl := (impl keys)\<lparr>rk_history := h1\<rparr>\<rparr>, ops'))"
      using True p(1) v(1) l(2) by (simp add: ycsb_d_def st Next_def [of "rk_NextInternal (int m + 1) nk"] rk_NextInternal_def
        ls_NextInternal_def h1_def)
    ultimately show ?thesis using True p(2) v(2) by auto
  next
    case False
    obtain x g where x: "zd_op pow gc (rk_rand (impl keys)) (rk_dist (impl keys)) = Ret (int x, g)" "x \<le> m + 1"
      using d unfolding dist_ok_def by blast
    note L = Latest_draw [OF m(1) l(1) m(2) x(2)]
    show ?thesis
    proof (cases "x = length ks mod m + 1")
      case True
      then show ?thesis using L False p(1) x(1) by (simp add: ycsb_d_def st rk_Latest_def reads_gap_def)
    next
      case ok: False
      then obtain v where v: "v \<in> set (recent m ks)" "Latest (int m + 1) (int x) (rk_history (impl keys)) = Ret (Inr v)" using L by auto
      let ?st' = "(keys\<lparr>impl := (impl keys)\<lparr>rk_rand := g\<rparr>\<rparr>, ops')"
      have "d_inv pow gc m ks ?st'" using m l d h p(3,4) by (simp add: d_inv_def)
      moreover have "ycsb_d pow gc (int m + 1) nk no st = Ret (Inr \<lparr>op_key = v, op_kind = p, op_range = -1\<rparr>, ?st')"
        using False p(1) x(1) v(2) by (simp add: ycsb_d_def st rk_Latest_def)
      ultimately show ?thesis using False p(2) v(1) by auto
    qed
  qed
qed

lemma d_next_n:
  "d_inv pow gc m ks (impl w) \<Longrightarrow> \<not> terminated w \<Longrightarrow>
   (\<exists>xs w'. next_n (Next (mapped_NextInternal (ycsb_d pow gc (int m + 1) nk no))) n w = Ret (map Inr xs, w') \<and>
      length xs = n \<and> d_run m K P ks xs) \<or>
   (next_n (Next (mapped_NextInternal (ycsb_d pow gc (int m + 1) nk no))) n w = Fault Undefined \<and>
      (\<exists>i xs w'. i < n \<and> next_n (Next (mapped_NextInternal (ycsb_d pow gc (int m + 1) nk no))) i w = Ret (map Inr xs, w') \<and>
         d_run m K P ks xs \<and> reads_gap pow gc m no (inserted ks xs) (impl w')))"
proof (induction n arbitrary: ks w)
  case 0
  then show ?case by simp
next
  case (Suc n)
  let ?f = "Next (mapped_NextInternal (ycsb_d pow gc (int m + 1) nk no))"
  consider x st' where "ycsb_d pow gc (int m + 1) nk no (impl w) = Ret (Inr x, st')" "d_run m K P ks [x]" "d_inv pow gc m (inserted ks [x]) st'"
    | "ycsb_d pow gc (int m + 1) nk no (impl w) = Fault Undefined" "reads_gap pow gc m no ks (impl w)"
    using d_step [OF Suc(2)] by blast
  then show ?case
  proof cases
    case 1
    let ?w = "w\<lparr>impl := st'\<rparr>"
    have f: "?f w = Ret (Inr x, ?w)" using 1(1) Suc(3) by (simp add: Next_def mapped_NextInternal_def)
    have c: "d_run m K P ks (x # xs) \<longleftrightarrow> d_run m K P (inserted ks [x]) xs" "inserted ks (x # xs) = inserted (inserted ks [x]) xs" for xs
      using 1(2) by auto
    have "d_inv pow gc m (inserted ks [x]) (impl ?w)" "\<not> terminated ?w" using 1(3) Suc(3) by simp_all
    from Suc(1) [OF this] show ?thesis
    proof (elim disjE exE conjE)
      fix xs w' assume "next_n ?f n ?w = Ret (map Inr xs, w')" "length xs = n" "d_run m K P (inserted ks [x]) xs"
      then show ?thesis using f c(1) [of xs] by (intro disjI1 exI [of _ "x # xs"] exI [of _ w']) simp
    next
      fix i xs w' assume "next_n ?f n ?w = Fault Undefined" "i < n" "next_n ?f i ?w = Ret (map Inr xs, w')"
        "d_run m K P (inserted ks [x]) xs" "reads_gap pow gc m no (inserted (inserted ks [x]) xs) (impl w')"
      then show ?thesis using f c [of xs]
        by (intro disjI2 conjI exI [of _ "Suc i"] exI [of _ "x # xs"] exI [of _ w']) simp_all
    qed
  next
    case 2
    then have "?f w = Fault Undefined" using Suc(3) by (simp add: Next_def mapped_NextInternal_def)
    then show ?thesis using 2(2) by (intro disjI2 conjI exI [of _ 0] exI [of _ "[]"] exI [of _ w]) simp_all
  qed
qed

end

section \<open>Properties\<close>

lemma d_run_mono: "d_run m K P ks xs \<Longrightarrow> K \<subseteq> K' \<Longrightarrow> P \<subseteq> P' \<Longrightarrow> d_run m K' P' ks xs"
  by (induction m K P ks xs rule: d_run.induct) (auto split: if_splits)

lemma kDefaultTheta_bounds: "0 < kDefaultTheta" "kDefaultTheta < 1"
  using fl_pos [of "99 / 100"] fl_upper [of "99 / 100"] by (simp_all add: kDefaultTheta_def)

lemma weights_d_ok: "weights_ok weights_d" "positive_values op_type_of weights_d = {kGet, kInsert}"
  unfolding set_weight_table [symmetric]
  by (auto simp: weights_ok_def weights_d_def weight_table_def op_type_of_def upt_rec)

lemma recent_dist_ok:
  assumes "pow_documented pow" "\<forall>g. canonical (fst (generate_canonical g))" "1 \<le> m" "int m + 1 < 2 ^ 31"
  shows "\<exists>d. zipfian_int_distribution pow 0 (int m) kDefaultTheta = Some (Ret d) \<and> dist_ok pow generate_canonical m d"
proof -
  let ?d = "\<lparr>zd_param = zipf_param_of pow 0 (int m) kDefaultTheta\<rparr>"
  have "\<exists>x g'. zd_op pow generate_canonical g ?d = Ret (int x, g') \<and> x \<le> m + 1" for g
  proof -
    obtain u g' where u: "generate_canonical g = (u, g')" by force
    then have "canonical u" using assms(2) by (metis fst_conv)
    then obtain x where "zipf_value pow u (zipf_param_of pow 0 (int m) kDefaultTheta) = Ret x" "0 \<le> x" "x \<le> int m + 1"
      using zipf_value_in_range [OF assms(1) kDefaultTheta_bounds, of 0 "int m" u] assms(3,4) by auto
    then show ?thesis using u by (intro exI [of _ "nat x"] exI [of _ g']) (simp add: zd_op_def zipf_op_def)
  qed
  moreover have "zipfian_int_distribution pow 0 (int m) kDefaultTheta = Some (Ret ?d)"
    using zipf_param_Ret [of 0 "int m" kDefaultTheta pow] kDefaultTheta_bounds assms(3,4) by (simp add: zipfian_int_distribution_def)
  ultimately show ?thesis by (auto simp: dist_ok_def)
qed



end
